(* ===== verification/Prelude.thy ===== *)
theory Prelude
  imports Main "HOL-Library.Word"
begin

text \<open>
  Shared vocabulary of the development: the error values a C++ operation can end in, the
  result type and its sequencing, checked vector access, loops that can fail, and the
  generic lemmas on them that the component theories use.

  \<^item> \<open>CHECK(c)\<close>, \<open>CHECK_NOTNULL(p)\<close> and \<open>LOG_FATAL\<close> of src/hpps/common/log.h end the
    process (\<open>Logger::WriteImpl\<close> calls \<open>exit(1)\<close> for the level Fatal, as long as
    \<open>ResetKillFatal(false)\<close> was not called). They are the errors \<open>Check\<close>, \<open>NotNull\<close>
    and \<open>Fatal\<close>; nothing runs after them.
  \<^item> What C++ leaves undefined is an error value of its own too, so that no theorem can
    hide it: an index outside a vector or a buffer (\<open>OutOfRange\<close>), a null pointer
    (\<open>NullDeref\<close>), a signed overflow (\<open>IntOverflow\<close>), a division by zero
    (\<open>DivByZero\<close>).
\<close>

section \<open>Errors and results\<close>

datatype err = Check | NotNull | Fatal | OutOfRange | NullDeref | IntOverflow | DivByZero

type_synonym 'a res = "err + 'a"

definition bind_res :: "'a res \<Rightarrow> ('a \<Rightarrow> 'b res) \<Rightarrow> 'b res" where
  "bind_res r f = (case r of Inl e \<Rightarrow> Inl e | Inr x \<Rightarrow> f x)"

definition check :: "bool \<Rightarrow> unit res" where
  "check b = (if b then Inr () else Inl Check)"

lemma bind_res_simps [simp]:
  "bind_res (Inl e) f = Inl e"
  "bind_res (Inr x) f = f x"
  by (simp_all add: bind_res_def)

lemma bind_res_cong [fundef_cong]:
  "r = r' \<Longrightarrow> (\<And>x. r' = Inr x \<Longrightarrow> f x = f' x) \<Longrightarrow> bind_res r f = bind_res r' f'"
  by (cases r') simp_all

lemma bind_res_eq_Inr [simp]:
  "bind_res r f = Inr y \<longleftrightarrow> (\<exists>x. r = Inr x \<and> f x = Inr y)"
  by (cases r) simp_all

lemma bind_res_assoc: "bind_res (bind_res r f) g = bind_res r (\<lambda>x. bind_res (f x) g)"
  by (cases r) simp_all

lemma check_simps [simp]:
  "check True = Inr ()"
  "check False = Inl Check"
  "check b = Inr u \<longleftrightarrow> b"
  by (simp_all add: check_def)

section \<open>Signed arithmetic\<close>

text \<open>
  A C \<open>int\<close> is an \<open>int\<close> here, and an operation whose exact result is outside of the type is
  undefined in C++ and the error \<open>IntOverflow\<close> here.
\<close>

definition fits_int :: "int \<Rightarrow> bool" where
  "fits_int x \<longleftrightarrow> - (2 ^ 31) \<le> x \<and> x < 2 ^ 31"

definition int_result :: "int \<Rightarrow> int res" where
  "int_result x = (if fits_int x then Inr x else Inl IntOverflow)"

lemma int_result_fits [simp]: "fits_int x \<Longrightarrow> int_result x = Inr x"
  by (simp add: int_result_def)

lemma fits_int_between: "0 \<le> x \<Longrightarrow> x \<le> y \<Longrightarrow> fits_int y \<Longrightarrow> fits_int x"
  by (simp add: fits_int_def)

lemma fits_int_nat: "fits_int (int n) \<longleftrightarrow> n < 2 ^ 31"
  by (simp add: fits_int_def)

section \<open>Checked vector access\<close>

text \<open>
  \<open>v[i]\<close> on a \<open>std::vector\<close> or an array, with a C \<open>int\<close> index; an index outside is
  undefined behaviour in the source and the error \<open>OutOfRange\<close> here.
\<close>

definition in_range :: "'a list \<Rightarrow> int \<Rightarrow> bool" where
  "in_range xs i \<longleftrightarrow> 0 \<le> i \<and> i < int (length xs)"

definition vec_at :: "'a list \<Rightarrow> int \<Rightarrow> 'a res" where
  "vec_at xs i = (if in_range xs i then Inr (xs ! nat i) else Inl OutOfRange)"

definition vec_set :: "'a list \<Rightarrow> int \<Rightarrow> 'a \<Rightarrow> 'a list res" where
  "vec_set xs i x = (if in_range xs i then Inr (xs[nat i := x]) else Inl OutOfRange)"

lemma vec_at_nat [simp]: "i < length xs \<Longrightarrow> vec_at xs (int i) = Inr (xs ! i)"
  by (simp add: vec_at_def in_range_def)

lemma vec_set_nat [simp]: "i < length xs \<Longrightarrow> vec_set xs (int i) x = Inr (xs[i := x])"
  by (simp add: vec_set_def in_range_def)

lemma vec_at_Cons [simp]:
  "vec_at (x # xs) 0 = Inr x"
  "vec_at (x # y # xs) 1 = Inr y"
  "vec_at (x # y # y' # xs) 2 = Inr y'"
  by (simp_all add: vec_at_def in_range_def)

lemma vec_at_InrD: "vec_at xs i = Inr x \<Longrightarrow> in_range xs i \<and> x = xs ! nat i"
  by (simp add: vec_at_def split: if_splits)

lemma vec_set_InrD: "vec_set xs i x = Inr ys \<Longrightarrow> in_range xs i \<and> ys = xs[nat i := x]"
  by (simp add: vec_set_def split: if_splits)

text \<open>Reading \<open>n\<close> elements at \<open>off\<close> from a buffer, and overwriting a window of it (\<open>memcpy\<close>).\<close>

definition buf_read :: "'a list \<Rightarrow> nat \<Rightarrow> nat \<Rightarrow> 'a list res" where
  "buf_read xs off n =
     (if off + n \<le> length xs then Inr (take n (drop off xs)) else Inl OutOfRange)"

definition buf_write :: "'a list \<Rightarrow> nat \<Rightarrow> 'a list \<Rightarrow> 'a list res" where
  "buf_write xs off ys =
     (if off + length ys \<le> length xs
      then Inr (take off xs @ ys @ drop (off + length ys) xs) else Inl OutOfRange)"

lemma length_buf_write: "buf_write xs off ys = Inr zs \<Longrightarrow> length zs = length xs"
  by (auto simp: buf_write_def split: if_splits)

lemma nth_splice:
  assumes "off + length ys \<le> length xs" and "i < length xs"
  shows "(take off xs @ ys @ drop (off + length ys) xs) ! i =
    (if off \<le> i \<and> i < off + length ys then ys ! (i - off) else xs ! i)"
proof -
  have *: "\<not> i < off \<Longrightarrow> (i - off < length ys) = (i < off + length ys)" by arith
  show ?thesis using assms by (auto simp: nth_append *)
qed

lemma buf_write_nth:
  assumes "buf_write xs off ys = Inr zs" and "i < length xs"
  shows "zs ! i = (if off \<le> i \<and> i < off + length ys then ys ! (i - off) else xs ! i)"
  using assms nth_splice [of off ys xs i] by (simp add: buf_write_def split: if_splits)

section \<open>Loops that can fail\<close>

fun fold_res :: "('s \<Rightarrow> 'a \<Rightarrow> 's res) \<Rightarrow> 's \<Rightarrow> 'a list \<Rightarrow> 's res" where
  "fold_res f s [] = Inr s"
| "fold_res f s (x # xs) = bind_res (f s x) (\<lambda>s'. fold_res f s' xs)"

lemma fold_res_append: "fold_res f s (xs @ ys) = bind_res (fold_res f s xs) (\<lambda>s'. fold_res f s' ys)"
  by (induction xs arbitrary: s) (simp_all add: bind_res_assoc)

lemma fold_res_cong [fundef_cong]:
  "s = s' \<Longrightarrow> xs = ys \<Longrightarrow> (\<And>t x. x \<in> set ys \<Longrightarrow> f t x = g t x) \<Longrightarrow> fold_res f s xs = fold_res g s' ys"
proof (induction xs arbitrary: s s' ys)
  case Nil
  then show ?case by simp
next
  case (Cons x xs)
  then obtain zs where "ys = x # zs" "xs = zs" by (cases ys) auto
  with Cons show ?case by (auto intro!: bind_res_cong)
qed

lemma fold_res_invariant:
  assumes "fold_res f s xs = Inr t" and "I s"
    and "\<And>s x s'. x \<in> set xs \<Longrightarrow> I s \<Longrightarrow> f s x = Inr s' \<Longrightarrow> I s'"
  shows "I t"
  using assms
proof (induction xs arbitrary: s)
  case Nil
  then show ?case by simp
next
  case (Cons x xs)
  from Cons.prems(1) obtain s' where s': "f s x = Inr s'" "fold_res f s' xs = Inr t" by auto
  have "I s'" using Cons.prems(2) s'(1) by (rule Cons.prems(3) [rotated]) simp
  then show ?case using Cons.IH [OF s'(2)] Cons.prems(3) by (metis list.set_intros(2))
qed

text \<open>
  The body of a loop \<open>for (int i = 0; i < n; ++i)\<close> whose bound \<open>n\<close> is a \<open>size_t\<close>: after the
  body, \<open>++i\<close>, which overflows at the largest \<open>int\<close>. The loop runs over elements \<open>x\<close> with the
  index \<open>idx x\<close>.
\<close>

definition int_body :: "('a \<Rightarrow> nat) \<Rightarrow> ('s \<Rightarrow> 'a \<Rightarrow> 's res) \<Rightarrow> 's \<Rightarrow> 'a \<Rightarrow> 's res" where
  "int_body idx f s x = bind_res (f s x) (\<lambda>s'. bind_res (int_result (int (idx x) + 1)) (\<lambda>_. Inr s'))"

lemma int_body_small:
  assumes "\<And>x. x \<in> set xs \<Longrightarrow> idx x < 2 ^ 31 - 1"
  shows "fold_res (int_body idx f) s xs = fold_res f s xs"
proof (rule fold_res_cong [OF refl refl])
  fix t x
  assume "x \<in> set xs"
  then have "fits_int (int (idx x) + 1)" using assms [of x] by (simp add: fits_int_def)
  then show "int_body idx f t x = f t x" by (cases "f t x") (simp_all add: int_body_def)
qed

lemma int_loop [simp]: "n < 2 ^ 31 \<Longrightarrow> fold_res (int_body (\<lambda>i. i) f) s [0..<n] = fold_res f s [0..<n]"
  by (rule int_body_small) auto

lemma int_loop_enumerate [simp]:
  "length xs < 2 ^ 31 \<Longrightarrow> fold_res (int_body fst f) s (enumerate 0 xs) = fold_res f s (enumerate 0 xs)"
  by (rule int_body_small) (auto simp: in_set_enumerate_eq)

text \<open>With no bound the loop does not come to an end: it overflows.\<close>

lemma int_loop_overflows:
  assumes "2 ^ 31 \<le> n"
  shows "fold_res (int_body (\<lambda>i. i) f) s [0..<n] \<noteq> Inr t"
proof
  assume run: "fold_res (int_body (\<lambda>i. i) f) s [0..<n] = Inr t"
  have split: "[0..<n] = [0..<2 ^ 31 - 1] @ (2 ^ 31 - 1) # [2 ^ 31..<n]"
    using assms upt_add_eq_append [of 0 "2 ^ 31 - 1" "n - (2 ^ 31 - 1)"] upt_conv_Cons [of "2 ^ 31 - 1" n] by simp
  have "int_body (\<lambda>i. i) f t' (2 ^ 31 - 1) \<noteq> Inr t''" for t' t''
    by (simp add: int_body_def int_result_def fits_int_def)
  then show False using run unfolding split fold_res_append by auto
qed

text \<open>A loop all of whose steps succeed under an invariant is an ordinary fold.\<close>

lemma fold_res_total:
  assumes "I s"
    and "\<And>s x. x \<in> set xs \<Longrightarrow> I s \<Longrightarrow> \<exists>s'. f s x = Inr s' \<and> I s'"
  shows "\<exists>t. fold_res f s xs = Inr t \<and> I t"
  using assms
proof (induction xs arbitrary: s)
  case Nil
  then show ?case by simp
next
  case (Cons x xs)
  from Cons.prems(2) [of x s] Cons.prems(1) obtain s' where s': "f s x = Inr s'" "I s'"
    by auto
  have "\<exists>t. fold_res f s' xs = Inr t \<and> I t"
    using s'(2) Cons.prems(2) by (intro Cons.IH) auto
  with s'(1) show ?case by simp
qed

end
