(* ===== verification/Bytes.thy ===== *)
theory Bytes
  imports Prelude
begin

unbundle bit_operations_syntax

text \<open>
  Memory contents. The tables, the checkpoint files and the network move raw bytes and read
  them through \<open>reinterpret_cast\<close>, so the model does the same: a \<open>Blob\<close>
  (src/hpps/common/blob.h) is its list of bytes, and an \<open>int\<close>, a \<open>float\<close>, a
  \<open>uint64_t\<close> or an array of them is read out of bytes and written into bytes by a codec
  (little endian, the layout of the machines the program runs on).

  A \<open>float\<close> is its 32-bit pattern: the tables only move floats, the arithmetic on them is
  a parameter of the updaters.
\<close>

type_synonym byte = "8 word"
type_synonym i32 = "32 word"
type_synonym u64 = "64 word"
type_synonym f32 = "32 word"
type_synonym blob = "byte list"

lemma sint_i32_of_nat: "k < 2 ^ 31 \<Longrightarrow> sint (of_nat k :: i32) = int k"
  by transfer (simp add: signed_take_bit_int_eq_self)

lemma sint_i32_of_int: "- (2 ^ 31) \<le> k \<Longrightarrow> k < 2 ^ 31 \<Longrightarrow> sint (word_of_int k :: i32) = k"
  by transfer (simp add: signed_take_bit_int_eq_self)

section \<open>Little-endian words\<close>

primrec le_bytes :: "nat \<Rightarrow> 'a::len word \<Rightarrow> byte list" where
  "le_bytes 0 w = []"
| "le_bytes (Suc n) w = ucast w # le_bytes n (drop_bit 8 w)"

primrec le_word :: "byte list \<Rightarrow> 'a::len word" where
  "le_word [] = 0"
| "le_word (b # bs) = (ucast b OR push_bit 8 (le_word bs))"

lemma length_le_bytes [simp]: "length (le_bytes n w) = n"
  by (induction n arbitrary: w) simp_all

lemma le_word_le_bytes: "le_word (le_bytes n w) = take_bit (8 * n) (w :: 'a::len word)"
proof (induction n arbitrary: w)
  case 0
  then show ?case by simp
next
  case (Suc n)
  have "(ucast (ucast w :: byte) OR push_bit 8 (take_bit (8 * n) (drop_bit 8 w)) :: 'a word)
      = take_bit (8 * Suc n) w"
    by (rule bit_word_eqI) (auto simp: bit_simps)
  with Suc show ?case by simp
qed

lemma le_bytes_Or_shift:
  "length bs = n \<Longrightarrow> 8 * Suc n \<le> LENGTH('a) \<Longrightarrow>
   drop_bit 8 (ucast b OR push_bit 8 (w :: 'a::len word)) = take_bit (LENGTH('a) - 8) w"
  for b :: byte
  by (rule bit_word_eqI) (auto simp: bit_simps dest: bit_imp_le_length)

lemma le_bytes_take_bit:
  "8 * n \<le> m \<Longrightarrow> le_bytes n (take_bit m w) = le_bytes n (w :: 'a::len word)"
proof (induction n arbitrary: w m)
  case 0
  then show ?case by simp
next
  case (Suc n)
  have "(ucast (take_bit m w) :: byte) = ucast w"
    using Suc.prems by (intro bit_word_eqI) (auto simp: bit_simps)
  moreover have "drop_bit 8 (take_bit m w) = take_bit (m - 8) (drop_bit 8 w)"
    using Suc.prems by (simp add: drop_bit_take_bit)
  moreover have "le_bytes n (take_bit (m - 8) (drop_bit 8 w)) = le_bytes n (drop_bit 8 w)"
    using Suc.prems by (intro Suc.IH) arith
  ultimately show ?case by simp
qed

lemma le_bytes_le_word:
  "8 * length bs \<le> LENGTH('a) \<Longrightarrow> le_bytes (length bs) (le_word bs :: 'a::len word) = bs"
proof (induction bs)
  case Nil
  then show ?case by simp
next
  case (Cons b bs)
  have "(ucast (ucast b OR push_bit 8 (le_word bs) :: 'a word) :: byte) = b"
    using Cons.prems by (intro bit_word_eqI) (auto simp: bit_simps)
  moreover have "le_bytes (length bs) (take_bit (LENGTH('a) - 8) (le_word bs :: 'a word)) = bs"
    using Cons.prems by (subst le_bytes_take_bit) (auto intro: Cons.IH)
  ultimately show ?case
    using Cons.prems le_bytes_Or_shift [of bs "length bs" b "le_word bs :: 'a word"]
    by (simp del: drop_bit_or)
qed

section \<open>Arrays of fixed-width elements\<close>

definition enc_seq :: "('a \<Rightarrow> byte list) \<Rightarrow> 'a list \<Rightarrow> blob" where
  "enc_seq enc xs = concat (map enc xs)"

definition elem_at :: "nat \<Rightarrow> (byte list \<Rightarrow> 'a) \<Rightarrow> blob \<Rightarrow> nat \<Rightarrow> 'a res" where
  \<comment> \<open>\<open>Blob::As<T>(i)\<close>, \<open>w\<close> being \<open>sizeof(T)\<close>\<close>
  "elem_at w dec b i = bind_res (buf_read b (i * w) w) (\<lambda>bs. Inr (dec bs))"

definition elem_count :: "nat \<Rightarrow> blob \<Rightarrow> nat" where
  \<comment> \<open>\<open>Blob::size<T>()\<close>\<close>
  "elem_count w b = length b div w"

definition dec_seq :: "nat \<Rightarrow> (byte list \<Rightarrow> 'a) \<Rightarrow> blob \<Rightarrow> 'a list" where
  "dec_seq w dec b = map (\<lambda>i. dec (take w (drop (i * w) b))) [0..<elem_count w b]"

locale codec =
  fixes enc :: "'a \<Rightarrow> byte list" and dec :: "byte list \<Rightarrow> 'a" and width :: nat
  assumes width_pos: "0 < width"
    and length_enc: "length (enc x) = width"
    and dec_enc: "dec (enc x) = x"
begin

lemma enc_seq_simps [simp]:
  "enc_seq enc [] = []"
  "enc_seq enc (x # xs) = enc x @ enc_seq enc xs"
  "enc_seq enc (xs @ ys) = enc_seq enc xs @ enc_seq enc ys"
  by (simp_all add: enc_seq_def)

lemma length_enc_seq [simp]: "length (enc_seq enc xs) = length xs * width"
  by (induction xs) (simp_all add: length_enc)

lemma count_enc_seq [simp]: "elem_count width (enc_seq enc xs) = length xs"
  using width_pos by (simp add: elem_count_def)

lemma drop_enc_seq: "drop (n * width) (enc_seq enc xs) = enc_seq enc (drop n xs)"
proof (induction xs arbitrary: n)
  case Nil
  then show ?case by simp
next
  case (Cons x xs)
  then show ?case by (cases n) (simp_all add: length_enc)
qed

lemma take_enc_seq: "take (n * width) (enc_seq enc xs) = enc_seq enc (take n xs)"
proof (induction xs arbitrary: n)
  case Nil
  then show ?case by simp
next
  case (Cons x xs)
  then show ?case by (cases n) (simp_all add: length_enc)
qed

lemma chunk_enc_seq: "i < length xs \<Longrightarrow> take width (drop (i * width) (enc_seq enc xs)) = enc (xs ! i)"
  using take_enc_seq [of 1 "drop i xs"]
  by (simp add: drop_enc_seq take_Suc_conv_app_nth length_enc hd_drop_conv_nth
    flip: Cons_nth_drop_Suc)

lemma dec_seq_enc_seq [simp]: "dec_seq width dec (enc_seq enc xs) = xs"
  by (rule nth_equalityI) (simp_all add: dec_seq_def chunk_enc_seq dec_enc)

lemma elem_at_enc_seq [simp]: "i < length xs \<Longrightarrow> elem_at width dec (enc_seq enc xs) i = Inr (xs ! i)"
proof -
  assume i: "i < length xs"
  then have "i * width + width \<le> length xs * width"
    using mult_le_mono1 [of "Suc i" "length xs" width] by simp
  with i show ?thesis by (simp add: elem_at_def buf_read_def chunk_enc_seq dec_enc)
qed

lemma read_enc_seq:
  "off + n \<le> length xs \<Longrightarrow>
   buf_read (enc_seq enc xs) (off * width) (n * width) = Inr (enc_seq enc (take n (drop off xs)))"
  using mult_le_mono1 [of "off + n" "length xs" width]
  by (simp add: buf_read_def drop_enc_seq take_enc_seq add_mult_distrib)

lemma write_enc_seq:
  "off + length ys \<le> length xs \<Longrightarrow>
   buf_write (enc_seq enc xs) (off * width) (enc_seq enc ys) =
     Inr (enc_seq enc (take off xs @ ys @ drop (off + length ys) xs))"
  using mult_le_mono1 [of "off + length ys" "length xs" width]
  by (simp add: buf_write_def take_enc_seq drop_enc_seq add_mult_distrib
    flip: add_mult_distrib)

lemma enc_seq_inj [simp]: "enc_seq enc xs = enc_seq enc ys \<longleftrightarrow> xs = ys"
  by (metis dec_seq_enc_seq)

end

text \<open>Codecs that accept every byte string of their width: decoding then encoding is the identity.\<close>

locale total_codec = codec +
  assumes enc_dec: "length bs = width \<Longrightarrow> enc (dec bs) = bs"
begin

lemma enc_seq_dec_seq:
  "width dvd length b \<Longrightarrow> enc_seq enc (dec_seq width dec b) = b"
proof (induction "length b div width" arbitrary: b)
  case 0
  then have "b = []" using width_pos by (auto elim: dvdE)
  then show ?case by (simp add: dec_seq_def elem_count_def)
next
  case (Suc n)
  have len: "length b = Suc n * width" using Suc.hyps(2) Suc.prems by (metis dvd_div_mult_self)
  let ?b = "drop width b"
  have "dec_seq width dec b = dec (take width b) # dec_seq width dec ?b"
  proof -
    have c: "elem_count width b = Suc n" "elem_count width ?b = n"
      using len width_pos by (simp_all add: elem_count_def)
    show ?thesis
      unfolding dec_seq_def c upt_conv_Cons [OF zero_less_Suc]
      by (simp add: map_Suc_upt [symmetric] comp_def add.commute del: upt_Suc)
  qed
  moreover have "enc_seq enc (dec_seq width dec ?b) = ?b"
    using len width_pos by (intro Suc.hyps(1)) simp_all
  moreover have "enc (dec (take width b)) = take width b"
    using len by (intro enc_dec) simp
  ultimately show ?case by simp
qed

end

definition enc32 :: "i32 \<Rightarrow> byte list" where "enc32 = le_bytes 4"
definition dec32 :: "byte list \<Rightarrow> i32" where "dec32 = le_word"
definition enc64 :: "u64 \<Rightarrow> byte list" where "enc64 = le_bytes 8"
definition dec64 :: "byte list \<Rightarrow> u64" where "dec64 = le_word"

lemma le_bytes_le_word32: "length bs = 4 \<Longrightarrow> le_bytes 4 (le_word bs :: i32) = bs"
  using le_bytes_le_word [of bs, where 'a = 32] by simp

lemma le_bytes_le_word64: "length bs = 8 \<Longrightarrow> le_bytes 8 (le_word bs :: u64) = bs"
  using le_bytes_le_word [of bs, where 'a = 64] by simp

interpretation c32: total_codec enc32 dec32 4
  by unfold_locales
    (auto simp: enc32_def dec32_def le_word_le_bytes take_bit_word_eq_self
      dest: le_bytes_le_word32)

interpretation c64: total_codec enc64 dec64 8
  by unfold_locales
    (auto simp: enc64_def dec64_def le_word_le_bytes take_bit_word_eq_self
      dest: le_bytes_le_word64)

section \<open>Blobs\<close>

definition blob_alloc :: "nat \<Rightarrow> blob res" where
  \<comment> \<open>\<open>Blob(size_t)\<close>; the fresh bytes are indeterminate in the source, zero here\<close>
  "blob_alloc n = (if 0 < n then Inr (replicate n 0) else Inl Check)"

definition blob_of_ints :: "i32 list \<Rightarrow> blob" where
  "blob_of_ints = enc_seq enc32"

lemma length_blob_alloc: "blob_alloc n = Inr b \<Longrightarrow> length b = n"
  by (auto simp: blob_alloc_def split: if_splits)

end
