(* ===== verification/Msg.thy ===== *)
theory Msg
  imports Bytes
begin

text \<open>
  Nodes and messages: src/hpps/frame/node.h, node.cc and src/hpps/common/message.h. Every
  \<open>int\<close> that travels over the network is a 32-bit word read with \<open>sint\<close>; a message is
  its header array of eight ints and its vector of blobs.
\<close>

section \<open>Nodes\<close>

datatype role = R_NONE | R_WORKER | R_SERVER | R_ALL

fun role_code :: "role \<Rightarrow> i32" where
  "role_code R_NONE = 0"
| "role_code R_WORKER = 1"
| "role_code R_SERVER = 2"
| "role_code R_ALL = 3"

record node =
  node_rank :: i32
  node_role :: i32
  worker_id :: i32
  server_id :: i32

definition new_node :: node where
  "new_node = \<lparr>node_rank = -1, node_role = -1, worker_id = -1, server_id = -1\<rparr>"

definition is_worker :: "i32 \<Rightarrow> bool" where
  "is_worker r \<longleftrightarrow> r AND role_code R_WORKER \<noteq> 0"

definition is_server :: "i32 \<Rightarrow> bool" where
  "is_server r \<longleftrightarrow> r AND role_code R_SERVER \<noteq> 0"

lemma is_worker_code [simp]: "is_worker (role_code r) \<longleftrightarrow> r = R_WORKER \<or> r = R_ALL"
  by (cases r) (simp_all add: is_worker_def)

lemma is_server_code [simp]: "is_server (role_code r) \<longleftrightarrow> r = R_SERVER \<or> r = R_ALL"
  by (cases r) (simp_all add: is_server_def)

definition enc_node :: "node \<Rightarrow> byte list" where
  "enc_node n = enc_seq enc32 [node_rank n, node_role n, worker_id n, server_id n]"

definition dec_node :: "byte list \<Rightarrow> node" where
  "dec_node bs = (let w = dec_seq 4 dec32 bs in
     \<lparr>node_rank = w ! 0, node_role = w ! 1, worker_id = w ! 2, server_id = w ! 3\<rparr>)"

definition sizeof_Node :: nat where "sizeof_Node = 16"

interpretation cnode: codec enc_node dec_node sizeof_Node
  by unfold_locales (simp_all add: enc_node_def dec_node_def sizeof_Node_def Let_def
    c32.length_enc_seq c32.dec_seq_enc_seq del: c32.enc_seq_simps)

section \<open>Messages\<close>

datatype msg_type =
    Request_Get | Request_Add | Reply_Get | Reply_Add
  | Load_Model | Store_Model | Reply_Load_Model | Reply_Store_Model
  | Server_Finish_Train
  | Control_Barrier | Control_Reply_Barrier | Control_Register | Control_Reply_Register
  | Default

fun type_code :: "msg_type \<Rightarrow> i32" where
  "type_code Request_Get = 1"
| "type_code Request_Add = 2"
| "type_code Reply_Get = -1"
| "type_code Reply_Add = -2"
| "type_code Load_Model = 29"
| "type_code Store_Model = 30"
| "type_code Reply_Load_Model = -29"
| "type_code Reply_Store_Model = -30"
| "type_code Server_Finish_Train = 31"
| "type_code Control_Barrier = 33"
| "type_code Control_Reply_Barrier = -33"
| "type_code Control_Register = 34"
| "type_code Control_Reply_Register = -34"
| "type_code Default = 0"

lemma type_code_inject [simp]: "type_code s = type_code t \<longleftrightarrow> s = t"
  by (cases s; cases t) simp_all

record message =
  header :: "i32 list"
  msg_data :: "blob list"

definition new_message :: message where
  \<comment> \<open>\<open>new Message()\<close> value-initialises the header\<close>
  "new_message = \<lparr>header = replicate 8 0, msg_data = []\<rparr>"

definition msg_src :: "message \<Rightarrow> i32" where "msg_src m = header m ! 0"
definition msg_dst :: "message \<Rightarrow> i32" where "msg_dst m = header m ! 1"
definition msg_type :: "message \<Rightarrow> i32" where "msg_type m = header m ! 2"
definition msg_table_id :: "message \<Rightarrow> i32" where "msg_table_id m = header m ! 3"
definition msg_id :: "message \<Rightarrow> i32" where "msg_id m = header m ! 4"

definition set_src :: "i32 \<Rightarrow> message \<Rightarrow> message" where
  "set_src x m = m\<lparr>header := (header m)[0 := x]\<rparr>"
definition set_dst :: "i32 \<Rightarrow> message \<Rightarrow> message" where
  "set_dst x m = m\<lparr>header := (header m)[1 := x]\<rparr>"
definition set_type :: "i32 \<Rightarrow> message \<Rightarrow> message" where
  "set_type x m = m\<lparr>header := (header m)[2 := x]\<rparr>"
definition set_table_id :: "i32 \<Rightarrow> message \<Rightarrow> message" where
  "set_table_id x m = m\<lparr>header := (header m)[3 := x]\<rparr>"
definition set_msg_id :: "i32 \<Rightarrow> message \<Rightarrow> message" where
  "set_msg_id x m = m\<lparr>header := (header m)[4 := x]\<rparr>"

definition push_blob :: "blob \<Rightarrow> message \<Rightarrow> message" where
  "push_blob b m = m\<lparr>msg_data := msg_data m @ [b]\<rparr>"

definition CreateReplyMessage :: "message \<Rightarrow> message" where
  "CreateReplyMessage m =
     set_msg_id (msg_id m) (set_table_id (msg_table_id m) (set_type (- msg_type m)
       (set_src (msg_dst m) (set_dst (msg_src m) new_message))))"

definition wf_message :: "message \<Rightarrow> bool" where
  "wf_message m \<longleftrightarrow> length (header m) = 8"

named_theorems msg_defs

lemmas msg_access_defs [msg_defs] =
  msg_src_def msg_dst_def msg_type_def msg_table_id_def msg_id_def
  set_src_def set_dst_def set_type_def set_table_id_def set_msg_id_def push_blob_def

lemma wf_new_message [simp]: "wf_message new_message"
  by (simp add: wf_message_def new_message_def)

lemma wf_message_set [simp]:
  "wf_message (set_src x m) = wf_message m"
  "wf_message (set_dst x m) = wf_message m"
  "wf_message (set_type x m) = wf_message m"
  "wf_message (set_table_id x m) = wf_message m"
  "wf_message (set_msg_id x m) = wf_message m"
  "wf_message (push_blob b m) = wf_message m"
  by (simp_all add: wf_message_def msg_defs)

lemma msg_get_set [simp]:
  "wf_message m \<Longrightarrow> msg_src (set_src x m) = x"
  "msg_src (set_dst x m) = msg_src m"
  "msg_src (set_type x m) = msg_src m"
  "msg_src (set_table_id x m) = msg_src m"
  "msg_src (set_msg_id x m) = msg_src m"
  "wf_message m \<Longrightarrow> msg_dst (set_dst x m) = x"
  "msg_dst (set_src x m) = msg_dst m"
  "msg_dst (set_type x m) = msg_dst m"
  "msg_dst (set_table_id x m) = msg_dst m"
  "msg_dst (set_msg_id x m) = msg_dst m"
  "wf_message m \<Longrightarrow> msg_type (set_type x m) = x"
  "msg_type (set_src x m) = msg_type m"
  "msg_type (set_dst x m) = msg_type m"
  "msg_type (set_table_id x m) = msg_type m"
  "msg_type (set_msg_id x m) = msg_type m"
  "wf_message m \<Longrightarrow> msg_table_id (set_table_id x m) = x"
  "msg_table_id (set_src x m) = msg_table_id m"
  "msg_table_id (set_dst x m) = msg_table_id m"
  "msg_table_id (set_type x m) = msg_table_id m"
  "msg_table_id (set_msg_id x m) = msg_table_id m"
  "wf_message m \<Longrightarrow> msg_id (set_msg_id x m) = x"
  "msg_id (set_src x m) = msg_id m"
  "msg_id (set_dst x m) = msg_id m"
  "msg_id (set_type x m) = msg_id m"
  "msg_id (set_table_id x m) = msg_id m"
  by (simp_all add: wf_message_def msg_defs)

lemma msg_get_push [simp]:
  "msg_src (push_blob b m) = msg_src m"
  "msg_dst (push_blob b m) = msg_dst m"
  "msg_type (push_blob b m) = msg_type m"
  "msg_table_id (push_blob b m) = msg_table_id m"
  "msg_id (push_blob b m) = msg_id m"
  "msg_data (push_blob b m) = msg_data m @ [b]"
  "msg_data (set_src x m) = msg_data m"
  "msg_data (set_dst x m) = msg_data m"
  "msg_data (set_type x m) = msg_data m"
  "msg_data (set_table_id x m) = msg_data m"
  "msg_data (set_msg_id x m) = msg_data m"
  "msg_data new_message = []"
  by (simp_all add: msg_defs new_message_def)

lemma msg_get_data_update [simp]:
  "msg_src (m\<lparr>msg_data := d\<rparr>) = msg_src m"
  "msg_dst (m\<lparr>msg_data := d\<rparr>) = msg_dst m"
  "msg_type (m\<lparr>msg_data := d\<rparr>) = msg_type m"
  "msg_table_id (m\<lparr>msg_data := d\<rparr>) = msg_table_id m"
  "msg_id (m\<lparr>msg_data := d\<rparr>) = msg_id m"
  "wf_message (m\<lparr>msg_data := d\<rparr>) = wf_message m"
  by (simp_all add: msg_access_defs wf_message_def)

lemma reply_fields [simp]:
  "msg_src (CreateReplyMessage m) = msg_dst m"
  "msg_dst (CreateReplyMessage m) = msg_src m"
  "msg_type (CreateReplyMessage m) = - msg_type m"
  "msg_table_id (CreateReplyMessage m) = msg_table_id m"
  "msg_id (CreateReplyMessage m) = msg_id m"
  "msg_data (CreateReplyMessage m) = []"
  "wf_message (CreateReplyMessage m)"
  by (simp_all add: CreateReplyMessage_def)

end
