(* ===== verification/ZooInfo.thy ===== *)
theory ZooInfo
  imports Msg
begin

text \<open>
  What a process knows of the system: the members of class \<open>Zoo\<close> (src/hpps/frame/zoo.h) that
  every other component asks for, and their accessors. \<open>rank()\<close> and \<open>size()\<close> come from the
  network layer and are constants of a run. A \<open>std::vector\<close> index out of range is an error.
\<close>

record zoo =
  zoo_rank :: int
  zoo_size :: int
  nodes :: "node list"
  server_ranks :: "int list"     \<comment> \<open>\<open>server_id_to_rank_\<close>\<close>
  worker_ranks :: "int list"     \<comment> \<open>\<open>worker_id_to_rank_\<close>\<close>
  num_workers :: int
  num_servers :: int

definition rank_to_worker_id :: "zoo \<Rightarrow> int \<Rightarrow> int res" where
  "rank_to_worker_id z r = bind_res (vec_at (nodes z) r) (\<lambda>n. Inr (sint (worker_id n)))"

definition rank_to_server_id :: "zoo \<Rightarrow> int \<Rightarrow> int res" where
  "rank_to_server_id z r = bind_res (vec_at (nodes z) r) (\<lambda>n. Inr (sint (server_id n)))"

definition worker_rank :: "zoo \<Rightarrow> int res" where
  "worker_rank z = rank_to_worker_id z (zoo_rank z)"

definition server_rank :: "zoo \<Rightarrow> int res" where
  "server_rank z = rank_to_server_id z (zoo_rank z)"

definition worker_id_to_rank :: "zoo \<Rightarrow> int \<Rightarrow> int res" where
  "worker_id_to_rank z w = vec_at (worker_ranks z) w"

definition server_id_to_rank :: "zoo \<Rightarrow> int \<Rightarrow> int res" where
  "server_id_to_rank z s = vec_at (server_ranks z) s"

definition zoo_is_server :: "zoo \<Rightarrow> bool res" where
  "zoo_is_server z = bind_res (vec_at (nodes z) (zoo_rank z)) (\<lambda>n. Inr (is_server (node_role n)))"

definition zoo_is_worker :: "zoo \<Rightarrow> bool res" where
  "zoo_is_worker z = bind_res (vec_at (nodes z) (zoo_rank z)) (\<lambda>n. Inr (is_worker (node_role n)))"

text \<open>
  The tables agree: every worker id below \<open>num_workers\<close> belongs to the rank the inverse table
  names for it, and the same for server ids. This is what registration establishes.
\<close>

definition zoo_ok :: "zoo \<Rightarrow> bool" where
  "zoo_ok z \<longleftrightarrow>
     num_workers z = int (length (worker_ranks z)) \<and> num_servers z = int (length (server_ranks z))
     \<and> (\<forall>k < length (worker_ranks z). rank_to_worker_id z (worker_ranks z ! k) = Inr (int k))
     \<and> (\<forall>k < length (server_ranks z). rank_to_server_id z (server_ranks z ! k) = Inr (int k))"

lemma zoo_ok_worker:
  "zoo_ok z \<Longrightarrow> k < length (worker_ranks z) \<Longrightarrow> rank_to_worker_id z (worker_ranks z ! k) = Inr (int k)"
  by (simp add: zoo_ok_def)

lemma zoo_ok_server:
  "zoo_ok z \<Longrightarrow> k < length (server_ranks z) \<Longrightarrow> rank_to_server_id z (server_ranks z ! k) = Inr (int k)"
  by (simp add: zoo_ok_def)

lemma zoo_ok_worker_inj:
  "zoo_ok z \<Longrightarrow> i < length (worker_ranks z) \<Longrightarrow> j < length (worker_ranks z) \<Longrightarrow>
   worker_ranks z ! i = worker_ranks z ! j \<longleftrightarrow> i = j"
  by (metis Inr_inject of_nat_eq_iff zoo_ok_worker)

end
