(* ===== verification/Clock.thy ===== *)
theory Clock
  imports Prelude
begin

text \<open>
  The vector clock of the synchronous scheduler: class \<open>SyncScheduler::VectorClock\<close> of
  src/hpps/frame/scheduler/sync_scheduler.h. A C++ \<open>int\<close> is an \<open>int\<close> here, and the one
  increment that could overflow it is checked; \<open>INT_MAX\<close> marks a worker that finished.
\<close>

section \<open>The operations\<close>

definition INT_MAX :: int where "INT_MAX = 2147483647"

record vclock =
  local_clock :: "int list"
  global_clock :: int

definition new_clock :: "nat \<Rightarrow> vclock" where
  "new_clock n = \<lparr>local_clock = replicate n 0, global_clock = 0\<rparr>"

definition min_element :: "vclock \<Rightarrow> int res" where
  \<comment> \<open>dereferencing the end iterator of an empty vector is undefined\<close>
  "min_element c = (case local_clock c of
       [] \<Rightarrow> Inl NullDeref
     | x # xs \<Rightarrow> Inr (fold min xs x))"

definition max_element :: "vclock \<Rightarrow> int" where
  "max_element c =
     fold (\<lambda>val mx. if val \<noteq> INT_MAX \<and> val > mx then val else mx) (local_clock c) (global_clock c)"

definition clock_Update :: "int \<Rightarrow> vclock \<Rightarrow> (bool \<times> vclock) res" where
  "clock_Update i c =
     bind_res (vec_at (local_clock c) i) (\<lambda>x.
     if x = INT_MAX then Inl IntOverflow
     else let c1 = c\<lparr>local_clock := (local_clock c)[nat i := x + 1]\<rparr> in
       bind_res (min_element c1) (\<lambda>mn.
         if global_clock c1 < mn
         then let c2 = c1\<lparr>global_clock := global_clock c1 + 1\<rparr>
              in Inr (global_clock c2 = max_element c2, c2)
         else Inr (False, c1)))"

definition clock_FinishTrain :: "int \<Rightarrow> vclock \<Rightarrow> (bool \<times> vclock) res" where
  "clock_FinishTrain i c =
     bind_res (vec_set (local_clock c) i INT_MAX) (\<lambda>l.
       let c1 = c\<lparr>local_clock := l\<rparr> in
       bind_res (min_element c1) (\<lambda>mn.
         if global_clock c1 < mn
         then let c2 = c1\<lparr>global_clock := mn\<rparr>
              in Inr (global_clock c2 = max_element c2, c2)
         else Inr (False, c1)))"

section \<open>Minimum and maximum\<close>

lemma fold_min_le: "fold min xs (x::int) \<le> x \<and> (\<forall>y \<in> set xs. fold min xs x \<le> y)"
proof (induction xs arbitrary: x)
  case Nil
  then show ?case by simp
next
  case (Cons y ys)
  from Cons.IH [of "min y x"] show ?case by auto
qed

lemma fold_min_mem: "fold min xs (x::int) \<in> insert x (set xs)"
proof (induction xs arbitrary: x)
  case Nil
  then show ?case by simp
next
  case (Cons y ys)
  from Cons.IH [of "min y x"] show ?case by (auto simp: min_def split: if_splits)
qed

lemma min_element_Inr:
  assumes "local_clock c \<noteq> []"
  shows "min_element c = Inr (Min (set (local_clock c)))"
proof -
  obtain x xs where xs: "local_clock c = x # xs" using assms by (cases "local_clock c") auto
  have "fold min xs x = Min (set (x # xs))"
    using fold_min_le [of xs x] fold_min_mem [of xs x] by (intro Min_eqI [symmetric]) auto
  with xs show ?thesis by (simp add: min_element_def)
qed

lemma fold_max_eq:
  "(fold (\<lambda>val mx. if val \<noteq> INT_MAX \<and> val > mx then val else mx) xs (g::int) = g)
     \<longleftrightarrow> (\<forall>x \<in> set xs. x = INT_MAX \<or> x \<le> g)"
  and fold_max_ge:
  "g \<le> fold (\<lambda>val mx. if val \<noteq> INT_MAX \<and> val > mx then val else mx) xs g"
proof -
  let ?f = "\<lambda>val mx. if val \<noteq> INT_MAX \<and> val > mx then val else (mx::int)"
  have ge: "g \<le> fold ?f xs g" for g xs
  proof (induction xs arbitrary: g)
    case Nil
    then show ?case by simp
  next
    case (Cons y ys)
    show ?case using Cons.IH [of "?f y g"] by (auto split: if_splits)
  qed
  then show "g \<le> fold ?f xs g" .
  show "(fold ?f xs g = g) \<longleftrightarrow> (\<forall>x \<in> set xs. x = INT_MAX \<or> x \<le> g)"
  proof (induction xs arbitrary: g)
    case Nil
    then show ?case by simp
  next
    case (Cons y ys)
    show ?case
    proof (cases "y \<noteq> INT_MAX \<and> y > g")
      case True
      then show ?thesis using ge [of y ys] by auto
    next
      case False
      then show ?thesis using Cons.IH [of g] by auto
    qed
  qed
qed

lemma max_element_eq_global:
  "max_element c = global_clock c \<longleftrightarrow> (\<forall>x \<in> set (local_clock c). x = INT_MAX \<or> x \<le> global_clock c)"
  by (simp add: max_element_def fold_max_eq)

section \<open>The invariant\<close>

text \<open>
  The global clock is the slowest local clock, and no clock is negative or past \<open>INT_MAX\<close>.
\<close>

definition clock_inv :: "vclock \<Rightarrow> bool" where
  "clock_inv c \<longleftrightarrow> local_clock c \<noteq> [] \<and> global_clock c = Min (set (local_clock c))
     \<and> (\<forall>x \<in> set (local_clock c). 0 \<le> x \<and> x \<le> INT_MAX)"

lemma clock_inv_new: "0 < n \<Longrightarrow> clock_inv (new_clock n)"
  by (simp add: clock_inv_def new_clock_def INT_MAX_def)

lemma clock_inv_global_le: "clock_inv c \<Longrightarrow> i < length (local_clock c) \<Longrightarrow> global_clock c \<le> local_clock c ! i"
  by (simp add: clock_inv_def)

lemma Min_update_Suc:
  fixes xs :: "int list"
  assumes "i < length xs" and "Min (set (xs[i := xs ! i + 1])) \<noteq> Min (set xs)"
  shows "Min (set (xs[i := xs ! i + 1])) = Min (set xs) + 1"
proof -
  let ?ys = "xs[i := xs ! i + 1]" and ?m = "Min (set xs)"
  have ne: "set xs \<noteq> {}" "set ?ys \<noteq> {}" using assms(1) by auto
  have le: "?ys ! j \<le> xs ! j + 1 \<and> xs ! j \<le> ?ys ! j" if "j < length xs" for j
    using that by (cases "j = i") (auto simp: nth_list_update)
  have "?m \<in> set xs" using ne(1) by (intro Min_in) auto
  then obtain j where j: "j < length xs" "xs ! j = ?m" by (auto simp: in_set_conv_nth)
  have "Min (set ?ys) \<le> ?ys ! j" using j(1) by (intro Min_le) auto
  with le [OF j(1)] j(2) have up: "Min (set ?ys) \<le> ?m + 1" by linarith
  have "Min (set ?ys) \<in> set ?ys" using ne(2) by (intro Min_in) auto
  then obtain k where k: "k < length xs" "?ys ! k = Min (set ?ys)" by (auto simp: in_set_conv_nth)
  have "?m \<le> xs ! k" using k(1) by (intro Min_le) auto
  with le [OF k(1)] k(2) have "?m \<le> Min (set ?ys)" by linarith
  with up assms(2) show ?thesis by linarith
qed

text \<open>
  What \<open>Update\<close> does on a clock of the invariant: it counts one more for worker \<open>i\<close>, the
  global clock follows the minimum, and it answers true exactly when this step moved the
  global clock and now every unfinished worker is at the global clock.
\<close>

lemma clock_Update_spec:
  assumes inv: "clock_inv c" and i: "i < length (local_clock c)"
    and lt: "local_clock c ! i < INT_MAX"
  obtains b c' where "clock_Update (int i) c = Inr (b, c')"
    and "local_clock c' = (local_clock c)[i := local_clock c ! i + 1]"
    and "clock_inv c'"
    and "b \<longleftrightarrow> global_clock c' = global_clock c + 1
           \<and> (\<forall>x \<in> set (local_clock c'). x = INT_MAX \<or> x = global_clock c')"
proof -
  define c1 where "c1 = c\<lparr>local_clock := (local_clock c)[i := local_clock c ! i + 1]\<rparr>"
  define mn where "mn = Min (set (local_clock c1))"
  have ne: "local_clock c1 \<noteq> []" using i by (auto simp: c1_def)
  have mn: "min_element c1 = Inr mn" by (simp add: min_element_Inr ne mn_def)
  have g: "global_clock c1 = Min (set (local_clock c))" using inv by (simp add: c1_def clock_inv_def)
  have rng: "\<forall>x \<in> set (local_clock c1). 0 \<le> x \<and> x \<le> INT_MAX"
    using inv i lt by (auto simp: c1_def clock_inv_def dest!: set_update_subset_insert [THEN subsetD])
  have all_ge: "\<forall>x \<in> set (local_clock c1). mn \<le> x" by (simp add: mn_def)
  have step: "clock_Update (int i) c = (if global_clock c1 < mn
       then Inr (global_clock c1 + 1 = max_element (c1\<lparr>global_clock := global_clock c1 + 1\<rparr>),
                 c1\<lparr>global_clock := global_clock c1 + 1\<rparr>)
       else Inr (False, c1))"
    using i lt by (simp add: clock_Update_def Let_def c1_def mn [unfolded c1_def])
  show ?thesis
  proof (cases "mn = Min (set (local_clock c))")
    case True
    then have "clock_Update (int i) c = Inr (False, c1)" using step g by simp
    then show ?thesis
      using True g rng ne by (intro that [of False c1]) (auto simp: c1_def mn_def clock_inv_def)
  next
    case False
    then have eq: "mn = global_clock c1 + 1"
      using Min_update_Suc [OF i] g by (simp add: mn_def c1_def)
    define c2 where "c2 = c1\<lparr>global_clock := global_clock c1 + 1\<rparr>"
    have "clock_Update (int i) c = Inr (max_element c2 = global_clock c2, c2)"
      using step eq by (auto simp: c2_def)
    moreover have "max_element c2 = global_clock c2 \<longleftrightarrow>
        (\<forall>x \<in> set (local_clock c2). x = INT_MAX \<or> x = global_clock c2)"
      unfolding max_element_eq_global using all_ge eq by (auto simp: c2_def intro: antisym)
    ultimately show ?thesis
      using eq rng ne by (intro that [of "max_element c2 = global_clock c2" c2])
        (auto simp: c2_def c1_def mn_def clock_inv_def)
  qed
qed

text \<open>
  \<open>FinishTrain\<close> takes worker \<open>i\<close> out of the race: its clock no longer holds the global
  clock back, and the answer is true exactly when that moved the global clock and all the
  unfinished workers are level with it.
\<close>

lemma clock_FinishTrain_spec:
  assumes inv: "clock_inv c" and i: "i < length (local_clock c)"
  obtains b c' where "clock_FinishTrain (int i) c = Inr (b, c')"
    and "local_clock c' = (local_clock c)[i := INT_MAX]"
    and "clock_inv c'"
    and "b \<longleftrightarrow> global_clock c < global_clock c'
           \<and> (\<forall>x \<in> set (local_clock c'). x = INT_MAX \<or> x = global_clock c')"
proof -
  define c1 where "c1 = c\<lparr>local_clock := (local_clock c)[i := INT_MAX]\<rparr>"
  define mn where "mn = Min (set (local_clock c1))"
  have ne: "local_clock c1 \<noteq> []" using i by (auto simp: c1_def)
  have mn: "min_element c1 = Inr mn" by (simp add: min_element_Inr ne mn_def)
  have g: "global_clock c1 = Min (set (local_clock c))" using inv by (simp add: c1_def clock_inv_def)
  have rng: "\<forall>x \<in> set (local_clock c1). 0 \<le> x \<and> x \<le> INT_MAX"
    using inv by (auto simp: c1_def clock_inv_def INT_MAX_def dest!: set_update_subset_insert [THEN subsetD])
  have all_ge: "\<forall>x \<in> set (local_clock c1). mn \<le> x" by (simp add: mn_def)
  have le: "global_clock c1 \<le> mn"
  proof -
    have "mn \<in> set (local_clock c1)" using ne by (simp add: mn_def)
    then show ?thesis using inv rng g
      by (auto simp: c1_def clock_inv_def dest!: set_update_subset_insert [THEN subsetD])
  qed
  have step: "clock_FinishTrain (int i) c = (if global_clock c1 < mn
       then Inr (mn = max_element (c1\<lparr>global_clock := mn\<rparr>), c1\<lparr>global_clock := mn\<rparr>)
       else Inr (False, c1))"
    using i by (simp add: clock_FinishTrain_def Let_def c1_def mn [unfolded c1_def])
  show ?thesis
  proof (cases "global_clock c1 < mn")
    case False
    then show ?thesis
      using le step rng ne g by (intro that [of False c1]) (auto simp: c1_def mn_def clock_inv_def)
  next
    case True
    define c2 where "c2 = c1\<lparr>global_clock := mn\<rparr>"
    have "clock_FinishTrain (int i) c = Inr (max_element c2 = global_clock c2, c2)"
      using step True by (auto simp: c2_def)
    moreover have "max_element c2 = global_clock c2 \<longleftrightarrow>
        (\<forall>x \<in> set (local_clock c2). x = INT_MAX \<or> x = global_clock c2)"
      unfolding max_element_eq_global using all_ge by (auto simp: c2_def intro: antisym)
    ultimately show ?thesis
      using True rng ne by (intro that [of "max_element c2 = global_clock c2" c2])
        (auto simp: c2_def c1_def mn_def clock_inv_def)
  qed
qed

text \<open>
  The step the schedulers take: all clocks are within one of each other and a slow worker
  moves. The answer is true exactly when it was the last of them.
\<close>

lemma clock_Update_round:
  assumes inv: "clock_inv c" and k: "k < length (local_clock c)"
    and near: "\<forall>j < length (local_clock c). local_clock c ! j = r \<or> local_clock c ! j = r + 1"
    and slow: "local_clock c ! k = r" and bound: "r + 1 < INT_MAX"
  obtains c' where
    "clock_Update (int k) c
       = Inr (\<forall>j < length (local_clock c). j \<noteq> k \<longrightarrow> local_clock c ! j = r + 1, c')"
    and "local_clock c' = (local_clock c)[k := r + 1]"
    and "clock_inv c'"
proof -
  let ?l = "local_clock c"
  let ?last = "\<forall>j < length ?l. j \<noteq> k \<longrightarrow> ?l ! j = r + 1"
  obtain b c' where u: "clock_Update (int k) c = Inr (b, c')"
    and l': "local_clock c' = ?l[k := r + 1]" and inv': "clock_inv c'"
    and b: "b \<longleftrightarrow> global_clock c' = global_clock c + 1
           \<and> (\<forall>x \<in> set (local_clock c'). x = INT_MAX \<or> x = global_clock c')"
    using clock_Update_spec [OF inv k] slow bound by auto
  have ge: "\<forall>x \<in> set ?l. r \<le> x" using near by (fastforce simp: in_set_conv_nth)
  have "Min (set ?l) = r" using k slow ge by (intro Min_eqI) (auto simp: in_set_conv_nth)
  then have g: "global_clock c = r" using inv by (simp add: clock_inv_def)
  have set': "(\<forall>x \<in> set (local_clock c'). x = r + 1) \<longleftrightarrow> ?last"
    using k by (auto simp: l' all_set_conv_all_nth nth_list_update)
  have "b \<longleftrightarrow> ?last"
  proof
    assume b' : b
    have "x = r + 1" if "x \<in> set (local_clock c')" for x
    proof -
      obtain j where "j < length ?l" "x = ?l[k := r + 1] ! j"
        using \<open>x \<in> set (local_clock c')\<close> by (auto simp: l' in_set_conv_nth)
      then have "x \<noteq> INT_MAX" using near bound by (cases "j = k") auto
      with b' b g \<open>x \<in> set (local_clock c')\<close> show ?thesis by auto
    qed
    then show ?last using set' by blast
  next
    assume last: ?last
    then have all: "\<forall>x \<in> set (local_clock c'). x = r + 1" using set' by blast
    moreover have "local_clock c' \<noteq> []" using inv' by (simp add: clock_inv_def)
    ultimately have "Min (set (local_clock c')) = r + 1"
      by (intro Min_eqI) (auto simp: neq_Nil_conv)
    then show b using b g inv' all by (simp add: clock_inv_def)
  qed
  then show ?thesis using that u l' inv' by blast
qed

lemma clock_global_eq:
  assumes "clock_inv c" and "k < length (local_clock c)" and "local_clock c ! k = r"
    and "\<forall>j < length (local_clock c). r \<le> local_clock c ! j"
  shows "global_clock c = r"
proof -
  have "Min (set (local_clock c)) = r"
    using assms by (intro Min_eqI) (auto simp: in_set_conv_nth)
  then show ?thesis using assms(1) by (simp add: clock_inv_def)
qed

text \<open>\<open>Update\<close> on a clock of the invariant counts one more for the worker and nothing for the
  others, keeps the global clock at the slowest worker, and answers true exactly when the
  global clock moved and all unfinished workers are now level with it.\<close>

theorem clock_Update_correct:
  assumes "clock_inv c" and "i < length (local_clock c)" and "local_clock c ! i < INT_MAX"
  shows "\<exists>b c'. clock_Update (int i) c = Inr (b, c') \<and> clock_inv c'
    \<and> local_clock c' = (local_clock c)[i := local_clock c ! i + 1]
    \<and> (b \<longleftrightarrow> global_clock c' = global_clock c + 1
           \<and> (\<forall>x \<in> set (local_clock c'). x = INT_MAX \<or> x = global_clock c'))"
  by (rule clock_Update_spec [OF assms]) (intro exI conjI, assumption+)

text \<open>\<open>FinishTrain\<close> takes a worker out of the race: the global clock then follows the slowest of
  the others, and the answer is true exactly when it moved and all unfinished workers are
  level with it.\<close>

theorem clock_FinishTrain_correct:
  assumes "clock_inv c" and "i < length (local_clock c)"
  shows "\<exists>b c'. clock_FinishTrain (int i) c = Inr (b, c') \<and> clock_inv c'
    \<and> local_clock c' = (local_clock c)[i := INT_MAX]
    \<and> (b \<longleftrightarrow> global_clock c < global_clock c'
           \<and> (\<forall>x \<in> set (local_clock c'). x = INT_MAX \<or> x = global_clock c'))"
  by (rule clock_FinishTrain_spec [OF assms]) (intro exI conjI, assumption+)

definition demo_clock :: vclock where
  "demo_clock = \<lparr>local_clock = [3, 2, 3], global_clock = 2\<rparr>"

lemma demo_clock_inv: "clock_inv demo_clock"
  by (simp add: clock_inv_def demo_clock_def INT_MAX_def)

lemma clock_Update_correct_witness:
  "\<exists>b c'. clock_Update (int 1) demo_clock = Inr (b, c') \<and> clock_inv c'
    \<and> local_clock c' = (local_clock demo_clock)[1 := local_clock demo_clock ! 1 + 1]
    \<and> (b \<longleftrightarrow> global_clock c' = global_clock demo_clock + 1
           \<and> (\<forall>x \<in> set (local_clock c'). x = INT_MAX \<or> x = global_clock c'))"
  by (rule clock_Update_correct [OF demo_clock_inv]) (simp_all add: demo_clock_def INT_MAX_def)

lemma clock_FinishTrain_correct_witness:
  "\<exists>b c'. clock_FinishTrain (int 1) demo_clock = Inr (b, c') \<and> clock_inv c'
    \<and> local_clock c' = (local_clock demo_clock)[1 := INT_MAX]
    \<and> (b \<longleftrightarrow> global_clock demo_clock < global_clock c'
           \<and> (\<forall>x \<in> set (local_clock c'). x = INT_MAX \<or> x = global_clock c'))"
  by (rule clock_FinishTrain_correct [OF demo_clock_inv]) (simp add: demo_clock_def)

end
