(* ===== verification/SafeQueue.thy ===== *)
theory SafeQueue
  imports Prelude "HOL-Library.Multiset"
begin

text \<open>
  The thread-safe queue of src/hpps/common/queue.h, the mailbox of every actor and the
  request caches of the synchronous scheduler. Each operation holds the queue's mutex from
  its first to its last statement, so an execution of several threads is a sequence of
  operations; the one exception is \<open>Pop\<close>, which releases the mutex while it waits and is
  an operation of the sequence only from the moment it finds an item or the exit flag.
\<close>

section \<open>The operations\<close>

record 'a queue =
  buffer :: "'a list"
  exited :: bool

datatype ('a, 'q) pop_result =
    Blocks              \<comment> \<open>the thread waits on the condition variable\<close>
  | PopFalse            \<comment> \<open>empty and exited: \<open>Pop\<close> returns false\<close>
  | Popped 'a 'q

definition empty_queue :: "'a queue" where
  "empty_queue = \<lparr>buffer = [], exited = False\<rparr>"

definition queue_Push :: "'a \<Rightarrow> 'a queue \<Rightarrow> 'a queue" where
  "queue_Push x q = q\<lparr>buffer := buffer q @ [x]\<rparr>"

definition queue_PushFront :: "'a \<Rightarrow> 'a queue \<Rightarrow> 'a queue" where
  "queue_PushFront x q = q\<lparr>buffer := x # buffer q\<rparr>"

definition queue_Pop :: "'a queue \<Rightarrow> ('a, 'a queue) pop_result" where
  "queue_Pop q = (case buffer q of
       [] \<Rightarrow> if exited q then PopFalse else Blocks
     | x # xs \<Rightarrow> Popped x (q\<lparr>buffer := xs\<rparr>))"

definition queue_TryPop :: "'a queue \<Rightarrow> ('a \<times> 'a queue) option" where
  "queue_TryPop q = (case buffer q of
       [] \<Rightarrow> None
     | x # xs \<Rightarrow> Some (x, q\<lparr>buffer := xs\<rparr>))"

definition queue_Front :: "'a queue \<Rightarrow> ('a, 'a queue) pop_result" where
  "queue_Front q = (case buffer q of
       [] \<Rightarrow> if exited q then PopFalse else Blocks
     | x # xs \<Rightarrow> Popped x q)"

definition queue_Size :: "'a queue \<Rightarrow> nat" where
  "queue_Size q = length (buffer q)"

definition queue_Empty :: "'a queue \<Rightarrow> bool" where
  "queue_Empty q \<longleftrightarrow> buffer q = []"

definition queue_Exit :: "'a queue \<Rightarrow> 'a queue" where
  "queue_Exit q = q\<lparr>exited := True\<rparr>"

definition queue_Alive :: "'a queue \<Rightarrow> bool" where
  "queue_Alive q \<longleftrightarrow> \<not> exited q"

lemma queue_buffer_simps [simp]:
  "buffer empty_queue = []"
  "buffer (queue_Push x q) = buffer q @ [x]"
  "buffer (queue_PushFront x q) = x # buffer q"
  "buffer (queue_Exit q) = buffer q"
  "exited (queue_Push x q) = exited q"
  "exited (queue_PushFront x q) = exited q"
  "exited (queue_Exit q) = True"
  "exited empty_queue = False"
  by (simp_all add: empty_queue_def queue_Push_def queue_PushFront_def queue_Exit_def)

lemma queue_TryPop_None [simp]: "queue_TryPop q = None \<longleftrightarrow> buffer q = []"
  by (simp add: queue_TryPop_def split: list.splits)

lemma queue_TryPop_Some [simp]:
  "queue_TryPop q = Some (x, q') \<longleftrightarrow> buffer q = x # buffer q' \<and> exited q' = exited q"
  by (cases q; cases q') (auto simp: queue_TryPop_def split: list.splits)

lemma queue_Empty_iff [simp]: "queue_Empty q \<longleftrightarrow> buffer q = []"
  by (simp add: queue_Empty_def)

section \<open>What a client of a queue relies on\<close>

text \<open>Popping until nothing is left, at most \<open>n\<close> times.\<close>

primrec pop_up_to :: "('q \<Rightarrow> ('a \<times> 'q) option) \<Rightarrow> nat \<Rightarrow> 'q \<Rightarrow> 'a list \<times> 'q" where
  "pop_up_to pop 0 q = ([], q)"
| "pop_up_to pop (Suc n) q = (case pop q of
       None \<Rightarrow> ([], q)
     | Some (x, q') \<Rightarrow> (case pop_up_to pop n q' of (xs, q'') \<Rightarrow> (x # xs, q'')))"

locale fifo =
  fixes empty :: 'q
    and push :: "'a \<Rightarrow> 'q \<Rightarrow> 'q"
    and pop :: "'q \<Rightarrow> ('a \<times> 'q) option"
    and contents :: "'q \<Rightarrow> 'a list"
  assumes contents_empty: "contents empty = []"
    and contents_push: "contents (push x q) = contents q @ [x]"
    and pop_None: "pop q = None \<longleftrightarrow> contents q = []"
    and pop_Some: "pop q = Some (x, q') \<Longrightarrow> contents q = x # contents q'"
begin

lemma contents_push_all: "contents (fold push xs q) = contents q @ xs"
  by (induction xs arbitrary: q) (simp_all add: contents_push)

lemma pop_up_to_contents:
  "fst (pop_up_to pop n q) = take n (contents q) \<and> contents (snd (pop_up_to pop n q)) = drop n (contents q)"
proof (induction n arbitrary: q)
  case 0
  then show ?case by simp
next
  case (Suc n)
  show ?case
  proof (cases "pop q")
    case None
    then show ?thesis using pop_None [of q] by simp
  next
    case (Some p)
    then obtain x q' where p: "pop q = Some (x, q')" by (cases p) simp
    then show ?thesis
      using Suc.IH [of q'] pop_Some [OF p] by (cases "pop_up_to pop n q'") simp
  qed
qed

lemma push_then_pop_all:
  "fst (pop_up_to pop (length xs) (fold push xs empty)) = xs"
  by (simp add: pop_up_to_contents contents_push_all contents_empty)

end

interpretation mailbox: fifo empty_queue queue_Push queue_TryPop buffer
  by unfold_locales simp_all

section \<open>Interleavings of several threads\<close>

datatype 'a queue_op = OpPush 'a | OpPop | OpTryPop | OpExit

fun queue_step :: "'a queue_op \<Rightarrow> 'a queue \<Rightarrow> 'a list \<times> 'a queue" where
  \<comment> \<open>the items handed out by the operation, and the queue after it\<close>
  "queue_step (OpPush x) q = ([], queue_Push x q)"
| "queue_step OpPop q = (case queue_Pop q of Popped x q' \<Rightarrow> ([x], q') | _ \<Rightarrow> ([], q))"
| "queue_step OpTryPop q = (case queue_TryPop q of Some (x, q') \<Rightarrow> ([x], q') | None \<Rightarrow> ([], q))"
| "queue_step OpExit q = ([], queue_Exit q)"

fun queue_run :: "'a queue_op list \<Rightarrow> 'a queue \<Rightarrow> 'a list \<times> 'a queue" where
  "queue_run [] q = ([], q)"
| "queue_run (op # ops) q =
     (case queue_step op q of (out, q') \<Rightarrow>
      case queue_run ops q' of (outs, q'') \<Rightarrow> (out @ outs, q''))"

fun pushes :: "'a queue_op list \<Rightarrow> 'a list" where
  "pushes [] = []"
| "pushes (OpPush x # ops) = x # pushes ops"
| "pushes (_ # ops) = pushes ops"

lemma queue_step_contents:
  "queue_step op q = (out, q') \<Longrightarrow> out @ buffer q' = buffer q @ pushes [op]"
  by (cases op; cases "buffer q") (auto simp: queue_Pop_def queue_TryPop_def split: if_splits)

lemma pushes_Cons: "pushes (op # ops) = pushes [op] @ pushes ops"
  by (cases op) simp_all

text \<open>C40. Whatever the interleaving of the threads on a queue, the items come out in the order they
  went in, none lost and none twice, and what is left is what was pushed and not yet popped.\<close>

theorem queue_run_fifo:
  "fst (queue_run ops q) @ buffer (snd (queue_run ops q)) = buffer q @ pushes ops"
proof (induction ops arbitrary: q)
  case Nil
  then show ?case by simp
next
  case (Cons op ops)
  obtain out q' where s: "queue_step op q = (out, q')" by fastforce
  obtain outs q'' where r: "queue_run ops q' = (outs, q'')" by fastforce
  have "outs @ buffer q'' = buffer q' @ pushes ops" using Cons.IH [of q'] r by simp
  then have "out @ outs @ buffer q'' = (buffer q @ pushes [op]) @ pushes ops"
    using queue_step_contents [OF s] by (metis append.assoc)
  then show ?case using s r pushes_Cons [of op ops] by simp
qed

text \<open>
  After \<open>Exit\<close> no \<open>Pop\<close> waits: it hands out what is left, then returns false.
\<close>

lemma queue_Pop_exited:
  "exited q \<Longrightarrow> queue_Pop q = (if buffer q = [] then PopFalse
     else Popped (hd (buffer q)) (q\<lparr>buffer := tl (buffer q)\<rparr>))"
  by (simp add: queue_Pop_def split: list.splits)

end
