(* ===== verification/FileIO.thy ===== *)
theory FileIO
  imports Bytes "HOL-Library.Sublist"
begin

text \<open>
  Strings, URIs and file streams: \<open>StrSplit\<close> (src/hpps/common/string_util.h), \<open>URI\<close>
  (src/hpps/common/io/io.h), \<open>StreamFactory::GetStream\<close> (io.cc) and the local stream
  (local_stream.cc). A disk is a map from paths to contents; opening, reading, writing and
  seeking follow C stdio. That a write does not fail for lack of space is assumed (there
  \<open>LocalStream::Write\<close> is fatal). HDFS is compiled in only with \<open>USE_HDFS\<close>; without it
  every scheme but file is fatal, as here; theory Hdfs models the build with it.
\<close>

section \<open>Splitting strings\<close>

fun split_loop :: "char \<Rightarrow> string \<Rightarrow> string \<Rightarrow> string list" where
  \<comment> \<open>the loop of \<open>StrSplit\<close>: the characters since the last delimiter, and those ahead\<close>
  "split_loop d cur [] = [cur]"
| "split_loop d cur (c # cs) =
     (if c = d then cur # split_loop d [] cs else split_loop d (cur @ [c]) cs)"

definition StrSplit :: "string \<Rightarrow> char \<Rightarrow> string list" where
  "StrSplit s d = split_loop d [] s"

fun join :: "char \<Rightarrow> string list \<Rightarrow> string" where
  "join d [] = []"
| "join d [s] = s"
| "join d (s # ss) = s @ d # join d ss"

lemma split_loop_ne [simp]: "split_loop d cur s \<noteq> []"
  by (induction d cur s rule: split_loop.induct) simp_all

lemma join_Cons: "ss \<noteq> [] \<Longrightarrow> join d (s # ss) = s @ d # join d ss"
  by (cases ss) simp_all

lemma join_split_loop: "join d (split_loop d cur s) = cur @ s"
  by (induction d cur s rule: split_loop.induct) (simp_all add: join_Cons)

lemma split_loop_no_delim:
  "d \<notin> set cur \<Longrightarrow> p \<in> set (split_loop d cur s) \<Longrightarrow> d \<notin> set p"
  by (induction d cur s rule: split_loop.induct) (auto split: if_splits)

lemma split_loop_no_split: "d \<notin> set s \<Longrightarrow> split_loop d cur s = [cur @ s]"
  by (induction d cur s rule: split_loop.induct) auto

lemma split_loop_append:
  "d \<notin> set p \<Longrightarrow> split_loop d cur (p @ d # s) = (cur @ p) # split_loop d [] s"
  by (induction p arbitrary: cur) auto

lemma split_loop_join:
  "ss \<noteq> [] \<Longrightarrow> \<forall>s \<in> set ss. d \<notin> set s \<Longrightarrow> split_loop d [] (join d ss) = ss"
proof (induction d ss rule: join.induct)
  case (3 d s t ss)
  then show ?case by (simp add: split_loop_append)
qed (simp_all add: split_loop_no_split)

section \<open>URIs\<close>

fun find_sub :: "string \<Rightarrow> string \<Rightarrow> nat option" where
  \<comment> \<open>\<open>std::string::find\<close>; \<open>None\<close> is \<open>npos\<close>\<close>
  "find_sub p [] = (if p = [] then Some 0 else None)"
| "find_sub p (c # cs) = (if prefix p (c # cs) then Some 0 else map_option Suc (find_sub p cs))"

definition find_from :: "string \<Rightarrow> string \<Rightarrow> nat \<Rightarrow> nat option" where
  "find_from p s start = map_option (\<lambda>i. start + i) (find_sub p (drop start s))"

record URI =
  uri_scheme :: string
  uri_host :: string
  uri_name :: string
  uri_path :: string

definition parse_uri :: "string \<Rightarrow> URI" where
  "parse_uri uri =
     (let (scheme, start) = (case find_from ''://'' uri 0 of
              None \<Rightarrow> (''file'', 0)
            | Some pos \<Rightarrow> (take pos uri, pos + 3));
          (host0, start') = (case find_from ''/'' uri start of
              None \<Rightarrow> (if scheme = ''hdfs'' then ''default'' else [], start)
            | Some pos \<Rightarrow> (take (pos - start) (drop start uri), pos));
          host = (if scheme = ''hdfs'' \<and> host0 = [] then ''default'' else host0);
          name = drop start' uri
      in \<lparr>uri_scheme = scheme, uri_host = host, uri_name = name,
          uri_path = (if scheme = ''hdfs'' then scheme @ ''://'' @ host @ name else uri)\<rparr>)"

lemma find_sub_prefix: "prefix p s \<Longrightarrow> find_sub p s = Some 0"
  by (cases s) auto

lemma find_sub_skip:
  "c \<notin> set s \<Longrightarrow> find_sub (c # p) (s @ t) = map_option (\<lambda>i. length s + i) (find_sub (c # p) t)"
proof (induction s)
  case Nil
  then show ?case by (simp add: option.map_ident)
next
  case (Cons x s)
  then show ?case by (auto simp: option.map_comp comp_def)
qed

lemma find_sub_absent: "c \<notin> set s \<Longrightarrow> find_sub (c # p) s = None"
  using find_sub_skip [of c s p "[]"] by simp

lemma find_sub_scheme:
  "CHR '':'' \<notin> set s \<Longrightarrow> find_sub ''://'' (s @ ''://'' @ t) = Some (length s)"
  by (simp add: find_sub_skip find_sub_prefix)

lemma parse_uri_scheme_host_name:
  assumes "CHR '':'' \<notin> set scheme" and "CHR ''/'' \<notin> set host"
  shows "parse_uri (scheme @ ''://'' @ host @ ''/'' @ name) =
    \<lparr>uri_scheme = scheme,
     uri_host = (if scheme = ''hdfs'' \<and> host = [] then ''default'' else host),
     uri_name = ''/'' @ name,
     uri_path = (if scheme = ''hdfs'' \<and> host = [] then ''hdfs://default/'' @ name
                 else scheme @ ''://'' @ host @ ''/'' @ name)\<rparr>"
proof -
  let ?u = "scheme @ ''://'' @ host @ ''/'' @ name"
  have 1: "find_from ''://'' ?u 0 = Some (length scheme)"
    using find_sub_scheme [OF assms(1)] by (simp add: find_from_def option.map_ident)
  have 2: "find_from ''/'' ?u (length scheme + 3) = Some (length scheme + 3 + length host)"
    using find_sub_skip [OF assms(2), of "[]" "''/'' @ name"]
    by (simp add: find_from_def find_sub_prefix)
  have 3: "take (length scheme) ?u = scheme" by simp
  have d: "drop (length scheme + 3) ?u = host @ ''/'' @ name" by simp
  have 4: "take (length scheme + 3 + length host - (length scheme + 3)) (drop (length scheme + 3) ?u) = host"
    unfolding d by simp
  have 5: "drop (length scheme + 3 + length host) ?u = ''/'' @ name"
    using d by (metis add.commute append_eq_conv_conj drop_drop)
  show ?thesis
    unfolding parse_uri_def 1 option.case Let_def prod.case 2 3 4 5
    by (cases "host = []") simp_all
qed

lemma parse_uri_plain:
  assumes "CHR '':'' \<notin> set p"
  shows "uri_scheme (parse_uri p) = ''file'' \<and> uri_path (parse_uri p) = p"
  using find_sub_absent [OF assms, of "''//''"]
  by (simp add: parse_uri_def find_from_def Let_def split: option.splits)

section \<open>Streams\<close>

record stream =
  content :: "byte list"
  pos :: nat

datatype open_mode = Write | Read | Append | BinaryWrite | BinaryRead | BinaryAppend

definition stream_Write :: "byte list \<Rightarrow> stream \<Rightarrow> stream" where
  \<comment> \<open>\<open>fwrite\<close>: overwrite from the position on, the gap after a seek past the end being zeros\<close>
  "stream_Write bs s =
     (let c = content s @ replicate (pos s - length (content s)) 0
      in s\<lparr>content := take (pos s) c @ bs @ drop (pos s + length bs) c, pos := pos s + length bs\<rparr>)"

definition stream_Read :: "nat \<Rightarrow> stream \<Rightarrow> byte list \<times> stream" where
  \<comment> \<open>\<open>fread\<close>: what is there, at most \<open>n\<close> bytes\<close>
  "stream_Read n s =
     (let bs = take n (drop (pos s) (content s)) in (bs, s\<lparr>pos := pos s + length bs\<rparr>))"

definition stream_Seek :: "nat \<Rightarrow> stream \<Rightarrow> stream" where
  "stream_Seek off s = s\<lparr>pos := off\<rparr>"

definition read_into :: "byte list \<Rightarrow> stream \<Rightarrow> byte list \<times> stream" where
  \<comment> \<open>\<open>stream->Read(buf, size)\<close>: a short read leaves the rest of the buffer as it was\<close>
  "read_into buf s =
     (case stream_Read (length buf) s of (bs, s') \<Rightarrow> (bs @ drop (length bs) buf, s'))"

type_synonym disk = "string \<rightharpoonup> byte list"

definition open_stream :: "open_mode \<Rightarrow> string \<Rightarrow> disk \<Rightarrow> stream option \<times> disk" where
  \<comment> \<open>\<open>LocalStream::LocalStream\<close>: \<open>None\<close> is a null \<open>FILE\<close> pointer\<close>
  "open_stream mode path d =
     (let old = (case d path of None \<Rightarrow> [] | Some c \<Rightarrow> c) in
      if mode = Read \<or> mode = BinaryRead then
        (map_option (\<lambda>c. \<lparr>content = c, pos = 0\<rparr>) (d path), d)
      else if mode = Write \<or> mode = BinaryWrite then
        (Some \<lparr>content = [], pos = 0\<rparr>, d(path \<mapsto> []))
      else (Some \<lparr>content = old, pos = length old\<rparr>, d(path \<mapsto> old)))"

definition GetStream :: "URI \<Rightarrow> open_mode \<Rightarrow> disk \<Rightarrow> (stream option \<times> disk) res" where
  "GetStream uri mode d =
     (if uri_scheme uri = ''file'' then Inr (open_stream mode (uri_path uri) d) else Inl Fatal)"

definition close_stream :: "string \<Rightarrow> stream \<Rightarrow> disk \<Rightarrow> disk" where
  "close_stream path s d = d(path \<mapsto> content s)"

definition remaining :: "stream \<Rightarrow> byte list" where
  "remaining s = drop (pos s) (content s)"

lemma stream_Write_end [simp]:
  "pos s = length (content s) \<Longrightarrow>
   stream_Write bs s = s\<lparr>content := content s @ bs, pos := length (content s @ bs)\<rparr>"
  by (simp add: stream_Write_def Let_def)

lemma stream_Read_exact:
  "remaining s = xs @ ys \<Longrightarrow> length xs = n \<Longrightarrow>
   \<exists>s'. stream_Read n s = (xs, s') \<and> remaining s' = ys \<and> content s' = content s"
proof -
  assume r: "remaining s = xs @ ys" and n: "length xs = n"
  have "drop (pos s + n) (content s) = ys"
    using r n by (metis append_eq_conv_conj drop_drop remaining_def add.commute)
  with r n show ?thesis by (simp add: stream_Read_def remaining_def Let_def)
qed

lemma read_into_exact:
  "remaining s = xs @ ys \<Longrightarrow> length buf = length xs \<Longrightarrow>
   \<exists>s'. read_into buf s = (xs, s') \<and> remaining s' = ys \<and> content s' = content s"
  using stream_Read_exact [of s xs ys "length buf"] by (auto simp: read_into_def)

text \<open>
  Reading back: what a writer appended chunk by chunk, a reader that asks for chunks of the
  same sizes gets chunk by chunk. The interface is what the table checkpoints and the record
  files rely on.
\<close>

primrec read_chunks :: "(nat \<Rightarrow> 's \<Rightarrow> byte list \<times> 's) \<Rightarrow> nat list \<Rightarrow> 's \<Rightarrow> byte list list" where
  "read_chunks rd [] s = []"
| "read_chunks rd (n # ns) s = fst (rd n s) # read_chunks rd ns (snd (rd n s))"

locale byte_stream =
  fixes wr :: "byte list \<Rightarrow> 's \<Rightarrow> 's"
    and rd :: "nat \<Rightarrow> 's \<Rightarrow> byte list \<times> 's"
    and at_end :: "'s \<Rightarrow> bool" and bytes :: "'s \<Rightarrow> byte list" and ahead :: "'s \<Rightarrow> byte list"
  assumes wr_end: "at_end s \<Longrightarrow> at_end (wr bs s) \<and> bytes (wr bs s) = bytes s @ bs"
    and rd_ahead: "ahead s = xs @ ys \<Longrightarrow> length xs = n \<Longrightarrow>
      \<exists>s'. rd n s = (xs, s') \<and> ahead s' = ys"
begin

lemma wr_all_bytes: "at_end s \<Longrightarrow> bytes (fold wr chunks s) = bytes s @ concat chunks"
proof (induction chunks arbitrary: s)
  case Nil
  then show ?case by simp
next
  case (Cons c cs)
  then show ?case using wr_end [of s c] by simp
qed

lemma read_chunks_ahead: "ahead s = concat chunks @ ys \<Longrightarrow> read_chunks rd (map length chunks) s = chunks"
proof (induction chunks arbitrary: s)
  case Nil
  then show ?case by simp
next
  case (Cons c cs)
  then obtain s' where "rd (length c) s = (c, s')" "ahead s' = concat cs @ ys"
    using rd_ahead [of s c "concat cs @ ys" "length c"] by auto
  with Cons.IH [of s'] show ?case by simp
qed

end

interpretation local_file: byte_stream stream_Write stream_Read
    "\<lambda>s. pos s = length (content s)" content remaining
  using stream_Read_exact by unfold_locales (simp, blast)

section \<open>Properties\<close>

text \<open>\<open>StrSplit\<close> loses nothing and splits everywhere: joining the parts with the delimiter gives
  the string back, and no part contains the delimiter.\<close>

theorem StrSplit_join:
  "join d (StrSplit s d) = s \<and> (\<forall>p \<in> set (StrSplit s d). d \<notin> set p)"
  using join_split_loop [of d "[]" s] split_loop_no_delim [of d "[]"] by (auto simp: StrSplit_def)

lemma StrSplit_join_witness:
  "join CHR '';'' (StrSplit ''a;b;;c'' CHR '';'') = ''a;b;;c'' \<and> CHR '';'' \<notin> set (StrSplit ''a;b;;c'' CHR '';'' ! 1)"
  using StrSplit_join [of "CHR '';''" "''a;b;;c''"] by (simp add: StrSplit_def)

text \<open>A \<open>file://\<close> URI cannot be opened by its path: the constructor keeps the scheme in \<open>path\<close>,
  so that \<open>fopen\<close> gets the whole URI and a file that exists under the path is not found.\<close>

theorem file_scheme_not_stripped:
  assumes "d (''file:///'' @ name) = None"
  shows "GetStream (parse_uri (''file:///'' @ name)) BinaryRead d = Inr (None, d)"
  using parse_uri_scheme_host_name [of "''file''" "[]" name] assms
  by (simp add: GetStream_def open_stream_def)

lemma file_scheme_not_stripped_witness:
  "GetStream (parse_uri (''file:///'' @ ''m'')) BinaryRead [''/m'' \<mapsto> [1, 2]] = Inr (None, [''/m'' \<mapsto> [1, 2]])"
  by (rule file_scheme_not_stripped) simp

end
