(* ===== verification/Sched.thy ===== *)
theory Sched
  imports ZooInfo Clock SafeQueue FileIO
begin

text \<open>
  The schedulers of a server: the asynchronous one of src/hpps/frame/scheduler/scheduler.h and
  scheduler.cc, which answers every request at once, and the synchronous one of
  sync_scheduler.h and sync_scheduler.cc, which holds requests of fast workers back.

  A server table is called through its virtual functions; the model passes them as a record of
  functions over the table's state (the class's vtable). Messages sent to the communicator are
  appended to the outbox, in order.
\<close>

section \<open>Server tables\<close>

record 't table_ops =
  op_get :: "'t \<Rightarrow> blob list \<Rightarrow> (blob list \<times> 't) res"  \<comment> \<open>\<open>ProcessGet\<close>: the blobs pushed on the reply\<close>
  op_add :: "'t \<Rightarrow> blob list \<Rightarrow> 't res"
  op_store :: "'t \<Rightarrow> stream \<Rightarrow> stream res"
  op_load :: "'t \<Rightarrow> stream \<Rightarrow> 't res"

record 't sched =
  table :: 't
  outbox :: "message list"
  files :: disk

definition string_of_bytes :: "byte list \<Rightarrow> string" where
  "string_of_bytes bs = map (\<lambda>b. char_of (unat b)) bs"

definition bytes_of_string :: "string \<Rightarrow> byte list" where
  "bytes_of_string s = map (\<lambda>c. of_char c) s"

section \<open>The asynchronous scheduler\<close>

definition sched_ProcessGet ::
    "'t table_ops \<Rightarrow> message \<Rightarrow> ('t, 'z) sched_scheme \<Rightarrow> ('t, 'z) sched_scheme res" where
  "sched_ProcessGet ops m s =
     (if length (msg_data m) \<noteq> 0 then
        bind_res (op_get ops (table s) (msg_data m)) (\<lambda>(result, t).
          Inr (s\<lparr>table := t, outbox := outbox s @ [(CreateReplyMessage m)\<lparr>msg_data := result\<rparr>]\<rparr>))
      else Inr s)"

definition sched_ProcessAdd ::
    "'t table_ops \<Rightarrow> message \<Rightarrow> ('t, 'z) sched_scheme \<Rightarrow> ('t, 'z) sched_scheme res" where
  "sched_ProcessAdd ops m s =
     (if length (msg_data m) \<noteq> 0 then
        bind_res (op_add ops (table s) (msg_data m)) (\<lambda>t.
          Inr (s\<lparr>table := t, outbox := outbox s @ [CreateReplyMessage m]\<rparr>))
      else Inr s)"

definition sched_ProcessFinishTrain ::
    "message \<Rightarrow> ('t, 'z) sched_scheme \<Rightarrow> ('t, 'z) sched_scheme res" where
  "sched_ProcessFinishTrain m s = Inr s"

definition sched_ProcessLoadModel ::
    "'t table_ops \<Rightarrow> message \<Rightarrow> ('t, 'z) sched_scheme \<Rightarrow> ('t, 'z) sched_scheme res" where
  "sched_ProcessLoadModel ops m s =
     bind_res (vec_at (msg_data m) 0) (\<lambda>file.
     let uri = parse_uri (string_of_bytes file) in
     bind_res (GetStream uri BinaryRead (files s)) (\<lambda>(st, d).
     case st of None \<Rightarrow> Inl NullDeref
     | Some stream \<Rightarrow>
         bind_res (op_load ops (table s) stream) (\<lambda>t.
           Inr (s\<lparr>table := t, files := d, outbox := outbox s @ [CreateReplyMessage m]\<rparr>))))"

definition sched_ProcessStoreModel ::
    "'t table_ops \<Rightarrow> message \<Rightarrow> ('t, 'z) sched_scheme \<Rightarrow> ('t, 'z) sched_scheme res" where
  "sched_ProcessStoreModel ops m s =
     bind_res (vec_at (msg_data m) 0) (\<lambda>file.
     let uri = parse_uri (string_of_bytes file) in
     bind_res (GetStream uri BinaryWrite (files s)) (\<lambda>(st, d).
     case st of None \<Rightarrow> Inl NullDeref
     | Some stream \<Rightarrow>
         bind_res (op_store ops (table s) stream) (\<lambda>stream'.
           Inr (s\<lparr>files := close_stream (uri_path uri) stream' d,
                  outbox := outbox s @ [CreateReplyMessage m]\<rparr>))))"

section \<open>The synchronous scheduler\<close>

record 't sync = "'t sched" +
  get_clocks :: vclock
  add_clocks :: vclock
  num_waited_add :: "int list"
  msg_add_cache :: "message queue"
  msg_get_cache :: "message queue"

definition new_sync :: "zoo \<Rightarrow> 't \<Rightarrow> disk \<Rightarrow> 't sync" where
  "new_sync z t d =
     \<lparr>table = t, outbox = [], files = d,
      get_clocks = new_clock (nat (num_workers z)), add_clocks = new_clock (nat (num_workers z)),
      num_waited_add = replicate (nat (num_workers z)) 0,
      msg_add_cache = empty_queue, msg_get_cache = empty_queue\<rparr>"

lemma sync_get_frame:
  fixes s :: "'t sync"
  assumes "sched_ProcessGet ops m s = Inr s'"
  shows "get_clocks s' = get_clocks s \<and> add_clocks s' = add_clocks s
    \<and> num_waited_add s' = num_waited_add s
    \<and> msg_add_cache s' = msg_add_cache s \<and> msg_get_cache s' = msg_get_cache s"
  using assms by (auto simp: sched_ProcessGet_def split: if_splits)

lemma sync_add_frame:
  fixes s :: "'t sync"
  assumes "sched_ProcessAdd ops m s = Inr s'"
  shows "get_clocks s' = get_clocks s \<and> add_clocks s' = add_clocks s
    \<and> num_waited_add s' = num_waited_add s
    \<and> msg_add_cache s' = msg_add_cache s \<and> msg_get_cache s' = msg_get_cache s"
  using assms by (auto simp: sched_ProcessAdd_def split: if_splits)

text \<open>The loop that processes the cached Gets, and the one that processes the cached Adds.\<close>

definition cached_get :: "zoo \<Rightarrow> 't table_ops \<Rightarrow> message \<Rightarrow> 't sync \<Rightarrow> 't sync res" where
  "cached_get z ops m s =
     bind_res (rank_to_worker_id z (sint (msg_src m))) (\<lambda>w.
     bind_res (sched_ProcessGet ops m s) (\<lambda>s1.
     bind_res (clock_Update w (get_clocks s1)) (\<lambda>(b, c).
     bind_res (check (\<not> b)) (\<lambda>_. Inr (s1\<lparr>get_clocks := c\<rparr>)))))"

definition cached_add :: "zoo \<Rightarrow> 't table_ops \<Rightarrow> message \<Rightarrow> 't sync \<Rightarrow> 't sync res" where
  "cached_add z ops m s =
     bind_res (rank_to_worker_id z (sint (msg_src m))) (\<lambda>w.
     bind_res (sched_ProcessAdd ops m s) (\<lambda>s1.
     bind_res (clock_Update w (add_clocks s1)) (\<lambda>(b, c).
     bind_res (check (\<not> b)) (\<lambda>_.
     bind_res (vec_at (num_waited_add s1) w) (\<lambda>k.
       Inr (s1\<lparr>add_clocks := c, num_waited_add := (num_waited_add s1)[nat w := k - 1]\<rparr>))))))"

lemma cached_get_caches:
  "cached_get z ops m s = Inr s' \<Longrightarrow>
   msg_get_cache s' = msg_get_cache s \<and> msg_add_cache s' = msg_add_cache s"
  by (auto simp: cached_get_def dest: sync_get_frame)

lemma cached_add_caches:
  "cached_add z ops m s = Inr s' \<Longrightarrow>
   msg_get_cache s' = msg_get_cache s \<and> msg_add_cache s' = msg_add_cache s"
  by (auto simp: cached_add_def dest: sync_add_frame)

function drain_gets :: "zoo \<Rightarrow> 't table_ops \<Rightarrow> 't sync \<Rightarrow> 't sync res" where
  "drain_gets z ops s =
     (case queue_TryPop (msg_get_cache s) of
        None \<Rightarrow> Inr s
      | Some (m, q) \<Rightarrow> bind_res (cached_get z ops m (s\<lparr>msg_get_cache := q\<rparr>)) (\<lambda>s'. drain_gets z ops s'))"
  by pat_completeness auto
termination
  by (relation "measure (\<lambda>(z, ops, s). length (buffer (msg_get_cache s)))")
    (auto dest!: cached_get_caches)

function drain_adds :: "zoo \<Rightarrow> 't table_ops \<Rightarrow> 't sync \<Rightarrow> 't sync res" where
  "drain_adds z ops s =
     (case queue_TryPop (msg_add_cache s) of
        None \<Rightarrow> Inr s
      | Some (m, q) \<Rightarrow> bind_res (cached_add z ops m (s\<lparr>msg_add_cache := q\<rparr>)) (\<lambda>s'. drain_adds z ops s'))"
  by pat_completeness auto
termination
  by (relation "measure (\<lambda>(z, ops, s). length (buffer (msg_add_cache s)))")
    (auto dest!: cached_add_caches)

declare drain_gets.simps [simp del] drain_adds.simps [simp del]

definition sync_ProcessAdd :: "zoo \<Rightarrow> 't table_ops \<Rightarrow> message \<Rightarrow> 't sync \<Rightarrow> 't sync res" where
  "sync_ProcessAdd z ops m s =
     bind_res (rank_to_worker_id z (sint (msg_src m))) (\<lambda>w.
     bind_res (vec_at (local_clock (get_clocks s)) w) (\<lambda>lc.
     if lc > global_clock (get_clocks s) then
       bind_res (vec_at (num_waited_add s) w) (\<lambda>k.
         Inr (s\<lparr>msg_add_cache := queue_Push m (msg_add_cache s),
                num_waited_add := (num_waited_add s)[nat w := k + 1]\<rparr>))
     else
       bind_res (sched_ProcessAdd ops m s) (\<lambda>s1.
       bind_res (clock_Update w (add_clocks s1)) (\<lambda>(b, c).
       let s2 = s1\<lparr>add_clocks := c\<rparr> in
       if b then bind_res (check (queue_Empty (msg_add_cache s2))) (\<lambda>_. drain_gets z ops s2)
       else Inr s2))))"

definition sync_ProcessGet :: "zoo \<Rightarrow> 't table_ops \<Rightarrow> message \<Rightarrow> 't sync \<Rightarrow> 't sync res" where
  "sync_ProcessGet z ops m s =
     bind_res (rank_to_worker_id z (sint (msg_src m))) (\<lambda>w.
     bind_res (vec_at (local_clock (add_clocks s)) w) (\<lambda>lc.
     bind_res (if lc > global_clock (add_clocks s) then Inr True
               else bind_res (vec_at (num_waited_add s) w) (\<lambda>k. Inr (k > 0))) (\<lambda>wait.
     if wait then
       Inr (s\<lparr>msg_get_cache := queue_Push m (msg_get_cache s)\<rparr>)
     else
       bind_res (sched_ProcessGet ops m s) (\<lambda>s1.
       bind_res (clock_Update w (get_clocks s1)) (\<lambda>(b, c).
       let s2 = s1\<lparr>get_clocks := c\<rparr> in
       if b then drain_adds z ops s2 else Inr s2)))))"

definition sync_ProcessFinishTrain :: "zoo \<Rightarrow> 't table_ops \<Rightarrow> message \<Rightarrow> 't sync \<Rightarrow> 't sync res" where
  "sync_ProcessFinishTrain z ops m s =
     bind_res (rank_to_worker_id z (sint (msg_src m))) (\<lambda>w.
     bind_res (clock_FinishTrain w (add_clocks s)) (\<lambda>(b, c).
     let s1 = s\<lparr>add_clocks := c\<rparr> in
     bind_res (if b then bind_res (check (queue_Empty (msg_add_cache s1))) (\<lambda>_. drain_gets z ops s1)
               else Inr s1) (\<lambda>s2.
     bind_res (clock_FinishTrain w (get_clocks s2)) (\<lambda>(b', c').
     let s3 = s2\<lparr>get_clocks := c'\<rparr> in
     if b' then bind_res (check (queue_Empty (msg_get_cache s3))) (\<lambda>_. drain_adds z ops s3)
     else Inr s3))))"

section \<open>Choosing the scheduler\<close>

datatype 't any_sched = AsyncSched "'t sched" | SyncSched "'t sync"

definition CreateScheduler :: "zoo \<Rightarrow> 't \<Rightarrow> disk \<Rightarrow> string \<Rightarrow> 't any_sched" where
  "CreateScheduler z t d ps_mode =
     (if ps_mode = ''async'' then AsyncSched \<lparr>table = t, outbox = [], files = d\<rparr>
      else if ps_mode = ''sync'' then SyncSched (new_sync z t d)
      else AsyncSched \<lparr>table = t, outbox = [], files = d\<rparr>)"

section \<open>The contract of a server table\<close>

text \<open>
  What the schedulers rely on: a state invariant, which requests are well formed in it, that
  a well-formed request succeeds and keeps the invariant, that being well formed does not
  depend on requests processed in between, and that reading leaves what a reader can see of
  the table as it is.
\<close>

locale server_table =
  fixes ops :: "'t table_ops" and tinv :: "'t \<Rightarrow> bool"
    and get_ok :: "blob list \<Rightarrow> bool" and add_ok :: "blob list \<Rightarrow> bool"
    and look :: "'t \<Rightarrow> 'v" and answer :: "blob list \<Rightarrow> 'v \<Rightarrow> blob list"
  assumes get_total: "tinv t \<Longrightarrow> get_ok d \<Longrightarrow>
      \<exists>t'. op_get ops t d = Inr (answer d (look t), t') \<and> tinv t' \<and> look t' = look t"
    and add_total: "tinv t \<Longrightarrow> add_ok d \<Longrightarrow> \<exists>t'. op_add ops t d = Inr t' \<and> tinv t'"
    and get_nonempty: "get_ok d \<Longrightarrow> d \<noteq> []"
    and add_nonempty: "add_ok d \<Longrightarrow> d \<noteq> []"
begin

text \<open>The asynchronous scheduler answers a well-formed request at once, to its sender.\<close>

lemma async_get_answered:
  assumes "tinv (table s)" and "get_ok (msg_data m)"
  shows "\<exists>s'. sched_ProcessGet ops m s = Inr s' \<and> tinv (table s') \<and> look (table s') = look (table s)
    \<and> outbox s' = outbox s @ [(CreateReplyMessage m)\<lparr>msg_data := answer (msg_data m) (look (table s))\<rparr>]"
  using get_total [OF assms] get_nonempty [OF assms(2)] by (auto simp: sched_ProcessGet_def)

lemma async_add_answered:
  assumes "tinv (table s)" and "add_ok (msg_data m)"
  shows "\<exists>s'. sched_ProcessAdd ops m s = Inr s' \<and> tinv (table s')
    \<and> outbox s' = outbox s @ [CreateReplyMessage m]"
  using add_total [OF assms] add_nonempty [OF assms(2)] by (auto simp: sched_ProcessAdd_def)

end

end
