(* ===== verification/SyncRounds.thy ===== *)
theory SyncRounds
  imports Sched
begin

text \<open>
  What the synchronous scheduler promises (the comment before \<open>SyncScheduler::SyncScheduler\<close>
  in src/hpps/frame/scheduler/sync_scheduler.cc): the i-th Get of every worker sees the same
  parameters, those after every worker's first i - 1 Adds.

  The clients are workers that alternate Get and Add, send nothing while a Get is unanswered
  (\<open>WorkerTable::Get\<close> waits) and may send the next Get before the last Add is answered
  (\<open>AddAsync\<close>). Their messages arrive in any interleaving. The outbox lists the answers in the
  order in which the table processed the requests.
\<close>

section \<open>Answers\<close>

definition reply_to :: "zoo \<Rightarrow> msg_type \<Rightarrow> nat \<Rightarrow> message \<Rightarrow> bool" where
  "reply_to z ty k m \<longleftrightarrow> sint (msg_dst m) = worker_ranks z ! k \<and> msg_type m = type_code ty"

definition replies :: "zoo \<Rightarrow> msg_type \<Rightarrow> nat \<Rightarrow> message list \<Rightarrow> message list" where
  "replies z ty k out = filter (reply_to z ty k) out"

abbreviation gets_done :: "zoo \<Rightarrow> nat \<Rightarrow> message list \<Rightarrow> nat" where
  "gets_done z k out \<equiv> length (replies z Reply_Get k out)"

abbreviation adds_done :: "zoo \<Rightarrow> nat \<Rightarrow> message list \<Rightarrow> nat" where
  "adds_done z k out \<equiv> length (replies z Reply_Add k out)"

definition request :: "zoo \<Rightarrow> msg_type \<Rightarrow> (blob list \<Rightarrow> bool) \<Rightarrow> nat \<Rightarrow> message \<Rightarrow> bool" where
  "request z ty ok k m \<longleftrightarrow>
     sint (msg_src m) = worker_ranks z ! k \<and> msg_type m = type_code ty \<and> ok (msg_data m)"

definition round_order :: "zoo \<Rightarrow> message list \<Rightarrow> bool" where
  "round_order z out \<longleftrightarrow> (\<forall>p < length out. \<forall>k < length (worker_ranks z). \<forall>j < length (worker_ranks z).
     (reply_to z Reply_Get k (out ! p) \<longrightarrow> adds_done z j (take p out) = gets_done z k (take p out)) \<and>
     (reply_to z Reply_Add k (out ! p) \<longrightarrow> gets_done z j (take p out) = Suc (adds_done z k (take p out))))"

lemma replies_append [simp]:
  "replies z ty k (out @ [m]) = replies z ty k out @ (if reply_to z ty k m then [m] else [])"
  by (simp add: replies_def)

lemma replies_Nil [simp]: "replies z ty k [] = []"
  by (simp add: replies_def)

lemma round_order_append:
  "round_order z (out @ [m]) \<longleftrightarrow> round_order z out \<and>
    (\<forall>k < length (worker_ranks z). \<forall>j < length (worker_ranks z).
     (reply_to z Reply_Get k m \<longrightarrow> adds_done z j out = gets_done z k out) \<and>
     (reply_to z Reply_Add k m \<longrightarrow> gets_done z j out = Suc (adds_done z k out)))"
  by (simp add: round_order_def less_Suc_eq nth_append all_conj_distrib conj_ac cong: conj_cong)

lemma reply_type [simp]:
  "msg_type m = type_code Request_Get \<Longrightarrow> msg_type (CreateReplyMessage m) = type_code Reply_Get"
  "msg_type m = type_code Request_Add \<Longrightarrow> msg_type (CreateReplyMessage m) = type_code Reply_Add"
  by simp_all

section \<open>The system of a server and its workers\<close>

record 't rounds =
  srv :: "'t sync"
  sent_gets :: "nat \<Rightarrow> nat"
  sent_adds :: "nat \<Rightarrow> nat"

definition may_get :: "zoo \<Rightarrow> nat \<Rightarrow> 't rounds \<Rightarrow> bool" where
  "may_get z k c \<longleftrightarrow> k < length (worker_ranks z) \<and> sent_gets c k = sent_adds c k
     \<and> gets_done z k (outbox (srv c)) = sent_gets c k \<and> int (sent_gets c k) + 2 < INT_MAX"

definition may_add :: "zoo \<Rightarrow> nat \<Rightarrow> 't rounds \<Rightarrow> bool" where
  "may_add z k c \<longleftrightarrow> k < length (worker_ranks z) \<and> sent_gets c k = Suc (sent_adds c k)
     \<and> gets_done z k (outbox (srv c)) = sent_gets c k \<and> int (sent_adds c k) + 2 < INT_MAX"

inductive reach ::
  "zoo \<Rightarrow> 't table_ops \<Rightarrow> (blob list \<Rightarrow> bool) \<Rightarrow> (blob list \<Rightarrow> bool) \<Rightarrow> 't \<Rightarrow> disk \<Rightarrow> 't rounds \<Rightarrow> bool"
  for z ops gok aok t0 d0 where
  start: "reach z ops gok aok t0 d0
     \<lparr>srv = new_sync z t0 d0, sent_gets = (\<lambda>_. 0), sent_adds = (\<lambda>_. 0)\<rparr>"
| send_get: "reach z ops gok aok t0 d0 c \<Longrightarrow> may_get z k c \<Longrightarrow> request z Request_Get gok k m \<Longrightarrow>
     sync_ProcessGet z ops m (srv c) = Inr s' \<Longrightarrow>
     reach z ops gok aok t0 d0
       (c\<lparr>srv := s', sent_gets := (sent_gets c)(k := Suc (sent_gets c k))\<rparr>)"
| send_add: "reach z ops gok aok t0 d0 c \<Longrightarrow> may_add z k c \<Longrightarrow> request z Request_Add aok k m \<Longrightarrow>
     sync_ProcessAdd z ops m (srv c) = Inr s' \<Longrightarrow>
     reach z ops gok aok t0 d0
       (c\<lparr>srv := s', sent_adds := (sent_adds c)(k := Suc (sent_adds c k))\<rparr>)"

section \<open>The invariant of the server\<close>

definition counts_ok :: "zoo \<Rightarrow> vclock \<Rightarrow> (nat \<Rightarrow> nat) \<Rightarrow> bool" where
  \<comment> \<open>a clock that counts the answers\<close>
  "counts_ok z c f \<longleftrightarrow> clock_inv c \<and> length (local_clock c) = length (worker_ranks z)
     \<and> (\<forall>k < length (worker_ranks z). local_clock c ! k = int (f k))"

definition server_ok :: "zoo \<Rightarrow> ('t \<Rightarrow> bool) \<Rightarrow> 't sync \<Rightarrow> bool" where
  "server_ok z tinv s \<longleftrightarrow> tinv (table s)
     \<and> counts_ok z (get_clocks s) (\<lambda>k. gets_done z k (outbox s))
     \<and> counts_ok z (add_clocks s) (\<lambda>k. adds_done z k (outbox s))
     \<and> length (num_waited_add s) = length (worker_ranks z)
     \<and> round_order z (outbox s)"

definition held :: "zoo \<Rightarrow> msg_type \<Rightarrow> (blob list \<Rightarrow> bool) \<Rightarrow> message queue \<Rightarrow> nat list \<Rightarrow> bool" where
  \<comment> \<open>the cache holds one request of each worker of the list, in that order\<close>
  "held z ty ok q ws \<longleftrightarrow> distinct ws
     \<and> list_all2 (\<lambda>m k. k < length (worker_ranks z) \<and> request z ty ok k m) (buffer q) ws"

definition answers_in :: "zoo \<Rightarrow> (blob list \<Rightarrow> bool) \<Rightarrow> (blob list \<Rightarrow> 'v \<Rightarrow> blob list)
    \<Rightarrow> (nat \<Rightarrow> 'v) \<Rightarrow> message list \<Rightarrow> bool" where
  \<comment> \<open>every worker's i-th Get was answered from the table contents \<open>V i\<close>\<close>
  "answers_in z gok answer V out \<longleftrightarrow> (\<forall>k < length (worker_ranks z). \<forall>i < gets_done z k out.
     \<exists>d. gok d \<and> msg_data (replies z Reply_Get k out ! i) = answer d (V i))"

lemma counts_ok_cong:
  "(\<And>k. k < length (worker_ranks z) \<Longrightarrow> f k = g k) \<Longrightarrow> counts_ok z c f = counts_ok z c g"
  by (simp add: counts_ok_def)

lemma counts_ok_Update:
  assumes "counts_ok z c f" and k: "k < length (worker_ranks z)"
    and near: "\<forall>j < length (worker_ranks z). f j = r \<or> f j = Suc r"
    and slow: "f k = r" and bound: "int r + 1 < INT_MAX"
  obtains c' where
    "clock_Update (int k) c = Inr (\<forall>j < length (worker_ranks z). j \<noteq> k \<longrightarrow> f j = Suc r, c')"
    and "counts_ok z c' (f(k := Suc r))"
proof -
  have c: "clock_inv c" "length (local_clock c) = length (worker_ranks z)"
    and f: "\<forall>j < length (worker_ranks z). local_clock c ! j = int (f j)"
    using assms(1) by (auto simp: counts_ok_def)
  have near': "\<forall>j < length (local_clock c). local_clock c ! j = int r \<or> local_clock c ! j = int r + 1"
    using near f c(2) by auto
  have k': "k < length (local_clock c)" "local_clock c ! k = int r" using k f slow c(2) by simp_all
  obtain c' where c': "clock_Update (int k) c =
        Inr (\<forall>j < length (local_clock c). j \<noteq> k \<longrightarrow> local_clock c ! j = int r + 1, c')"
      "local_clock c' = (local_clock c)[k := int r + 1]" "clock_inv c'"
    using clock_Update_round [OF c(1) k'(1) near' k'(2) bound] by blast
  have "(\<forall>j < length (local_clock c). j \<noteq> k \<longrightarrow> local_clock c ! j = int r + 1)
      \<longleftrightarrow> (\<forall>j < length (worker_ranks z). j \<noteq> k \<longrightarrow> f j = Suc r)"
    using f c(2) by auto
  moreover have "counts_ok z c' (f(k := Suc r))"
    using c'(2,3) c(2) f k by (auto simp: counts_ok_def nth_list_update)
  ultimately show ?thesis using that c'(1) by simp
qed

lemma counts_ok_global:
  assumes "counts_ok z c f" and "k < length (worker_ranks z)" and "f k = r"
    and "\<forall>j < length (worker_ranks z). r \<le> f j"
  shows "global_clock c = int r"
  using assms clock_global_eq [of c k "int r"] by (auto simp: counts_ok_def)

lemma counts_ok_at:
  "counts_ok z c f \<Longrightarrow> k < length (worker_ranks z) \<Longrightarrow> vec_at (local_clock c) (int k) = Inr (int (f k))"
  by (simp add: counts_ok_def)

lemma held_push:
  "held z ty ok q ws \<Longrightarrow> k \<notin> set ws \<Longrightarrow> k < length (worker_ranks z) \<Longrightarrow> request z ty ok k m \<Longrightarrow>
   held z ty ok (queue_Push m q) (ws @ [k])"
  by (simp add: held_def list_all2_appendI)

lemma held_less: "held z ty ok q ws \<Longrightarrow> k \<in> set ws \<Longrightarrow> k < length (worker_ranks z)"
  by (auto simp: held_def list_all2_conv_all_nth in_set_conv_nth)

lemma held_Nil [simp]: "held z ty ok q [] \<longleftrightarrow> buffer q = []"
  by (simp add: held_def)

lemma request_worker:
  "zoo_ok z \<Longrightarrow> k < length (worker_ranks z) \<Longrightarrow> request z ty ok k m \<Longrightarrow>
   rank_to_worker_id z (sint (msg_src m)) = Inr (int k)"
  by (simp add: request_def zoo_ok_worker)

lemma reply_to_reply:
  assumes "zoo_ok z" and "k < length (worker_ranks z)" and "j < length (worker_ranks z)"
    and "request z rty ok k m"
  shows "reply_to z ty j ((CreateReplyMessage m)\<lparr>msg_data := d\<rparr>)
           \<longleftrightarrow> j = k \<and> - type_code rty = type_code ty"
    and "reply_to z ty j (CreateReplyMessage m) \<longleftrightarrow> j = k \<and> - type_code rty = type_code ty"
  using assms zoo_ok_worker_inj [OF assms(1-3)] by (auto simp: reply_to_def request_def)

lemma not_reply [simp]:
  "- type_code Request_Get = type_code Reply_Get" "- type_code Request_Get \<noteq> type_code Reply_Add"
  "- type_code Request_Add = type_code Reply_Add" "- type_code Request_Add \<noteq> type_code Reply_Get"
  by simp_all

section \<open>Processing one request\<close>

context server_table
begin

text \<open>A Get that is not held back, while every worker has had \<open>r\<close> Adds processed.\<close>

lemma get_now:
  fixes s :: "'t sync" and r :: nat
  assumes z: "zoo_ok z" and ok: "server_ok z tinv s" and k: "k < length (worker_ranks z)"
    and m: "request z Request_Get get_ok k m"
    and adds: "\<forall>j < length (worker_ranks z). adds_done z j (outbox s) = r"
    and near: "\<forall>j < length (worker_ranks z). gets_done z j (outbox s) \<in> {r, Suc r}"
    and slow: "gets_done z k (outbox s) = r" and bound: "int r + 1 < INT_MAX"
    and ans: "answers_in z get_ok answer V (outbox s)" and V: "V r = look (table s)"
  obtains s1 c where "sched_ProcessGet ops m s = Inr s1"
    and "clock_Update (int k) (get_clocks s1) =
      Inr (\<forall>j < length (worker_ranks z). j \<noteq> k \<longrightarrow> gets_done z j (outbox s) = Suc r, c)"
    and "server_ok z tinv (s1\<lparr>get_clocks := c\<rparr>)"
    and "\<forall>j < length (worker_ranks z). gets_done z j (outbox s1) = (if j = k then Suc r else gets_done z j (outbox s))"
    and "\<forall>j < length (worker_ranks z). adds_done z j (outbox s1) = r"
    and "answers_in z get_ok answer V (outbox s1)"
    and "look (table s1) = look (table s)"
proof -
  let ?n = "length (worker_ranks z)" and ?reply = "(CreateReplyMessage m)\<lparr>msg_data := answer (msg_data m) (look (table s))\<rparr>"
  have t: "tinv (table s)" and gc: "counts_ok z (get_clocks s) (\<lambda>j. gets_done z j (outbox s))"
    and ac: "counts_ok z (add_clocks s) (\<lambda>j. adds_done z j (outbox s))"
    and nw: "length (num_waited_add s) = ?n" and ro: "round_order z (outbox s)"
    using ok by (auto simp: server_ok_def)
  have mok: "get_ok (msg_data m)" using m by (simp add: request_def)
  obtain s1 where s1: "sched_ProcessGet ops m s = Inr s1" "tinv (table s1)"
      "look (table s1) = look (table s)" "outbox s1 = outbox s @ [?reply]"
    using async_get_answered [OF t mok] by auto
  have fr: "get_clocks s1 = get_clocks s" "add_clocks s1 = add_clocks s"
      "num_waited_add s1 = num_waited_add s"
    using sync_get_frame [OF s1(1)] by simp_all
  note rep = reply_to_reply [OF z k _ m]
  have G: "gets_done z j (outbox s1) = (if j = k then Suc r else gets_done z j (outbox s))" if "j < ?n" for j
    using rep(1) [OF \<open>j < ?n\<close>] slow by (simp add: s1(4))
  have A: "adds_done z j (outbox s1) = adds_done z j (outbox s)" if "j < ?n" for j
    using rep(1) [OF \<open>j < ?n\<close>] by (simp add: s1(4))
  obtain c where c: "clock_Update (int k) (get_clocks s) =
      Inr (\<forall>j < ?n. j \<noteq> k \<longrightarrow> gets_done z j (outbox s) = Suc r, c)"
    and cok: "counts_ok z c ((\<lambda>j. gets_done z j (outbox s))(k := Suc r))"
    using counts_ok_Update [OF gc k _ slow bound] near by auto
  have "counts_ok z c (\<lambda>j. gets_done z j (outbox s1))"
    using cok counts_ok_cong [of z "\<lambda>j. gets_done z j (outbox s1)"
      "(\<lambda>j. gets_done z j (outbox s))(k := Suc r)" c] G by simp
  moreover have "counts_ok z (add_clocks s) (\<lambda>j. adds_done z j (outbox s1))"
    using ac counts_ok_cong [of z "\<lambda>j. adds_done z j (outbox s1)"
      "\<lambda>j. adds_done z j (outbox s)" "add_clocks s"] A by simp
  moreover have "round_order z (outbox s1)"
    using ro rep(1) adds slow by (auto simp: s1(4) round_order_append)
  ultimately have sok: "server_ok z tinv (s1\<lparr>get_clocks := c\<rparr>)"
    using s1(2) nw fr by (simp add: server_ok_def)
  have "answers_in z get_ok answer V (outbox s1)"
    unfolding answers_in_def
  proof (intro allI impI)
    fix j i
    assume j: "j < ?n" and i: "i < gets_done z j (outbox s1)"
    show "\<exists>d. get_ok d \<and> msg_data (replies z Reply_Get j (outbox s1) ! i) = answer d (V i)"
    proof (cases "i < gets_done z j (outbox s)")
      case True
      then show ?thesis using ans j by (auto simp: answers_in_def s1(4) nth_append)
    next
      case False
      then have "j = k" "i = r" using i G [OF j] slow by (auto split: if_splits)
      then show ?thesis
        using rep(1) [OF k] slow V mok by (auto simp: s1(4) nth_append)
    qed
  qed
  then show ?thesis
    using that [OF s1(1) _ sok] c fr G A adds s1(3) by simp
qed

text \<open>An Add that is not held back, while every worker has had \<open>r + 1\<close> Gets answered.\<close>

lemma add_now:
  fixes s :: "'t sync" and r :: nat
  assumes z: "zoo_ok z" and ok: "server_ok z tinv s" and k: "k < length (worker_ranks z)"
    and m: "request z Request_Add add_ok k m"
    and gets: "\<forall>j < length (worker_ranks z). gets_done z j (outbox s) = Suc r"
    and near: "\<forall>j < length (worker_ranks z). adds_done z j (outbox s) \<in> {r, Suc r}"
    and slow: "adds_done z k (outbox s) = r" and bound: "int r + 1 < INT_MAX"
    and ans: "answers_in z get_ok answer V (outbox s)"
  obtains s1 c where "sched_ProcessAdd ops m s = Inr s1"
    and "clock_Update (int k) (add_clocks s1) =
      Inr (\<forall>j < length (worker_ranks z). j \<noteq> k \<longrightarrow> adds_done z j (outbox s) = Suc r, c)"
    and "server_ok z tinv (s1\<lparr>add_clocks := c\<rparr>)"
    and "\<forall>j < length (worker_ranks z). adds_done z j (outbox s1) = (if j = k then Suc r else adds_done z j (outbox s))"
    and "\<forall>j < length (worker_ranks z). gets_done z j (outbox s1) = Suc r"
    and "answers_in z get_ok answer V (outbox s1)"
proof -
  let ?n = "length (worker_ranks z)"
  have t: "tinv (table s)" and gc: "counts_ok z (get_clocks s) (\<lambda>j. gets_done z j (outbox s))"
    and ac: "counts_ok z (add_clocks s) (\<lambda>j. adds_done z j (outbox s))"
    and nw: "length (num_waited_add s) = ?n" and ro: "round_order z (outbox s)"
    using ok by (auto simp: server_ok_def)
  have mok: "add_ok (msg_data m)" using m by (simp add: request_def)
  obtain s1 where s1: "sched_ProcessAdd ops m s = Inr s1" "tinv (table s1)"
      "outbox s1 = outbox s @ [CreateReplyMessage m]"
    using async_add_answered [OF t mok] by auto
  have fr: "get_clocks s1 = get_clocks s" "add_clocks s1 = add_clocks s"
      "num_waited_add s1 = num_waited_add s"
    using sync_add_frame [OF s1(1)] by simp_all
  note rep = reply_to_reply [OF z k _ m]
  have A: "adds_done z j (outbox s1) = (if j = k then Suc r else adds_done z j (outbox s))" if "j < ?n" for j
    using rep(2) [OF \<open>j < ?n\<close>] slow by (simp add: s1(3))
  have R: "replies z Reply_Get j (outbox s1) = replies z Reply_Get j (outbox s)" if "j < ?n" for j
    using rep(2) [OF \<open>j < ?n\<close>] by (simp add: s1(3))
  obtain c where c: "clock_Update (int k) (add_clocks s) =
      Inr (\<forall>j < ?n. j \<noteq> k \<longrightarrow> adds_done z j (outbox s) = Suc r, c)"
    and cok: "counts_ok z c ((\<lambda>j. adds_done z j (outbox s))(k := Suc r))"
    using counts_ok_Update [OF ac k _ slow bound] near by auto
  have "counts_ok z c (\<lambda>j. adds_done z j (outbox s1))"
    using cok counts_ok_cong [of z "\<lambda>j. adds_done z j (outbox s1)"
      "(\<lambda>j. adds_done z j (outbox s))(k := Suc r)" c] A by simp
  moreover have "counts_ok z (get_clocks s) (\<lambda>j. gets_done z j (outbox s1))"
    using gc counts_ok_cong [of z "\<lambda>j. gets_done z j (outbox s1)"
      "\<lambda>j. gets_done z j (outbox s)" "get_clocks s"] R by simp
  moreover have "round_order z (outbox s1)"
    using ro rep(2) gets slow by (auto simp: s1(3) round_order_append)
  ultimately have sok: "server_ok z tinv (s1\<lparr>add_clocks := c\<rparr>)"
    using s1(2) nw fr by (simp add: server_ok_def)
  have "answers_in z get_ok answer V (outbox s1)"
    using ans R by (simp add: answers_in_def)
  then show ?thesis
    using that [OF s1(1) _ sok] c fr A R gets by simp
qed

text \<open>The loops over the caches: every held request is processed, none completes the round.\<close>

lemma drain_gets_ok:
  fixes s :: "'t sync" and r :: nat
  assumes z: "zoo_ok z" and ok: "server_ok z tinv s"
    and hold: "held z Request_Get get_ok (msg_get_cache s) ws"
    and adds: "\<forall>j < length (worker_ranks z). adds_done z j (outbox s) = r"
    and near: "\<forall>j < length (worker_ranks z). gets_done z j (outbox s) \<in> {r, Suc r}"
    and slow: "\<forall>k \<in> set ws. gets_done z k (outbox s) = r"
    and v: "v < length (worker_ranks z)" "v \<notin> set ws" "gets_done z v (outbox s) = r"
    and bound: "int r + 1 < INT_MAX"
    and ans: "answers_in z get_ok answer V (outbox s)" and V: "V r = look (table s)"
  shows "\<exists>s'. drain_gets z ops s = Inr s' \<and> server_ok z tinv s'
    \<and> buffer (msg_get_cache s') = [] \<and> msg_add_cache s' = msg_add_cache s
    \<and> num_waited_add s' = num_waited_add s
    \<and> (\<forall>j < length (worker_ranks z). adds_done z j (outbox s') = r)
    \<and> (\<forall>j < length (worker_ranks z). gets_done z j (outbox s') =
         (if j \<in> set ws then Suc r else gets_done z j (outbox s)))
    \<and> answers_in z get_ok answer V (outbox s') \<and> look (table s') = look (table s)"
  using ok hold adds near slow v ans V
proof (induction ws arbitrary: s)
  case Nil
  then have e: "queue_TryPop (msg_get_cache s) = None" by simp
  show ?case using Nil by (auto simp: drain_gets.simps [of z ops s] e)
next
  case (Cons k ws)
  let ?n = "length (worker_ranks z)"
  obtain m q where pop: "queue_TryPop (msg_get_cache s) = Some (m, q)"
    and k: "k < ?n" and m: "request z Request_Get get_ok k m"
    and hold': "held z Request_Get get_ok q ws" and kws: "k \<notin> set ws"
    using Cons.prems(2)
    by (cases "buffer (msg_get_cache s)")
      (auto simp: held_def queue_TryPop_def simp del: queue_TryPop_Some split: list.splits)
  let ?s = "s\<lparr>msg_get_cache := q\<rparr>"
  have ok': "server_ok z tinv ?s" using Cons.prems(1) by (simp add: server_ok_def)
  have slow': "gets_done z k (outbox ?s) = r" using Cons.prems(5) by simp
  obtain s1 c where s1: "sched_ProcessGet ops m ?s = Inr s1"
    and u: "clock_Update (int k) (get_clocks s1) =
      Inr (\<forall>j < ?n. j \<noteq> k \<longrightarrow> gets_done z j (outbox ?s) = Suc r, c)"
    and ok1: "server_ok z tinv (s1\<lparr>get_clocks := c\<rparr>)"
    and g1: "\<forall>j < ?n. gets_done z j (outbox s1) = (if j = k then Suc r else gets_done z j (outbox ?s))"
    and a1: "\<forall>j < ?n. adds_done z j (outbox s1) = r"
    and ans1: "answers_in z get_ok answer V (outbox s1)"
    and look1: "look (table s1) = look (table ?s)"
    using get_now [OF z ok' k m _ _ slow' bound, of V] Cons.prems by auto
  have "\<not> (\<forall>j < ?n. j \<noteq> k \<longrightarrow> gets_done z j (outbox ?s) = Suc r)"
    using Cons.prems(6,7,8) by auto
  then have step: "cached_get z ops m ?s = Inr (s1\<lparr>get_clocks := c\<rparr>)"
    using s1 u request_worker [OF z k m] by (simp add: cached_get_def)
  note fr = sync_get_frame [OF s1]
  have "\<exists>s'. drain_gets z ops (s1\<lparr>get_clocks := c\<rparr>) = Inr s' \<and> server_ok z tinv s'
    \<and> buffer (msg_get_cache s') = [] \<and> msg_add_cache s' = msg_add_cache (s1\<lparr>get_clocks := c\<rparr>)
    \<and> num_waited_add s' = num_waited_add (s1\<lparr>get_clocks := c\<rparr>)
    \<and> (\<forall>j < ?n. adds_done z j (outbox s') = r)
    \<and> (\<forall>j < ?n. gets_done z j (outbox s') =
         (if j \<in> set ws then Suc r else gets_done z j (outbox (s1\<lparr>get_clocks := c\<rparr>))))
    \<and> answers_in z get_ok answer V (outbox s')
    \<and> look (table s') = look (table (s1\<lparr>get_clocks := c\<rparr>))"
    using ok1 hold' fr a1 g1 Cons.prems kws look1 ans1 held_less [OF hold']
    by (intro Cons.IH) auto
  then show ?case
    using fr g1 look1 by (auto simp: drain_gets.simps [of z ops s] pop step)
qed

lemma drain_adds_ok:
  fixes s :: "'t sync" and r :: nat
  assumes z: "zoo_ok z" and ok: "server_ok z tinv s"
    and hold: "held z Request_Add add_ok (msg_add_cache s) ws"
    and gets: "\<forall>j < length (worker_ranks z). gets_done z j (outbox s) = Suc r"
    and near: "\<forall>j < length (worker_ranks z). adds_done z j (outbox s) \<in> {r, Suc r}"
    and slow: "\<forall>k \<in> set ws. adds_done z k (outbox s) = r"
    and v: "v < length (worker_ranks z)" "v \<notin> set ws" "adds_done z v (outbox s) = r"
    and bound: "int r + 1 < INT_MAX"
    and ans: "answers_in z get_ok answer V (outbox s)"
  shows "\<exists>s'. drain_adds z ops s = Inr s' \<and> server_ok z tinv s'
    \<and> buffer (msg_add_cache s') = [] \<and> msg_get_cache s' = msg_get_cache s
    \<and> (\<forall>j < length (worker_ranks z). num_waited_add s' ! j =
         num_waited_add s ! j - (if j \<in> set ws then 1 else 0))
    \<and> (\<forall>j < length (worker_ranks z). gets_done z j (outbox s') = Suc r)
    \<and> (\<forall>j < length (worker_ranks z). adds_done z j (outbox s') =
         (if j \<in> set ws then Suc r else adds_done z j (outbox s)))
    \<and> answers_in z get_ok answer V (outbox s')"
  using ok hold gets near slow v ans
proof (induction ws arbitrary: s)
  case Nil
  then have e: "queue_TryPop (msg_add_cache s) = None" by simp
  show ?case using Nil by (auto simp: drain_adds.simps [of z ops s] e)
next
  case (Cons k ws)
  let ?n = "length (worker_ranks z)"
  obtain m q where pop: "queue_TryPop (msg_add_cache s) = Some (m, q)"
    and k: "k < ?n" and m: "request z Request_Add add_ok k m"
    and hold': "held z Request_Add add_ok q ws" and kws: "k \<notin> set ws"
    using Cons.prems(2)
    by (cases "buffer (msg_add_cache s)")
      (auto simp: held_def queue_TryPop_def simp del: queue_TryPop_Some split: list.splits)
  let ?s = "s\<lparr>msg_add_cache := q\<rparr>"
  have ok': "server_ok z tinv ?s" using Cons.prems(1) by (simp add: server_ok_def)
  have slow': "adds_done z k (outbox ?s) = r" using Cons.prems(5) by simp
  obtain s1 c where s1: "sched_ProcessAdd ops m ?s = Inr s1"
    and u: "clock_Update (int k) (add_clocks s1) =
      Inr (\<forall>j < ?n. j \<noteq> k \<longrightarrow> adds_done z j (outbox ?s) = Suc r, c)"
    and ok1: "server_ok z tinv (s1\<lparr>add_clocks := c\<rparr>)"
    and a1: "\<forall>j < ?n. adds_done z j (outbox s1) = (if j = k then Suc r else adds_done z j (outbox ?s))"
    and g1: "\<forall>j < ?n. gets_done z j (outbox s1) = Suc r"
    and ans1: "answers_in z get_ok answer V (outbox s1)"
    using add_now [OF z ok' k m _ _ slow' bound, of V] Cons.prems by auto
  have nlast: "\<not> (\<forall>j < ?n. j \<noteq> k \<longrightarrow> adds_done z j (outbox ?s) = Suc r)"
    using Cons.prems(6,7,8) by auto
  note fr = sync_add_frame [OF s1]
  have lw: "length (num_waited_add s) = ?n" using Cons.prems(1) by (simp add: server_ok_def)
  let ?w = "(num_waited_add s)[k := num_waited_add s ! k - 1]"
  let ?s2 = "s1\<lparr>add_clocks := c, num_waited_add := ?w\<rparr>"
  have step: "cached_add z ops m ?s = Inr ?s2"
    using s1 u nlast request_worker [OF z k m] fr k lw by (simp add: cached_add_def)
  have ok2: "server_ok z tinv ?s2" using ok1 lw by (simp add: server_ok_def)
  have "\<exists>s'. drain_adds z ops ?s2 = Inr s' \<and> server_ok z tinv s'
    \<and> buffer (msg_add_cache s') = [] \<and> msg_get_cache s' = msg_get_cache ?s2
    \<and> (\<forall>j < ?n. num_waited_add s' ! j = num_waited_add ?s2 ! j - (if j \<in> set ws then 1 else 0))
    \<and> (\<forall>j < ?n. gets_done z j (outbox s') = Suc r)
    \<and> (\<forall>j < ?n. adds_done z j (outbox s') =
         (if j \<in> set ws then Suc r else adds_done z j (outbox ?s2)))
    \<and> answers_in z get_ok answer V (outbox s')"
    using ok2 hold' fr a1 g1 Cons.prems kws ans1 held_less [OF hold']
    by (intro Cons.IH) auto
  then show ?case
    using fr a1 kws lw k by (auto simp: drain_adds.simps [of z ops s] pop step nth_list_update)
qed

end

section \<open>The invariant of the system\<close>

text \<open>
  Between the Gets of round \<open>r\<close> being open and all of
  them answered (the Get phase) no Add is processed, so the table stays as it is; between
  that and all Adds of the round being processed (the Add phase) no Get is answered.
\<close>

definition get_phase :: "zoo \<Rightarrow> nat \<Rightarrow> nat list \<Rightarrow> nat list \<Rightarrow> message list \<Rightarrow> bool" where
  "get_phase z r wsA wsG out \<longleftrightarrow>
     (\<forall>j < length (worker_ranks z). adds_done z j out = r \<and> gets_done z j out \<in> {r, Suc r})
     \<and> (\<exists>k < length (worker_ranks z). gets_done z k out = r)
     \<and> (\<forall>k \<in> set wsA. gets_done z k out = Suc r) \<and> set wsG \<subseteq> set wsA"

definition add_phase :: "zoo \<Rightarrow> nat \<Rightarrow> nat list \<Rightarrow> nat list \<Rightarrow> message list \<Rightarrow> bool" where
  "add_phase z r wsA wsG out \<longleftrightarrow>
     (\<forall>j < length (worker_ranks z). gets_done z j out = Suc r \<and> adds_done z j out \<in> {r, Suc r})
     \<and> (\<exists>k < length (worker_ranks z). adds_done z k out = r)
     \<and> wsA = [] \<and> (\<forall>k \<in> set wsG. adds_done z k out = Suc r)"

definition rounds_state ::
  "zoo \<Rightarrow> ('t \<Rightarrow> bool) \<Rightarrow> (blob list \<Rightarrow> bool) \<Rightarrow> (blob list \<Rightarrow> bool) \<Rightarrow> ('t \<Rightarrow> 'v)
   \<Rightarrow> (blob list \<Rightarrow> 'v \<Rightarrow> blob list) \<Rightarrow> nat \<Rightarrow> (nat \<Rightarrow> 'v) \<Rightarrow> nat list \<Rightarrow> nat list \<Rightarrow> 't rounds \<Rightarrow> bool" where
  "rounds_state z tinv gok aok look answer r V wsA wsG c \<longleftrightarrow>
     server_ok z tinv (srv c)
     \<and> held z Request_Add aok (msg_add_cache (srv c)) wsA
     \<and> held z Request_Get gok (msg_get_cache (srv c)) wsG
     \<and> (\<forall>k < length (worker_ranks z). num_waited_add (srv c) ! k = (if k \<in> set wsA then 1 else 0))
     \<and> (\<forall>k < length (worker_ranks z).
          sent_gets c k = gets_done z k (outbox (srv c)) + (if k \<in> set wsG then 1 else 0)
          \<and> sent_adds c k = adds_done z k (outbox (srv c)) + (if k \<in> set wsA then 1 else 0))
     \<and> answers_in z gok answer V (outbox (srv c))
     \<and> (get_phase z r wsA wsG (outbox (srv c)) \<and> V r = look (table (srv c))
        \<or> add_phase z r wsA wsG (outbox (srv c)))"

definition rounds_inv ::
  "zoo \<Rightarrow> ('t \<Rightarrow> bool) \<Rightarrow> (blob list \<Rightarrow> bool) \<Rightarrow> (blob list \<Rightarrow> bool) \<Rightarrow> ('t \<Rightarrow> 'v)
   \<Rightarrow> (blob list \<Rightarrow> 'v \<Rightarrow> blob list) \<Rightarrow> 't rounds \<Rightarrow> bool" where
  "rounds_inv z tinv gok aok look answer c \<longleftrightarrow>
     (\<exists>r V wsA wsG. rounds_state z tinv gok aok look answer r V wsA wsG c)"

lemma get_phaseE:
  assumes "get_phase z r wsA wsG out"
  obtains k where "k < length (worker_ranks z)" "gets_done z k out = r" "adds_done z k out = r"
    "k \<notin> set wsA" "k \<notin> set wsG"
proof -
  obtain k where k: "k < length (worker_ranks z)" "gets_done z k out = r"
    using assms unfolding get_phase_def by blast
  have a: "adds_done z k out = r" using assms k(1) unfolding get_phase_def by blast
  have "k \<notin> set wsA"
  proof
    assume "k \<in> set wsA"
    then have "gets_done z k out = Suc r" using assms unfolding get_phase_def by blast
    with k(2) show False by simp
  qed
  moreover have "set wsG \<subseteq> set wsA" using assms unfolding get_phase_def by blast
  ultimately show ?thesis using that k a by blast
qed

lemma add_phaseE:
  assumes "add_phase z r wsA wsG out"
  obtains k where "k < length (worker_ranks z)" "gets_done z k out = Suc r" "adds_done z k out = r"
    "k \<notin> set wsA" "k \<notin> set wsG"
proof -
  obtain k where k: "k < length (worker_ranks z)" "adds_done z k out = r"
    using assms unfolding add_phase_def by blast
  have g: "gets_done z k out = Suc r" using assms k(1) unfolding add_phase_def by blast
  have "k \<notin> set wsG"
  proof
    assume "k \<in> set wsG"
    then have "adds_done z k out = Suc r" using assms unfolding add_phase_def by blast
    with k(2) show False by simp
  qed
  moreover have "k \<notin> set wsA" using assms unfolding add_phase_def by simp
  ultimately show ?thesis using that k g by blast
qed

lemma rounds_stateI:
  assumes "server_ok z tinv (srv c)"
    and "held z Request_Add aok (msg_add_cache (srv c)) wsA"
    and "held z Request_Get gok (msg_get_cache (srv c)) wsG"
    and "\<And>k. k < length (worker_ranks z) \<Longrightarrow> num_waited_add (srv c) ! k = (if k \<in> set wsA then 1 else 0)"
    and "\<And>k. k < length (worker_ranks z) \<Longrightarrow>
      sent_gets c k = gets_done z k (outbox (srv c)) + (if k \<in> set wsG then 1 else 0)"
    and "\<And>k. k < length (worker_ranks z) \<Longrightarrow>
      sent_adds c k = adds_done z k (outbox (srv c)) + (if k \<in> set wsA then 1 else 0)"
    and "answers_in z gok answer V (outbox (srv c))"
    and "get_phase z r wsA wsG (outbox (srv c)) \<and> V r = look (table (srv c))
        \<or> add_phase z r wsA wsG (outbox (srv c))"
  shows "rounds_state z tinv gok aok look answer r V wsA wsG c"
  using assms by (simp add: rounds_state_def)

lemma rounds_stateD:
  assumes "rounds_state z tinv gok aok look answer r V wsA wsG c"
  shows "server_ok z tinv (srv c)"
    and "held z Request_Add aok (msg_add_cache (srv c)) wsA"
    and "held z Request_Get gok (msg_get_cache (srv c)) wsG"
    and "k < length (worker_ranks z) \<Longrightarrow> num_waited_add (srv c) ! k = (if k \<in> set wsA then 1 else 0)"
    and "k < length (worker_ranks z) \<Longrightarrow>
      sent_gets c k = gets_done z k (outbox (srv c)) + (if k \<in> set wsG then 1 else 0)"
    and "k < length (worker_ranks z) \<Longrightarrow>
      sent_adds c k = adds_done z k (outbox (srv c)) + (if k \<in> set wsA then 1 else 0)"
    and "answers_in z gok answer V (outbox (srv c))"
    and "get_phase z r wsA wsG (outbox (srv c)) \<and> V r = look (table (srv c))
        \<or> add_phase z r wsA wsG (outbox (srv c))"
    and "length (num_waited_add (srv c)) = length (worker_ranks z)"
    and "counts_ok z (get_clocks (srv c)) (\<lambda>k. gets_done z k (outbox (srv c)))"
    and "counts_ok z (add_clocks (srv c)) (\<lambda>k. adds_done z k (outbox (srv c)))"
  using assms by (auto simp: rounds_state_def server_ok_def)

lemma answers_in_upd:
  assumes "answers_in z gok answer V out"
    and "\<forall>j < length (worker_ranks z). gets_done z j out \<le> r"
  shows "answers_in z gok answer (V(r := v)) out"
  unfolding answers_in_def
proof (intro allI impI)
  fix k i
  assume k: "k < length (worker_ranks z)" and i: "i < gets_done z k out"
  have "gets_done z k out \<le> r" using assms(2) k by blast
  with i have "i \<noteq> r" by linarith
  then show "\<exists>d. gok d \<and> msg_data (replies z Reply_Get k out ! i) = answer d ((V(r := v)) i)"
    using assms(1) k i by (simp add: answers_in_def)
qed

context server_table
begin

abbreviation sys_inv :: "zoo \<Rightarrow> 't rounds \<Rightarrow> bool" where
  "sys_inv z c \<equiv> rounds_inv z tinv get_ok add_ok look answer c"

abbreviation sys_state :: "zoo \<Rightarrow> nat \<Rightarrow> (nat \<Rightarrow> 'v) \<Rightarrow> nat list \<Rightarrow> nat list \<Rightarrow> 't rounds \<Rightarrow> bool" where
  "sys_state z r V wsA wsG c \<equiv> rounds_state z tinv get_ok add_ok look answer r V wsA wsG c"

abbreviation after_get :: "nat \<Rightarrow> 't sync \<Rightarrow> 't rounds \<Rightarrow> 't rounds" where
  "after_get k s c \<equiv> c\<lparr>srv := s, sent_gets := (sent_gets c)(k := Suc (sent_gets c k))\<rparr>"

abbreviation after_add :: "nat \<Rightarrow> 't sync \<Rightarrow> 't rounds \<Rightarrow> 't rounds" where
  "after_add k s c \<equiv> c\<lparr>srv := s, sent_adds := (sent_adds c)(k := Suc (sent_adds c k))\<rparr>"

lemma start_inv:
  assumes z: "zoo_ok z" and n: "worker_ranks z \<noteq> []" and t: "tinv t0"
  shows "sys_inv z \<lparr>srv = new_sync z t0 d0, sent_gets = (\<lambda>_. 0), sent_adds = (\<lambda>_. 0)\<rparr>"
proof -
  have nw: "nat (num_workers z) = length (worker_ranks z)" using z by (simp add: zoo_ok_def)
  have "counts_ok z (new_clock (length (worker_ranks z))) (\<lambda>k. 0)"
    using n by (simp add: counts_ok_def clock_inv_new) (simp add: new_clock_def)
  then have "sys_state z 0 (\<lambda>_. look t0) [] []
      \<lparr>srv = new_sync z t0 d0, sent_gets = (\<lambda>_. 0), sent_adds = (\<lambda>_. 0)\<rparr>"
    using n t nw by (auto simp: rounds_state_def server_ok_def new_sync_def get_phase_def
      round_order_def answers_in_def)
  then show ?thesis unfolding rounds_inv_def by blast
qed

lemma get_held:
  assumes st: "sys_state z r V wsA wsG c" and k: "k < length (worker_ranks z)" "k \<notin> set wsG"
    and m: "request z Request_Get get_ok k m"
    and wait: "get_phase z r wsA wsG (outbox (srv c)) \<and> k \<in> set wsA \<and> V r = look (table (srv c))
      \<or> add_phase z r wsA wsG (outbox (srv c)) \<and> adds_done z k (outbox (srv c)) = Suc r"
  shows "sys_state z r V wsA (wsG @ [k])
    (after_get k ((srv c)\<lparr>msg_get_cache := queue_Push m (msg_get_cache (srv c))\<rparr>) c)"
proof (rule rounds_stateI, goal_cases)
  case 1 show ?case using rounds_stateD(1) [OF st] by (simp add: server_ok_def)
next
  case 2 show ?case using rounds_stateD(2) [OF st] by simp
next
  case 3 show ?case using rounds_stateD(3) [OF st] k m by (simp add: held_push)
next
  case (4 j) then show ?case using rounds_stateD(4) [OF st] by simp
next
  case (5 j) then show ?case using rounds_stateD(5) [OF st] k by auto
next
  case (6 j) then show ?case using rounds_stateD(6) [OF st] by simp
next
  case 7 show ?case using rounds_stateD(7) [OF st] by simp
next
  case 8 show ?case
    using wait k(1) by (elim disjE conjE) (simp_all add: get_phase_def add_phase_def)
qed

lemma add_held:
  assumes st: "sys_state z r V wsA wsG c" and k: "k < length (worker_ranks z)" "k \<notin> set wsA"
    and m: "request z Request_Add add_ok k m"
    and wait: "get_phase z r wsA wsG (outbox (srv c))" "V r = look (table (srv c))"
      "gets_done z k (outbox (srv c)) = Suc r"
  shows "sys_state z r V (wsA @ [k]) wsG
    (after_add k ((srv c)\<lparr>msg_add_cache := queue_Push m (msg_add_cache (srv c)),
       num_waited_add := (num_waited_add (srv c))[k := 1]\<rparr>) c)"
proof (rule rounds_stateI, goal_cases)
  case 1 show ?case using rounds_stateD(1) [OF st] by (simp add: server_ok_def)
next
  case 2 show ?case using rounds_stateD(2) [OF st] k m by (simp add: held_push)
next
  case 3 show ?case using rounds_stateD(3) [OF st] by simp
next
  case (4 j) then show ?case
    using rounds_stateD(4) [OF st] rounds_stateD(9) [OF st] k by (auto simp: nth_list_update)
next
  case (5 j) then show ?case using rounds_stateD(5) [OF st] by simp
next
  case (6 j) then show ?case using rounds_stateD(6) [OF st] k by auto
next
  case 7 show ?case using rounds_stateD(7) [OF st] by simp
next
  case 8 show ?case using wait by (auto simp: get_phase_def)
qed

text \<open>A get that is not the last of its round changes the clock of its worker and nothing else.\<close>

lemma get_counts:
  assumes st: "sys_state z r V wsA wsG c"
    and k: "k < length (worker_ranks z)" "k \<notin> set wsA" "gets_done z k (outbox (srv c)) = r"
    and ph: "get_phase z r wsA wsG (outbox (srv c))" "V r = look (table (srv c))"
    and s1: "sched_ProcessGet ops m (srv c) = Inr s1"
    and ok1: "server_ok z tinv (s1\<lparr>get_clocks := c1\<rparr>)"
    and g1: "\<forall>j < length (worker_ranks z).
      gets_done z j (outbox s1) = (if j = k then Suc r else gets_done z j (outbox (srv c)))"
    and a1: "\<forall>j < length (worker_ranks z). adds_done z j (outbox s1) = r"
    and ans1: "answers_in z get_ok answer V (outbox s1)"
    and look1: "look (table s1) = look (table (srv c))"
    and more: "\<not> (\<forall>j < length (worker_ranks z). j \<noteq> k \<longrightarrow> gets_done z j (outbox (srv c)) = Suc r)"
  shows "sys_state z r V wsA wsG (after_get k (s1\<lparr>get_clocks := c1\<rparr>) c)"
proof -
  let ?n = "length (worker_ranks z)" and ?s = "srv c"
  note d = rounds_stateD [OF st]
  note fr = sync_get_frame [OF s1]
  have adds: "\<forall>j < ?n. adds_done z j (outbox ?s) = r"
    and near: "\<forall>j < ?n. gets_done z j (outbox ?s) \<in> {r, Suc r}"
    and wA: "\<forall>j \<in> set wsA. gets_done z j (outbox ?s) = Suc r" and wG: "set wsG \<subseteq> set wsA"
    using ph(1) by (auto simp: get_phase_def)
  from more obtain j where j: "j < ?n" "j \<noteq> k" "gets_done z j (outbox ?s) = r" using near by blast
  have "gets_done z j (outbox s1) = r" using g1 j by simp
  moreover have "\<forall>i \<in> set wsA. gets_done z i (outbox s1) = Suc r"
    using g1 wA held_less [OF d(2)] by simp
  ultimately have "get_phase z r wsA wsG (outbox s1)"
    using near g1 a1 wG j(1) by (auto simp: get_phase_def)
  then show ?thesis
  proof (intro rounds_stateI, goal_cases)
    case 1 show ?case using ok1 by simp
  next
    case 2 show ?case using d(2) fr by simp
  next
    case 3 show ?case using d(3) fr by simp
  next
    case (4 j) then show ?case using d(4) [of j] fr by simp
  next
    case (5 j) then show ?case using d(5) [of j] g1 k wG by auto
  next
    case (6 j) then show ?case using d(6) [of j] a1 adds by simp
  next
    case 7 show ?case using ans1 by simp
  next
    case 8 then show ?case using look1 ph(2) by simp
  qed
qed

text \<open>The last get of a round lets the held adds through, and a new round begins.\<close>

lemma get_turns:
  assumes z: "zoo_ok z" and bound: "int r + 2 < INT_MAX"
    and last: "\<forall>j < length (worker_ranks z). j \<noteq> k \<longrightarrow> gets_done z j (outbox (srv c)) = Suc r"
    and st: "sys_state z r V wsA wsG c"
    and k: "k < length (worker_ranks z)" "k \<notin> set wsA" "gets_done z k (outbox (srv c)) = r"
    and ph: "get_phase z r wsA wsG (outbox (srv c))" "V r = look (table (srv c))"
    and s1: "sched_ProcessGet ops m (srv c) = Inr s1"
    and ok1: "server_ok z tinv (s1\<lparr>get_clocks := c1\<rparr>)"
    and g1: "\<forall>j < length (worker_ranks z).
      gets_done z j (outbox s1) = (if j = k then Suc r else gets_done z j (outbox (srv c)))"
    and a1: "\<forall>j < length (worker_ranks z). adds_done z j (outbox s1) = r"
    and ans1: "answers_in z get_ok answer V (outbox s1)"
  shows "\<exists>s'. drain_adds z ops (s1\<lparr>get_clocks := c1\<rparr>) = Inr s' \<and> sys_state z r V [] wsG (after_get k s' c)"
proof -
  let ?n = "length (worker_ranks z)" and ?s = "srv c"
  note d = rounds_stateD [OF st]
  note fr = sync_get_frame [OF s1]
  have adds: "\<forall>j < ?n. adds_done z j (outbox ?s) = r"
    and near: "\<forall>j < ?n. gets_done z j (outbox ?s) \<in> {r, Suc r}"
    and wA: "\<forall>j \<in> set wsA. gets_done z j (outbox ?s) = Suc r" and wG: "set wsG \<subseteq> set wsA"
    using ph(1) by (auto simp: get_phase_def)
  have hA: "held z Request_Add add_ok (msg_add_cache (s1\<lparr>get_clocks := c1\<rparr>)) wsA"
    using d(2) fr by simp
  let ?s2 = "s1\<lparr>get_clocks := c1\<rparr>"
  have g2: "\<forall>j < ?n. gets_done z j (outbox ?s2) = Suc r" using g1 last by simp
  have a2: "\<forall>j < ?n. adds_done z j (outbox ?s2) = r" using a1 by simp
  have n2: "\<forall>j < ?n. adds_done z j (outbox ?s2) \<in> {r, Suc r}"
    "\<forall>j \<in> set wsA. adds_done z j (outbox ?s2) = r" using a2 held_less [OF hA] by simp_all
  have b2: "int r + 1 < INT_MAX" using bound by simp
  have ans2: "answers_in z get_ok answer V (outbox ?s2)" using ans1 by simp
  obtain s' where s': "drain_adds z ops ?s2 = Inr s'" "server_ok z tinv s'"
      "buffer (msg_add_cache s') = []" "msg_get_cache s' = msg_get_cache ?s2"
    and w2: "\<forall>j < ?n. num_waited_add s' ! j = num_waited_add ?s2 ! j - (if j \<in> set wsA then 1 else 0)"
    and g': "\<forall>j < ?n. gets_done z j (outbox s') = Suc r"
    and a3: "\<forall>j < ?n. adds_done z j (outbox s') = (if j \<in> set wsA then Suc r else adds_done z j (outbox ?s2))"
    and ans': "answers_in z get_ok answer V (outbox s')"
    using drain_adds_ok [OF z ok1 hA g2 n2 k(1,2) a2 [rule_format, OF k(1)] b2 ans2] by blast
  have w': "\<forall>j < ?n. num_waited_add s' ! j = num_waited_add ?s ! j - (if j \<in> set wsA then 1 else 0)"
    using w2 fr by simp
  have a': "\<forall>j < ?n. adds_done z j (outbox s') = (if j \<in> set wsA then Suc r else r)"
    using a3 a2 by simp
  have "add_phase z r [] wsG (outbox s')"
    using g' a' k wG held_less [OF d(3)] by (auto simp: add_phase_def)
  then have "sys_state z r V [] wsG (after_get k s' c)"
  proof (intro rounds_stateI, goal_cases)
    case 1 show ?case using s'(2) by simp
  next
    case 2 show ?case using s'(3) by simp
  next
    case 3 show ?case using d(3) s'(4) fr by simp
  next
    case (4 j) then show ?case using d(4) [of j] w' by simp
  next
    case (5 j) then show ?case using d(5) [of j] g' k last wG by auto
  next
    case (6 j) then show ?case using d(6) [of j] a' adds by simp
  next
    case 7 show ?case using ans' by simp
  next
    case 8 then show ?case by simp
  qed
  then show ?thesis using s'(1) by blast
qed

lemma get_go:
  assumes z: "zoo_ok z" and st: "sys_state z r V wsA wsG c"
    and k: "k < length (worker_ranks z)" "k \<notin> set wsA" "gets_done z k (outbox (srv c)) = r"
    and ph: "get_phase z r wsA wsG (outbox (srv c))" "V r = look (table (srv c))"
    and m: "request z Request_Get get_ok k m" and bound: "int r + 2 < INT_MAX"
  shows "\<exists>s' wsA'. sync_ProcessGet z ops m (srv c) = Inr s'
    \<and> sys_state z r V wsA' wsG (after_get k s' c)"
proof -
  let ?n = "length (worker_ranks z)" and ?s = "srv c"
  note d = rounds_stateD [OF st]
  have adds: "\<forall>j < ?n. adds_done z j (outbox ?s) = r"
    and near: "\<forall>j < ?n. gets_done z j (outbox ?s) \<in> {r, Suc r}"
    and wA: "\<forall>j \<in> set wsA. gets_done z j (outbox ?s) = Suc r" and wG: "set wsG \<subseteq> set wsA"
    using ph(1) by (auto simp: get_phase_def)
  obtain s1 c1 where s1: "sched_ProcessGet ops m ?s = Inr s1"
    and u: "clock_Update (int k) (get_clocks s1) =
      Inr (\<forall>j < ?n. j \<noteq> k \<longrightarrow> gets_done z j (outbox ?s) = Suc r, c1)"
    and ok1: "server_ok z tinv (s1\<lparr>get_clocks := c1\<rparr>)"
    and g1: "\<forall>j < ?n. gets_done z j (outbox s1) = (if j = k then Suc r else gets_done z j (outbox ?s))"
    and a1: "\<forall>j < ?n. adds_done z j (outbox s1) = r"
    and ans1: "answers_in z get_ok answer V (outbox s1)" and look1: "look (table s1) = look (table ?s)"
    using get_now [OF z d(1) k(1) m adds near k(3) _ d(7) ph(2)] bound by auto
  note fr = sync_get_frame [OF s1]
  have ag: "global_clock (add_clocks ?s) = int r"
    using counts_ok_global [OF d(11) k(1), of r] adds k(1) by simp
  let ?last = "\<forall>j < ?n. j \<noteq> k \<longrightarrow> gets_done z j (outbox ?s) = Suc r"
  have run: "sync_ProcessGet z ops m ?s =
      (if ?last then drain_adds z ops (s1\<lparr>get_clocks := c1\<rparr>) else Inr (s1\<lparr>get_clocks := c1\<rparr>))"
    using request_worker [OF z k(1) m] counts_ok_at [OF d(11) k(1)] adds k d(4) d(9) ag
    by (simp add: sync_ProcessGet_def Let_def s1 u)
  show ?thesis
  proof (cases ?last)
    case False
    then show ?thesis using get_counts [OF st k ph s1 ok1 g1 a1 ans1 look1 False] run by auto
  next
    case True
    then show ?thesis using get_turns [OF z bound True st k ph s1 ok1 g1 a1 ans1] run by auto
  qed
qed

text \<open>An add that is not the last of its round changes the clock of its worker and the table.\<close>

lemma add_counts:
  assumes st: "sys_state z r V wsA wsG c"
    and k: "k < length (worker_ranks z)" "k \<notin> set wsG" "adds_done z k (outbox (srv c)) = r"
    and ph: "add_phase z r wsA wsG (outbox (srv c))"
    and s1: "sched_ProcessAdd ops m (srv c) = Inr s1"
    and ok1: "server_ok z tinv (s1\<lparr>add_clocks := c1\<rparr>)"
    and a1: "\<forall>j < length (worker_ranks z).
      adds_done z j (outbox s1) = (if j = k then Suc r else adds_done z j (outbox (srv c)))"
    and g1: "\<forall>j < length (worker_ranks z). gets_done z j (outbox s1) = Suc r"
    and ans1: "answers_in z get_ok answer V (outbox s1)"
    and more: "\<not> (\<forall>j < length (worker_ranks z). j \<noteq> k \<longrightarrow> adds_done z j (outbox (srv c)) = Suc r)"
  shows "sys_state z r V [] wsG (after_add k (s1\<lparr>add_clocks := c1\<rparr>) c)"
proof -
  let ?n = "length (worker_ranks z)" and ?s = "srv c" and ?s2 = "s1\<lparr>add_clocks := c1\<rparr>"
  note d = rounds_stateD [OF st]
  note fr = sync_add_frame [OF s1]
  have gets: "\<forall>j < ?n. gets_done z j (outbox ?s) = Suc r"
    and near: "\<forall>j < ?n. adds_done z j (outbox ?s) \<in> {r, Suc r}"
    and wA: "wsA = []" and wG: "\<forall>j \<in> set wsG. adds_done z j (outbox ?s) = Suc r"
    using ph by (auto simp: add_phase_def)
  have empty: "buffer (msg_add_cache ?s) = []" using d(2) wA by simp
  from more obtain j where j: "j < ?n" "j \<noteq> k" "adds_done z j (outbox ?s) = r" using near by blast
  have "adds_done z j (outbox s1) = r" using a1 j by simp
  moreover have "\<forall>i \<in> set wsG. adds_done z i (outbox s1) = Suc r"
    using a1 wG held_less [OF d(3)] by simp
  ultimately have ph1: "add_phase z r [] wsG (outbox s1)"
    using near a1 g1 j(1) by (auto simp: add_phase_def)
  show ?thesis
  proof (intro rounds_stateI, goal_cases)
    case 1 show ?case using ok1 by simp
  next
    case 2 show ?case using empty fr by simp
  next
    case 3 show ?case using d(3) fr by simp
  next
    case (4 j) then show ?case using d(4) [of j] fr wA by simp
  next
    case (5 j) then show ?case using d(5) [of j] g1 gets by simp
  next
    case (6 j) then show ?case using d(6) [of j] a1 k wA by auto
  next
    case 7 show ?case using ans1 by simp
  next
    case 8 show ?case using ph1 by simp
  qed
qed

text \<open>The last add of a round lets the held gets through: they see all adds of the round.\<close>

lemma add_turns:
  assumes z: "zoo_ok z" and bound: "int r + 2 < INT_MAX"
    and last: "\<forall>j < length (worker_ranks z). j \<noteq> k \<longrightarrow> adds_done z j (outbox (srv c)) = Suc r"
    and st: "sys_state z r V wsA wsG c"
    and k: "k < length (worker_ranks z)" "k \<notin> set wsG" "adds_done z k (outbox (srv c)) = r"
    and ph: "add_phase z r wsA wsG (outbox (srv c))"
    and s1: "sched_ProcessAdd ops m (srv c) = Inr s1"
    and ok1: "server_ok z tinv (s1\<lparr>add_clocks := c1\<rparr>)"
    and a1: "\<forall>j < length (worker_ranks z).
      adds_done z j (outbox s1) = (if j = k then Suc r else adds_done z j (outbox (srv c)))"
    and g1: "\<forall>j < length (worker_ranks z). gets_done z j (outbox s1) = Suc r"
    and ans1: "answers_in z get_ok answer V (outbox s1)"
  shows "\<exists>s'. drain_gets z ops (s1\<lparr>add_clocks := c1\<rparr>) = Inr s' \<and>
    sys_state z (Suc r) (V(Suc r := look (table (s1\<lparr>add_clocks := c1\<rparr>)))) [] [] (after_add k s' c)"
proof -
  let ?n = "length (worker_ranks z)" and ?s = "srv c" and ?s2 = "s1\<lparr>add_clocks := c1\<rparr>"
  note d = rounds_stateD [OF st]
  note fr = sync_add_frame [OF s1]
  have gets: "\<forall>j < ?n. gets_done z j (outbox ?s) = Suc r"
    and near: "\<forall>j < ?n. adds_done z j (outbox ?s) \<in> {r, Suc r}"
    and wA: "wsA = []" and wG: "\<forall>j \<in> set wsG. adds_done z j (outbox ?s) = Suc r"
    using ph by (auto simp: add_phase_def)
  have empty: "buffer (msg_add_cache ?s) = []" using d(2) wA by simp
  let ?V = "V(Suc r := look (table ?s2))"
  have hG: "held z Request_Get get_ok (msg_get_cache ?s2) wsG" using d(3) fr by simp
  have a2: "\<forall>j < ?n. adds_done z j (outbox ?s2) = Suc r" using a1 last by simp
  have g2: "\<forall>j < ?n. gets_done z j (outbox ?s2) = Suc r" using g1 by simp
  have n2: "\<forall>j < ?n. gets_done z j (outbox ?s2) \<in> {Suc r, Suc (Suc r)}"
    "\<forall>j \<in> set wsG. gets_done z j (outbox ?s2) = Suc r" using g2 held_less [OF hG] by simp_all
  have b2: "int (Suc r) + 1 < INT_MAX" using bound by simp
  have ans2: "answers_in z get_ok answer ?V (outbox ?s2)"
    using answers_in_upd [OF ans1, of "Suc r" "look (table ?s2)"] g1 by simp
  obtain s' where s': "drain_gets z ops ?s2 = Inr s'" "server_ok z tinv s'"
      "buffer (msg_get_cache s') = []" "msg_add_cache s' = msg_add_cache ?s2"
      "num_waited_add s' = num_waited_add ?s2"
    and a': "\<forall>j < ?n. adds_done z j (outbox s') = Suc r"
    and g3: "\<forall>j < ?n. gets_done z j (outbox s') = (if j \<in> set wsG then Suc (Suc r) else gets_done z j (outbox ?s2))"
    and ans': "answers_in z get_ok answer ?V (outbox s')" and look': "look (table s') = look (table ?s2)"
    using drain_gets_ok [OF z ok1 hG a2 n2 k(1,2) g2 [rule_format, OF k(1)] b2 ans2] by auto
  have g': "\<forall>j < ?n. gets_done z j (outbox s') = (if j \<in> set wsG then Suc (Suc r) else Suc r)"
    using g3 g2 by simp
  have ph': "get_phase z (Suc r) [] [] (outbox s')" using a' g' k by (auto simp: get_phase_def)
  have "sys_state z (Suc r) ?V [] [] (after_add k s' c)"
  proof (intro rounds_stateI, goal_cases)
    case 1 show ?case using s'(2) by simp
  next
    case 2 show ?case using s'(4) empty fr by simp
  next
    case 3 show ?case using s'(3) by simp
  next
    case (4 j) then show ?case using d(4) [of j] s'(5) fr wA by simp
  next
    case (5 j) then show ?case using d(5) [of j] g' gets by simp
  next
    case (6 j) then show ?case using d(6) [of j] a' k last wA by auto
  next
    case 7 show ?case using ans' by simp
  next
    case 8 show ?case using ph' look' by simp
  qed
  then show ?thesis using s'(1) by blast
qed

lemma add_go:
  assumes z: "zoo_ok z" and st: "sys_state z r V wsA wsG c"
    and k: "k < length (worker_ranks z)" "k \<notin> set wsG" "adds_done z k (outbox (srv c)) = r"
    and ph: "add_phase z r wsA wsG (outbox (srv c))"
    and m: "request z Request_Add add_ok k m" and bound: "int r + 2 < INT_MAX"
  shows "\<exists>s' r' V' wsG'. sync_ProcessAdd z ops m (srv c) = Inr s'
    \<and> sys_state z r' V' [] wsG' (after_add k s' c)"
proof -
  let ?n = "length (worker_ranks z)" and ?s = "srv c"
  note d = rounds_stateD [OF st]
  have gets: "\<forall>j < ?n. gets_done z j (outbox ?s) = Suc r"
    and near: "\<forall>j < ?n. adds_done z j (outbox ?s) \<in> {r, Suc r}"
    and wA: "wsA = []" and wG: "\<forall>j \<in> set wsG. adds_done z j (outbox ?s) = Suc r"
    using ph by (auto simp: add_phase_def)
  obtain s1 c1 where s1: "sched_ProcessAdd ops m ?s = Inr s1"
    and u: "clock_Update (int k) (add_clocks s1) =
      Inr (\<forall>j < ?n. j \<noteq> k \<longrightarrow> adds_done z j (outbox ?s) = Suc r, c1)"
    and ok1: "server_ok z tinv (s1\<lparr>add_clocks := c1\<rparr>)"
    and a1: "\<forall>j < ?n. adds_done z j (outbox s1) = (if j = k then Suc r else adds_done z j (outbox ?s))"
    and g1: "\<forall>j < ?n. gets_done z j (outbox s1) = Suc r"
    and ans1: "answers_in z get_ok answer V (outbox s1)"
    using add_now [OF z d(1) k(1) m gets near k(3) _ d(7)] bound by auto
  note fr = sync_add_frame [OF s1]
  have gg: "global_clock (get_clocks ?s) = int (Suc r)"
    using counts_ok_global [OF d(10) k(1), of "Suc r"] gets k(1) by simp
  let ?last = "\<forall>j < ?n. j \<noteq> k \<longrightarrow> adds_done z j (outbox ?s) = Suc r" and ?s2 = "s1\<lparr>add_clocks := c1\<rparr>"
  have empty: "buffer (msg_add_cache ?s) = []" using d(2) wA by simp
  have run: "sync_ProcessAdd z ops m ?s = (if ?last then drain_gets z ops ?s2 else Inr ?s2)"
    using request_worker [OF z k(1) m] counts_ok_at [OF d(10) k(1)] gets k gg empty fr
    by (cases ?last) (auto simp: sync_ProcessAdd_def Let_def s1 u [simplified fr])
  show ?thesis
  proof (cases ?last)
    case False
    then show ?thesis using add_counts [OF st k ph s1 ok1 a1 g1 ans1 False] run by auto
  next
    case True
    then obtain s' where "drain_gets z ops ?s2 = Inr s'"
      "sys_state z (Suc r) (V(Suc r := look (table ?s2))) [] [] (after_add k s' c)"
      using add_turns [OF z bound True st k ph s1 ok1 a1 g1 ans1] by blast
    then show ?thesis using run True by auto
  qed
qed

lemma get_step:
  assumes z: "zoo_ok z" and inv: "sys_inv z c" and g: "may_get z k c"
    and m: "request z Request_Get get_ok k m"
  shows "\<exists>s'. sync_ProcessGet z ops m (srv c) = Inr s' \<and> sys_inv z (after_get k s' c)"
proof -
  obtain r V wsA wsG where st: "sys_state z r V wsA wsG c" using inv by (auto simp: rounds_inv_def)
  note d = rounds_stateD [OF st]
  have k: "k < length (worker_ranks z)" and sent: "sent_gets c k = sent_adds c k"
    and fin: "gets_done z k (outbox (srv c)) = sent_gets c k" and bound: "int (sent_gets c k) + 2 < INT_MAX"
    using g by (auto simp: may_get_def)
  have kG: "k \<notin> set wsG" using d(5) [OF k] fin by (auto split: if_splits)
  have addsent: "sent_adds c k = adds_done z k (outbox (srv c)) + (if k \<in> set wsA then 1 else 0)"
    by (rule d(6) [OF k])
  let ?s = "(srv c)\<lparr>msg_get_cache := queue_Push m (msg_get_cache (srv c))\<rparr>"
  show ?thesis
  proof (cases "get_phase z r wsA wsG (outbox (srv c)) \<and> V r = look (table (srv c)) \<and> k \<notin> set wsA")
    case True
    then have "adds_done z k (outbox (srv c)) = r" using k by (simp add: get_phase_def)
    with addsent True sent fin have "gets_done z k (outbox (srv c)) = r" "int r + 2 < INT_MAX"
      using bound by simp_all
    then show ?thesis
      using get_go [OF z st k _ _ _ _ m] True unfolding rounds_inv_def by blast
  next
    case False
    then have hold: "get_phase z r wsA wsG (outbox (srv c)) \<and> k \<in> set wsA \<and> V r = look (table (srv c))
        \<or> add_phase z r wsA wsG (outbox (srv c)) \<and> adds_done z k (outbox (srv c)) = Suc r"
      using d(8) k sent fin addsent by (auto simp: add_phase_def)
    have "sync_ProcessGet z ops m (srv c) = Inr ?s"
      using hold
    proof (elim disjE conjE)
      assume "get_phase z r wsA wsG (outbox (srv c))" and kA: "k \<in> set wsA"
      then have "num_waited_add (srv c) ! k = 1" using d(4) [OF k] by simp
      then show ?thesis
        using request_worker [OF z k m] counts_ok_at [OF d(11) k] k d(9) by (auto simp: sync_ProcessGet_def)
    next
      assume ph: "add_phase z r wsA wsG (outbox (srv c))" and a: "adds_done z k (outbox (srv c)) = Suc r"
      then obtain j where "j < length (worker_ranks z)" "adds_done z j (outbox (srv c)) = r"
        by (auto simp: add_phase_def)
      then have "global_clock (add_clocks (srv c)) = int r"
        using counts_ok_global [OF d(11), of j r] ph by (fastforce simp: add_phase_def)
      then show ?thesis
        using request_worker [OF z k m] counts_ok_at [OF d(11) k] a by (simp add: sync_ProcessGet_def)
    qed
    then show ?thesis using get_held [OF st k kG m hold] unfolding rounds_inv_def by blast
  qed
qed

lemma add_step:
  assumes z: "zoo_ok z" and inv: "sys_inv z c" and g: "may_add z k c"
    and m: "request z Request_Add add_ok k m"
  shows "\<exists>s'. sync_ProcessAdd z ops m (srv c) = Inr s' \<and> sys_inv z (after_add k s' c)"
proof -
  obtain r V wsA wsG where st: "sys_state z r V wsA wsG c" using inv by (auto simp: rounds_inv_def)
  note d = rounds_stateD [OF st]
  have k: "k < length (worker_ranks z)" and sent: "sent_gets c k = Suc (sent_adds c k)"
    and fin: "gets_done z k (outbox (srv c)) = sent_gets c k" and bound: "int (sent_adds c k) + 2 < INT_MAX"
    using g by (auto simp: may_add_def)
  have kG: "k \<notin> set wsG" using d(5) [OF k] fin by (auto split: if_splits)
  have addsent: "sent_adds c k = adds_done z k (outbox (srv c)) + (if k \<in> set wsA then 1 else 0)"
    by (rule d(6) [OF k])
  from d(8) show ?thesis
  proof (elim disjE conjE)
    assume ph: "add_phase z r wsA wsG (outbox (srv c))"
    then have "adds_done z k (outbox (srv c)) = r" "int r + 2 < INT_MAX"
      using k addsent sent fin bound by (auto simp: add_phase_def)
    then show ?thesis
      using add_go [OF z st k kG _ ph m] unfolding rounds_inv_def by blast
  next
    assume ph: "get_phase z r wsA wsG (outbox (srv c))" and V: "V r = look (table (srv c))"
    have kA: "k \<notin> set wsA"
    proof
      assume "k \<in> set wsA"
      then have "gets_done z k (outbox (srv c)) = Suc r" "adds_done z k (outbox (srv c)) = r"
        using ph k by (auto simp: get_phase_def)
      with \<open>k \<in> set wsA\<close> addsent sent fin show False by simp
    qed
    have gr: "gets_done z k (outbox (srv c)) = Suc r"
      using ph k kA addsent sent fin by (auto simp: get_phase_def)
    obtain j where "j < length (worker_ranks z)" "gets_done z j (outbox (srv c)) = r"
      using ph by (auto simp: get_phase_def)
    then have "global_clock (get_clocks (srv c)) = int r"
      using counts_ok_global [OF d(10), of j r] ph by (fastforce simp: get_phase_def)
    then have "sync_ProcessAdd z ops m (srv c) = Inr ((srv c)\<lparr>msg_add_cache :=
        queue_Push m (msg_add_cache (srv c)), num_waited_add := (num_waited_add (srv c))[k := 1]\<rparr>)"
      using request_worker [OF z k m] counts_ok_at [OF d(10) k] gr k d(4) [OF k] d(9) kA
      by (simp add: sync_ProcessAdd_def)
    then show ?thesis using add_held [OF st k kA m ph V gr] unfolding rounds_inv_def by blast
  qed
qed

lemma reach_inv:
  assumes z: "zoo_ok z" and n: "worker_ranks z \<noteq> []" and t: "tinv t0"
    and "reach z ops get_ok add_ok t0 d0 c"
  shows "sys_inv z c"
  using assms(4)
proof (induction rule: reach.induct)
  case start
  then show ?case using start_inv [OF z n t] by simp
next
  case (send_get c k m s')
  then show ?case using get_step [OF z] by fastforce
next
  case (send_add c k m s')
  then show ?case using add_step [OF z] by fastforce
qed

text \<open>What follows for every reachable state.\<close>

lemma reach_serves:
  assumes "zoo_ok z" and "worker_ranks z \<noteq> []" and "tinv t0"
    and "reach z ops get_ok add_ok t0 d0 c"
  shows "may_get z k c \<Longrightarrow> request z Request_Get get_ok k m \<Longrightarrow> \<exists>s'. sync_ProcessGet z ops m (srv c) = Inr s'"
    and "may_add z k c \<Longrightarrow> request z Request_Add add_ok k m \<Longrightarrow> \<exists>s'. sync_ProcessAdd z ops m (srv c) = Inr s'"
  using get_step [OF assms(1) reach_inv [OF assms]] add_step [OF assms(1) reach_inv [OF assms]]
  by blast+

lemma reach_round_order:
  assumes "zoo_ok z" and "worker_ranks z \<noteq> []" and "tinv t0"
    and "reach z ops get_ok add_ok t0 d0 c"
  shows "round_order z (outbox (srv c))"
  using reach_inv [OF assms] by (auto simp: rounds_inv_def rounds_state_def server_ok_def)

lemma reach_answers:
  assumes "zoo_ok z" and "worker_ranks z \<noteq> []" and "tinv t0"
    and "reach z ops get_ok add_ok t0 d0 c"
  shows "\<exists>V. answers_in z get_ok answer V (outbox (srv c))"
  using reach_inv [OF assms] unfolding rounds_inv_def rounds_state_def by blast

lemma reach_progress:
  assumes "zoo_ok z" and "worker_ranks z \<noteq> []" and "tinv t0"
    and "reach z ops get_ok add_ok t0 d0 c"
  shows "\<exists>k < length (worker_ranks z). gets_done z k (outbox (srv c)) = sent_gets c k
    \<and> (sent_gets c k = sent_adds c k \<or> sent_gets c k = Suc (sent_adds c k))"
proof -
  obtain r V wsA wsG where st: "sys_state z r V wsA wsG c"
    using reach_inv [OF assms] by (auto simp: rounds_inv_def)
  note d = rounds_stateD [OF st]
  obtain k where k: "k < length (worker_ranks z)" "k \<notin> set wsA" "k \<notin> set wsG"
    and g: "gets_done z k (outbox (srv c)) = adds_done z k (outbox (srv c))
      \<or> gets_done z k (outbox (srv c)) = Suc (adds_done z k (outbox (srv c)))"
    using d(8)
  proof (elim disjE conjE)
    assume "get_phase z r wsA wsG (outbox (srv c))"
    then show ?thesis by (rule get_phaseE) (rule that, assumption+, simp only: simp_thms)
  next
    assume "add_phase z r wsA wsG (outbox (srv c))"
    then show ?thesis by (rule add_phaseE) (rule that, assumption+, simp only: simp_thms)
  qed
  then show ?thesis using d(5) [OF k(1)] d(6) [OF k(1)] by (intro exI [of _ k]) simp
qed

lemma reach_quiescent:
  assumes z: "zoo_ok z" "worker_ranks z \<noteq> []" "tinv t0" "reach z ops get_ok add_ok t0 d0 c"
    and all: "\<forall>k < length (worker_ranks z). sent_gets c k = R \<and> sent_adds c k = R"
  shows "buffer (msg_get_cache (srv c)) = [] \<and> buffer (msg_add_cache (srv c)) = []
    \<and> (\<forall>k < length (worker_ranks z).
         gets_done z k (outbox (srv c)) = R \<and> adds_done z k (outbox (srv c)) = R)"
proof -
  obtain r V wsA wsG where st: "sys_state z r V wsA wsG c"
    using reach_inv [OF z] by (auto simp: rounds_inv_def)
  note d = rounds_stateD [OF st]
  have "wsA = [] \<and> wsG = []"
    using d(8)
  proof (elim disjE conjE)
    assume ph: "get_phase z r wsA wsG (outbox (srv c))"
    then obtain k where k: "k < length (worker_ranks z)" "gets_done z k (outbox (srv c)) = r"
        "k \<notin> set wsG" by (rule get_phaseE)
    have R: "R = r" using d(5) [OF k(1)] k all by simp
    have "j \<notin> set wsA" for j
    proof
      assume j: "j \<in> set wsA"
      then have "gets_done z j (outbox (srv c)) = Suc r" using ph unfolding get_phase_def by blast
      then show False using d(5) [OF held_less [OF d(2) j]] held_less [OF d(2) j] all R by simp
    qed
    then have "set wsA = {}" by (metis equals0I)
    moreover have "set wsG \<subseteq> set wsA" using ph unfolding get_phase_def by blast
    ultimately show ?thesis by simp
  next
    assume "add_phase z r wsA wsG (outbox (srv c))"
    then obtain k where k: "k < length (worker_ranks z)" "gets_done z k (outbox (srv c)) = Suc r"
        "adds_done z k (outbox (srv c)) = r" "k \<notin> set wsA" "k \<notin> set wsG" by (rule add_phaseE)
    then show ?thesis using d(5) [OF k(1)] d(6) [OF k(1)] all by simp
  qed
  then show ?thesis using d(2,3,5,6) all by simp
qed

end

section \<open>Workers that do not wait\<close>

text \<open>
  Requests dispatched by their type, and a table that keeps the list of the blobs it was
  given and answers with that list: enough to see which Adds an answer contains.
\<close>

definition sync_handle :: "zoo \<Rightarrow> 't table_ops \<Rightarrow> 't sync \<Rightarrow> message \<Rightarrow> 't sync res" where
  "sync_handle z ops s m =
     (if msg_type m = type_code Request_Get then sync_ProcessGet z ops m s
      else if msg_type m = type_code Request_Add then sync_ProcessAdd z ops m s
      else if msg_type m = type_code Server_Finish_Train then sync_ProcessFinishTrain z ops m s
      else Inl Fatal)"

definition log_table :: "blob list table_ops" where
  "log_table = \<lparr>op_get = (\<lambda>t d. Inr (t, t)), op_add = (\<lambda>t d. Inr (t @ d)),
     op_store = (\<lambda>t s. Inr s), op_load = (\<lambda>t s. Inr t)\<rparr>"

definition two_workers :: zoo where
  "two_workers = \<lparr>zoo_rank = 0, zoo_size = 2,
     nodes = [\<lparr>node_rank = 0, node_role = 3, worker_id = 0, server_id = 0\<rparr>,
              \<lparr>node_rank = 1, node_role = 1, worker_id = 1, server_id = -1\<rparr>],
     server_ranks = [0], worker_ranks = [0, 1], num_workers = 2, num_servers = 1\<rparr>"

definition req :: "msg_type \<Rightarrow> i32 \<Rightarrow> blob \<Rightarrow> message" where
  "req ty src b = push_blob b (set_type (type_code ty) (set_src src new_message))"

definition pipelined :: "message list" where
  "pipelined = [req Request_Get 0 [0], req Request_Add 0 [1], req Request_Get 0 [0], req Request_Add 0 [2],
                req Request_Get 1 [0], req Request_Add 1 [3], req Request_Get 1 [0]]"

end
