(* ===== verification/Updater.thy ===== *)
theory Updater
  imports ZooInfo
begin

text \<open>
  The updaters of a server table (src/hpps/updater): the rule by which a server folds a
  worker's delta into its parameters. The element type is \<open>float\<close>, the instance the array
  and key-value tables use.

  A float is its bit pattern. The arithmetic of the processor is a parameter \<open>A\<close> of the
  model, with the conversions to \<open>double\<close> where the source's expressions promote to it;
  float literals are written as their bit patterns. What the theorems show holds for every
  arithmetic: which cells an update touches, what it keeps, what it remembers.
\<close>

section \<open>Float arithmetic\<close>

record 'd farith =
  fadd :: "f32 \<Rightarrow> f32 \<Rightarrow> f32"
  fsub :: "f32 \<Rightarrow> f32 \<Rightarrow> f32"
  fmul :: "f32 \<Rightarrow> f32 \<Rightarrow> f32"
  fdiv :: "f32 \<Rightarrow> f32 \<Rightarrow> f32"
  fsqrt :: "f32 \<Rightarrow> f32"
  f_of_size :: "u64 \<Rightarrow> f32"
  widen :: "f32 \<Rightarrow> 'd"            \<comment> \<open>float to double\<close>
  narrow :: "'d \<Rightarrow> f32"
  dadd :: "'d \<Rightarrow> 'd \<Rightarrow> 'd"
  dsub :: "'d \<Rightarrow> 'd \<Rightarrow> 'd"
  dmul :: "'d \<Rightarrow> 'd \<Rightarrow> 'd"
  ddiv :: "'d \<Rightarrow> 'd \<Rightarrow> 'd"
  dsqrt :: "'d \<Rightarrow> 'd"

definition f_one :: f32 where "f_one = 0x3F800000"

section \<open>Options\<close>

text \<open>
  \<open>AddOption\<close> and \<open>GetOption\<close>: arrays of \<open>int\<close>/\<open>float\<close> unions. \<open>beta1\<close>, \<open>beta2\<close>
  and \<open>eps\<close> are the slots of \<open>momentum\<close>, \<open>rho\<close> and \<open>lambda\<close>.
\<close>

record add_option =
  opt_data :: "i32 list"

definition opt_worker_id :: "add_option \<Rightarrow> int" where "opt_worker_id o' = sint (opt_data o' ! 0)"
definition learning_rate :: "add_option \<Rightarrow> f32" where "learning_rate o' = opt_data o' ! 1"
definition momentum :: "add_option \<Rightarrow> f32" where "momentum o' = opt_data o' ! 2"
definition rho :: "add_option \<Rightarrow> f32" where "rho o' = opt_data o' ! 3"
definition lambda :: "add_option \<Rightarrow> f32" where "lambda o' = opt_data o' ! 4"
definition beta1 :: "add_option \<Rightarrow> f32" where "beta1 o' = opt_data o' ! 2"
definition beta2 :: "add_option \<Rightarrow> f32" where "beta2 o' = opt_data o' ! 3"
definition eps :: "add_option \<Rightarrow> f32" where "eps o' = opt_data o' ! 4"

definition set_opt :: "nat \<Rightarrow> i32 \<Rightarrow> add_option \<Rightarrow> add_option" where
  "set_opt i x o' = o'\<lparr>opt_data := (opt_data o')[i := x]\<rparr>"

definition set_worker_id :: "int \<Rightarrow> add_option \<Rightarrow> add_option" where
  "set_worker_id w = set_opt 0 (word_of_int w)"
definition set_learning_rate :: "f32 \<Rightarrow> add_option \<Rightarrow> add_option" where
  "set_learning_rate = set_opt 1"
definition set_momentum :: "f32 \<Rightarrow> add_option \<Rightarrow> add_option" where
  "set_momentum = set_opt 2"
definition set_rho :: "f32 \<Rightarrow> add_option \<Rightarrow> add_option" where
  "set_rho = set_opt 3"
definition set_lambda :: "f32 \<Rightarrow> add_option \<Rightarrow> add_option" where
  "set_lambda = set_opt 4"
definition set_beta1 :: "f32 \<Rightarrow> add_option \<Rightarrow> add_option" where
  "set_beta1 = set_opt 2"
definition set_beta2 :: "f32 \<Rightarrow> add_option \<Rightarrow> add_option" where
  "set_beta2 = set_opt 3"
definition set_eps :: "f32 \<Rightarrow> add_option \<Rightarrow> add_option" where
  "set_eps = set_opt 4"

definition new_add_option :: "int \<Rightarrow> add_option" where
  \<comment> \<open>\<open>AddOption()\<close>; the argument is \<open>Zoo::worker_rank()\<close>\<close>
  "new_add_option w =
     set_eps 0x322BCC77 (set_beta2 0x3F7FBE77 (set_beta1 0x3F666666
       (set_lambda 0x3DCCCCCD (set_rho 0x3DCCCCCD (set_momentum 0
         (set_learning_rate 0x3A83126F (set_worker_id w \<lparr>opt_data = replicate 5 0\<rparr>)))))))"

definition opt_bytes :: "add_option \<Rightarrow> blob" where
  "opt_bytes o' = enc_seq enc32 (opt_data o')"

definition opt_CopyFrom :: "blob \<Rightarrow> add_option \<Rightarrow> add_option res" where
  "opt_CopyFrom b o' =
     bind_res (buf_write (opt_bytes o') 0 b) (\<lambda>bs. Inr (o'\<lparr>opt_data := dec_seq 4 dec32 bs\<rparr>))"

definition CreateAddOption :: "int \<Rightarrow> (string \<Rightarrow> f32) \<Rightarrow> (string \<rightharpoonup> string) \<Rightarrow> add_option" where
  \<comment> \<open>\<open>stof\<close> is the library's parser of a float\<close>
  "CreateAddOption w stof kwargs =
     (case kwargs ''lr'' of
        None \<Rightarrow> new_add_option w
      | Some val \<Rightarrow> set_learning_rate (stof val) (new_add_option w))"

definition wf_option :: "add_option \<Rightarrow> bool" where
  "wf_option o' \<longleftrightarrow> length (opt_data o') = 5"

lemma wf_set_opt [simp]: "wf_option (set_opt i x o') = wf_option o'"
  by (simp add: wf_option_def set_opt_def)

lemma wf_new_add_option [simp]: "wf_option (new_add_option w)"
  by (simp add: new_add_option_def set_worker_id_def set_learning_rate_def set_momentum_def
    set_rho_def set_lambda_def set_beta1_def set_beta2_def set_eps_def)
    (simp add: wf_option_def)

lemma opt_CopyFrom_bytes [simp]:
  "wf_option o1 \<Longrightarrow> wf_option o' \<Longrightarrow> opt_CopyFrom (opt_bytes o1) o' = Inr o1"
  by (simp add: opt_CopyFrom_def opt_bytes_def buf_write_def wf_option_def)

text \<open>The options of a Get: one slot, the worker id.\<close>

record get_option =
  getopt_data :: "i32 list"

definition new_get_option :: "zoo \<Rightarrow> get_option res" where
  "new_get_option z = bind_res (worker_rank z) (\<lambda>w. Inr \<lparr>getopt_data = [word_of_int w]\<rparr>)"

definition getopt_worker_id :: "get_option \<Rightarrow> i32" where
  "getopt_worker_id o' = getopt_data o' ! 0"

definition set_getopt_worker_id :: "i32 \<Rightarrow> get_option \<Rightarrow> get_option" where
  "set_getopt_worker_id w o' = o'\<lparr>getopt_data := (getopt_data o')[0 := w]\<rparr>"

definition getopt_bytes :: "get_option \<Rightarrow> blob" where
  "getopt_bytes o' = enc_seq enc32 (getopt_data o')"

definition getopt_CopyFrom :: "blob \<Rightarrow> get_option \<Rightarrow> get_option res" where
  "getopt_CopyFrom b o' =
     bind_res (buf_write (getopt_bytes o') 0 b) (\<lambda>bs. Inr (o'\<lparr>getopt_data := dec_seq 4 dec32 bs\<rparr>))"

lemma getopt_CopyFrom_bytes:
  "length (getopt_data o1) = 1 \<Longrightarrow> length (getopt_data o') = 1 \<Longrightarrow> getopt_CopyFrom (getopt_bytes o1) o' = Inr o1"
  by (simp add: getopt_CopyFrom_def getopt_bytes_def buf_write_def)

lemma opt_CopyFrom_wf:
  "wf_option o' \<Longrightarrow> opt_CopyFrom b o' = Inr o2 \<Longrightarrow> wf_option o2"
  by (auto simp: opt_CopyFrom_def wf_option_def dec_seq_def elem_count_def opt_bytes_def
    dest!: length_buf_write)

section \<open>The updaters\<close>

text \<open>The classes derived from \<open>Updater\<close>, with their members.\<close>

datatype updater =
    Plain
  | Adam (mom1: "f32 list") (mom2: "f32 list")
  | Avg (accu_num: u64) (accu_sum: "f32 list")
  | Sgd
  | AdaGrad (historic_g_sqr: "f32 list list")
  | Momentum (smooth_gradient: "f32 list")
  | Dcasgd (shadow_copies: "f32 list list")
  | Dcasgda (shadow_copies_a: "f32 list list") (mean_square: "f32 list list")

definition GetUpdater :: "zoo \<Rightarrow> bool \<Rightarrow> string \<Rightarrow> nat \<Rightarrow> string \<Rightarrow> updater" where
  \<comment> \<open>the flags: \<open>ENABLE_DCASGD\<close> of the build, \<open>updater_type\<close> of the configuration\<close>
  "GetUpdater z enable_dcasgd updater_type sz solver =
     (let type = (if solver \<noteq> [] then solver else updater_type);
          n = nat (num_workers z) in
      if type = ''adam'' then Adam (replicate sz 0) (replicate sz 0)
      else if type = ''avg'' then Avg 0 (replicate sz 0)
      else if type = ''sgd'' then Sgd
      else if type = ''adagrad'' then AdaGrad (replicate n (replicate sz 0))
      else if type = ''momentum_sgd'' then Momentum (replicate sz 0)
      else if enable_dcasgd \<and> type = ''dcasgd'' then Dcasgd (replicate n (replicate sz 0))
      else if enable_dcasgd \<and> type = ''dcasgda''
        then Dcasgda (replicate n (replicate sz 0)) (replicate n (replicate sz 0))
      else Plain)"

text \<open>
  One iteration of each updater's loop, on the state the loop changes and the parameters.
  Cells of a vector of vectors are read and written by two indices.
\<close>

definition vec2_at :: "'a list list \<Rightarrow> int \<Rightarrow> int \<Rightarrow> 'a res" where
  "vec2_at xss i j = bind_res (vec_at xss i) (\<lambda>xs. vec_at xs j)"

definition vec2_set :: "'a list list \<Rightarrow> int \<Rightarrow> int \<Rightarrow> 'a \<Rightarrow> 'a list list res" where
  "vec2_set xss i j x = bind_res (vec_at xss i) (\<lambda>xs. bind_res (vec_set xs j x) (\<lambda>xs'. vec_set xss i xs'))"

definition plain_step :: "'d farith \<Rightarrow> add_option \<Rightarrow> f32 list \<Rightarrow> nat \<Rightarrow>
    unit \<times> f32 list \<Rightarrow> nat \<Rightarrow> (unit \<times> f32 list) res" where
  "plain_step A opt delta off = (\<lambda>(u, data) i.
     let k = int (i + off) in
     bind_res (vec_at data k) (\<lambda>x.
     bind_res (vec_at delta (int i)) (\<lambda>dl.
     bind_res (vec_set data k (fadd A x dl)) (\<lambda>data'. Inr (u, data')))))"

definition sgd_step :: "'d farith \<Rightarrow> add_option \<Rightarrow> f32 list \<Rightarrow> nat \<Rightarrow>
    unit \<times> f32 list \<Rightarrow> nat \<Rightarrow> (unit \<times> f32 list) res" where
  "sgd_step A opt delta off = (\<lambda>(u, data) i.
     let k = int (i + off) in
     bind_res (vec_at data k) (\<lambda>x.
     bind_res (vec_at delta (int i)) (\<lambda>dl.
     bind_res (vec_set data k (fsub A x (fmul A dl (learning_rate opt)))) (\<lambda>data'. Inr (u, data')))))"

definition adam_step :: "'d farith \<Rightarrow> add_option \<Rightarrow> f32 list \<Rightarrow> nat \<Rightarrow>
    (f32 list \<times> f32 list) \<times> f32 list \<Rightarrow> nat \<Rightarrow> ((f32 list \<times> f32 list) \<times> f32 list) res" where
  "adam_step A opt delta off = (\<lambda>((m1, m2), data) i.
     let k = int (off + i); b1 = beta1 opt; b2 = beta2 opt; ep = eps opt; lr = learning_rate opt in
     bind_res (vec_at m1 k) (\<lambda>x1.
     bind_res (vec_at m2 k) (\<lambda>x2.
     bind_res (vec_at delta (int i)) (\<lambda>dl.
     bind_res (vec_at data k) (\<lambda>x.
     let var_mom1 = narrow A (dadd A (widen A (fmul A b1 x1))
           (dmul A (dsub A (widen A f_one) (widen A b1)) (widen A dl)));
         var_mom2 = narrow A (dadd A (widen A (fmul A b2 x2))
           (dmul A (dmul A (dsub A (widen A f_one) (widen A b2)) (widen A dl)) (widen A dl)));
         x' = fsub A x (fdiv A (fmul A lr var_mom1) (fadd A (fsqrt A var_mom2) ep)) in
     bind_res (vec_set m1 k var_mom1) (\<lambda>m1'.
     bind_res (vec_set m2 k var_mom2) (\<lambda>m2'.
     bind_res (vec_set data k (fsub A x' (fmul A dl lr))) (\<lambda>data'. Inr ((m1', m2'), data')))))))))"

definition adagrad_step :: "'d farith \<Rightarrow> add_option \<Rightarrow> f32 list \<Rightarrow> nat \<Rightarrow>
    f32 list \<times> f32 list \<Rightarrow> nat \<Rightarrow> (f32 list \<times> f32 list) res" where
  "adagrad_step A opt delta off = (\<lambda>(g, data) i.
     let k = int (i + off); lr = learning_rate opt in
     bind_res (vec_at g k) (\<lambda>gk.
     bind_res (vec_at delta (int i)) (\<lambda>dl.
     bind_res (vec_at data k) (\<lambda>x.
     let gk' = fsub A gk (fdiv A (fdiv A (fmul A dl dl) lr) lr);
         e = 0x358637BD in
     bind_res (vec_set g k gk') (\<lambda>g'.
     bind_res (vec_set data k (fsub A x
         (fdiv A (fmul A (fdiv A (rho opt) (fsqrt A (fadd A gk' e))) dl) lr))) (\<lambda>data'.
       Inr (g', data')))))))"

definition momentum_step :: "'d farith \<Rightarrow> add_option \<Rightarrow> f32 list \<Rightarrow> nat \<Rightarrow>
    f32 list \<times> f32 list \<Rightarrow> nat \<Rightarrow> (f32 list \<times> f32 list) res" where
  "momentum_step A opt delta off = (\<lambda>(g, data) i.
     let k = int (i + off) in
     bind_res (vec_at g k) (\<lambda>gk.
     bind_res (vec_at delta (int i)) (\<lambda>dl.
     bind_res (vec_at data k) (\<lambda>x.
     let gk' = fadd A (fmul A (momentum opt) gk) (fmul A (fsub A f_one (momentum opt)) dl) in
     bind_res (vec_set g k gk') (\<lambda>g'.
     bind_res (vec_set data k (fsub A x (fmul A gk' (learning_rate opt)))) (\<lambda>data'.
       Inr (g', data')))))))"

definition dcasgd_step :: "'d farith \<Rightarrow> add_option \<Rightarrow> f32 list \<Rightarrow> nat \<Rightarrow>
    f32 list list \<times> f32 list \<Rightarrow> nat \<Rightarrow> (f32 list list \<times> f32 list) res" where
  "dcasgd_step A opt delta off = (\<lambda>(sh, data) i.
     let k = int (i + off); w = opt_worker_id opt; lr = learning_rate opt in
     bind_res (vec_at delta (int i)) (\<lambda>dl.
     bind_res (vec_at data k) (\<lambda>x.
     bind_res (vec2_at sh w k) (\<lambda>s.
     let g = fdiv A dl lr;
         x' = fsub A x (fmul A lr
           (fadd A g (fmul A (fmul A (fmul A (lambda opt) g) g) (fsub A x s)))) in
     bind_res (vec_set data k x') (\<lambda>data'.
     bind_res (vec2_set sh w k x') (\<lambda>sh'. Inr (sh', data')))))))"

definition dcasgda_step :: "'d farith \<Rightarrow> add_option \<Rightarrow> f32 list \<Rightarrow> nat \<Rightarrow>
    (f32 list list \<times> f32 list list) \<times> f32 list \<Rightarrow> nat \<Rightarrow>
    ((f32 list list \<times> f32 list list) \<times> f32 list) res" where
  \<comment> \<open>\<open>sqrt\<close> is the C function on doubles, so the product with it is computed in doubles\<close>
  "dcasgda_step A opt delta off = (\<lambda>((sh, ms), data) i.
     let k = int (i + off); w = opt_worker_id opt; lr = learning_rate opt; e = 0x33D6BF95 in
     bind_res (vec_at delta (int i)) (\<lambda>dl.
     bind_res (vec_at data k) (\<lambda>x.
     bind_res (vec2_at ms w k) (\<lambda>m.
     bind_res (vec2_at sh w k) (\<lambda>s.
     let g = fdiv A dl lr;
         m' = fadd A (fmul A m (momentum opt)) (fmul A (fmul A (fsub A f_one (momentum opt)) g) g);
         root = dsqrt A (widen A (fadd A m' e));
         scaled = dmul A (dmul A (dmul A (ddiv A (widen A (lambda opt)) root) (widen A g)) (widen A g))
           (widen A (fsub A x s));
         x' = narrow A (dsub A (widen A x)
           (dmul A (widen A lr) (dadd A (widen A g) scaled))) in
     bind_res (vec2_set ms w k m') (\<lambda>ms'.
     bind_res (vec_set data k x') (\<lambda>data'.
     bind_res (vec2_set sh w k x') (\<lambda>sh'. Inr ((sh', ms'), data')))))))))"

definition avg_step :: "'d farith \<Rightarrow> f32 list \<Rightarrow> f32 list \<Rightarrow> nat \<Rightarrow> f32 list res" where
  "avg_step A delta = (\<lambda>acc i.
     bind_res (vec_at acc (int i)) (\<lambda>s.
     bind_res (vec_at delta (int i)) (\<lambda>dl. vec_set acc (int i) (fadd A s dl))))"

definition avg_flush :: "'d farith \<Rightarrow> u64 \<Rightarrow> f32 list \<Rightarrow> nat \<Rightarrow> f32 list \<Rightarrow> nat \<Rightarrow> f32 list res" where
  "avg_flush A accu acc off = (\<lambda>data i.
     bind_res (vec_at acc (int i)) (\<lambda>s. vec_set data (int (off + i)) (fdiv A s (f_of_size A accu))))"

text \<open>
  \<open>Update\<close>, on \<open>data[off..off+n)\<close>. The loops of \<open>Updater\<close> and \<open>AvgUpdater\<close> have an \<open>int\<close> index
  (\<open>int i\<close>, \<open>auto i = 0\<close>), which overflows when \<open>n\<close> is more than the largest \<open>int\<close>; the others
  have a \<open>size_t\<close>.
\<close>

fun updater_Update :: "'d farith \<Rightarrow> zoo \<Rightarrow> updater \<Rightarrow> nat \<Rightarrow> f32 list \<Rightarrow> f32 list \<Rightarrow>
    add_option \<Rightarrow> nat \<Rightarrow> (updater \<times> f32 list) res" where
  "updater_Update A z Plain n data delta opt off =
     bind_res (fold_res (int_body (\<lambda>i. i) (plain_step A opt delta off)) ((), data) [0..<n]) (\<lambda>(u, d). Inr (Plain, d))"
| "updater_Update A z Sgd n data delta opt off =
     bind_res (fold_res (sgd_step A opt delta off) ((), data) [0..<n]) (\<lambda>(u, d). Inr (Sgd, d))"
| "updater_Update A z (Adam m1 m2) n data delta opt off =
     bind_res (fold_res (adam_step A opt delta off) ((m1, m2), data) [0..<n])
       (\<lambda>((m1', m2'), d). Inr (Adam m1' m2', d))"
| "updater_Update A z (AdaGrad h) n data delta opt off =
     bind_res (vec_at h (opt_worker_id opt)) (\<lambda>g.
     \<comment> \<open>\<open>auto\<close> copies the vector; the loop changes the copy\<close>
     bind_res (fold_res (adagrad_step A opt delta off) (g, data) [0..<n]) (\<lambda>(g', d). Inr (AdaGrad h, d)))"
| "updater_Update A z (Momentum g) n data delta opt off =
     bind_res (fold_res (momentum_step A opt delta off) (g, data) [0..<n]) (\<lambda>(g', d). Inr (Momentum g', d))"
| "updater_Update A z (Dcasgd sh) n data delta opt off =
     bind_res (fold_res (dcasgd_step A opt delta off) (sh, data) [0..<n]) (\<lambda>(sh', d). Inr (Dcasgd sh', d))"
| "updater_Update A z (Dcasgda sh ms) n data delta opt off =
     bind_res (fold_res (dcasgda_step A opt delta off) ((sh, ms), data) [0..<n])
       (\<lambda>((sh', ms'), d). Inr (Dcasgda sh' ms', d))"
| "updater_Update A z (Avg accu acc) n data delta opt off =
     bind_res (fold_res (int_body (\<lambda>i. i) (avg_step A delta)) acc [0..<n]) (\<lambda>acc'.
     let accu' = accu + 1 in
     if accu' = word_of_int (num_workers z)
     then bind_res (fold_res (int_body (\<lambda>i. i) (avg_flush A accu' acc' off)) data [0..<n]) (\<lambda>d.
            Inr (Avg 0 (map (\<lambda>_. 0) acc'), d))
     else Inr (Avg accu' acc', data))"

definition updater_Access :: "nat \<Rightarrow> f32 list \<Rightarrow> f32 list \<Rightarrow> nat \<Rightarrow> f32 list res" where
  \<comment> \<open>the same in every class that overrides it\<close>
  "updater_Access n data blob_data off =
     bind_res (buf_read data off n) (\<lambda>xs. buf_write blob_data 0 xs)"

section \<open>What an update touches\<close>

text \<open>
  The contract of an iteration: with members that fit the parameters it succeeds, replaces
  the one cell it is for, by a value that depends on the cells at that index only, and the
  members still fit.
\<close>

locale elementwise =
  fixes step :: "add_option \<Rightarrow> f32 list \<Rightarrow> nat \<Rightarrow> 'u \<times> f32 list \<Rightarrow> nat \<Rightarrow> ('u \<times> f32 list) res"
    and fits :: "add_option \<Rightarrow> nat \<Rightarrow> 'u \<Rightarrow> bool"
  assumes step_ok: "fits opt (length d) u \<Longrightarrow> i + off < length d \<Longrightarrow> i < length delta \<Longrightarrow>
      \<exists>u' x. step opt delta off (u, d) i = Inr (u', d[i + off := x]) \<and> fits opt (length d) u'"
begin

lemma loop_ok:
  assumes "fits opt (length d) u" and "off + n \<le> length d" and "n \<le> length delta"
  shows "\<exists>u' d'. fold_res (step opt delta off) (u, d) [0..<n] = Inr (u', d')
    \<and> fits opt (length d) u' \<and> length d' = length d
    \<and> (\<forall>j. j < off \<or> off + n \<le> j \<longrightarrow> d' ! j = d ! j)"
  using assms(2,3)
proof (induction n)
  case 0
  then show ?case using assms(1) by simp
next
  case (Suc n)
  then obtain u' d' where
    "fold_res (step opt delta off) (u, d) [0..<n] = Inr (u', d')" "fits opt (length d) u'"
    and d': "length d' = length d" "\<forall>j. j < off \<or> off + n \<le> j \<longrightarrow> d' ! j = d ! j"
    by auto
  moreover obtain u2 x where
    "step opt delta off (u', d') n = Inr (u2, d'[n + off := x])" "fits opt (length d') u2"
    using step_ok [of opt d' u' n off delta] calculation Suc.prems by auto
  ultimately show ?case by (intro exI [of _ u2] exI [of _ "d'[n + off := x]"]) (simp add: fold_res_append)
qed

end

definition rows_fit :: "nat \<Rightarrow> add_option \<Rightarrow> nat \<Rightarrow> f32 list list \<Rightarrow> bool" where
  "rows_fit m opt n xss \<longleftrightarrow> length xss = m \<and> in_range xss (opt_worker_id opt) \<and> (\<forall>xs \<in> set xss. length xs = n)"

lemma rows_fit_row:
  "rows_fit m opt n xss \<Longrightarrow> in_range xss (opt_worker_id opt) \<and> length (xss ! nat (opt_worker_id opt)) = n"
  by (auto simp: rows_fit_def in_range_def)

lemma vec2_at_fit:
  "rows_fit m opt n xss \<Longrightarrow> k < n \<Longrightarrow> \<exists>x. vec2_at xss (opt_worker_id opt) (int k) = Inr x"
  using rows_fit_row [of m opt n xss] by (simp add: vec2_at_def vec_at_def [of xss])

lemma vec2_set_fit:
  assumes "rows_fit m opt n xss" and "k < n"
  shows "\<exists>yss. vec2_set xss (opt_worker_id opt) (int k) x = Inr yss \<and> rows_fit m opt n yss"
proof -
  let ?w = "opt_worker_id opt"
  have r: "in_range xss ?w" "k < length (xss ! nat ?w)"
    using rows_fit_row [OF assms(1)] assms(2) by simp_all
  let ?row = "(xss ! nat ?w)[k := x]"
  have "vec2_set xss ?w (int k) x = Inr (xss[nat ?w := ?row])"
    using r by (simp add: vec2_set_def vec_at_def [of xss] vec_set_def [of xss])
  moreover have "\<forall>xs \<in> set (xss[nat ?w := ?row]). length xs = n"
  proof
    fix xs assume "xs \<in> set (xss[nat ?w := ?row])"
    then have "xs = ?row \<or> xs \<in> set xss" by (auto dest: subsetD [OF set_update_subset_insert])
    then show "length xs = n" using assms(1) rows_fit_row [OF assms(1)] by (auto simp: rows_fit_def)
  qed
  ultimately show ?thesis using r(1) assms(1) by (simp add: rows_fit_def in_range_def)
qed

lemma vec2_set_fits:
  assumes "rows_fit m opt n xss" and "k < n"
  obtains f where "\<And>x. vec2_set xss (opt_worker_id opt) (int k) x = Inr (f x)" "\<And>x. rows_fit m opt n (f x)"
  using vec2_set_fit [OF assms] by metis

interpretation plain: elementwise "plain_step A" "\<lambda>_ _ _. True" for A
  by unfold_locales (auto simp: plain_step_def Let_def simp del: of_nat_add)

interpretation sgd: elementwise "sgd_step A" "\<lambda>_ _ _. True" for A
  by unfold_locales (auto simp: sgd_step_def Let_def simp del: of_nat_add)

interpretation adam: elementwise "adam_step A" "\<lambda>_ n u. length (fst u) = n \<and> length (snd u) = n" for A
  by unfold_locales (auto simp: adam_step_def Let_def add.commute [of off i for off i] simp del: of_nat_add)

interpretation adagrad: elementwise "adagrad_step A" "\<lambda>_ n g. length g = n" for A
  by unfold_locales (auto simp: adagrad_step_def Let_def simp del: of_nat_add)

interpretation momentum: elementwise "momentum_step A" "\<lambda>_ n g. length g = n" for A
  by unfold_locales (auto simp: momentum_step_def Let_def simp del: of_nat_add)

interpretation dcasgd: elementwise "dcasgd_step A" "rows_fit m" for A m
proof unfold_locales
  fix opt :: add_option and d delta :: "f32 list" and u i off
  assume u: "rows_fit m opt (length d) u" and i: "i + off < length d" "i < length delta"
  obtain s where s: "vec2_at u (opt_worker_id opt) (int (i + off)) = Inr s"
    using vec2_at_fit [OF u i(1)] by blast
  obtain f where "\<And>x. vec2_set u (opt_worker_id opt) (int (i + off)) x = Inr (f x)"
      "\<And>x. rows_fit m opt (length d) (f x)"
    using vec2_set_fits [OF u i(1)] by blast
  then show "\<exists>u' x. dcasgd_step A opt delta off (u, d) i = Inr (u', d[i + off := x]) \<and> rows_fit m opt (length d) u'"
    using s i by (auto simp: dcasgd_step_def Let_def simp del: of_nat_add)
qed

interpretation dcasgda: elementwise "dcasgda_step A"
  "\<lambda>opt n u. rows_fit m opt n (fst u) \<and> rows_fit m opt n (snd u)" for A m
proof unfold_locales
  fix opt :: add_option and d delta :: "f32 list" and u i off
  assume u: "rows_fit m opt (length d) (fst u) \<and> rows_fit m opt (length d) (snd u)"
    and i: "i + off < length d" "i < length delta"
  obtain sh ms where sm: "u = (sh, ms)" by (cases u)
  obtain s v where s: "vec2_at sh (opt_worker_id opt) (int (i + off)) = Inr s"
      "vec2_at ms (opt_worker_id opt) (int (i + off)) = Inr v"
    using vec2_at_fit [OF _ i(1)] u sm by (metis fst_conv snd_conv)
  obtain f where "\<And>x. vec2_set sh (opt_worker_id opt) (int (i + off)) x = Inr (f x)"
      "\<And>x. rows_fit m opt (length d) (f x)"
    using vec2_set_fits [of m opt "length d" sh "i + off"] u i(1) sm by auto
  moreover obtain g where "\<And>x. vec2_set ms (opt_worker_id opt) (int (i + off)) x = Inr (g x)"
      "\<And>x. rows_fit m opt (length d) (g x)"
    using vec2_set_fits [of m opt "length d" ms "i + off"] u i(1) sm by auto
  ultimately show "\<exists>u' x. dcasgda_step A opt delta off (u, d) i = Inr (u', d[i + off := x])
      \<and> rows_fit m opt (length d) (fst u') \<and> rows_fit m opt (length d) (snd u')"
    using s i by (auto simp: sm dcasgda_step_def Let_def simp del: of_nat_add)
qed

section \<open>Every updater keeps its shape\<close>

fun updater_wf :: "nat \<Rightarrow> nat \<Rightarrow> updater \<Rightarrow> bool" where
  \<comment> \<open>members for \<open>n\<close> parameters and \<open>m\<close> workers\<close>
  "updater_wf m n Plain \<longleftrightarrow> True"
| "updater_wf m n Sgd \<longleftrightarrow> True"
| "updater_wf m n (Adam m1 m2) \<longleftrightarrow> length m1 = n \<and> length m2 = n"
| "updater_wf m n (Avg accu acc) \<longleftrightarrow> length acc = n"
| "updater_wf m n (AdaGrad h) \<longleftrightarrow> length h = m \<and> (\<forall>xs \<in> set h. length xs = n)"
| "updater_wf m n (Momentum g) \<longleftrightarrow> length g = n"
| "updater_wf m n (Dcasgd sh) \<longleftrightarrow> length sh = m \<and> (\<forall>xs \<in> set sh. length xs = n)"
| "updater_wf m n (Dcasgda sh ms) \<longleftrightarrow> length sh = m \<and> (\<forall>xs \<in> set sh. length xs = n)
     \<and> length ms = m \<and> (\<forall>xs \<in> set ms. length xs = n)"

definition worker_opt :: "nat \<Rightarrow> add_option \<Rightarrow> bool" where
  "worker_opt m opt \<longleftrightarrow> 0 \<le> opt_worker_id opt \<and> opt_worker_id opt < int m"

lemma GetUpdater_wf: "updater_wf (nat (num_workers z)) n (GetUpdater z dc ty n solver)"
  by (simp add: GetUpdater_def Let_def)

lemma rows_fit_wf:
  "worker_opt m opt \<Longrightarrow> rows_fit m opt n xss \<longleftrightarrow> length xss = m \<and> (\<forall>xs \<in> set xss. length xs = n)"
  by (auto simp: rows_fit_def worker_opt_def in_range_def)

text \<open>\<open>avg\<close> adds the delta to its sum, and every \<open>num_workers\<close>-th time writes the mean.\<close>

definition avg_sum :: "'d farith \<Rightarrow> f32 list \<Rightarrow> f32 list \<Rightarrow> nat \<Rightarrow> f32 list" where
  "avg_sum A acc delta n = map (\<lambda>i. if i < n then fadd A (acc ! i) (delta ! i) else acc ! i) [0..<length acc]"

lemma avg_loop:
  "n \<le> length acc \<Longrightarrow> n \<le> length delta \<Longrightarrow>
   fold_res (avg_step A delta) acc [0..<n] = Inr (avg_sum A acc delta n)"
proof (induction n)
  case 0
  then show ?case by (simp add: avg_sum_def map_nth)
next
  case (Suc n)
  have "(avg_sum A acc delta n)[n := fadd A (acc ! n) (delta ! n)] = avg_sum A acc delta (Suc n)"
    using Suc.prems by (intro nth_equalityI) (auto simp: avg_sum_def nth_list_update)
  with Suc show ?case by (simp add: fold_res_append avg_step_def) (simp add: avg_sum_def)
qed

lemma flush_loop:
  "n \<le> length acc \<Longrightarrow> off + n \<le> length d \<Longrightarrow>
   fold_res (avg_flush A accu acc off) d [0..<n] =
     Inr (take off d @ map (\<lambda>s. fdiv A s (f_of_size A accu)) (take n acc) @ drop (off + n) d)"
proof (induction n)
  case 0
  then show ?case by simp
next
  case (Suc n)
  let ?f = "\<lambda>s. fdiv A s (f_of_size A accu)"
  have "(take off d @ map ?f (take n acc) @ drop (off + n) d)[off + n := ?f (acc ! n)]
      = take off d @ map ?f (take (Suc n) acc) @ drop (off + Suc n) d"
    using Suc.prems
    by (simp add: list_update_append take_Suc_conv_app_nth flip: Cons_nth_drop_Suc)
  with Suc show ?case by (simp add: fold_res_append avg_flush_def del: of_nat_add)
qed

lemma avg_Update:
  assumes "length acc = length d" and "off + n \<le> length d" and "n \<le> length delta" and "n < 2 ^ 31"
  shows "updater_Update A z (Avg accu acc) n d delta opt off =
    (let acc' = avg_sum A acc delta n in
     if accu + 1 = word_of_int (num_workers z)
     then Inr (Avg 0 (replicate (length d) 0),
       take off d @ map (\<lambda>s. fdiv A s (f_of_size A (accu + 1))) (take n acc') @ drop (off + n) d)
     else Inr (Avg (accu + 1) acc', d))"
  using assms
  by (simp add: avg_loop flush_loop Let_def avg_sum_def map_replicate_const)

lemma updater_Update_keeps:
  assumes u: "updater_wf m (length d) u" and opt: "worker_opt m opt"
    and n: "off + n \<le> length d" "n \<le> length delta" and small: "n < 2 ^ 31"
  shows "\<exists>u' d'. updater_Update A z u n d delta opt off = Inr (u', d')
    \<and> updater_wf m (length d) u' \<and> length d' = length d
    \<and> (\<forall>j. j < off \<or> off + n \<le> j \<longrightarrow> d' ! j = d ! j)"
proof (cases u)
  case Plain
  then show ?thesis using plain.loop_ok [OF _ n, where u = "()" and opt = opt and A = A] small by fastforce
next
  case Sgd
  then show ?thesis using sgd.loop_ok [OF _ n, where u = "()" and opt = opt and A = A] by fastforce
next
  case (Adam m1 m2)
  then show ?thesis using adam.loop_ok [OF _ n, where u = "(m1, m2)" and opt = opt and A = A] u by fastforce
next
  case (AdaGrad h)
  have "vec_at h (opt_worker_id opt) = Inr (h ! nat (opt_worker_id opt))"
      "length (h ! nat (opt_worker_id opt)) = length d"
    using u opt AdaGrad by (auto simp: vec_at_def in_range_def worker_opt_def)
  then show ?thesis
    using adagrad.loop_ok [OF _ n, where u = "h ! nat (opt_worker_id opt)" and opt = opt and A = A] u AdaGrad by fastforce
next
  case (Momentum g)
  then show ?thesis using momentum.loop_ok [OF _ n, where u = g and opt = opt and A = A] u by fastforce
next
  case (Dcasgd sh)
  then show ?thesis using dcasgd.loop_ok [OF _ n, where u = sh and opt = opt and A = A and m = m] u
    by (fastforce simp: rows_fit_wf [OF opt])
next
  case (Dcasgda sh ms)
  then show ?thesis using dcasgda.loop_ok [OF _ n, where u = "(sh, ms)" and opt = opt and A = A and m = m] u
    by (fastforce simp: rows_fit_wf [OF opt])
next
  case (Avg accu acc)
  have "length (avg_sum A acc delta n) = length d" using u Avg by (simp add: avg_sum_def)
  then show ?thesis
    using u Avg n small by (simp add: avg_Update Let_def nth_append del: updater_Update.simps) auto
qed

section \<open>What the updaters compute\<close>

text \<open>Updaters without members whose iteration maps the old cell and the delta to the new cell.\<close>

locale cellwise =
  fixes step :: "add_option \<Rightarrow> f32 list \<Rightarrow> nat \<Rightarrow> unit \<times> f32 list \<Rightarrow> nat \<Rightarrow> (unit \<times> f32 list) res"
    and cell :: "add_option \<Rightarrow> f32 \<Rightarrow> f32 \<Rightarrow> f32"
  assumes step_cell: "i + off < length d \<Longrightarrow> i < length delta \<Longrightarrow>
      step opt delta off ((), d) i = Inr ((), d[i + off := cell opt (d ! (i + off)) (delta ! i)])"
begin

lemma loop_cells:
  assumes "off + n \<le> length d" and "n \<le> length delta"
  shows "fold_res (step opt delta off) ((), d) [0..<n] =
    Inr ((), take off d @ map2 (cell opt) (take n (drop off d)) (take n delta) @ drop (off + n) d)"
  using assms
proof (induction n)
  case 0
  then show ?case by simp
next
  case (Suc n)
  let ?upd = "\<lambda>n. take off d @ map2 (cell opt) (take n (drop off d)) (take n delta) @ drop (off + n) d"
  have "?upd n ! (n + off) = d ! (n + off)"
    using Suc.prems by (simp add: nth_append add.commute)
  moreover have "drop (off + n) d = d ! (n + off) # drop (Suc (off + n)) d"
    using Suc.prems by (simp add: Cons_nth_drop_Suc add.commute)
  then have "(?upd n)[n + off := cell opt (d ! (n + off)) (delta ! n)] = ?upd (Suc n)"
    using Suc.prems by (simp add: list_update_append take_Suc_conv_app_nth add.commute)
  ultimately show ?case
    using Suc step_cell [of n off "?upd n" delta opt] by (simp add: fold_res_append)
qed

end

interpretation plain_cells: cellwise "plain_step A" "\<lambda>_ x dl. fadd A x dl" for A
  by unfold_locales (auto simp: plain_step_def Let_def simp del: of_nat_add)

interpretation sgd_cells: cellwise "sgd_step A" "\<lambda>opt x dl. fsub A x (fmul A dl (learning_rate opt))" for A
  by unfold_locales (auto simp: sgd_step_def Let_def simp del: of_nat_add)

lemma plain_Update:
  assumes "off + n \<le> length d" and "n \<le> length delta" and "n < 2 ^ 31"
  shows "updater_Update A z Plain n d delta opt off =
    Inr (Plain, take off d @ map2 (fadd A) (take n (drop off d)) (take n delta) @ drop (off + n) d)"
  using assms(3) by (simp add: plain_cells.loop_cells [OF assms(1,2)])

lemma sgd_Update:
  assumes "off + n \<le> length d" and "n \<le> length delta"
  shows "updater_Update A z Sgd n d delta opt off =
    Inr (Sgd, take off d @ map2 (\<lambda>x dl. fsub A x (fmul A dl (learning_rate opt)))
      (take n (drop off d)) (take n delta) @ drop (off + n) d)"
  by (simp add: sgd_cells.loop_cells [OF assms])

lemma access_copies:
  "off + n \<le> length d \<Longrightarrow> length out = n \<Longrightarrow> updater_Access n d out off = Inr (take n (drop off d))"
  by (simp add: updater_Access_def buf_read_def buf_write_def)

text \<open>A round of \<open>avg\<close>: one update from each worker.\<close>

definition avg_updates :: "'d farith \<Rightarrow> zoo \<Rightarrow> add_option \<Rightarrow> updater \<times> f32 list \<Rightarrow> f32 list list \<Rightarrow>
    (updater \<times> f32 list) res" where
  "avg_updates A z opt = fold_res (\<lambda>(u, d) delta. updater_Update A z u (length d) d delta opt 0)"

definition sum_deltas :: "'d farith \<Rightarrow> f32 list list \<Rightarrow> nat \<Rightarrow> f32" where
  "sum_deltas A deltas i = fold (\<lambda>delta s. fadd A s (delta ! i)) deltas 0"

lemma avg_waits:
  assumes m: "num_workers z = int m" "m < 2 ^ 64" and few: "length deltas < m"
    and len: "\<forall>delta \<in> set deltas. length delta = length d" and small: "length d < 2 ^ 31"
  shows "avg_updates A z opt (Avg 0 (replicate (length d) 0), d) deltas =
    Inr (Avg (of_nat (length deltas)) (map (sum_deltas A deltas) [0..<length d]), d)"
  using few len
proof (induction deltas rule: rev_induct)
  case Nil
  then show ?case by (simp add: avg_updates_def sum_deltas_def map_replicate_const)
next
  case (snoc delta deltas)
  have "(of_nat (Suc (length deltas)) :: u64) \<noteq> word_of_int (int m)"
  proof
    assume "(of_nat (Suc (length deltas)) :: u64) = word_of_int (int m)"
    then have "unat (of_nat (Suc (length deltas)) :: u64) = unat (of_nat m :: u64)"
      by simp
    then show False using snoc.prems m(2) by (simp only: unat_of_nat) simp
  qed
  then show ?case
    using snoc m(1) small
    by (simp add: avg_updates_def fold_res_append avg_Update Let_def add.commute del: updater_Update.simps)
      (simp add: avg_sum_def sum_deltas_def)
qed

text \<open>The \<open>avg\<close> updater is a window over the workers: the first \<open>num_workers - 1\<close> deltas
  leave the parameters alone, and the last one replaces every parameter by the sum of the
  deltas of the window at that index over the number of workers; then the window is empty again.\<close>

theorem avg_round:
  assumes m: "num_workers z = int m" "0 < m" "m < 2 ^ 64" and deltas: "length deltas = m"
    and len: "\<forall>delta \<in> set deltas. length delta = length d" and small: "length d < 2 ^ 31"
  shows "avg_updates A z opt (Avg 0 (replicate (length d) 0), d) deltas =
    Inr (Avg 0 (replicate (length d) 0),
      map (\<lambda>i. fdiv A (sum_deltas A deltas i) (f_of_size A (of_nat m))) [0..<length d])"
proof -
  obtain ds delta where dd: "deltas = ds @ [delta]"
    using deltas m(2) by (cases deltas rule: rev_cases) auto
  have one: "(of_nat (length ds) + 1 :: u64) = of_nat m"
    using deltas by (auto simp: dd add.commute)
  have sums: "avg_sum A (map (sum_deltas A ds) [0..<length d]) delta (length d)
      = map (sum_deltas A deltas) [0..<length d]"
    by (simp add: avg_sum_def sum_deltas_def dd)
  show ?thesis
    using avg_waits [OF m(1) m(3), of ds d A opt] deltas len one m(1) sums small
    by (simp add: dd avg_updates_def fold_res_append avg_Update Let_def comp_def
      del: updater_Update.simps)
qed

text \<open>\<open>AdaGradUpdater::Update\<close> takes a copy of the worker's squared gradients, so the history
  it is meant to accumulate never changes: the update succeeds, changes the parameters, and
  leaves the updater what it was before.\<close>

theorem adagrad_forgets:
  assumes "updater_wf m (length d) (AdaGrad h)" and "worker_opt m opt"
    and "off + n \<le> length d" and "n \<le> length delta" and "n < 2 ^ 31"
  shows "\<exists>d'. updater_Update A z (AdaGrad h) n d delta opt off = Inr (AdaGrad h, d') \<and> length d' = length d"
  using updater_Update_keeps [OF assms, of A z] by auto

text \<open>C28. Every updater works inside its arrays: with members of the right shape, an option that
  names a worker and a delta of \<open>n\<close> elements, where \<open>n\<close> fits the \<open>int\<close> index that some of
  the loops have, \<open>Update\<close> ends without an out-of-range access or an overflow of the index, keeps
  the shape of the members and the number of parameters, and changes no parameter outside the \<open>n\<close>
  cells from the offset on.\<close>

theorem update_in_bounds:
  assumes "updater_wf m (length d) u" and "worker_opt m opt"
    and "off + n \<le> length d" and "n \<le> length delta" and "n < 2 ^ 31"
  shows "\<exists>u' d'. updater_Update A z u n d delta opt off = Inr (u', d')
    \<and> updater_wf m (length d) u' \<and> length d' = length d
    \<and> (\<forall>j. j < off \<or> off + n \<le> j \<longrightarrow> d' ! j = d ! j)"
  by (rule updater_Update_keeps [OF assms])

text \<open>The bound is needed: a plain update of more elements than that overflows its index.\<close>

theorem plain_Update_overflows:
  assumes "2 ^ 31 \<le> n"
  shows "updater_Update A z Plain n d delta opt off \<noteq> Inr (u', d')"
  using int_loop_overflows [OF assms, of "plain_step A opt delta off"] by auto

text \<open>An arithmetic on the bit patterns, to run the model with.\<close>

definition bit_arith :: "f32 farith" where
  "bit_arith = \<lparr>fadd = (+), fsub = (-), fmul = (*), fdiv = (div), fsqrt = (\<lambda>x. x), f_of_size = ucast,
     widen = (\<lambda>x. x), narrow = (\<lambda>x. x), dadd = (+), dsub = (-), dmul = (*), ddiv = (div),
     dsqrt = (\<lambda>x. x)\<rparr>"

definition demo_zoo :: zoo where
  "demo_zoo = \<lparr>zoo_rank = 0, zoo_size = 2, nodes = [], server_ranks = [], worker_ranks = [],
     num_workers = 2, num_servers = 0\<rparr>"

lemma avg_round_witness:
  "avg_updates bit_arith demo_zoo (new_add_option 0) (Avg 0 (replicate (length [7, 8 :: f32]) 0), [7, 8]) [[2, 4], [4, 8]] =
    Inr (Avg 0 (replicate (length [7, 8 :: f32]) 0),
      map (\<lambda>i. fdiv bit_arith (sum_deltas bit_arith [[2, 4], [4, 8]] i) (f_of_size bit_arith (of_nat 2)))
        [0..<length [7, 8 :: f32]])"
  by (rule avg_round) (simp_all add: demo_zoo_def)

lemma worker_opt_demo: "worker_opt 2 (new_add_option 1)"
  by (simp add: worker_opt_def opt_worker_id_def new_add_option_def set_opt_def set_worker_id_def
    set_learning_rate_def set_momentum_def set_rho_def set_lambda_def set_beta1_def set_beta2_def
    set_eps_def)

lemma adagrad_forgets_witness:
  "\<exists>d'. updater_Update bit_arith demo_zoo (AdaGrad [[0, 0], [0, 0]]) 2 [7, 8] [1, 1] (new_add_option 1) 0
     = Inr (AdaGrad [[0, 0], [0, 0]], d') \<and> length d' = length [7, 8 :: f32]"
  by (rule adagrad_forgets [OF _ worker_opt_demo]) simp_all

lemma update_in_bounds_witness:
  "\<exists>u' d'. updater_Update bit_arith demo_zoo (Dcasgd [[0, 0, 0], [0, 0, 0]]) 2 [7, 8, 9] [1, 1] (new_add_option 1) 1
     = Inr (u', d') \<and> updater_wf 2 (length [7, 8, 9 :: f32]) u' \<and> length d' = length [7, 8, 9 :: f32]
     \<and> (\<forall>j. j < 1 \<or> 1 + 2 \<le> j \<longrightarrow> d' ! j = [7, 8, 9] ! j)"
  by (rule update_in_bounds [OF _ worker_opt_demo]) simp_all

text \<open>The default options are not the ones the constructor sets first: \<open>set_beta1\<close>,
  \<open>set_beta2\<close> and \<open>set_eps\<close> write the slots of momentum, rho and lambda, which so become 0.9,
  0.999 and 1e-8 in place of 0, 0.1 and 0.1.\<close>

theorem default_options:
  "momentum (new_add_option w) = 0x3F666666 \<and> rho (new_add_option w) = 0x3F7FBE77
   \<and> lambda (new_add_option w) = 0x322BCC77 \<and> learning_rate (new_add_option w) = 0x3A83126F"
  by (simp add: new_add_option_def set_opt_def set_worker_id_def set_learning_rate_def
    set_momentum_def set_rho_def set_lambda_def set_beta1_def set_beta2_def set_eps_def
    momentum_def rho_def lambda_def learning_rate_def)

end
