(* ===== verification/RandomGen.thy ===== *)
theory RandomGen
  imports Bytes
begin

text \<open>
  The parameter initialiser: src/hpps/common/random.h and random.cc. \<open>Gen\<close> hands out numbers
  from a buffer of 1024 that is refilled when it is empty.

  The engine and the distributions of the C++ library are parameters: \<open>'g\<close> is the engine's
  state, a distribution draws a number of floats from it.
\<close>

section \<open>Options\<close>

record random_option =
  ropt_data :: "i32 list"

datatype random_algo = KGaussian | KUniform | KAssign

fun algo_code :: "random_algo \<Rightarrow> i32" where
  "algo_code KGaussian = 0"
| "algo_code KUniform = 1"
| "algo_code KAssign = 2"

definition set_ropt :: "nat \<Rightarrow> i32 \<Rightarrow> random_option \<Rightarrow> random_option" where
  "set_ropt i x o' = o'\<lparr>ropt_data := (ropt_data o')[i := x]\<rparr>"

definition ropt_algorithm :: "random_option \<Rightarrow> i32" where "ropt_algorithm o' = ropt_data o' ! 0"
definition ropt_mu :: "random_option \<Rightarrow> f32" where "ropt_mu o' = ropt_data o' ! 1"
definition ropt_sigma :: "random_option \<Rightarrow> f32" where "ropt_sigma o' = ropt_data o' ! 2"
definition ropt_assigned_value :: "random_option \<Rightarrow> f32" where "ropt_assigned_value o' = ropt_data o' ! 3"
definition ropt_seed :: "random_option \<Rightarrow> i32" where "ropt_seed o' = ropt_data o' ! 4"
definition ropt_min :: "random_option \<Rightarrow> f32" where "ropt_min o' = ropt_data o' ! 5"
definition ropt_max :: "random_option \<Rightarrow> f32" where "ropt_max o' = ropt_data o' ! 6"

definition new_random_option :: random_option where
  \<comment> \<open>0.1, 1.0 and 0.01 as bit patterns\<close>
  "new_random_option =
     set_ropt 2 0x3C23D70A (set_ropt 1 0 (set_ropt 6 0x3F800000 (set_ropt 5 0
       (set_ropt 4 0 (set_ropt 3 0x3DCCCCCD (set_ropt 0 (algo_code KGaussian)
         \<lparr>ropt_data = replicate 12 0\<rparr>))))))"

definition kStr2AlgoType :: "string \<rightharpoonup> random_algo" where
  "kStr2AlgoType = map_of [(''gaussian'', KGaussian), (''uniform'', KUniform), (''assign'', KAssign)]"

definition CreateRandomOption ::
    "(string \<Rightarrow> f32) \<Rightarrow> (string \<Rightarrow> i32) \<Rightarrow> (string \<rightharpoonup> string) \<Rightarrow> random_option" where
  \<comment> \<open>\<open>atof\<close> of the C library, converted to float and to int\<close>
  "CreateRandomOption to_float to_int kwargs =
     (let o0 = new_random_option;
          o1 = (case kwargs ''algo'' of None \<Rightarrow> o0
                | Some v \<Rightarrow> (case kStr2AlgoType v of None \<Rightarrow> o0 | Some a \<Rightarrow> set_ropt 0 (algo_code a) o0));
          o2 = (case kwargs ''mu'' of None \<Rightarrow> o1 | Some v \<Rightarrow> set_ropt 1 (to_float v) o1);
          o3 = (case kwargs ''sigma'' of None \<Rightarrow> o2 | Some v \<Rightarrow> set_ropt 2 (to_float v) o2);
          o4 = (case kwargs ''assigned_value'' of None \<Rightarrow> o3 | Some v \<Rightarrow> set_ropt 3 (to_float v) o3)
      in (case kwargs ''seed'' of None \<Rightarrow> o4 | Some v \<Rightarrow> set_ropt 4 (to_int v) o4))"

section \<open>The generator\<close>

record 'g rng =
  rng_seed :: "i32 \<Rightarrow> 'g"
  rng_uniform :: "f32 \<Rightarrow> f32 \<Rightarrow> nat \<Rightarrow> 'g \<Rightarrow> f32 list \<times> 'g"
  rng_normal :: "f32 \<Rightarrow> f32 \<Rightarrow> nat \<Rightarrow> 'g \<Rightarrow> f32 list \<times> 'g"

definition rng_ok :: "'g rng \<Rightarrow> bool" where
  \<comment> \<open>a distribution draws as many numbers as it is called\<close>
  "rng_ok G \<longleftrightarrow> (\<forall>a b n g. length (fst (rng_uniform G a b n g)) = n
     \<and> length (fst (rng_normal G a b n g)) = n)"

definition kRandomBufferSize :: nat where "kRandomBufferSize = 1024"

record 'g random =
  random_option :: random_option
  rnd_engine :: 'g
  rnd_buffer :: "f32 list"
  buffer_remaining :: nat

definition new_random :: "'g \<Rightarrow> 'g random" where
  \<comment> \<open>the argument is the default-constructed engine\<close>
  "new_random g = \<lparr>random_option = new_random_option, rnd_engine = g,
     rnd_buffer = replicate kRandomBufferSize 0, buffer_remaining = 0\<rparr>"

definition SetRandomOption :: "'g rng \<Rightarrow> random_option \<Rightarrow> 'g random \<Rightarrow> 'g random" where
  "SetRandomOption G o' r = r\<lparr>random_option := o', rnd_engine := rng_seed G (ropt_seed o')\<rparr>"

definition GenAssignBuffer :: "'g random \<Rightarrow> 'g random" where
  "GenAssignBuffer r = r\<lparr>rnd_buffer := take (buffer_remaining r) (rnd_buffer r)
     @ replicate (kRandomBufferSize - buffer_remaining r) (ropt_assigned_value (random_option r))\<rparr>"

definition GenUniformBuffer :: "'g rng \<Rightarrow> 'g random \<Rightarrow> 'g random" where
  "GenUniformBuffer G r =
     (let (xs, g) = rng_uniform G (ropt_min (random_option r)) (ropt_max (random_option r))
            (kRandomBufferSize - buffer_remaining r) (rnd_engine r) in
      r\<lparr>rnd_buffer := take (buffer_remaining r) (rnd_buffer r) @ xs, rnd_engine := g\<rparr>)"

definition GenGaussianBuffer :: "'g rng \<Rightarrow> 'g random \<Rightarrow> 'g random" where
  "GenGaussianBuffer G r =
     (let (xs, g) = rng_normal G (ropt_mu (random_option r)) (ropt_sigma (random_option r))
            (kRandomBufferSize - buffer_remaining r) (rnd_engine r) in
      r\<lparr>rnd_buffer := take (buffer_remaining r) (rnd_buffer r) @ xs, rnd_engine := g\<rparr>)"

definition GenBuffer :: "'g rng \<Rightarrow> 'g random \<Rightarrow> 'g random res" where
  "GenBuffer G r =
     bind_res (if ropt_algorithm (random_option r) = algo_code KAssign then Inr (GenAssignBuffer r)
       else if ropt_algorithm (random_option r) = algo_code KUniform then Inr (GenUniformBuffer G r)
       else if ropt_algorithm (random_option r) = algo_code KGaussian then Inr (GenGaussianBuffer G r)
       else Inl Fatal)
     (\<lambda>r'. Inr (r'\<lparr>buffer_remaining := kRandomBufferSize\<rparr>))"

function rnd_Gen :: "'g rng \<Rightarrow> nat \<Rightarrow> 'g random \<Rightarrow> (f32 list \<times> 'g random) res" where
  \<comment> \<open>the floats written at \<open>dptr\<close>\<close>
  "rnd_Gen G sz r =
     (if sz > 0 then
        bind_res (if buffer_remaining r = 0 then GenBuffer G r else Inr r) (\<lambda>r1.
        let copy_size = min (buffer_remaining r1) sz in
        bind_res (buf_read (rnd_buffer r1) (kRandomBufferSize - buffer_remaining r1) copy_size) (\<lambda>xs.
        bind_res (rnd_Gen G (sz - copy_size)
            (r1\<lparr>buffer_remaining := buffer_remaining r1 - copy_size\<rparr>)) (\<lambda>(ys, r2).
          Inr (xs @ ys, r2))))
      else Inr ([], r))"
  by pat_completeness auto
termination
  by (relation "measure (\<lambda>(G, sz, r). sz)")
    (auto simp: GenBuffer_def kRandomBufferSize_def split: if_splits)

declare rnd_Gen.simps [simp del]

section \<open>Lemmas\<close>

definition random_wf :: "'g random \<Rightarrow> bool" where
  "random_wf r \<longleftrightarrow> length (rnd_buffer r) = kRandomBufferSize \<and> buffer_remaining r \<le> kRandomBufferSize
     \<and> ropt_algorithm (random_option r) \<in> {algo_code KAssign, algo_code KUniform, algo_code KGaussian}"

lemma new_random_wf: "random_wf (new_random g)"
  by (simp add: random_wf_def new_random_def new_random_option_def set_ropt_def ropt_algorithm_def)

lemma SetRandomOption_wf:
  "random_wf r \<Longrightarrow> ropt_algorithm o' \<in> {algo_code KAssign, algo_code KUniform, algo_code KGaussian} \<Longrightarrow>
   random_wf (SetRandomOption G o' r)"
  by (simp add: random_wf_def SetRandomOption_def)

lemma fill_wf:
  assumes "rng_ok G" and "random_wf r"
  shows "random_wf (GenAssignBuffer r)" and "random_wf (GenUniformBuffer G r)"
    and "random_wf (GenGaussianBuffer G r)"
proof -
  show "random_wf (GenAssignBuffer r)"
    using assms(2) by (simp add: random_wf_def GenAssignBuffer_def)
  have "length (fst (rng_uniform G a b n g)) = n" "length (fst (rng_normal G a b n g)) = n" for a b n g
    using assms(1) by (simp_all add: rng_ok_def)
  then show "random_wf (GenUniformBuffer G r)" "random_wf (GenGaussianBuffer G r)"
    using assms(2)
    by (simp_all add: random_wf_def GenUniformBuffer_def GenGaussianBuffer_def case_prod_beta Let_def)
qed

lemma GenBuffer_ok:
  assumes "rng_ok G" and "random_wf r"
  shows "\<exists>r'. GenBuffer G r = Inr r' \<and> random_wf r' \<and> buffer_remaining r' = kRandomBufferSize"
proof -
  have "random_wf (r'\<lparr>buffer_remaining := kRandomBufferSize\<rparr>)" if "random_wf r'" for r' :: "'a random"
    using that by (simp add: random_wf_def)
  note w = fill_wf [OF assms, THEN this]
  have "ropt_algorithm (random_option r) \<in> {algo_code KAssign, algo_code KUniform, algo_code KGaussian}"
    using assms(2) by (simp add: random_wf_def)
  then show ?thesis using w by (auto simp: GenBuffer_def)
qed

lemma refill_ok:
  assumes "rng_ok G" and "random_wf r"
  obtains r1 where "(if buffer_remaining r = 0 then GenBuffer G r else Inr r) = Inr r1"
    "random_wf r1" "0 < buffer_remaining r1"
proof (cases "buffer_remaining r = 0")
  case True
  then show ?thesis using GenBuffer_ok [OF assms] that by (auto simp: kRandomBufferSize_def)
next
  case False
  then show ?thesis using that assms(2) by auto
qed

text \<open>Generating in two steps is generating at once: the buffer only hides the refills.\<close>

lemma rnd_Gen_ok:
  assumes "rng_ok G"
  shows "random_wf r \<Longrightarrow> \<exists>xs r'. rnd_Gen G n r = Inr (xs, r') \<and> length xs = n \<and> random_wf r'"
proof (induction n arbitrary: r rule: less_induct)
  case (less n)
  show ?case
  proof (cases "n = 0")
    case True
    then show ?thesis using less.prems by (simp add: rnd_Gen.simps)
  next
    case False
    obtain r1 where r1: "(if buffer_remaining r = 0 then GenBuffer G r else Inr r) = Inr r1"
        "random_wf r1" "0 < buffer_remaining r1"
      using refill_ok [OF assms less.prems] by blast
    let ?c = "min (buffer_remaining r1) n"
    let ?r2 = "r1\<lparr>buffer_remaining := buffer_remaining r1 - ?c\<rparr>"
    have "random_wf ?r2" using r1(2) by (auto simp: random_wf_def)
    moreover have "n - ?c < n" using r1(3) False by auto
    ultimately obtain ys r' where "rnd_Gen G (n - ?c) ?r2 = Inr (ys, r')" "length ys = n - ?c" "random_wf r'"
      using less.IH by blast
    moreover have "kRandomBufferSize - buffer_remaining r1 + ?c \<le> length (rnd_buffer r1)"
      using r1(2) by (auto simp: random_wf_def)
    ultimately show ?thesis
      using False r1(1) r1(2) by (subst rnd_Gen.simps) (auto simp: buf_read_def Let_def)
  qed
qed

lemma rnd_Gen_0 [simp]: "rnd_Gen G 0 r = Inr ([], r)"
  by (simp add: rnd_Gen.simps)

lemma rnd_Gen_Suc:
  assumes "rng_ok G" and r: "random_wf r"
  shows "rnd_Gen G (Suc n) r = bind_res (rnd_Gen G 1 r) (\<lambda>(xs, r1).
    bind_res (rnd_Gen G n r1) (\<lambda>(ys, r2). Inr (xs @ ys, r2)))"
proof -
  obtain r1 where r1: "(if buffer_remaining r = 0 then GenBuffer G r else Inr r) = Inr r1"
      "random_wf r1" "0 < buffer_remaining r1"
    using refill_ok [OF assms] by blast
  let ?k = "buffer_remaining r1" and ?b = "rnd_buffer r1"
  let ?at = "\<lambda>i. ?b ! (kRandomBufferSize - i)"
  let ?r2 = "r1\<lparr>buffer_remaining := ?k - 1\<rparr>"
  have len: "length ?b = kRandomBufferSize" "?k \<le> kRandomBufferSize" using r1(2) by (simp_all add: random_wf_def)
  have one: "rnd_Gen G 1 r = Inr ([?at ?k], ?r2)"
  proof -
    have m: "min ?k (Suc 0) = Suc 0" using r1(3) by simp
    have "buf_read ?b (kRandomBufferSize - ?k) 1 = Inr [?at ?k]"
      using len r1(3) by (simp add: buf_read_def take_Suc_conv_app_nth kRandomBufferSize_def)
    then show ?thesis using r1(1) by (subst rnd_Gen.simps) (simp add: Let_def m)
  qed
  show ?thesis
  proof (cases "?k = 1 \<or> n = 0")
    case True
    then have m: "min ?k (Suc n) = Suc 0" using r1(3) by auto
    have "buf_read ?b (kRandomBufferSize - ?k) (Suc 0) = Inr [?at ?k]"
      using len r1(3) by (simp add: buf_read_def take_Suc_conv_app_nth kRandomBufferSize_def)
    then show ?thesis using r1(1) one by (subst rnd_Gen.simps) (simp add: Let_def m)
  next
    case False
    then have k: "1 < ?k" and n: "0 < n" using r1(3) by auto
    let ?c = "min (?k - 1) n"
    have c: "min ?k (Suc n) = Suc ?c" "Suc n - Suc ?c = n - ?c" "?k - Suc ?c = ?k - 1 - ?c"
      using k by auto
    have "take (Suc ?c) (drop (kRandomBufferSize - ?k) ?b)
        = ?at ?k # take ?c (drop (kRandomBufferSize - (?k - 1)) ?b)"
    proof -
      have "drop (kRandomBufferSize - ?k) ?b = ?at ?k # drop (Suc (kRandomBufferSize - ?k)) ?b"
        using len r1(3) by (simp add: Cons_nth_drop_Suc)
      moreover have "Suc (kRandomBufferSize - ?k) = kRandomBufferSize - (?k - 1)" using k len by arith
      ultimately show ?thesis by simp
    qed
    moreover have "kRandomBufferSize - ?k + Suc ?c \<le> kRandomBufferSize"
      "kRandomBufferSize - (?k - 1) + ?c \<le> kRandomBufferSize" using k len(2) by auto
    ultimately have "rnd_Gen G (Suc n) r = bind_res (rnd_Gen G n ?r2) (\<lambda>(ys, r2). Inr (?at ?k # ys, r2))"
      using r1(1) len k n c
      by (subst rnd_Gen.simps, subst (2) rnd_Gen.simps)
        (simp add: buf_read_def Let_def bind_res_assoc case_prod_beta' del: min_Suc1 min_Suc2)
    then show ?thesis using one by simp
  qed
qed

lemma rnd_Gen_add:
  assumes "rng_ok G"
  shows "random_wf r \<Longrightarrow> rnd_Gen G (m + n) r = bind_res (rnd_Gen G m r) (\<lambda>(xs, r1).
    bind_res (rnd_Gen G n r1) (\<lambda>(ys, r2). Inr (xs @ ys, r2)))"
proof (induction m arbitrary: r)
  case 0
  then show ?case using rnd_Gen_ok [OF assms, of r n] by auto
next
  case (Suc m)
  obtain xs r1 where r1: "rnd_Gen G 1 r = Inr (xs, r1)" "random_wf r1"
    using rnd_Gen_ok [OF assms Suc.prems, of 1] by auto
  obtain ys r2 where r2: "rnd_Gen G m r1 = Inr (ys, r2)" "random_wf r2"
    using rnd_Gen_ok [OF assms r1(2), of m] by auto
  obtain zs r3 where "rnd_Gen G n r2 = Inr (zs, r3)"
    using rnd_Gen_ok [OF assms r2(2), of n] by auto
  then show ?case
    using Suc.IH [OF r1(2)] r1(1) r2(1) rnd_Gen_Suc [OF assms Suc.prems, of "m + n"]
      rnd_Gen_Suc [OF assms Suc.prems, of m]
    by simp
qed

definition assigns :: "f32 \<Rightarrow> 'g random \<Rightarrow> bool" where
  "assigns v r \<longleftrightarrow> random_wf r \<and> ropt_algorithm (random_option r) = algo_code KAssign
     \<and> ropt_assigned_value (random_option r) = v
     \<and> (\<forall>x \<in> set (drop (kRandomBufferSize - buffer_remaining r) (rnd_buffer r)). x = v)"

lemma rnd_Gen_assigns: "assigns v r \<Longrightarrow> \<exists>r'. rnd_Gen G n r = Inr (replicate n v, r') \<and> assigns v r'"
proof (induction n arbitrary: r rule: less_induct)
  case (less n)
  show ?case
  proof (cases "n = 0")
    case True
    then show ?thesis using less.prems by simp
  next
    case False
    obtain r1 where r1: "(if buffer_remaining r = 0 then GenBuffer G r else Inr r) = Inr r1"
        "assigns v r1" "0 < buffer_remaining r1"
    proof (cases "buffer_remaining r = 0")
      case True
      let ?r1 = "GenAssignBuffer r\<lparr>buffer_remaining := kRandomBufferSize\<rparr>"
      have "GenBuffer G r = Inr ?r1" using less.prems by (simp add: GenBuffer_def assigns_def)
      moreover have "assigns v ?r1"
        using less.prems True by (auto simp: assigns_def random_wf_def GenAssignBuffer_def)
      ultimately show ?thesis using that True by (simp add: kRandomBufferSize_def)
    next
      case False
      then show ?thesis using that less.prems by auto
    qed
    let ?k = "buffer_remaining r1" and ?b = "rnd_buffer r1"
    let ?c = "min ?k n"
    let ?r2 = "r1\<lparr>buffer_remaining := ?k - ?c\<rparr>"
    have len: "length ?b = kRandomBufferSize" "?k \<le> kRandomBufferSize"
      and v: "\<forall>x \<in> set (drop (kRandomBufferSize - ?k) ?b). x = v"
      using r1(2) by (simp_all add: assigns_def random_wf_def)
    have "set (drop (kRandomBufferSize - (?k - ?c)) ?b) \<subseteq> set (drop (kRandomBufferSize - ?k) ?b)"
      by (intro set_drop_subset_set_drop) auto
    then have "assigns v ?r2" using r1(2) by (auto simp: assigns_def random_wf_def)
    moreover have "n - ?c < n" using r1(3) False by auto
    ultimately obtain r' where "rnd_Gen G (n - ?c) ?r2 = Inr (replicate (n - ?c) v, r')" "assigns v r'"
      using less.IH by blast
    moreover have "buf_read ?b (kRandomBufferSize - ?k) ?c = Inr (replicate ?c v)"
    proof -
      have "take ?c (drop (kRandomBufferSize - ?k) ?b) = replicate ?c v"
        using len v by (intro replicate_eqI) (auto dest: in_set_takeD)
      then show ?thesis using len by (simp add: buf_read_def)
    qed
    moreover have "replicate ?c v @ replicate (n - ?c) v = replicate n v"
      by (simp flip: replicate_add)
    ultimately show ?thesis
      using False r1(1) by (subst rnd_Gen.simps) (auto simp: Let_def)
  qed
qed

lemma assigns_new:
  "ropt_algorithm o' = algo_code KAssign \<Longrightarrow>
   assigns (ropt_assigned_value o') (SetRandomOption G o' (new_random g))"
  by (simp add: assigns_def random_wf_def SetRandomOption_def new_random_def)

text \<open>The initialiser is a stream: whatever the distribution, generating \<open>m + n\<close> numbers gives
  the numbers that generating \<open>m\<close> and then \<open>n\<close> gives, and leaves the same generator; in
  particular it always ends and never reads outside its buffer.\<close>

theorem random_stream:
  assumes "rng_ok G" and "random_wf r"
  shows "\<exists>xs ys r1 r2. rnd_Gen G m r = Inr (xs, r1) \<and> rnd_Gen G n r1 = Inr (ys, r2)
    \<and> rnd_Gen G (m + n) r = Inr (xs @ ys, r2) \<and> length xs = m \<and> length ys = n"
proof -
  obtain xs r1 where "rnd_Gen G m r = Inr (xs, r1)" "length xs = m" "random_wf r1"
    using rnd_Gen_ok [OF assms] by blast
  moreover obtain ys r2 where "rnd_Gen G n r1 = Inr (ys, r2)" "length ys = n"
    using rnd_Gen_ok [OF assms(1) calculation(3)] by blast
  ultimately show ?thesis using rnd_Gen_add [OF assms, of m n] by auto
qed

text \<open>A counting generator, and the stream property on it.\<close>

definition counting_rng :: "i32 rng" where
  "counting_rng = \<lparr>rng_seed = (\<lambda>s. s),
     rng_uniform = (\<lambda>a b n g. (map (\<lambda>i. g + of_nat i) [0..<n], g + of_nat n)),
     rng_normal = (\<lambda>a b n g. (map (\<lambda>i. g + of_nat i) [0..<n], g + of_nat n))\<rparr>"

lemma counting_rng_ok: "rng_ok counting_rng"
  by (simp add: rng_ok_def counting_rng_def)

lemma random_stream_witness:
  "\<exists>xs ys r1 r2. rnd_Gen counting_rng 1000 (new_random 7) = Inr (xs, r1) \<and> rnd_Gen counting_rng 500 r1 = Inr (ys, r2)
    \<and> rnd_Gen counting_rng (1000 + 500) (new_random 7) = Inr (xs @ ys, r2) \<and> length xs = 1000 \<and> length ys = 500"
  by (rule random_stream [OF counting_rng_ok new_random_wf])

end
