(* ===== verification/ArrayTable.thy ===== *)
theory ArrayTable
  imports Updater SyncRounds RandomGen "HOL-Library.Signed_Division"
begin

text \<open>
  The array table (src/hpps/table/array_table.h and array_table.cc): a vector of floats cut
  into contiguous pieces, one per server. The worker's half partitions requests and puts the
  replies together in the caller's buffer, the server's half holds one piece.

  A worker's partition result, \<open>unordered_map<int, vector<Blob>>\<close>, is an association list
  in the order in which the keys were first pushed to.
\<close>

section \<open>Partitions\<close>

type_synonym pieces = "(int \<times> blob list) list"

fun push_out :: "int \<Rightarrow> blob \<Rightarrow> pieces \<Rightarrow> pieces" where
  \<comment> \<open>\<open>(*out)[i].push_back(b)\<close>\<close>
  "push_out i b [] = [(i, [b])]"
| "push_out i b ((j, bs) # out) = (if i = j then (j, bs @ [b]) # out else (j, bs) # push_out i b out)"

definition piece_of :: "pieces \<Rightarrow> int \<Rightarrow> blob list" where
  "piece_of out i = (case map_of out i of None \<Rightarrow> [] | Some bs \<Rightarrow> bs)"

lemma piece_of_Nil [simp]: "piece_of [] i = []"
  by (simp add: piece_of_def)

lemma piece_of_push [simp]: "piece_of (push_out i b out) j = piece_of out j @ (if i = j then [b] else [])"
  by (induction i b out rule: push_out.induct) (auto simp: piece_of_def)

lemma keys_push [simp]: "fst ` set (push_out i b out) = insert i (fst ` set out)"
  by (induction i b out rule: push_out.induct) auto

lemma distinct_push [simp]: "distinct (map fst out) \<Longrightarrow> distinct (map fst (push_out i b out))"
proof (induction i b out rule: push_out.induct)
  case (1 i b)
  then show ?case by simp
next
  case (2 i b j bs out)
  then show ?case using keys_push [of i b out] by auto
qed

lemma piece_of_map_of: "distinct (map fst out) \<Longrightarrow> (i, bs) \<in> set out \<Longrightarrow> piece_of out i = bs"
  by (simp add: piece_of_def)

section \<open>The worker's half\<close>

definition to_size :: "int \<Rightarrow> nat" where
  \<comment> \<open>conversion to \<open>size_t\<close>\<close>
  "to_size i = nat (i mod 2 ^ 64)"

lemma to_size_of_nat: "k < 2 ^ 64 \<Longrightarrow> to_size (int k) = k"
  by (simp add: to_size_def)

record array_worker =
  aw_size :: nat
  aw_num_server :: int
  server_offsets :: "nat list"
  aw_data :: blob                \<comment> \<open>the memory at the caller's \<open>data_\<close>\<close>

definition new_array_worker :: "zoo \<Rightarrow> nat \<Rightarrow> array_worker res" where
  "new_array_worker z sz =
     bind_res (check (sz > to_size (num_servers z))) (\<lambda>_.
     if num_servers z = 0 then Inl DivByZero
     else let len = sint (of_nat sz :: i32) sdiv num_servers z in
       Inr \<lparr>aw_size = sz, aw_num_server = num_servers z,
         server_offsets = 0 # map (\<lambda>i. to_size (i * len)) [1..num_servers z - 1] @ [sz],
         aw_data = []\<rparr>)"

definition all_key :: blob where "all_key = enc32 (-1)"

text \<open>\<open>Get\<close>/\<open>GetAsync\<close> and \<open>Add\<close>/\<open>AddAsync\<close>: the blobs handed to \<open>WorkerTable\<close>.\<close>

definition array_Get :: "blob \<Rightarrow> nat \<Rightarrow> array_worker \<Rightarrow> (blob list \<times> array_worker) res" where
  "array_Get buf sz aw =
     bind_res (check (sz = aw_size aw)) (\<lambda>_. Inr ([all_key], aw\<lparr>aw_data := buf\<rparr>))"

definition array_Add :: "f32 list \<Rightarrow> nat \<Rightarrow> add_option option \<Rightarrow> array_worker \<Rightarrow> blob list res" where
  "array_Add delta sz opt aw =
     bind_res (check (sz = aw_size aw)) (\<lambda>_.
     bind_res (buf_read delta 0 sz) (\<lambda>xs.
       Inr ([all_key, enc_seq enc32 xs] @ (case opt of None \<Rightarrow> [] | Some o' \<Rightarrow> [opt_bytes o']))))"

definition array_piece :: "array_worker \<Rightarrow> blob list \<Rightarrow> pieces \<Rightarrow> int \<Rightarrow> pieces res" where
  \<comment> \<open>one iteration of the second loop of \<open>Partition\<close>\<close>
  "array_piece aw kv out i =
     bind_res (vec_at (server_offsets aw) i) (\<lambda>o1.
     bind_res (vec_at (server_offsets aw) (i + 1)) (\<lambda>o2.
     bind_res (vec_at kv 1) (\<lambda>vals.
     bind_res (buf_read vals (o1 * 4) (to_size ((int o2 - int o1) * 4))) (\<lambda>b.
     let out' = push_out i b out in
     if length kv = 3 then bind_res (vec_at kv 2) (\<lambda>opt. Inr (push_out i opt out')) else Inr out'))))"

definition array_Partition :: "array_worker \<Rightarrow> blob list \<Rightarrow> pieces \<Rightarrow> (int \<times> pieces) res" where
  "array_Partition aw kv out =
     bind_res (check (length kv = 1 \<or> length kv = 2 \<or> length kv = 3)) (\<lambda>_.
     bind_res (fold_res (\<lambda>out i. bind_res (vec_at kv 0) (\<lambda>k. Inr (push_out i k out)))
        out [0..aw_num_server aw - 1]) (\<lambda>out.
     bind_res
       (if length kv \<ge> 2 then
          bind_res (vec_at kv 1) (\<lambda>vals.
          bind_res (check (length vals = aw_size aw * 4)) (\<lambda>_.
            fold_res (array_piece aw kv) out [0..aw_num_server aw - 1]))
        else Inr out) (\<lambda>out. Inr (aw_num_server aw, out))))"

definition array_ProcessReplyGet :: "blob list \<Rightarrow> array_worker \<Rightarrow> array_worker res" where
  "array_ProcessReplyGet reply_data aw =
     bind_res (check (length reply_data = 2)) (\<lambda>_.
     bind_res (vec_at reply_data 0) (\<lambda>key.
     bind_res (vec_at reply_data 1) (\<lambda>vals.
     bind_res (elem_at 4 dec32 key 0) (\<lambda>idw.
     let i = sint idw in
     bind_res (vec_at (server_offsets aw) i) (\<lambda>o1.
     bind_res (vec_at (server_offsets aw) (i + 1)) (\<lambda>o2.
     bind_res (check (elem_count 4 vals = to_size (int o2 - int o1))) (\<lambda>_.
     bind_res (buf_write (aw_data aw) (o1 * 4) vals) (\<lambda>buf. Inr (aw\<lparr>aw_data := buf\<rparr>)))))))))"

section \<open>The server's half\<close>

record array_server =
  as_server_id :: i32
  storage :: "f32 list"
  as_updater :: updater
  as_size :: nat

definition array_server_size :: "zoo \<Rightarrow> nat \<Rightarrow> int \<Rightarrow> nat res" where
  \<comment> \<open>the size computed in the constructor\<close>
  "array_server_size z sz sid =
     (if num_servers z = 0 then Inl DivByZero
      else let n = to_size (num_servers z) in
        Inr (sz div n + (if sid = num_servers z - 1 then sz mod n else 0)))"

definition new_array_server ::
    "'g rng \<Rightarrow> 'g \<Rightarrow> bool \<Rightarrow> string \<Rightarrow> zoo \<Rightarrow> nat \<Rightarrow> string \<Rightarrow> random_option \<Rightarrow> array_server res" where
  "new_array_server G g0 enable_dcasgd updater_type z sz solver ropt =
     bind_res (server_rank z) (\<lambda>sid.
     bind_res (array_server_size z sz sid) (\<lambda>n.
     bind_res (rnd_Gen G n (SetRandomOption G ropt (new_random g0))) (\<lambda>(xs, _).
       Inr \<lparr>as_server_id = word_of_int sid, storage = xs,
         as_updater = GetUpdater z enable_dcasgd updater_type n solver, as_size = n\<rparr>)))"

definition array_ProcessAdd :: "'d farith \<Rightarrow> zoo \<Rightarrow> array_server \<Rightarrow> blob list \<Rightarrow> array_server res" where
  "array_ProcessAdd A z t data =
     bind_res (vec_at data 0) (\<lambda>keys.
     bind_res (vec_at data 1) (\<lambda>vals.
     bind_res (worker_rank z) (\<lambda>w.
     bind_res (if length data = 3
               then bind_res (vec_at data 2) (\<lambda>ob. opt_CopyFrom ob (new_add_option w))
               else Inr (new_add_option w)) (\<lambda>opt.
     bind_res (if elem_count 4 keys = 1 then elem_at 4 dec32 keys 0 else Inl Check) (\<lambda>k.
     bind_res (check (k = -1)) (\<lambda>_.
     bind_res (check (length vals = as_size t * 4)) (\<lambda>_.
     bind_res (updater_Update A z (as_updater t) (as_size t) (storage t) (dec_seq 4 dec32 vals) opt 0)
       (\<lambda>(u, xs). Inr (t\<lparr>storage := xs, as_updater := u\<rparr>)))))))))"

definition array_ProcessGet :: "array_server \<Rightarrow> blob list \<Rightarrow> (blob list \<times> array_server) res" where
  "array_ProcessGet t data =
     bind_res (vec_at data 0) (\<lambda>keys.
     bind_res (if elem_count 4 keys = 1 then elem_at 4 dec32 keys 0 else Inl Check) (\<lambda>k.
     bind_res (check (k = -1)) (\<lambda>_.
     bind_res (blob_alloc 4) (\<lambda>key0.
     bind_res (buf_write key0 0 (enc32 (as_server_id t))) (\<lambda>key.
     bind_res (blob_alloc (4 * as_size t)) (\<lambda>vals.
     bind_res (updater_Access (as_size t) (storage t) (dec_seq 4 dec32 vals) 0) (\<lambda>pvalues.
       Inr ([key, enc_seq enc32 pvalues], t))))))))"

definition array_Store :: "array_server \<Rightarrow> stream \<Rightarrow> stream res" where
  "array_Store t s = Inr (stream_Write (enc_seq enc32 (storage t)) s)"

definition array_Load :: "array_server \<Rightarrow> stream \<Rightarrow> array_server res" where
  "array_Load t s =
     (let (bs, _) = read_into (enc_seq enc32 (storage t)) s in Inr (t\<lparr>storage := dec_seq 4 dec32 bs\<rparr>))"

definition array_ops :: "'d farith \<Rightarrow> zoo \<Rightarrow> array_server table_ops" where
  "array_ops A z = \<lparr>op_get = array_ProcessGet, op_add = array_ProcessAdd A z,
     op_store = array_Store, op_load = array_Load\<rparr>"

section \<open>The server's contract\<close>

definition array_inv :: "zoo \<Rightarrow> nat \<Rightarrow> array_server \<Rightarrow> bool" where
  \<comment> \<open>the updaters count the elements in an \<open>int\<close>\<close>
  "array_inv z n t \<longleftrightarrow> \<not> isl (worker_rank z) \<and> 0 < n \<and> n < 2 ^ 31 \<and> as_size t = n \<and> length (storage t) = n
     \<and> updater_wf (nat (num_workers z)) n (as_updater t)"

definition array_get_ok :: "blob list \<Rightarrow> bool" where
  "array_get_ok d \<longleftrightarrow> d \<noteq> [] \<and> hd d = all_key"

definition array_add_ok :: "zoo \<Rightarrow> nat \<Rightarrow> blob list \<Rightarrow> bool" where
  \<comment> \<open>with the option of a worker\<close>
  "array_add_ok z n d \<longleftrightarrow> (\<exists>vals opt. d = [all_key, vals, opt_bytes opt] \<and> length vals = n * 4
     \<and> wf_option opt \<and> worker_opt (nat (num_workers z)) opt)"

definition array_look :: "array_server \<Rightarrow> i32 \<times> f32 list" where
  "array_look t = (as_server_id t, storage t)"

definition array_answer :: "blob list \<Rightarrow> i32 \<times> f32 list \<Rightarrow> blob list" where
  "array_answer d v = [enc32 (fst v), enc_seq enc32 (snd v)]"

lemma key_ok: "elem_count 4 all_key = 1" "elem_at 4 dec32 all_key 0 = Inr (-1)"
  using c32.elem_at_enc_seq [of 0 "[-1]"] c32.count_enc_seq [of "[-1]"] by (simp_all add: all_key_def)

lemma array_ProcessGet_ok:
  assumes "array_inv z n t" and "array_get_ok d"
  shows "array_ProcessGet t d = Inr (array_answer d (array_look t), t)"
proof -
  obtain ds where d: "d = all_key # ds" using assms(2) by (cases d) (auto simp: array_get_ok_def)
  have "buf_write (replicate 4 0) 0 (enc32 w) = Inr (enc32 w)" for w
    using c32.length_enc by (simp add: buf_write_def)
  moreover have "length (dec_seq 4 dec32 (replicate (4 * n) 0)) = n"
    by (simp add: dec_seq_def elem_count_def)
  ultimately show ?thesis
    using assms(1) key_ok access_copies [of 0 n "storage t" "dec_seq 4 dec32 (replicate (4 * n) 0)"]
    by (simp add: array_ProcessGet_def d vec_at_def in_range_def blob_alloc_def array_inv_def
      array_answer_def array_look_def)
qed

lemma array_ProcessAdd_ok:
  assumes "array_inv z n t" and "array_add_ok z n d"
  shows "\<exists>t'. array_ProcessAdd A z t d = Inr t' \<and> array_inv z n t' \<and> as_server_id t' = as_server_id t"
proof -
  let ?m = "nat (num_workers z)"
  obtain w where w: "worker_rank z = Inr w"
    using assms(1) by (cases "worker_rank z") (auto simp: array_inv_def)
  obtain vals opt where d: "d = [all_key, vals, opt_bytes opt]" "length vals = n * 4"
      "wf_option opt" "worker_opt (nat (num_workers z)) opt"
    using assms(2) by (auto simp: array_add_ok_def)
  have "n \<le> length (dec_seq 4 dec32 vals)" using d(2) by (simp add: dec_seq_def elem_count_def)
  then obtain u' xs where "updater_Update A z (as_updater t) (as_size t) (storage t) (dec_seq 4 dec32 vals) opt 0
      = Inr (u', xs)" "updater_wf ?m n u'" "length xs = n"
    using updater_Update_keeps [of ?m "storage t" "as_updater t" opt 0 n "dec_seq 4 dec32 vals" A z]
      assms(1) d(4) by (auto simp: array_inv_def)
  then show ?thesis
    using assms(1) w d key_ok
    by (simp add: array_ProcessAdd_def vec_at_def in_range_def array_inv_def)
qed

interpretation array: server_table "array_ops A z" "array_inv z n" array_get_ok "array_add_ok z n"
    array_look array_answer for A z n
  using array_ProcessGet_ok array_ProcessAdd_ok
  by unfold_locales (fastforce simp: array_ops_def array_get_ok_def array_add_ok_def)+

section \<open>Partitioning and reassembling\<close>

text \<open>
  Under the constructor's CHECK and as long as the size fits the \<open>int\<close> it is cast to, the
  offsets are the ones the servers compute their sizes from: server \<open>i\<close> holds the elements
  from \<open>i * (size div n)\<close> on, the last one the rest too.
\<close>

definition piece_start :: "nat \<Rightarrow> nat \<Rightarrow> nat \<Rightarrow> nat" where
  "piece_start sz n i = (if i = n then sz else i * (sz div n))"

lemma piece_start_mono: "0 < n \<Longrightarrow> i < n \<Longrightarrow> piece_start sz n i \<le> piece_start sz n (Suc i)"
proof -
  assume n: "0 < n" and i: "i < n"
  have "i * (sz div n) \<le> n * (sz div n)" using i by simp
  also have "n * (sz div n) \<le> sz" by simp
  finally show ?thesis using i by (simp add: piece_start_def)
qed

lemma piece_start_le: "0 < n \<Longrightarrow> i \<le> n \<Longrightarrow> piece_start sz n i \<le> sz"
proof -
  assume n: "0 < n" and i: "i \<le> n"
  have "i * (sz div n) \<le> n * (sz div n)" using i by simp
  also have "n * (sz div n) \<le> sz" by simp
  finally show ?thesis by (simp add: piece_start_def)
qed

lemma last_piece: "0 < n \<Longrightarrow> sz - (n - 1) * (sz div n) = sz div n + sz mod n"
  for sz :: nat
proof -
  assume n: "0 < n"
  have "sz = n * (sz div n) + sz mod n" by simp
  moreover have "n * (sz div n) = (n - 1) * (sz div n) + sz div n" using n by (cases n) simp_all
  ultimately show ?thesis by linarith
qed

definition offsets_ok :: "array_worker \<Rightarrow> nat \<Rightarrow> nat \<Rightarrow> bool" where
  "offsets_ok aw sz n \<longleftrightarrow> 0 < n \<and> aw_size aw = sz \<and> aw_num_server aw = int n
     \<and> server_offsets aw = map (piece_start sz n) [0..<Suc n]"

lemma new_array_worker_ok:
  assumes n: "num_servers z = int n" "0 < n" and sz: "n < sz" "sz < 2 ^ 31"
  shows "\<exists>aw. new_array_worker z sz = Inr aw \<and> offsets_ok aw sz n"
proof -
  have cast: "sint (of_nat sz :: i32) = int sz"
    using sz(2) by (rule sint_i32_of_nat)
  have len: "int sz sdiv int n = int (sz div n)"
    using n(2) sz(1) by (auto simp: signed_divide_int_def zdiv_int)
  have small: "i * (sz div n) < 2 ^ 64" if "i < n" for i
  proof -
    have "i * (sz div n) \<le> sz" using piece_start_le [of n i sz] n(2) that by (simp add: piece_start_def)
    with sz(2) show ?thesis by simp
  qed
  have "map (\<lambda>i. to_size (i * int (sz div n))) [1..int n - 1] = map (piece_start sz n) [1..<n]"
  proof (rule nth_equalityI)
    show "length (map (\<lambda>i. to_size (i * int (sz div n))) [1..int n - 1]) = length (map (piece_start sz n) [1..<n])"
      by simp
    fix i assume "i < length (map (\<lambda>i. to_size (i * int (sz div n))) [1..int n - 1])"
    then have i: "i < n - 1" by simp
    have "to_size (int (Suc i) * int (sz div n)) = Suc i * (sz div n)"
      using to_size_of_nat [OF small [of "Suc i"]] i by (simp only: of_nat_mult [symmetric])
    then show "map (\<lambda>i. to_size (i * int (sz div n))) [1..int n - 1] ! i = map (piece_start sz n) [1..<n] ! i"
      using i by (auto simp: piece_start_def add.commute)
  qed
  moreover have "[0..<Suc n] = 0 # [1..<n] @ [n]" using n(2) by (simp add: upt_conv_Cons)
  moreover have "to_size (int n) < sz"
    using sz by (simp add: to_size_def)
  ultimately show ?thesis
    using n by (simp add: new_array_worker_def cast len offsets_ok_def) (simp add: piece_start_def)
qed

text \<open>C29. The pieces the worker cuts are the pieces the servers hold: the length of piece \<open>i\<close> is
  the size that server \<open>i\<close> computes for itself.\<close>

theorem piece_is_server_size:
  assumes "num_servers z = int n" and "i < n" and "sz < 2 ^ 31" and "n < sz"
  shows "\<exists>aw. new_array_worker z sz = Inr aw \<and> array_server_size z sz (int i) =
    Inr (server_offsets aw ! Suc i - server_offsets aw ! i)"
proof -
  obtain aw where aw: "new_array_worker z sz = Inr aw" "offsets_ok aw sz n"
    using new_array_worker_ok [of z n sz] assms by auto
  have len: "server_offsets aw ! Suc i - server_offsets aw ! i = piece_start sz n (Suc i) - piece_start sz n i"
    using aw(2) assms(2) by (simp add: offsets_ok_def del: upt_Suc)
  have n: "to_size (num_servers z) = n" using assms by (simp add: to_size_def)
  have "piece_start sz n (Suc i) - piece_start sz n i = sz div n + (if i = n - 1 then sz mod n else 0)"
    using last_piece [of n sz] assms(2) by (auto simp: piece_start_def)
  then show ?thesis
    using aw(1) len assms(1,2) n by (auto simp: array_server_size_def)
qed

definition piece_len :: "nat \<Rightarrow> nat \<Rightarrow> nat \<Rightarrow> nat" where
  "piece_len sz n i = piece_start sz n (Suc i) - piece_start sz n i"

definition piece :: "nat \<Rightarrow> nat \<Rightarrow> 'a list \<Rightarrow> nat \<Rightarrow> 'a list" where
  "piece sz n xs i = take (piece_len sz n i) (drop (piece_start sz n i) xs)"

lemma piece_end: "i < n \<Longrightarrow> piece_start sz n i + piece_len sz n i = piece_start sz n (Suc i)"
  using piece_start_mono [of n i sz] by (simp add: piece_len_def)

lemma length_piece [simp]: "i < n \<Longrightarrow> length xs = sz \<Longrightarrow> length (piece sz n xs i) = piece_len sz n i"
  using piece_end [of i n sz] piece_start_le [of n "Suc i" sz] by (simp add: piece_def)

lemma concat_pieces:
  "0 < n \<Longrightarrow> k \<le> n \<Longrightarrow> length xs = sz \<Longrightarrow>
   concat (map (piece sz n xs) [0..<k]) = take (piece_start sz n k) xs"
proof (induction k)
  case 0
  then show ?case by (simp add: piece_start_def)
next
  case (Suc k)
  then have "take (piece_start sz n (Suc k)) xs = take (piece_start sz n k) xs @ piece sz n xs k"
    using piece_end [of k n sz] by (simp add: piece_def flip: take_add)
  with Suc show ?case by simp
qed

lemma offsets_at:
  "offsets_ok aw sz n \<Longrightarrow> i < n \<Longrightarrow>
   vec_at (server_offsets aw) (int i) = Inr (piece_start sz n i)
   \<and> vec_at (server_offsets aw) (int i + 1) = Inr (piece_start sz n (Suc i))"
  using vec_at_nat [of i "server_offsets aw"] vec_at_nat [of "Suc i" "server_offsets aw"]
  by (simp add: offsets_ok_def add.commute del: upt_Suc vec_at_nat)

lemma array_piece_ok:
  assumes aw: "offsets_ok aw sz n" and sz: "sz < 2 ^ 31" and i: "i < n" and vals: "length vals = sz"
    and kv: "kv = key # enc_seq enc32 vals # (case opt of None \<Rightarrow> [] | Some b \<Rightarrow> [b])"
  shows "array_piece aw kv out (int i) =
    Inr (let out' = push_out (int i) (enc_seq enc32 (piece sz n vals i)) out in
         case opt of None \<Rightarrow> out' | Some b \<Rightarrow> push_out (int i) b out')"
proof -
  have e: "piece_start sz n i + piece_len sz n i \<le> sz"
    using piece_end [OF i, of sz] piece_start_le [of n "Suc i" sz] i by simp
  have "to_size ((int (piece_start sz n (Suc i)) - int (piece_start sz n i)) * 4) = piece_len sz n i * 4"
    using piece_end [OF i, of sz] e sz by (simp add: to_size_def flip: piece_end [OF i])
  moreover have "buf_read (enc_seq enc32 vals) (piece_start sz n i * 4) (piece_len sz n i * 4)
      = Inr (enc_seq enc32 (piece sz n vals i))"
    using c32.read_enc_seq [of "piece_start sz n i" "piece_len sz n i" vals] e vals by (simp add: piece_def)
  ultimately show ?thesis
    using offsets_at [OF aw i] kv
    by (cases opt) (simp_all add: array_piece_def Let_def)
qed

lemma push_keys_loop:
  "fold_res (\<lambda>out i. Inr (push_out i k out)) out is = (Inr (fold (\<lambda>i. push_out i k) is out) :: pieces res)"
  by (induction "is" arbitrary: out) simp_all

lemma array_Partition_ok:
  assumes aw: "offsets_ok aw sz n" and sz: "sz < 2 ^ 31" and vals: "length vals = sz"
    and kv: "kv = key # enc_seq enc32 vals # (case opt of None \<Rightarrow> [] | Some b \<Rightarrow> [b])"
  shows "\<exists>out. array_Partition aw kv [] = Inr (int n, out) \<and> distinct (map fst out)
    \<and> fst ` set out = int ` {..<n}
    \<and> (\<forall>i < n. piece_of out (int i) =
        key # enc_seq enc32 (piece sz n vals i) # (case opt of None \<Rightarrow> [] | Some b \<Rightarrow> [b]))"
proof -
  have num: "aw_num_server aw = int n" "aw_size aw = sz" using aw by (simp_all add: offsets_ok_def)
  have ints: "[0..int n - 1] = map int [0..<n]" by (rule nth_equalityI) simp_all
  let ?step1 = "\<lambda>out i. push_out i key out"
  have first: "fold_res (\<lambda>out i. bind_res (vec_at kv 0) (\<lambda>k. Inr (push_out i k out))) [] (map int [0..<k])
      = Inr out \<Longrightarrow> k \<le> n \<Longrightarrow> distinct (map fst out) \<and> fst ` set out = int ` {..<k}
        \<and> (\<forall>i. piece_of out (int i) = (if i < k then [key] else []))" for k out
  proof (induction k arbitrary: out)
    case 0
    then show ?case by simp
  next
    case (Suc k)
    then obtain out0 where "fold_res (\<lambda>out i. bind_res (vec_at kv 0) (\<lambda>k. Inr (push_out i k out))) [] (map int [0..<k])
        = Inr out0" "out = push_out (int k) key out0"
      using kv by (auto simp: fold_res_append vec_at_def in_range_def)
    with Suc show ?case by (auto simp: lessThan_Suc)
  qed
  let ?tail = "case opt of None \<Rightarrow> [] | Some b \<Rightarrow> [b]"
  obtain out0 where out0: "fold_res (\<lambda>out i. bind_res (vec_at kv 0) (\<lambda>k. Inr (push_out i k out))) [] (map int [0..<n]) = Inr out0"
    using kv push_keys_loop by (simp add: vec_at_def in_range_def)
  note f0 = first [OF out0 order_refl]
  have "\<exists>out. fold_res (array_piece aw kv) out0 (map int [0..<k]) = Inr out \<and> distinct (map fst out)
      \<and> fst ` set out = int ` {..<n}
      \<and> (\<forall>i < n. piece_of out (int i) = (if i < k then key # enc_seq enc32 (piece sz n vals i) # ?tail else [key]))"
    if "k \<le> n" for k
    using that
  proof (induction k)
    case 0
    then show ?case using f0 by simp
  next
    case (Suc k)
    then obtain out where out: "fold_res (array_piece aw kv) out0 (map int [0..<k]) = Inr out"
        "distinct (map fst out)" "fst ` set out = int ` {..<n}"
        "\<forall>i < n. piece_of out (int i) = (if i < k then key # enc_seq enc32 (piece sz n vals i) # ?tail else [key])"
      by auto
    have k: "k < n" using Suc.prems by simp
    show ?case
      using out(2-) k
      by (cases opt) (auto simp: fold_res_append out(1) array_piece_ok [OF aw sz k vals kv] Let_def less_Suc_eq)
  qed
  from this [OF order_refl] obtain out where "fold_res (array_piece aw kv) out0 (map int [0..<n]) = Inr out"
      "distinct (map fst out)" "fst ` set out = int ` {..<n}"
      "\<forall>i < n. piece_of out (int i) = key # enc_seq enc32 (piece sz n vals i) # ?tail"
    by auto
  moreover have "length kv = 1 \<or> length kv = 2 \<or> length kv = 3" "2 \<le> length kv" "kv ! 1 = enc_seq enc32 vals"
    using kv by (auto split: option.split)
  ultimately show ?thesis
    using out0 num vals kv
    by (simp add: array_Partition_def ints vec_at_def in_range_def)
qed

lemma piece_start_mono_le: "0 < n \<Longrightarrow> i \<le> j \<Longrightarrow> j \<le> n \<Longrightarrow> piece_start sz n i \<le> piece_start sz n j"
proof (induction j)
  case 0
  then show ?case by simp
next
  case (Suc j)
  then show ?case using piece_start_mono [of n j sz] by (auto simp: le_Suc_eq)
qed

lemma piece_overwrite:
  assumes i: "i < n" "j < n" and len: "length ws = sz" "length xs = piece_len sz n i"
  shows "piece sz n (take (piece_start sz n i) ws @ xs @ drop (piece_start sz n i + length xs) ws) j
    = (if j = i then xs else piece sz n ws j)"
proof (cases "j = i")
  case True
  have "piece_start sz n i \<le> sz" using piece_start_le [of n i sz] i by simp
  then show ?thesis using True len by (simp add: piece_def)
next
  case False
  have e: "piece_start sz n i + piece_len sz n i = piece_start sz n (Suc i)"
    "piece_start sz n j + piece_len sz n j = piece_start sz n (Suc j)" using piece_end i by simp_all
  have le: "piece_start sz n (Suc i) \<le> sz" "piece_start sz n (Suc j) \<le> sz"
    using piece_start_le [of n "Suc i" sz] piece_start_le [of n "Suc j" sz] i by simp_all
  consider "j < i" | "i < j" using False by linarith
  then show ?thesis
  proof cases
    case 1
    then have "piece_start sz n (Suc j) \<le> piece_start sz n i" using piece_start_mono_le [of n "Suc j" i sz] i by simp
    then show ?thesis using False e le len by (simp add: piece_def drop_take)
  next
    case 2
    then have "piece_start sz n (Suc i) \<le> piece_start sz n j" using piece_start_mono_le [of n "Suc i" j sz] i by simp
    then have "drop (piece_start sz n j) (take (piece_start sz n i) ws @ xs @ drop (piece_start sz n i + length xs) ws)
        = drop (piece_start sz n j) ws"
      using e le len by simp
    then show ?thesis using False by (simp add: piece_def)
  qed
qed

lemma array_reply_ok:
  assumes aw: "offsets_ok aw sz n" and sz: "sz < 2 ^ 31" "n < sz" and i: "i < n"
    and buf: "aw_data aw = enc_seq enc32 ws" "length ws = sz" and xs: "length xs = piece_len sz n i"
  shows "array_ProcessReplyGet [enc32 (of_nat i), enc_seq enc32 xs] aw =
    Inr (aw\<lparr>aw_data := enc_seq enc32
      (take (piece_start sz n i) ws @ xs @ drop (piece_start sz n i + length xs) ws)\<rparr>)"
proof -
  have e: "piece_start sz n i + piece_len sz n i \<le> sz"
    using piece_end [OF i, of sz] piece_start_le [of n "Suc i" sz] i by simp
  have "to_size (int (piece_start sz n (Suc i)) - int (piece_start sz n i)) = piece_len sz n i"
    using piece_end [OF i, of sz] e sz by (simp add: to_size_def flip: piece_end [OF i])
  moreover have "sint (of_nat i :: i32) = int i" using i sz by (intro sint_i32_of_nat) simp
  moreover have "elem_at 4 dec32 (enc32 (of_nat i)) 0 = Inr (of_nat i)"
    using c32.elem_at_enc_seq [of 0 "[of_nat i]"] by simp
  moreover have "buf_write (aw_data aw) (piece_start sz n i * 4) (enc_seq enc32 xs) =
      Inr (enc_seq enc32 (take (piece_start sz n i) ws @ xs @ drop (piece_start sz n i + length xs) ws))"
    using c32.write_enc_seq [of "piece_start sz n i" xs ws] e xs buf by simp
  ultimately show ?thesis
    using offsets_at [OF aw i] xs
    by (simp add: array_ProcessReplyGet_def del: c32.enc_seq_simps)
qed

definition collect_replies ::
    "(nat \<Rightarrow> array_server) \<Rightarrow> array_worker \<Rightarrow> nat list \<Rightarrow> array_worker res" where
  \<comment> \<open>the servers of the list answer a Get, the worker processes the replies in that order\<close>
  "collect_replies servers = fold_res (\<lambda>aw i.
     bind_res (array_ProcessGet (servers i) [all_key]) (\<lambda>(reply, _). array_ProcessReplyGet reply aw))"

definition holds_piece :: "zoo \<Rightarrow> nat \<Rightarrow> nat \<Rightarrow> f32 list \<Rightarrow> nat \<Rightarrow> array_server \<Rightarrow> bool" where
  "holds_piece z sz n vals i t \<longleftrightarrow> as_server_id t = of_nat i \<and> storage t = piece sz n vals i
     \<and> array_inv z (piece_len sz n i) t"

lemma collect_pieces:
  assumes "offsets_ok aw sz n" and sz: "sz < 2 ^ 31" "n < sz"
    and "\<forall>i < n. holds_piece (zf i) sz n vals i (servers i)" and vals: "length vals = sz"
    and "set is \<subseteq> {..<n}" and "aw_data aw = enc_seq enc32 ws" and "length ws = sz"
  shows "\<exists>aw' ws'. collect_replies servers aw is = Inr aw' \<and> offsets_ok aw' sz n
    \<and> aw_data aw' = enc_seq enc32 ws' \<and> length ws' = sz
    \<and> (\<forall>j < n. piece sz n ws' j = (if j \<in> set is then piece sz n vals j else piece sz n ws j))"
  using assms(1,6-8)
proof (induction "is" arbitrary: aw ws)
  case Nil
  then show ?case by (auto simp: collect_replies_def)
next
  case (Cons i "is")
  have i: "i < n" using Cons.prems by simp
  let ?xs = "piece sz n vals i"
  let ?ws = "take (piece_start sz n i) ws @ ?xs @ drop (piece_start sz n i + length ?xs) ws"
  let ?aw = "aw\<lparr>aw_data := enc_seq enc32 ?ws\<rparr>"
  have len: "length ?xs = piece_len sz n i" using i vals by simp
  have "array_ProcessGet (servers i) [all_key] = Inr ([enc32 (of_nat i), enc_seq enc32 ?xs], servers i)"
    using array_ProcessGet_ok [of "zf i" "piece_len sz n i" "servers i" "[all_key]"] assms(4) i
    by (simp add: array_get_ok_def array_answer_def array_look_def holds_piece_def)
  moreover have "array_ProcessReplyGet [enc32 (of_nat i), enc_seq enc32 ?xs] aw = Inr ?aw"
    using array_reply_ok [OF Cons.prems(1) sz i Cons.prems(3,4) len] by simp
  moreover have l: "length ?ws = sz"
    using Cons.prems(4) len piece_end [OF i, of sz] piece_start_le [of n "Suc i" sz] i by simp
  moreover have "offsets_ok ?aw sz n" using Cons.prems(1) by (simp add: offsets_ok_def)
  then obtain aw' ws' where "collect_replies servers ?aw is = Inr aw'" "offsets_ok aw' sz n"
      "aw_data aw' = enc_seq enc32 ws'" "length ws' = sz"
      "\<forall>j < n. piece sz n ws' j = (if j \<in> set is then piece sz n vals j else piece sz n ?ws j)"
    using Cons.IH [of ?aw ?ws] Cons.prems(2) l by auto
  moreover have "piece sz n ?ws j = (if j = i then ?xs else piece sz n ws j)" if "j < n" for j
    using piece_overwrite [OF i that Cons.prems(4) len] len by simp
  ultimately show ?case
    by (intro exI [of _ aw'] exI [of _ ws']) (simp add: collect_replies_def)
qed

lemma pieces_determine:
  assumes "0 < n" and "length xs = sz" and "length ys = sz" and "\<forall>j < n. piece sz n xs j = piece sz n ys j"
  shows "xs = ys"
proof -
  have "concat (map (piece sz n xs) [0..<n]) = concat (map (piece sz n ys) [0..<n])"
    using assms(4) by (intro arg_cong [where f = concat] map_cong) auto
  then show ?thesis using assms(1-3) by (simp add: concat_pieces piece_start_def)
qed

text \<open>C26. A Get puts the table together: when server \<open>i\<close> holds piece \<open>i\<close> of the parameters,
  processing the servers' replies in any order, each at least once, leaves exactly the
  parameters in the caller's buffer, whatever was in it.\<close>

theorem array_get_reassembles:
  assumes n: "num_servers z = int n" "0 < n" and sz: "n < sz" "sz < 2 ^ 31"
    and held: "\<forall>i < n. holds_piece z sz n vals i (servers i)" and vals: "length vals = sz"
    and order: "set is = {..<n}" and ws: "length ws = sz"
  shows "\<exists>aw aw'. new_array_worker z sz = Inr aw
    \<and> collect_replies servers (aw\<lparr>aw_data := enc_seq enc32 ws\<rparr>) is = Inr aw'
    \<and> aw_data aw' = enc_seq enc32 vals"
proof -
  obtain aw where aw: "new_array_worker z sz = Inr aw" "offsets_ok aw sz n"
    using new_array_worker_ok [OF n sz] by blast
  let ?aw = "aw\<lparr>aw_data := enc_seq enc32 ws\<rparr>"
  have "offsets_ok ?aw sz n" using aw(2) by (simp add: offsets_ok_def)
  then obtain aw' ws' where aw': "collect_replies servers ?aw is = Inr aw'"
      "aw_data aw' = enc_seq enc32 ws'" "length ws' = sz"
      "\<forall>j < n. piece sz n ws' j = (if j \<in> set is then piece sz n vals j else piece sz n ws j)"
    using collect_pieces [of ?aw sz n "\<lambda>_. z" vals servers "is" ws] sz held vals order ws by auto
  have "ws' = vals" using pieces_determine [OF n(2) aw'(3) vals] aw'(4) order by auto
  then show ?thesis using aw(1) aw'(1,2) by auto
qed

text \<open>C27. An Add reaches every element once: the worker's partition has one entry for each server,
  entry \<open>i\<close> carries the key, the values of server \<open>i\<close>'s piece and the option, and the pieces
  in order are the whole delta.\<close>

theorem array_add_partition:
  assumes n: "num_servers z = int n" "0 < n" and sz: "n < sz" "sz < 2 ^ 31"
    and delta: "length delta = sz"
  shows "\<exists>aw kv out. new_array_worker z sz = Inr aw \<and> array_Add delta sz (Some opt) aw = Inr kv
    \<and> array_Partition aw kv [] = Inr (int n, out) \<and> distinct (map fst out) \<and> fst ` set out = int ` {..<n}
    \<and> (\<forall>i < n. piece_of out (int i) = [all_key, enc_seq enc32 (piece sz n delta i), opt_bytes opt])
    \<and> concat (map (piece sz n delta) [0..<n]) = delta"
proof -
  obtain aw where aw: "new_array_worker z sz = Inr aw" "offsets_ok aw sz n"
    using new_array_worker_ok [OF n sz] by blast
  have "array_Add delta sz (Some opt) aw = Inr [all_key, enc_seq enc32 delta, opt_bytes opt]"
    using aw(2) delta by (simp add: array_Add_def offsets_ok_def buf_read_def)
  moreover obtain out where "array_Partition aw [all_key, enc_seq enc32 delta, opt_bytes opt] [] = Inr (int n, out)"
      "distinct (map fst out)" "fst ` set out = int ` {..<n}"
      "\<forall>i < n. piece_of out (int i) = [all_key, enc_seq enc32 (piece sz n delta i), opt_bytes opt]"
    using array_Partition_ok [OF aw(2) sz(2) delta, of _ all_key "Some (opt_bytes opt)"] by auto
  moreover have "concat (map (piece sz n delta) [0..<n]) = delta"
    using concat_pieces [OF n(2) order_refl delta] delta by (simp add: piece_start_def)
  ultimately show ?thesis using aw(1) by blast
qed

text \<open>A checkpoint of the table restores it: loading what was stored gives back the same
  parameters, into any server of the same size.\<close>

theorem array_store_load:
  assumes "length (storage t') = length (storage t)"
  shows "\<exists>s. array_Store t \<lparr>content = [], pos = 0\<rparr> = Inr s
    \<and> array_Load t' \<lparr>content = content s, pos = 0\<rparr> = Inr (t'\<lparr>storage := storage t\<rparr>)"
proof -
  let ?b = "enc_seq enc32 (storage t)"
  obtain s' where "read_into (enc_seq enc32 (storage t')) \<lparr>content = ?b, pos = 0\<rparr> = (?b, s')"
    using read_into_exact [of "\<lparr>content = ?b, pos = 0\<rparr>" ?b "[]" "enc_seq enc32 (storage t')"] assms
    by (auto simp: remaining_def)
  then show ?thesis by (simp add: array_Store_def array_Load_def)
qed

text \<open>From \<open>2 ^ 31\<close> elements on the worker's offsets are wrong: the constructor casts the
  \<open>size_t\<close> size to \<open>int32_t\<close> before it divides, so with two servers the second offset of
  a table of \<open>2 ^ 31\<close> elements is \<open>2 ^ 64 - 2 ^ 30\<close> and not the \<open>2 ^ 30\<close> the servers use.\<close>

theorem array_offsets_truncated:
  "(\<exists>aw. new_array_worker (z\<lparr>num_servers := 2\<rparr>) (2 ^ 31) = Inr aw
      \<and> server_offsets aw = [0, 2 ^ 64 - 2 ^ 30, 2 ^ 31])
   \<and> array_server_size (z\<lparr>num_servers := 2\<rparr>) (2 ^ 31) 0 = Inr (2 ^ 30)"
proof -
  have "sint (of_nat (2 ^ 31) :: i32) = - (2 ^ 31)" by simp
  then show ?thesis
    by (simp add: new_array_worker_def array_server_size_def to_size_def signed_divide_int_def Let_def)
qed

section \<open>The properties on small tables\<close>

definition two_servers :: zoo where
  "two_servers = \<lparr>zoo_rank = 0, zoo_size = 2,
     nodes = [\<lparr>node_rank = 0, node_role = 3, worker_id = 0, server_id = 0\<rparr>,
              \<lparr>node_rank = 1, node_role = 3, worker_id = 1, server_id = 1\<rparr>],
     server_ranks = [0, 1], worker_ranks = [0, 1], num_workers = 2, num_servers = 2\<rparr>"

definition demo_server :: "nat \<Rightarrow> array_server" where
  "demo_server i = \<lparr>as_server_id = of_nat i, storage = piece 5 2 [10, 11, 12, 13, 14] i,
     as_updater = Plain, as_size = piece_len 5 2 i\<rparr>"

lemma demo_server_holds: "\<forall>i < 2. holds_piece two_servers 5 2 [10, 11, 12, 13, 14] i (demo_server i)"
  by (auto simp: holds_piece_def demo_server_def array_inv_def two_servers_def worker_rank_def
    rank_to_worker_id_def vec_at_def in_range_def piece_len_def piece_start_def less_2_cases_iff)

lemma piece_is_server_size_witness:
  "\<exists>aw. new_array_worker two_servers 5 = Inr aw \<and> array_server_size two_servers 5 (int 1) =
    Inr (server_offsets aw ! Suc 1 - server_offsets aw ! 1)"
  by (rule piece_is_server_size [where n = 2]) (simp_all add: two_servers_def)

lemma array_get_reassembles_witness:
  "\<exists>aw aw'. new_array_worker two_servers 5 = Inr aw
    \<and> collect_replies demo_server (aw\<lparr>aw_data := enc_seq enc32 [0, 0, 0, 0, 0]\<rparr>) [1, 0] = Inr aw'
    \<and> aw_data aw' = enc_seq enc32 [10, 11, 12, 13, 14]"
  by (rule array_get_reassembles [OF _ _ _ _ demo_server_holds])
    (auto simp: two_servers_def)

lemma array_add_partition_witness:
  "\<exists>aw kv out. new_array_worker two_servers 5 = Inr aw
    \<and> array_Add [1, 2, 3, 4, 5] 5 (Some (new_add_option 1)) aw = Inr kv
    \<and> array_Partition aw kv [] = Inr (int 2, out) \<and> distinct (map fst out) \<and> fst ` set out = int ` {..<2}
    \<and> (\<forall>i < 2. piece_of out (int i) =
        [all_key, enc_seq enc32 (piece 5 2 [1, 2, 3, 4, 5] i), opt_bytes (new_add_option 1)])
    \<and> concat (map (piece 5 2 [1, 2, 3, 4, 5 :: f32]) [0..<2]) = [1, 2, 3, 4, 5]"
  by (rule array_add_partition) (simp_all add: two_servers_def)

lemma array_store_load_witness:
  "\<exists>s. array_Store (demo_server 0) \<lparr>content = [], pos = 0\<rparr> = Inr s
    \<and> array_Load (demo_server 0\<lparr>storage := [0, 0]\<rparr>) \<lparr>content = content s, pos = 0\<rparr>
      = Inr (demo_server 0\<lparr>storage := [0, 0]\<rparr>\<lparr>storage := storage (demo_server 0)\<rparr>)"
  by (rule array_store_load) (simp add: demo_server_def piece_def piece_len_def piece_start_def)

end
