(* ===== verification/SyncArray.thy ===== *)
theory SyncArray
  imports SyncRounds ArrayTable
begin

text \<open>
  The synchronous scheduler in front of an array table: the properties of a training run, from
  the interpretation of the table contract on \<open>ArrayServer\<close>. A training run is any interleaving
  of the requests of workers that keep to a protocol of their own (\<open>may_get\<close>, \<open>may_add\<close>): each
  worker sends Get, Add, Get, Add and so on, and sends nothing while one of its Gets is not
  answered; it need not wait for its Adds. The scheduler does not enforce the protocol, and
  \<open>pipelined_requests_break_rounds\<close> below shows that C2 is false without it. The table of the
  server has fewer than 2^31 elements (\<open>array_inv\<close>).
\<close>

type_synonym array_rounds = "array_server rounds"

definition array_reach :: "'d farith \<Rightarrow> zoo \<Rightarrow> nat \<Rightarrow> array_server \<Rightarrow> disk \<Rightarrow> array_rounds \<Rightarrow> bool" where
  "array_reach A z n t0 d0 c = reach z (array_ops A z) array_get_ok (array_add_ok z n) t0 d0 c"


text \<open>C2. Rounds do not overlap as long as every worker alternates Get and Add and sends nothing while
  one of its Gets is not answered: in every state such workers can reach, a worker's i-th Get
  is answered when every worker's first i - 1 Adds and no others are in the table, and its
  i-th Add is applied when every worker's i-th Get has been answered.\<close>

theorem sync_round_order:
  assumes "zoo_ok z" and "worker_ranks z \<noteq> []" and "array_inv z n t0" and "array_reach A z n t0 d0 c"
  shows "round_order z (outbox (srv c))"
  using array.reach_round_order [OF assms(1-3) assms(4) [unfolded array_reach_def]] .

text \<open>C3. All workers read the same parameters, as long as every worker alternates Get and Add and sends
  nothing while one of its Gets is not answered: in every state such workers can reach, in
  whatever order their requests arrived, there is one sequence of parameter vectors such that
  the i-th Get of every worker is answered with the i-th vector.\<close>

theorem sync_same_parameters:
  assumes "zoo_ok z" and "worker_ranks z \<noteq> []" and "array_inv z n t0" and "array_reach A z n t0 d0 c"
  shows "\<exists>V. \<forall>k < length (worker_ranks z). \<forall>i < gets_done z k (outbox (srv c)).
    msg_data (replies z Reply_Get k (outbox (srv c)) ! i) = array_answer [] (V i)"
  using array.reach_answers [OF assms(1-3) assms(4) [unfolded array_reach_def]]
  by (simp add: answers_in_def array_answer_def) blast

text \<open>C4. No deadlock among workers that alternate Get and Add and wait for every Get: in every reachable state some worker has had its Gets answered and so can send
  its next request; requests held back are never all there is left to wait for.\<close>

theorem sync_progress:
  assumes "zoo_ok z" and "worker_ranks z \<noteq> []" and "array_inv z n t0" and "array_reach A z n t0 d0 c"
  shows "\<exists>k < length (worker_ranks z). gets_done z k (outbox (srv c)) = sent_gets c k
    \<and> (sent_gets c k = sent_adds c k \<or> sent_gets c k = Suc (sent_adds c k))"
  using array.reach_progress [OF assms(1-3) assms(4) [unfolded array_reach_def]] .

text \<open>C5. Nothing stays behind: when workers that alternate Get and Add and wait for every Get have all
  sent the same number of Gets and of Adds, both caches are empty and every request has been
  answered.\<close>

theorem sync_drains:
  assumes "zoo_ok z" and "worker_ranks z \<noteq> []" and "array_inv z n t0" and "array_reach A z n t0 d0 c"
    and "\<forall>k < length (worker_ranks z). sent_gets c k = R \<and> sent_adds c k = R"
  shows "buffer (msg_get_cache (srv c)) = [] \<and> buffer (msg_add_cache (srv c)) = []
    \<and> (\<forall>k < length (worker_ranks z).
         gets_done z k (outbox (srv c)) = R \<and> adds_done z k (outbox (srv c)) = R)"
  using array.reach_quiescent [OF assms(1-3) assms(4) [unfolded array_reach_def] assms(5)] .

section \<open>A run of two workers\<close>

definition demo_table :: array_server where
  "demo_table = \<lparr>as_server_id = 0, storage = [5, 6], as_updater = Plain, as_size = 2\<rparr>"

lemma two_workers_ok: "zoo_ok two_workers" "worker_ranks two_workers \<noteq> []"
  by (simp_all add: zoo_ok_def two_workers_def rank_to_worker_id_def rank_to_server_id_def vec_at_def
    in_range_def less_Suc_eq numeral_2_eq_2)

lemma two_workers_len: "length (worker_ranks two_workers) = 2"
  by (simp add: two_workers_def)

lemma demo_table_inv: "array_inv two_workers 2 demo_table"
  by (simp add: array_inv_def demo_table_def worker_rank_def rank_to_worker_id_def two_workers_def)

definition demo_get :: "i32 \<Rightarrow> message" where "demo_get src = req Request_Get src all_key"

lemma demo_get_ok: "k < 2 \<Longrightarrow> request two_workers Request_Get array_get_ok k (demo_get (of_nat k))"
  by (auto simp: demo_get_def req_def request_def two_workers_def array_get_ok_def less_2_cases_iff)

definition start_state :: array_rounds where
  "start_state = \<lparr>srv = new_sync two_workers demo_table Map.empty, sent_gets = (\<lambda>_. 0), sent_adds = (\<lambda>_. 0)\<rparr>"

lemma demo_start: "array_reach bit_arith two_workers 2 demo_table Map.empty start_state"
  unfolding array_reach_def start_state_def by (rule reach.start)

lemma may_get_start: "k < 2 \<Longrightarrow> may_get two_workers k start_state"
  by (simp add: may_get_def start_state_def new_sync_def two_workers_def INT_MAX_def)

text \<open>Worker 0 has sent its first Get.\<close>

lemma demo_first_get:
  "\<exists>c. array_reach bit_arith two_workers 2 demo_table Map.empty c \<and> sent_gets c 0 = 1 \<and> sent_gets c 1 = 0"
proof -
  note r = demo_start [unfolded array_reach_def]
  note g = may_get_start [of 0, simplified] demo_get_ok [of 0, simplified]
  obtain s' where "sync_ProcessGet two_workers (array_ops bit_arith two_workers) (demo_get 0) (srv start_state) = Inr s'"
    using array.reach_serves(1) [OF two_workers_ok demo_table_inv r g] by blast
  from reach.send_get [OF r g this] show ?thesis
    unfolding array_reach_def by (intro exI conjI) (assumption, simp_all add: start_state_def)
qed

text \<open>Both workers send a Get and an Add; the Add of worker 0 arrives before the Get of worker 1,
  and so is held back until that Get has been answered.\<close>

definition demo_add :: "nat \<Rightarrow> message" where
  "demo_add k = push_blob (opt_bytes (new_add_option (int k)))
     (push_blob (enc_seq enc32 [1, 1]) (req Request_Add (of_nat k) all_key))"

lemma demo_add_ok:
  assumes "k < 2"
  shows "request two_workers Request_Add (array_add_ok two_workers 2) k (demo_add k)"
proof -
  have "worker_opt 2 (new_add_option 0)" "worker_opt 2 (new_add_option 1)" by code_simp+
  then have "worker_opt 2 (new_add_option (int k))" using assms by (auto simp: less_2_cases_iff)
  then have "array_add_ok two_workers 2 (msg_data (demo_add k))"
    unfolding array_add_ok_def
    by (intro exI [of _ "enc_seq enc32 [1, 1]"] exI [of _ "new_add_option (int k)"])
      (simp add: demo_add_def req_def push_blob_def two_workers_def wf_new_add_option c32.length_enc)
  then show ?thesis
    using assms by (auto simp: request_def demo_add_def req_def push_blob_def two_workers_def less_2_cases_iff)
qed

definition demo_Get :: "nat \<Rightarrow> array_server sync \<Rightarrow> array_server sync res" where
  "demo_Get k = sync_ProcessGet two_workers (array_ops bit_arith two_workers) (demo_get (of_nat k))"

definition demo_Add :: "nat \<Rightarrow> array_server sync \<Rightarrow> array_server sync res" where
  "demo_Add k = sync_ProcessAdd two_workers (array_ops bit_arith two_workers) (demo_add k)"

lemma demo_send_get:
  assumes "array_reach bit_arith two_workers 2 demo_table Map.empty c" and "may_get two_workers k c"
  obtains c' where "demo_Get k (srv c) = Inr (srv c')"
    "array_reach bit_arith two_workers 2 demo_table Map.empty c'"
    "sent_gets c' = (sent_gets c)(k := Suc (sent_gets c k))" "sent_adds c' = sent_adds c"
proof -
  note r = assms(1) [unfolded array_reach_def]
  have ok: "request two_workers Request_Get array_get_ok k (demo_get (of_nat k))"
    using assms(2) two_workers_len by (intro demo_get_ok) (simp add: may_get_def)
  obtain s' where "demo_Get k (srv c) = Inr s'"
    using array.reach_serves(1) [OF two_workers_ok demo_table_inv r assms(2) ok] by (auto simp: demo_Get_def)
  with reach.send_get [OF r assms(2) ok] show ?thesis
    by (intro that [of "c\<lparr>srv := s', sent_gets := (sent_gets c)(k := Suc (sent_gets c k))\<rparr>"])
      (simp_all add: array_reach_def demo_Get_def)
qed

lemma demo_send_add:
  assumes "array_reach bit_arith two_workers 2 demo_table Map.empty c" and "may_add two_workers k c"
  obtains c' where "demo_Add k (srv c) = Inr (srv c')"
    "array_reach bit_arith two_workers 2 demo_table Map.empty c'"
    "sent_adds c' = (sent_adds c)(k := Suc (sent_adds c k))" "sent_gets c' = sent_gets c"
proof -
  note r = assms(1) [unfolded array_reach_def]
  have ok: "request two_workers Request_Add (array_add_ok two_workers 2) k (demo_add k)"
    using assms(2) two_workers_len by (intro demo_add_ok) (simp add: may_add_def)
  obtain s' where "demo_Add k (srv c) = Inr s'"
    using array.reach_serves(2) [OF two_workers_ok demo_table_inv r assms(2) ok] by (auto simp: demo_Add_def)
  with reach.send_add [OF r assms(2) ok] show ?thesis
    by (intro that [of "c\<lparr>srv := s', sent_adds := (sent_adds c)(k := Suc (sent_adds c k))\<rparr>"])
      (simp_all add: array_reach_def demo_Add_def)
qed

definition answered :: "array_server sync \<Rightarrow> (nat \<times> nat) list" where
  \<comment> \<open>the Gets and the Adds of the two workers that have been answered\<close>
  "answered s = map (\<lambda>k. (gets_done two_workers k (outbox s), adds_done two_workers k (outbox s))) [0, 1]"

lemma demo_answers:
  "map_sum id answered (demo_Get 0 (srv start_state)) = Inr [(1, 0), (0, 0)]"
  "map_sum id (\<lambda>s. (answered s, length (buffer (msg_add_cache s))))
     (bind_res (demo_Get 0 (srv start_state)) (demo_Add 0)) = Inr ([(1, 0), (0, 0)], 1)"
  "map_sum id answered (bind_res (bind_res (demo_Get 0 (srv start_state)) (demo_Add 0)) (demo_Get 1))
     = Inr [(1, 1), (1, 0)]"
  by code_simp+

lemma demo_round:
  "\<exists>c. array_reach bit_arith two_workers 2 demo_table Map.empty c \<and> (\<forall>k < 2. sent_gets c k = 1 \<and> sent_adds c k = 1)"
proof -
  have z: "length (worker_ranks two_workers) = 2" "sent_gets start_state = (\<lambda>_. 0)" "sent_adds start_state = (\<lambda>_. 0)"
    by (simp_all add: two_workers_def start_state_def)
  obtain c1 where c1: "demo_Get 0 (srv start_state) = Inr (srv c1)" "array_reach bit_arith two_workers 2 demo_table Map.empty c1"
      "sent_gets c1 = (\<lambda>_. 0)(0 := 1)" "sent_adds c1 = (\<lambda>_. 0)"
    using demo_send_get [OF demo_start may_get_start [of 0]] z by (metis One_nat_def zero_less_numeral)
  have "answered (srv c1) = [(1, 0), (0, 0)]" using demo_answers(1) c1(1) by simp
  then have "may_add two_workers 0 c1" by (simp add: may_add_def answered_def z c1(3,4) INT_MAX_def)
  then obtain c2 where c2: "demo_Add 0 (srv c1) = Inr (srv c2)" "array_reach bit_arith two_workers 2 demo_table Map.empty c2"
      "sent_gets c2 = (\<lambda>_. 0)(0 := 1)" "sent_adds c2 = (\<lambda>_. 0)(0 := 1)"
    using demo_send_add [OF c1(2)] c1(3,4) by (metis One_nat_def)
  have "answered (srv c2) = [(1, 0), (0, 0)]" using demo_answers(2) c1(1) c2(1) by simp
  then have "may_get two_workers 1 c2" by (simp add: may_get_def answered_def z c2(3,4) INT_MAX_def)
  then obtain c3 where c3: "demo_Get 1 (srv c2) = Inr (srv c3)" "array_reach bit_arith two_workers 2 demo_table Map.empty c3"
      "sent_gets c3 = (sent_gets c2)(1 := Suc (sent_gets c2 1))" "sent_adds c3 = sent_adds c2"
    by (rule demo_send_get [OF c2(2)])
  have "answered (srv c3) = [(1, 1), (1, 0)]" using demo_answers(3) c1(1) c2(1) c3(1) by simp
  then have "may_add two_workers 1 c3" by (simp add: may_add_def answered_def z c2(3,4) c3(3,4) INT_MAX_def)
  then obtain c4 where "array_reach bit_arith two_workers 2 demo_table Map.empty c4"
      "sent_adds c4 = (sent_adds c3)(1 := Suc (sent_adds c3 1))" "sent_gets c4 = sent_gets c3"
    by (rule demo_send_add [OF c3(2)])
  then show ?thesis by (intro exI [of _ c4]) (simp add: c2(3,4) c3(3,4) less_2_cases_iff)
qed


lemma sync_round_order_witness:
  "\<exists>c. array_reach bit_arith two_workers 2 demo_table Map.empty c \<and> (\<forall>k < 2. sent_gets c k = 1 \<and> sent_adds c k = 1)
    \<and> round_order two_workers (outbox (srv c))"
  using demo_round sync_round_order [OF two_workers_ok demo_table_inv] by blast

lemma sync_same_parameters_witness:
  "\<exists>c V. array_reach bit_arith two_workers 2 demo_table Map.empty c \<and> (\<forall>k < 2. sent_gets c k = 1 \<and> sent_adds c k = 1)
    \<and> (\<forall>k < length (worker_ranks two_workers). \<forall>i < gets_done two_workers k (outbox (srv c)).
      msg_data (replies two_workers Reply_Get k (outbox (srv c)) ! i) = array_answer [] (V i))"
  using demo_round sync_same_parameters [OF two_workers_ok demo_table_inv] by blast

lemma sync_progress_witness:
  "\<exists>c. array_reach bit_arith two_workers 2 demo_table Map.empty c \<and> sent_gets c 0 = 1
    \<and> (\<exists>k < length (worker_ranks two_workers). gets_done two_workers k (outbox (srv c)) = sent_gets c k
      \<and> (sent_gets c k = sent_adds c k \<or> sent_gets c k = Suc (sent_adds c k)))"
  using demo_first_get sync_progress [OF two_workers_ok demo_table_inv] by blast

lemma sync_drains_witness:
  "\<exists>c. array_reach bit_arith two_workers 2 demo_table Map.empty c
    \<and> buffer (msg_get_cache (srv c)) = [] \<and> buffer (msg_add_cache (srv c)) = []
    \<and> (\<forall>k < 2. sent_gets c k = 1 \<and> sent_adds c k = 1
         \<and> gets_done two_workers k (outbox (srv c)) = 1 \<and> adds_done two_workers k (outbox (srv c)) = 1)"
proof -
  obtain c where c: "array_reach bit_arith two_workers 2 demo_table Map.empty c"
      "\<forall>k < 2. sent_gets c k = 1 \<and> sent_adds c k = 1"
    using demo_round by blast
  then show ?thesis
    using sync_drains [OF two_workers_ok demo_table_inv c(1), of 1] two_workers_len by auto
qed

definition msg_view :: "message \<Rightarrow> i32 \<times> i32 \<times> blob list" where
  "msg_view m = (msg_dst m, msg_type m, msg_data m)"

definition view_is :: "zoo \<Rightarrow> msg_type \<Rightarrow> nat \<Rightarrow> i32 \<times> i32 \<times> blob list \<Rightarrow> bool" where
  "view_is z ty k = (\<lambda>(d, t, _). sint d = worker_ranks z ! k \<and> t = type_code ty)"

lemma reply_view: "reply_to z ty k m = view_is z ty k (msg_view m)"
  by (simp add: reply_to_def msg_view_def view_is_def)

lemma replies_view: "length (replies z ty k out) = length (filter (view_is z ty k) (map msg_view out))"
  by (simp add: replies_def reply_view [abs_def] filter_map comp_def)

lemma pipelined_run:
  "map_sum id (\<lambda>s. map msg_view (outbox s))
      (fold_res (sync_handle two_workers log_table) (new_sync two_workers [] Map.empty) pipelined)
    = Inr [(0, -1, []), (1, -1, []), (0, -2, []), (0, -2, []), (1, -2, []), (1, -1, [[1], [2], [3]])]"
  by code_simp

text \<open>The promise needs the waiting: let worker 0 send Get, Add, Get, Add without waiting for
  its second Get, and then worker 1 Get, Add, Get. Both Adds of worker 0 are taken from the
  cache in the same round, and the second Get of worker 1 is answered from a table that holds
  three Adds, the second one of worker 0 included, while worker 0's second Get is still held.\<close>

theorem pipelined_requests_break_rounds:
  "\<exists>s. fold_res (sync_handle two_workers log_table) (new_sync two_workers [] Map.empty) pipelined = Inr s
    \<and> \<not> round_order two_workers (outbox s)"
proof -
  let ?run = "fold_res (sync_handle two_workers log_table) (new_sync two_workers [] Map.empty) pipelined"
  obtain s where s: "?run = Inr s"
    and v: "map msg_view (outbox s) =
      [(0, -1, []), (1, -1, []), (0, -2, []), (0, -2, []), (1, -2, []), (1, -1, [[1], [2], [3]])]"
    using pipelined_run by (cases ?run) auto
  have len: "5 < length (outbox s)" using arg_cong [OF v, of length] by simp
  have last: "msg_view (outbox s ! 5) = (1, -1, [[1], [2], [3]])"
    using arg_cong [OF v, of "\<lambda>l. l ! 5"] len by simp
  have early: "map msg_view (take 5 (outbox s)) = [(0, -1, []), (1, -1, []), (0, -2, []), (0, -2, []), (1, -2, [])]"
    by (simp add: take_map [symmetric] v)
  have "reply_to two_workers Reply_Get 1 (outbox s ! 5)"
    unfolding reply_view last by (simp add: view_is_def two_workers_def)
  moreover have "adds_done two_workers 0 (take 5 (outbox s)) = 2" "gets_done two_workers 1 (take 5 (outbox s)) = 1"
    unfolding replies_view early by (simp_all add: view_is_def two_workers_def)
  moreover have "length (worker_ranks two_workers) = 2" by (simp add: two_workers_def)
  ultimately have "\<not> round_order two_workers (outbox s)"
    using len unfolding round_order_def by (metis less_2_cases_iff One_nat_def numeral_eq_one_iff semiring_norm(85))
  with s show ?thesis by blast
qed

end
