(* ===== verification/Registry.thy ===== *)
theory Registry
  imports ZooInfo
begin

text \<open>
  Registration and barrier: the controller of rank 0 (src/hpps/frame/controller.cc), and the
  part of \<open>Zoo\<close> that talks to it (src/hpps/frame/zoo.cc: \<open>ParsePSRole\<close>, \<open>StartPS\<close>,
  \<open>RegisterNode\<close>, \<open>Barrier\<close>). The messages a handler sends to the communicator are its list of
  outgoing messages, in order.
\<close>

section \<open>The controller\<close>

record register_ctl =
  num_registered :: i32
  num_server :: i32
  num_worker :: i32
  all_nodes :: "node list"

definition new_register_ctl :: "zoo \<Rightarrow> register_ctl" where
  "new_register_ctl z = \<lparr>num_registered = 0, num_server = 0, num_worker = 0,
     all_nodes = replicate (nat (zoo_size z)) new_node\<rparr>"

definition count_worker :: "node \<times> register_ctl \<Rightarrow> node \<times> register_ctl" where
  "count_worker = (\<lambda>(n, c). if is_worker (node_role n)
     then (n\<lparr>worker_id := num_worker c\<rparr>, c\<lparr>num_worker := num_worker c + 1\<rparr>) else (n, c))"

definition count_server :: "node \<times> register_ctl \<Rightarrow> node \<times> register_ctl" where
  "count_server = (\<lambda>(n, c). if is_server (node_role n)
     then (n\<lparr>server_id := num_server c\<rparr>, c\<lparr>num_server := num_server c + 1\<rparr>) else (n, c))"

definition register_reply :: "zoo \<Rightarrow> blob \<Rightarrow> blob \<Rightarrow> nat \<Rightarrow> message" where
  "register_reply z info counts i = push_blob counts (push_blob info
     (set_type (type_code Control_Reply_Register) (set_dst (of_nat i) (set_src (word_of_int (zoo_rank z)) new_message))))"

definition register_Control :: "zoo \<Rightarrow> message \<Rightarrow> register_ctl \<Rightarrow> (message list \<times> register_ctl) res" where
  "register_Control z m c =
     (let src = sint (msg_src m) in
     bind_res (check (length (msg_data m) = 1)) (\<lambda>_.
     bind_res (check (src < int (length (all_nodes c)) \<and> 0 \<le> src)) (\<lambda>_.
     bind_res (vec_at (msg_data m) 0) (\<lambda>b.
     bind_res (buf_read b 0 sizeof_Node) (\<lambda>bs.
     let (n, c1) = count_server (count_worker (dec_node bs, c));
         c2 = c1\<lparr>all_nodes := (all_nodes c1)[nat src := n], num_registered := num_registered c1 + 1\<rparr> in
     if sint (num_registered c2) = zoo_size z then
       (let info = enc_seq enc_node (all_nodes c2); counts = enc_seq enc32 [num_worker c2, num_server c2] in
         Inr (map (register_reply z info counts) (rev [0..<nat (zoo_size z)]), c2))
     else Inr ([], c2))))))"

type_synonym barrier_ctl = "message list"

definition barrier_release :: "zoo \<Rightarrow> barrier_ctl \<Rightarrow> message list res" where
  \<comment> \<open>the replies to the others in the order of the tasks; the last of its own is sent at the end,
    a null pointer when there is none, which the communicator dereferences\<close>
  "barrier_release z tasks =
     (let replies = map CreateReplyMessage tasks;
          mine = filter (\<lambda>r. sint (msg_dst r) = zoo_rank z) replies in
      if mine = [] then Inl NullDeref
      else Inr (filter (\<lambda>r. sint (msg_dst r) \<noteq> zoo_rank z) replies @ [last mine]))"

definition barrier_Control :: "zoo \<Rightarrow> message \<Rightarrow> barrier_ctl \<Rightarrow> (message list \<times> barrier_ctl) res" where
  "barrier_Control z m tasks =
     (let tasks1 = tasks @ [m] in
      if int (length tasks1) = zoo_size z
      then bind_res (barrier_release z tasks1) (\<lambda>out. Inr (out, []))
      else Inr ([], tasks1))"

record controller =
  register_controller :: register_ctl
  barrier_controller :: barrier_ctl

definition new_controller :: "zoo \<Rightarrow> controller" where
  "new_controller z = \<lparr>register_controller = new_register_ctl z, barrier_controller = []\<rparr>"

definition controller_ProcessBarrier :: "zoo \<Rightarrow> message \<Rightarrow> controller \<Rightarrow> (message list \<times> controller) res" where
  "controller_ProcessBarrier z m c = bind_res (barrier_Control z m (barrier_controller c))
     (\<lambda>(out, b). Inr (out, c\<lparr>barrier_controller := b\<rparr>))"

definition controller_ProcessRegister :: "zoo \<Rightarrow> message \<Rightarrow> controller \<Rightarrow> (message list \<times> controller) res" where
  "controller_ProcessRegister z m c = bind_res (register_Control z m (register_controller c))
     (\<lambda>(out, r). Inr (out, c\<lparr>register_controller := r\<rparr>))"

section \<open>The other side: Zoo\<close>

definition kController :: int where "kController = 0"

definition ParsePSRole :: "string \<Rightarrow> i32" where
  "ParsePSRole s =
     (if s = ''none'' then role_code R_NONE
      else if s = ''worker'' then role_code R_WORKER
      else if s = ''server'' then role_code R_SERVER
      else if s = ''default'' then role_code R_ALL
      else -1)"

definition StartPS_nodes :: "int \<Rightarrow> int \<Rightarrow> string \<Rightarrow> zoo res" where
  \<comment> \<open>the first statements of \<open>StartPS\<close>, in a fresh process\<close>
  "StartPS_nodes r sz flag =
     (let role = ParsePSRole flag; ns = replicate (nat sz) new_node in
     bind_res (check (role \<noteq> -1)) (\<lambda>_.
     bind_res (vec_at ns r) (\<lambda>n.
     bind_res (vec_set ns r (n\<lparr>node_rank := word_of_int r, node_role := role\<rparr>)) (\<lambda>ns'.
       Inr \<lparr>zoo_rank = r, zoo_size = sz, nodes = ns', server_ranks = [], worker_ranks = [],
            num_workers = 0, num_servers = 0\<rparr>))))"

definition register_request :: "zoo \<Rightarrow> message res" where
  "register_request z = bind_res (vec_at (nodes z) (zoo_rank z)) (\<lambda>n.
     Inr (push_blob (enc_node n) (set_type (type_code Control_Register) (set_dst (word_of_int kController)
       (set_src (word_of_int (zoo_rank z)) new_message)))))"

definition vec_resize :: "int \<Rightarrow> 'a \<Rightarrow> 'a list \<Rightarrow> 'a list res" where
  \<comment> \<open>\<open>resize\<close>: a negative size is a huge one, which the vector refuses\<close>
  "vec_resize n x xs = (if n < 0 then Inl Fatal else Inr (take (nat n) xs @ replicate (nat n - length xs) x))"

definition note_node :: "int list \<times> int list \<Rightarrow> node \<Rightarrow> (int list \<times> int list) res" where
  "note_node = (\<lambda>(ws, ss) n.
     bind_res (if worker_id n \<noteq> -1 then vec_set ws (sint (worker_id n)) (sint (node_rank n)) else Inr ws) (\<lambda>ws'.
     bind_res (if server_id n \<noteq> -1 then vec_set ss (sint (server_id n)) (sint (node_rank n)) else Inr ss) (\<lambda>ss'.
       Inr (ws', ss'))))"

definition RegisterNode_reply :: "zoo \<Rightarrow> message \<Rightarrow> zoo res" where
  \<comment> \<open>\<open>RegisterNode\<close> from the reply on\<close>
  "RegisterNode_reply z m =
     bind_res (check (msg_type m = type_code Control_Reply_Register)) (\<lambda>_.
     bind_res (check (length (msg_data m) = 2)) (\<lambda>_.
     bind_res (vec_at (msg_data m) 0) (\<lambda>info.
     bind_res (vec_at (msg_data m) 1) (\<lambda>counts.
     bind_res (elem_at 4 dec32 counts 0) (\<lambda>nw.
     bind_res (elem_at 4 dec32 counts 1) (\<lambda>ns.
     bind_res (vec_resize (sint nw) 0 (worker_ranks z)) (\<lambda>ws.
     bind_res (vec_resize (sint ns) 0 (server_ranks z)) (\<lambda>ss.
     bind_res (check (length info = nat (zoo_size z) * sizeof_Node)) (\<lambda>_.
     bind_res (buf_write (nodes z) 0 (dec_seq sizeof_Node dec_node info)) (\<lambda>nodes'.
     bind_res (fold_res note_node (ws, ss) nodes') (\<lambda>(ws', ss').
       Inr (z\<lparr>nodes := nodes', worker_ranks := ws', server_ranks := ss',
              num_workers := sint nw, num_servers := sint ns\<rparr>))))))))))))"

definition zoo_FinishTrain :: "zoo \<Rightarrow> message list res" where
  \<comment> \<open>one message for every server; the table id keeps its initial value\<close>
  "zoo_FinishTrain z = fold_res (\<lambda>out i. bind_res (server_id_to_rank z (int i)) (\<lambda>r.
     Inr (out @ [set_type (type_code Server_Finish_Train) (set_dst (word_of_int r)
       (set_src (word_of_int (zoo_rank z)) new_message))]))) [] [0..<nat (num_servers z)]"

definition barrier_request :: "zoo \<Rightarrow> message" where
  "barrier_request z = set_type (type_code Control_Barrier) (set_dst (word_of_int kController)
     (set_src (word_of_int (zoo_rank z)) new_message))"

definition Barrier_reply :: "message \<Rightarrow> unit res" where
  "Barrier_reply m = check (msg_type m = type_code Control_Reply_Barrier)"

section \<open>Counting ids\<close>

text \<open>Ids are given in the order in which the nodes register: the id of a node is its position among
  the registered nodes that play the role.\<close>

definition position :: "'a list \<Rightarrow> 'a \<Rightarrow> nat" where
  "position xs a = length (takeWhile (\<lambda>x. x \<noteq> a) xs)"

lemma position_append [simp]: "a \<in> set xs \<Longrightarrow> position (xs @ ys) a = position xs a"
  by (auto simp: position_def takeWhile_append1)

lemma position_last: "a \<notin> set xs \<Longrightarrow> position (xs @ a # ys) a = length xs"
  by (induction xs) (auto simp: position_def)

lemma position_less: "a \<in> set xs \<Longrightarrow> position xs a < length xs"
  using length_takeWhile_le [of "\<lambda>x. x \<noteq> a" xs] by (induction xs) (auto simp: position_def)

lemma nth_position: "a \<in> set xs \<Longrightarrow> xs ! position xs a = a"
  by (induction xs) (auto simp: position_def)

lemma position_nth: "distinct xs \<Longrightarrow> k < length xs \<Longrightarrow> position xs (xs ! k) = k"
  by (metis nth_eq_iff_index_eq nth_mem nth_position position_less)

definition id_in :: "nat list \<Rightarrow> nat \<Rightarrow> i32" where
  "id_in xs i = (if i \<in> set xs then of_nat (position xs i) else -1)"

definition players :: "(i32 \<Rightarrow> bool) \<Rightarrow> (nat \<Rightarrow> i32) \<Rightarrow> nat list \<Rightarrow> nat list" where
  "players plays role is = filter (\<lambda>i. plays (role i)) is"

definition reg_node :: "(nat \<Rightarrow> i32) \<Rightarrow> nat list \<Rightarrow> nat \<Rightarrow> node" where
  "reg_node role is i = \<lparr>node_rank = of_nat i, node_role = role i,
     worker_id = id_in (players is_worker role is) i, server_id = id_in (players is_server role is) i\<rparr>"

definition register_state :: "(nat \<Rightarrow> i32) \<Rightarrow> nat \<Rightarrow> nat list \<Rightarrow> register_ctl" where
  "register_state role n is = \<lparr>num_registered = of_nat (length is),
     num_server = of_nat (length (players is_server role is)),
     num_worker = of_nat (length (players is_worker role is)),
     all_nodes = map (\<lambda>i. if i \<in> set is then reg_node role is i else new_node) [0..<n]\<rparr>"

lemma reg_node_stable: "i \<in> set is \<Longrightarrow> i \<noteq> j \<Longrightarrow> reg_node role (is @ [j]) i = reg_node role is i"
  by (auto simp: reg_node_def id_in_def players_def)

lemma reg_node_new:
  "i \<notin> set is \<Longrightarrow> reg_node role (is @ [i]) i = \<lparr>node_rank = of_nat i, node_role = role i,
    worker_id = (if is_worker (role i) then of_nat (length (players is_worker role is)) else -1),
    server_id = (if is_server (role i) then of_nat (length (players is_server role is)) else -1)\<rparr>"
  by (simp add: reg_node_def id_in_def players_def position_last)

definition request_of :: "(nat \<Rightarrow> i32) \<Rightarrow> nat \<Rightarrow> message" where
  "request_of role i = push_blob (enc_node \<lparr>node_rank = of_nat i, node_role = role i, worker_id = -1, server_id = -1\<rparr>)
     (set_type (type_code Control_Register) (set_dst 0 (set_src (of_nat i) new_message)))"

definition register_replies :: "zoo \<Rightarrow> (nat \<Rightarrow> i32) \<Rightarrow> nat \<Rightarrow> nat list \<Rightarrow> message list" where
  "register_replies z role n is = (let c = register_state role n is in
     map (register_reply z (enc_seq enc_node (all_nodes c)) (enc_seq enc32 [num_worker c, num_server c])) (rev [0..<n]))"

lemma register_step:
  assumes z: "zoo_size z = int n" "n < 2 ^ 31" and i: "i < n" "i \<notin> set is" and len: "length is < n"
  shows "register_Control z (request_of role i) (register_state role n is) =
    Inr (if length is + 1 = n then register_replies z role n (is @ [i]) else [], register_state role n (is @ [i]))"
proof -
  let ?c = "register_state role n is" and ?n = "\<lparr>node_rank = of_nat i, node_role = role i, worker_id = -1, server_id = -1\<rparr>"
  have src: "sint (msg_src (request_of role i)) = int i"
    using i(1) z(2) by (simp add: request_of_def sint_i32_of_nat)
  have read: "buf_read (enc_node ?n) 0 sizeof_Node = Inr (enc_node ?n)"
    by (simp add: buf_read_def cnode.length_enc)
  have nodes: "(map (\<lambda>j. if j \<in> set is then reg_node role is j else new_node) [0..<n])[i := reg_node role (is @ [i]) i] =
      map (\<lambda>j. if j \<in> set (is @ [i]) then reg_node role (is @ [i]) j else new_node) [0..<n]"
    using i by (auto intro!: nth_equalityI simp: nth_list_update reg_node_stable)
  let ?c1 = "?c\<lparr>num_worker := num_worker ?c + (if is_worker (role i) then 1 else 0),
      num_server := num_server ?c + (if is_server (role i) then 1 else 0)\<rparr>"
  have c1: "count_server (count_worker (?n, ?c)) = (reg_node role (is @ [i]) i, ?c1)"
    unfolding reg_node_new [OF i(2)]
    by (simp add: count_worker_def count_server_def register_state_def)
  have c2: "?c1\<lparr>all_nodes := (all_nodes ?c1)[i := reg_node role (is @ [i]) i], num_registered := num_registered ?c1 + 1\<rparr>
      = register_state role n (is @ [i])"
    using nodes by (simp add: register_state_def players_def add.commute)
  have "num_registered ?c + 1 = of_nat (Suc (length is))" by (simp add: register_state_def)
  then have "sint (num_registered ?c + 1) = int (Suc (length is))"
    using len z(2) by (simp only: sint_i32_of_nat)
  moreover have "msg_data (request_of role i) = [enc_node ?n]" "length (all_nodes ?c) = n"
    by (simp_all add: request_of_def register_state_def)
  ultimately show ?thesis
    using src i(1) z(1) read c1 c2 len
    by (simp add: register_Control_def cnode.dec_enc register_replies_def Let_def del: length_append)
qed


section \<open>Registration of a whole system\<close>

definition registration :: "zoo \<Rightarrow> message list \<Rightarrow> controller \<Rightarrow> (message list \<times> controller) res" where
  \<comment> \<open>the controller handles the messages in this order; all it sends\<close>
  "registration z ms c = fold_res (\<lambda>(out, c) m. bind_res (controller_ProcessRegister z m c)
     (\<lambda>(out', c'). Inr (out @ out', c'))) ([], c) ms"

lemma registration_run:
  assumes z: "zoo_size z = int n" "n < 2 ^ 31"
    and is': "distinct is" "set is \<subseteq> {..<n}" and len: "length is = m" "m \<le> n"
  shows "registration z (map (request_of role) is) (new_controller z) =
    Inr (if m = n \<and> 0 < n then register_replies z role n is else [],
      new_controller z\<lparr>register_controller := register_state role n is\<rparr>)"
  using is' len
proof (induction "is" arbitrary: m rule: rev_induct)
  case Nil
  have "new_register_ctl z = register_state role n []"
    using z(1) by (simp add: new_register_ctl_def register_state_def players_def map_replicate_const)
  then show ?case using Nil by (cases n) (simp_all add: registration_def new_controller_def)
next
  case (snoc i "is")
  have i: "i < n" "i \<notin> set is" "length is < n" using snoc.prems by auto
  have "registration z (map (request_of role) is) (new_controller z) =
      Inr ([], new_controller z\<lparr>register_controller := register_state role n is\<rparr>)"
    using snoc.IH [of "length is"] snoc.prems i(3) by simp
  then show ?case
    using register_step [OF z i, of role] snoc.prems i(3)
    by (simp add: registration_def fold_res_append controller_ProcessRegister_def)
qed

lemma note_nodes_ok:
  assumes is': "distinct is" "set is = {..<n}" and n: "n < 2 ^ 31" and m: "m \<le> n"
  shows "fold_res note_node (replicate (length (players is_worker role is)) 0, replicate (length (players is_server role is)) 0)
      (map (reg_node role is) [0..<m]) =
    Inr (map (\<lambda>i. if i < m then int i else 0) (players is_worker role is),
         map (\<lambda>i. if i < m then int i else 0) (players is_server role is))"
  using m
proof (induction m)
  case 0
  then show ?case by (simp add: map_replicate_const)
next
  case (Suc m)
  have upd: "(map (\<lambda>i. if i < m then int i else 0) xs)[position xs m := int m] = map (\<lambda>i. if i < Suc m then int i else 0) xs"
    if "distinct xs" "m \<in> set xs" for xs :: "nat list"
    using that position_less [of m xs] nth_position [of m xs]
    by (auto intro!: nth_equalityI simp: nth_list_update nth_eq_iff_index_eq)
       (metis less_antisym nth_eq_iff_index_eq)
  have same: "map (\<lambda>i. if i < m then int i else 0) xs = map (\<lambda>i. if i < Suc m then int i else 0) xs" if "m \<notin> set xs" for xs :: "nat list"
    using that by (auto simp: less_Suc_eq)
  have dp: "distinct (players p role is)" for p using is'(1) by (simp add: players_def)
  have small: "position (players p role is) m < 2 ^ 31" if "m \<in> set (players p role is)" for p
  proof -
    have "length (players p role is) \<le> length is" by (simp add: players_def)
    also have "length is = n" using is' distinct_card [of "is"] by simp
    finally show ?thesis using position_less [OF that] n by simp
  qed
  have neg: "(of_nat k :: i32) \<noteq> -1" if "k < 2 ^ 31" for k
  proof
    assume "(of_nat k :: i32) = -1"
    then have "sint (of_nat k :: i32) = sint (-1 :: i32)" by simp
    then show False using sint_i32_of_nat [OF that] by simp
  qed
  have step: "(if id_in xs m \<noteq> -1 then vec_set (map (\<lambda>i. if i < m then int i else 0) xs) (sint (id_in xs m)) (sint (of_nat m :: i32))
      else Inr (map (\<lambda>i. if i < m then int i else 0) xs)) = (Inr (map (\<lambda>i. if i < Suc m then int i else 0) xs) :: int list res)"
    if "xs = players p role is" for xs p
  proof (cases "m \<in> set xs")
    case True
    have "sint (id_in xs m) = int (position xs m)"
      using True small [of p] that by (simp add: id_in_def sint_i32_of_nat)
    moreover have "sint (of_nat m :: i32) = int m" using Suc.prems n by (simp add: sint_i32_of_nat)
    moreover have "id_in xs m \<noteq> -1" using True small [of p] that neg by (simp add: id_in_def)
    ultimately show ?thesis using upd [OF _ True] dp [of p] that position_less [OF True] by simp
  next
    case False
    then show ?thesis using same by (simp add: id_in_def)
  qed
  have "note_node (map (\<lambda>i. if i < m then int i else 0) (players is_worker role is),
      map (\<lambda>i. if i < m then int i else 0) (players is_server role is)) (reg_node role is m) =
    Inr (map (\<lambda>i. if i < Suc m then int i else 0) (players is_worker role is),
      map (\<lambda>i. if i < Suc m then int i else 0) (players is_server role is))"
    by (simp only: note_node_def prod.case reg_node_def node.select_convs step [OF refl] bind_res_simps)
  then show ?case using Suc by (simp add: fold_res_append)
qed

definition started :: "nat \<Rightarrow> (nat \<Rightarrow> string) \<Rightarrow> nat \<Rightarrow> zoo" where
  "started n flags i = \<lparr>zoo_rank = int i, zoo_size = int n,
     nodes = (replicate n new_node)[i := new_node\<lparr>node_rank := of_nat i, node_role := ParsePSRole (flags i)\<rparr>],
     server_ranks = [], worker_ranks = [], num_workers = 0, num_servers = 0\<rparr>"

lemma StartPS_started:
  assumes "i < n" and "ParsePSRole (flags i) \<noteq> -1"
  shows "StartPS_nodes (int i) (int n) (flags i) = Inr (started n flags i)"
    and "register_request (started n flags i) = Inr (request_of (\<lambda>i. ParsePSRole (flags i)) i)"
  using assms by (simp_all add: StartPS_nodes_def started_def register_request_def request_of_def kController_def new_node_def Let_def)

definition registered :: "nat \<Rightarrow> (nat \<Rightarrow> i32) \<Rightarrow> nat list \<Rightarrow> nat \<Rightarrow> zoo" where
  \<comment> \<open>what process \<open>i\<close> knows after registration\<close>
  "registered n role is i = \<lparr>zoo_rank = int i, zoo_size = int n, nodes = map (reg_node role is) [0..<n],
     server_ranks = map int (players is_server role is), worker_ranks = map int (players is_worker role is),
     num_workers = int (length (players is_worker role is)), num_servers = int (length (players is_server role is))\<rparr>"

lemma arrivals_length: "distinct is \<Longrightarrow> set is = {..<n} \<Longrightarrow> length is = n"
  using distinct_card [of "is"] by simp

lemma players_less: "distinct is \<Longrightarrow> set is = {..<n} \<Longrightarrow> length (players p role is) \<le> n"
  using arrivals_length [of "is" n] by (metis length_filter_le players_def)

lemma RegisterNode_reply_ok:
  assumes n: "n < 2 ^ 31" and is': "distinct is" "set is = {..<n}" and i: "i < n"
  shows "RegisterNode_reply (started n flags i) (register_replies z role n is ! (n - 1 - i)) = Inr (registered n role is i)"
proof -
  let ?c = "register_state role n is"
  have nodes: "all_nodes ?c = map (reg_node role is) [0..<n]" using is'(2) by (simp add: register_state_def)
  have "rev [0..<n] ! (n - 1 - i) = i" using i by (simp add: rev_nth)
  then have m: "register_replies z role n is ! (n - 1 - i) = register_reply z (enc_seq enc_node (map (reg_node role is) [0..<n]))
      (enc_seq enc32 [num_worker ?c, num_server ?c]) i"
    using i nodes by (simp add: register_replies_def Let_def del: c32.enc_seq_simps)
  have counts: "sint (num_worker ?c) = int (length (players is_worker role is))" "sint (num_server ?c) = int (length (players is_server role is))"
    using players_less [OF is', of is_worker role] players_less [OF is', of is_server role] n
    by (simp_all add: register_state_def sint_i32_of_nat)
  have len: "length (enc_seq enc_node (map (reg_node role is) [0..<n])) = n * sizeof_Node" by simp
  have wr: "buf_write (nodes (started n flags i)) 0 (map (reg_node role is) [0..<n])
      = Inr (map (reg_node role is) [0..<n])"
    by (simp add: buf_write_def started_def)
  have marks: "fold_res note_node (replicate (length (players is_worker role is)) 0, replicate (length (players is_server role is)) 0)
      (map (reg_node role is) [0..<n]) = Inr (map int (players is_worker role is), map int (players is_server role is))"
  proof -
    have "\<forall>j \<in> set (players p role is). j < n" for p using is'(2) by (auto simp: players_def)
    then have "map (\<lambda>i. if i < n then int i else 0) (players p role is) = map int (players p role is)" for p
      by auto
    then show ?thesis using note_nodes_ok [OF is' n order_refl] by simp
  qed
  have e: "elem_at 4 dec32 (enc_seq enc32 [num_worker ?c, num_server ?c]) 0 = Inr (num_worker ?c)"
    "elem_at 4 dec32 (enc_seq enc32 [num_worker ?c, num_server ?c]) 1 = Inr (num_server ?c)"
    by (subst c32.elem_at_enc_seq; simp)+
  have "zoo_size (started n flags i) = int n" "worker_ranks (started n flags i) = []" "server_ranks (started n flags i) = []"
    by (simp_all add: started_def)
  then show ?thesis
    unfolding m
    by (simp add: RegisterNode_reply_def register_reply_def e counts vec_resize_def len wr marks
        del: c32.enc_seq_simps cnode.enc_seq_simps)
      (simp add: marks registered_def started_def)
qed

lemma registered_ok:
  assumes n: "n < 2 ^ 31" and is': "distinct is" "set is = {..<n}"
  shows "zoo_ok (registered n role is i)"
proof -
  have id: "sint (id_in (players p role is) (players p role is ! k)) = int k"
    if k: "k < length (players p role is)" for p k
  proof -
    have "position (players p role is) (players p role is ! k) = k"
      using position_nth [OF _ k] is'(1) by (simp add: players_def)
    then show ?thesis
      using k players_less [OF is', of p role] n by (simp add: id_in_def sint_i32_of_nat)
  qed
  have less: "players p role is ! k < n" if "k < length (players p role is)" for p k
    using nth_mem [OF that] is'(2) by (auto simp: players_def)
  show ?thesis
    using id less by (auto simp: zoo_ok_def registered_def rank_to_worker_id_def rank_to_server_id_def reg_node_def)
qed

text \<open>C9. Registration agrees everywhere: in whatever order the registrations of the \<open>n\<close> processes
  arrive, the controller answers nobody before the last one, then every rank once with rank 0 last,
  and every process ends with the same tables. They are consistent, and worker and server ids
  are the positions in the order of arrival.\<close>

theorem registration_agrees:
  assumes n: "0 < n" "n < 2 ^ 31" and flags: "\<forall>i < n. ParsePSRole (flags i) \<noteq> -1"
    and arrival: "distinct is" "set is = {..<n}"
  shows "\<exists>zs reqs out c. (\<forall>i < n. StartPS_nodes (int i) (int n) (flags i) = Inr (zs i) \<and> register_request (zs i) = Inr (reqs i))
    \<and> (\<forall>k < n. \<exists>ck. registration (zs 0) (map reqs (take k is)) (new_controller (zs 0)) = Inr ([], ck))
    \<and> registration (zs 0) (map reqs is) (new_controller (zs 0)) = Inr (out, c)
    \<and> map (\<lambda>m. sint (msg_dst m)) out = map int (rev [0..<n])
    \<and> (\<forall>i < n. \<exists>z. RegisterNode_reply (zs i) (out ! (n - 1 - i)) = Inr z \<and> zoo_ok z \<and> zoo_rank z = int i
        \<and> nodes z = map (reg_node (\<lambda>i. ParsePSRole (flags i)) is) [0..<n]
        \<and> worker_ranks z = map int (players is_worker (\<lambda>i. ParsePSRole (flags i)) is)
        \<and> server_ranks z = map int (players is_server (\<lambda>i. ParsePSRole (flags i)) is))"
proof -
  let ?role = "\<lambda>i. ParsePSRole (flags i)" and ?zs = "started n flags"
  let ?reqs = "request_of ?role" and ?out = "register_replies (started n flags 0) ?role n is"
  have z: "zoo_size (?zs 0) = int n" by (simp add: started_def)
  note run = registration_run [OF z n(2), where role = ?role]
  have none_yet: "\<exists>ck. registration (?zs 0) (map ?reqs (take k is)) (new_controller (?zs 0)) = Inr ([], ck)" if "k < n" for k
    using run [of "take k is" k] that arrival arrivals_length [OF arrival] set_take_subset [of k "is"] by simp
  have dst: "map (\<lambda>m. sint (msg_dst m)) ?out = map int (rev [0..<n])"
    using n(2) by (auto simp: register_replies_def Let_def register_reply_def sint_i32_of_nat)
  show ?thesis
    using StartPS_started flags none_yet run [of "is" n] arrival arrivals_length [OF arrival] n dst
      RegisterNode_reply_ok [OF n(2) arrival] registered_ok [OF n(2) arrival]
    by (intro exI [of _ ?zs] exI [of _ ?reqs] exI [of _ ?out]
        exI [of _ "new_controller (?zs 0)\<lparr>register_controller := register_state ?role n is\<rparr>"]) (auto simp: registered_def)
qed

section \<open>The barrier\<close>

definition barrier_run :: "zoo \<Rightarrow> message list \<Rightarrow> controller \<Rightarrow> (message list \<times> controller) res" where
  "barrier_run z ms c = fold_res (\<lambda>(out, c) m. bind_res (controller_ProcessBarrier z m c)
     (\<lambda>(out', c'). Inr (out @ out', c'))) ([], c) ms"

lemma barrier_wait:
  assumes "int (length (barrier_controller c) + length ms) < zoo_size z"
  shows "barrier_run z ms c = Inr ([], c\<lparr>barrier_controller := barrier_controller c @ ms\<rparr>)"
  using assms
proof (induction ms rule: rev_induct)
  case Nil
  then show ?case by (simp add: barrier_run_def)
next
  case (snoc m ms)
  then show ?case by (simp add: barrier_run_def fold_res_append controller_ProcessBarrier_def barrier_Control_def)
qed

definition from_rank :: "nat \<Rightarrow> message" where
  \<comment> \<open>the barrier request of a rank\<close>
  "from_rank i = set_type (type_code Control_Barrier) (set_dst 0 (set_src (of_nat i) new_message))"

lemma barrier_request_rank: "zoo_rank z = int i \<Longrightarrow> barrier_request z = from_rank i"
  by (simp add: barrier_request_def from_rank_def kController_def)

lemma reply_from_rank [simp]:
  "msg_src (from_rank i) = of_nat i"
  "msg_type (from_rank i) = type_code Control_Barrier"
  "msg_dst (CreateReplyMessage (from_rank i)) = of_nat i"
  "msg_type (CreateReplyMessage (from_rank i)) = type_code Control_Reply_Barrier"
  by (simp_all add: from_rank_def)

text \<open>C10. The barrier lets all processes go at once: while fewer than \<open>n\<close> requests are there nobody
  gets an answer; the last one, whatever the order, releases every rank exactly once, the others in
  the order in which they came and the controller's own rank last; the answers are what
  \<open>Zoo::Barrier\<close> waits for, and the controller is as before, ready for the next barrier.\<close>

theorem barrier_releases_all:
  assumes z: "zoo_size z = int n" "n < 2 ^ 31" "zoo_rank z = int r" "r < n" and c: "barrier_controller c = []"
    and arrival: "distinct is" "set is = {..<n}" and zs: "\<forall>i < n. zoo_rank (zs i) = int i"
  shows "(\<forall>k < n. barrier_run z (map (\<lambda>i. barrier_request (zs i)) (take k is)) c =
       Inr ([], c\<lparr>barrier_controller := map from_rank (take k is)\<rparr>))
    \<and> (\<exists>out. barrier_run z (map (\<lambda>i. barrier_request (zs i)) is) c = Inr (out, c)
        \<and> map (\<lambda>m. sint (msg_dst m)) out = map int (filter (\<lambda>i. i \<noteq> r) is @ [r])
        \<and> (\<forall>m \<in> set out. Barrier_reply m = Inr ()))"
proof -
  have len: "length is = n" by (rule arrivals_length [OF arrival])
  have reqs: "map (\<lambda>i. barrier_request (zs i)) xs = map from_rank xs" if "set xs \<subseteq> {..<n}" for xs
    using that zs by (auto intro!: map_cong barrier_request_rank)
  have waits: "barrier_run z (map from_rank (take k is)) c = Inr ([], c\<lparr>barrier_controller := map from_rank (take k is)\<rparr>)"
    if "k < n" for k
    using barrier_wait [of c "map from_rank (take k is)" z] that c z(1) len by simp
  obtain js j where js: "is = js @ [j]" using len z(4) by (cases "is" rule: rev_cases) auto
  have dst: "sint (of_nat i :: i32) = int i" if "i \<in> set is" for i
    using that arrival(2) z(2) by (simp add: sint_i32_of_nat)
  have r: "r \<in> set is" using arrival(2) z(4) by simp
  have "filter (\<lambda>i. i = r) is = [r]"
    using arrival(1) r by (induction "is") (auto simp: filter_empty_conv)
  then have mine: "filter (\<lambda>m. sint (msg_dst m) = int r) (map CreateReplyMessage (map from_rank is)) = [CreateReplyMessage (from_rank r)]"
    using dst by (simp add: filter_map comp_def cong: filter_cong)
  let ?others = "map (\<lambda>i. CreateReplyMessage (from_rank i)) (filter (\<lambda>i. i \<noteq> r) is)"
  have others: "filter (\<lambda>m. sint (msg_dst m) \<noteq> int r) (map CreateReplyMessage (map from_rank is)) = ?others"
    using dst by (simp add: filter_map comp_def cong: filter_cong)
  have "barrier_release z (map from_rank is) = Inr (?others @ [CreateReplyMessage (from_rank r)])"
    unfolding barrier_release_def Let_def z(3) mine others by simp
  then have "controller_ProcessBarrier z (from_rank j) (c\<lparr>barrier_controller := map from_rank js\<rparr>) =
      Inr (?others @ [CreateReplyMessage (from_rank r)], c)"
    using js len z(1) c by (simp add: controller_ProcessBarrier_def barrier_Control_def)
  moreover have "barrier_run z (map from_rank js) c = Inr ([], c\<lparr>barrier_controller := map from_rank js\<rparr>)"
    using waits [of "length js"] js len by simp
  ultimately have "barrier_run z (map from_rank is) c = Inr (?others @ [CreateReplyMessage (from_rank r)], c)"
    by (simp add: js barrier_run_def fold_res_append)
  moreover have "map (\<lambda>m. sint (msg_dst m)) (?others @ [CreateReplyMessage (from_rank r)]) = map int (filter (\<lambda>i. i \<noteq> r) is @ [r])"
    using dst r by simp
  moreover have "\<forall>m \<in> set (?others @ [CreateReplyMessage (from_rank r)]). Barrier_reply m = Inr ()"
    by (auto simp: Barrier_reply_def)
  moreover have "map (\<lambda>i. barrier_request (zs i)) is = map from_rank is" using reqs [of "is"] arrival(2) by simp
  moreover have "map (\<lambda>i. barrier_request (zs i)) (take k is) = map from_rank (take k is)" for k
    using reqs [of "take k is"] arrival(2) set_take_subset [of k "is"] by simp
  ultimately show ?thesis using waits by metis
qed

lemma registration_agrees_witness:
  "\<exists>zs reqs out c. (\<forall>i < 3. StartPS_nodes (int i) (int 3) ''default'' = Inr (zs i) \<and> register_request (zs i) = Inr (reqs i))
    \<and> (\<forall>k < 3. \<exists>ck. registration (zs 0) (map reqs (take k [2, 0, 1])) (new_controller (zs 0)) = Inr ([], ck))
    \<and> registration (zs 0) (map reqs [2, 0, 1]) (new_controller (zs 0)) = Inr (out, c)
    \<and> map (\<lambda>m. sint (msg_dst m)) out = map int (rev [0..<3])
    \<and> (\<forall>i < 3. \<exists>z. RegisterNode_reply (zs i) (out ! (3 - 1 - i)) = Inr z \<and> zoo_ok z \<and> zoo_rank z = int i
        \<and> nodes z = map (reg_node (\<lambda>i. ParsePSRole ''default'') [2, 0, 1]) [0..<3]
        \<and> worker_ranks z = map int (players is_worker (\<lambda>i. ParsePSRole ''default'') [2, 0, 1])
        \<and> server_ranks z = map int (players is_server (\<lambda>i. ParsePSRole ''default'') [2, 0, 1]))"
proof (rule registration_agrees)
  show "set [2, 0, 1] = {..<3 :: nat}" by auto
qed (simp_all add: ParsePSRole_def)

definition two_zoo :: zoo where
  "two_zoo = \<lparr>zoo_rank = 0, zoo_size = 2, nodes = [], server_ranks = [], worker_ranks = [], num_workers = 0, num_servers = 0\<rparr>"

lemma barrier_releases_all_witness:
  "\<exists>out. barrier_run two_zoo (map (\<lambda>i. barrier_request (two_zoo\<lparr>zoo_rank := int i\<rparr>)) [1, 0]) (new_controller two_zoo) =
      Inr (out, new_controller two_zoo)
    \<and> map (\<lambda>m. sint (msg_dst m)) out = [1, 0]"
proof -
  have "set [1, 0] = {..<2 :: nat}" by auto
  then show ?thesis
    using barrier_releases_all [of two_zoo 2 0 "new_controller two_zoo" "[1, 0]" "\<lambda>i. two_zoo\<lparr>zoo_rank := int i\<rparr>"]
    by (auto simp: two_zoo_def new_controller_def)
qed

end
