(* ===== verification/Actors.thy ===== *)
theory Actors
  imports Sched
begin

text \<open>
  The actors of a process and how messages reach them: src/hpps/frame/actor.h and actor.cc
  (dispatch by message type), communicator.cc (forwarding between the network and the local
  actors), \<open>Zoo::SendTo\<close>, \<open>Zoo::Receive\<close> and \<open>Zoo::RegisterActor\<close> of zoo.cc, and the server
  actor (server.cc), which hands each request to the scheduler of its table.
\<close>

section \<open>Mailboxes\<close>

definition kCommunicator :: string where "kCommunicator = ''communicator''"
definition kControllerName :: string where "kControllerName = ''controller''"
definition kServer :: string where "kServer = ''server''"
definition kWorker :: string where "kWorker = ''worker''"

record process =
  p_rank :: int
  p_actors :: "string \<rightharpoonup> message queue"    \<comment> \<open>\<open>zoo_\<close>, each actor by its mailbox\<close>
  p_mailbox :: "message queue"            \<comment> \<open>the mailbox of the \<open>Zoo\<close> itself\<close>
  p_sent :: "message list"                \<comment> \<open>what was handed to the network\<close>

definition RegisterActor :: "string \<Rightarrow> process \<Rightarrow> process res" where
  "RegisterActor name p = bind_res (check (p_actors p name = None))
     (\<lambda>_. Inr (p\<lparr>p_actors := (p_actors p)(name \<mapsto> empty_queue)\<rparr>))"

definition zoo_SendTo :: "string \<Rightarrow> message \<Rightarrow> process \<Rightarrow> process res" where
  "zoo_SendTo name m p = (case p_actors p name of
       None \<Rightarrow> Inl Check
     | Some q \<Rightarrow> Inr (p\<lparr>p_actors := (p_actors p)(name \<mapsto> queue_Push m q)\<rparr>))"

definition zoo_Receive :: "message \<Rightarrow> process \<Rightarrow> process" where
  "zoo_Receive m p = p\<lparr>p_mailbox := queue_Push m (p_mailbox p)\<rparr>"

section \<open>The communicator\<close>

definition to_server :: "i32 \<Rightarrow> bool" where "to_server t \<longleftrightarrow> sint t > 0 \<and> sint t < 32"
definition to_worker :: "i32 \<Rightarrow> bool" where "to_worker t \<longleftrightarrow> sint t < 0 \<and> sint t > -32"
definition to_controler :: "i32 \<Rightarrow> bool" where "to_controler t \<longleftrightarrow> sint t > 32"

definition LocalForward :: "message \<Rightarrow> process \<Rightarrow> process res" where
  "LocalForward m p =
     bind_res (check (sint (msg_dst m) = p_rank p)) (\<lambda>_.
     if to_server (msg_type m) then zoo_SendTo kServer m p
     else if to_worker (msg_type m) then zoo_SendTo kWorker m p
     else if to_controler (msg_type m) then zoo_SendTo kControllerName m p
     else Inr (zoo_Receive m p))"

definition comm_ProcessMessage :: "message \<Rightarrow> process \<Rightarrow> process res" where
  "comm_ProcessMessage m p =
     (if sint (msg_dst m) \<noteq> p_rank p then Inr (p\<lparr>p_sent := p_sent p @ [m]\<rparr>) else LocalForward m p)"

definition Communicate_step :: "int \<times> message \<Rightarrow> process \<Rightarrow> process res" where
  \<comment> \<open>one iteration of the receiving thread: what \<open>Recv\<close> returned, and the message it filled\<close>
  "Communicate_step = (\<lambda>(size, m) p.
     if size = -1 then Inr p
     else if size > 0 then bind_res (check (sint (msg_dst m) = p_rank p)) (\<lambda>_. LocalForward m p)
     else Inr p)"

section \<open>Dispatch\<close>

text \<open>The member functions the actors register as handlers.\<close>

datatype handler =
    ServerProcessGet | ServerProcessAdd | ServerProcessLoadModel | ServerProcessStoreModel | ServerProcessFinishTrain
  | WorkerProcessGet | WorkerProcessAdd | WorkerProcessReplyGet | WorkerProcessReplyAdd
  | WorkerProcessLoadModel | WorkerProcessStoreModel | WorkerProcessReplyLoadModel | WorkerProcessReplyStoreModel
  | ControllerProcessBarrier | ControllerProcessRegister
  | CommunicatorProcessMessage

type_synonym handlers = "(i32 \<times> handler) list"

definition RegisterHandler :: "msg_type \<Rightarrow> handler \<Rightarrow> handlers \<Rightarrow> handlers" where
  \<comment> \<open>\<open>insert\<close> does not overwrite\<close>
  "RegisterHandler t h hs = (if map_of hs (type_code t) = None then hs @ [(type_code t, h)] else hs)"

definition server_handlers :: handlers where
  "server_handlers = RegisterHandler Server_Finish_Train ServerProcessFinishTrain
     (RegisterHandler Store_Model ServerProcessStoreModel (RegisterHandler Load_Model ServerProcessLoadModel
     (RegisterHandler Request_Add ServerProcessAdd (RegisterHandler Request_Get ServerProcessGet []))))"

definition worker_handlers :: handlers where
  "worker_handlers = RegisterHandler Reply_Store_Model WorkerProcessReplyStoreModel
     (RegisterHandler Reply_Load_Model WorkerProcessReplyLoadModel
     (RegisterHandler Store_Model WorkerProcessStoreModel (RegisterHandler Load_Model WorkerProcessLoadModel
     (RegisterHandler Reply_Add WorkerProcessReplyAdd (RegisterHandler Reply_Get WorkerProcessReplyGet
     (RegisterHandler Request_Add WorkerProcessAdd (RegisterHandler Request_Get WorkerProcessGet [])))))))"

definition controller_handlers :: handlers where
  "controller_handlers = RegisterHandler Control_Register ControllerProcessRegister
     (RegisterHandler Control_Barrier ControllerProcessBarrier [])"

definition communicator_handlers :: handlers where
  "communicator_handlers = RegisterHandler Default CommunicatorProcessMessage []"

definition actor_dispatch :: "handlers \<Rightarrow> message \<Rightarrow> handler res" where
  \<comment> \<open>the body of the loop of \<open>Actor::Main\<close>\<close>
  "actor_dispatch hs m = (case map_of hs (msg_type m) of
       Some h \<Rightarrow> Inr h
     | None \<Rightarrow> (case map_of hs (type_code Default) of Some h \<Rightarrow> Inr h | None \<Rightarrow> Inl Fatal))"

section \<open>The server actor\<close>

text \<open>A server owns one scheduler for each of its tables; a table's virtual functions come with it.\<close>

type_synonym 't server = "('t table_ops \<times> 't any_sched) list"

definition server_RegisterTable :: "zoo \<Rightarrow> 't table_ops \<Rightarrow> 't \<Rightarrow> disk \<Rightarrow> string \<Rightarrow> 't server \<Rightarrow> int \<times> 't server" where
  "server_RegisterTable z ops t d ps_mode sv = (int (length sv), sv @ [(ops, CreateScheduler z t d ps_mode)])"

fun any_ProcessGet :: "zoo \<Rightarrow> message \<Rightarrow> 't table_ops \<Rightarrow> 't any_sched \<Rightarrow> 't any_sched res" where
  "any_ProcessGet z m ops (AsyncSched s) = bind_res (sched_ProcessGet ops m s) (\<lambda>s'. Inr (AsyncSched s'))"
| "any_ProcessGet z m ops (SyncSched s) = bind_res (sync_ProcessGet z ops m s) (\<lambda>s'. Inr (SyncSched s'))"

fun any_ProcessAdd :: "zoo \<Rightarrow> message \<Rightarrow> 't table_ops \<Rightarrow> 't any_sched \<Rightarrow> 't any_sched res" where
  "any_ProcessAdd z m ops (AsyncSched s) = bind_res (sched_ProcessAdd ops m s) (\<lambda>s'. Inr (AsyncSched s'))"
| "any_ProcessAdd z m ops (SyncSched s) = bind_res (sync_ProcessAdd z ops m s) (\<lambda>s'. Inr (SyncSched s'))"

fun any_ProcessFinishTrain :: "zoo \<Rightarrow> message \<Rightarrow> 't table_ops \<Rightarrow> 't any_sched \<Rightarrow> 't any_sched res" where
  "any_ProcessFinishTrain z m ops (AsyncSched s) = bind_res (sched_ProcessFinishTrain m s) (\<lambda>s'. Inr (AsyncSched s'))"
| "any_ProcessFinishTrain z m ops (SyncSched s) = bind_res (sync_ProcessFinishTrain z ops m s) (\<lambda>s'. Inr (SyncSched s'))"

fun any_ProcessLoadModel :: "zoo \<Rightarrow> message \<Rightarrow> 't table_ops \<Rightarrow> 't any_sched \<Rightarrow> 't any_sched res" where
  "any_ProcessLoadModel z m ops (AsyncSched s) = bind_res (sched_ProcessLoadModel ops m s) (\<lambda>s'. Inr (AsyncSched s'))"
| "any_ProcessLoadModel z m ops (SyncSched s) = bind_res (sched_ProcessLoadModel ops m s) (\<lambda>s'. Inr (SyncSched s'))"

fun any_ProcessStoreModel :: "zoo \<Rightarrow> message \<Rightarrow> 't table_ops \<Rightarrow> 't any_sched \<Rightarrow> 't any_sched res" where
  "any_ProcessStoreModel z m ops (AsyncSched s) = bind_res (sched_ProcessStoreModel ops m s) (\<lambda>s'. Inr (AsyncSched s'))"
| "any_ProcessStoreModel z m ops (SyncSched s) = bind_res (sched_ProcessStoreModel ops m s) (\<lambda>s'. Inr (SyncSched s'))"

definition on_table :: "('t table_ops \<Rightarrow> 't any_sched \<Rightarrow> 't any_sched res) \<Rightarrow> message \<Rightarrow> 't server \<Rightarrow> 't server res" where
  \<comment> \<open>the shape all handlers of the server share: the check of the table id, and the call\<close>
  "on_table f m sv =
     (let id = sint (msg_table_id m) in
     bind_res (check (0 \<le> id \<and> id < int (length sv))) (\<lambda>_.
     bind_res (vec_at sv id) (\<lambda>(ops, s).
     bind_res (f ops s) (\<lambda>s'. Inr (sv[nat id := (ops, s')])))))"

definition server_ProcessGet :: "zoo \<Rightarrow> message \<Rightarrow> 't server \<Rightarrow> 't server res" where
  "server_ProcessGet z m = on_table (any_ProcessGet z m) m"
definition server_ProcessAdd :: "zoo \<Rightarrow> message \<Rightarrow> 't server \<Rightarrow> 't server res" where
  "server_ProcessAdd z m = on_table (any_ProcessAdd z m) m"
definition server_ProcessLoadModel :: "zoo \<Rightarrow> message \<Rightarrow> 't server \<Rightarrow> 't server res" where
  "server_ProcessLoadModel z m = on_table (any_ProcessLoadModel z m) m"
definition server_ProcessStoreModel :: "zoo \<Rightarrow> message \<Rightarrow> 't server \<Rightarrow> 't server res" where
  "server_ProcessStoreModel z m = on_table (any_ProcessStoreModel z m) m"
definition server_ProcessFinishTrain :: "zoo \<Rightarrow> message \<Rightarrow> 't server \<Rightarrow> 't server res" where
  "server_ProcessFinishTrain z m = on_table (any_ProcessFinishTrain z m) m"

fun server_handle :: "zoo \<Rightarrow> handler \<Rightarrow> message \<Rightarrow> 't server \<Rightarrow> 't server res" where
  "server_handle z ServerProcessGet m sv = server_ProcessGet z m sv"
| "server_handle z ServerProcessAdd m sv = server_ProcessAdd z m sv"
| "server_handle z ServerProcessLoadModel m sv = server_ProcessLoadModel z m sv"
| "server_handle z ServerProcessStoreModel m sv = server_ProcessStoreModel z m sv"
| "server_handle z ServerProcessFinishTrain m sv = server_ProcessFinishTrain z m sv"
| "server_handle z _ m sv = Inl Fatal"

definition server_step :: "zoo \<Rightarrow> message \<Rightarrow> 't server \<Rightarrow> 't server res" where
  "server_step z m sv = bind_res (actor_dispatch server_handlers m) (\<lambda>h. server_handle z h m sv)"

section \<open>Every message has a handler\<close>

text \<open>The actor a message of the protocol is for; the replies of the controller are for the \<open>Zoo\<close>.\<close>

fun recipient :: "msg_type \<Rightarrow> (string \<times> handlers) option" where
  "recipient Request_Get = Some (kServer, server_handlers)"
| "recipient Request_Add = Some (kServer, server_handlers)"
| "recipient Load_Model = Some (kServer, server_handlers)"
| "recipient Store_Model = Some (kServer, server_handlers)"
| "recipient Server_Finish_Train = Some (kServer, server_handlers)"
| "recipient Reply_Get = Some (kWorker, worker_handlers)"
| "recipient Reply_Add = Some (kWorker, worker_handlers)"
| "recipient Reply_Load_Model = Some (kWorker, worker_handlers)"
| "recipient Reply_Store_Model = Some (kWorker, worker_handlers)"
| "recipient Control_Barrier = Some (kControllerName, controller_handlers)"
| "recipient Control_Register = Some (kControllerName, controller_handlers)"
| "recipient _ = None"

fun handler_of :: "msg_type \<Rightarrow> handler" where
  "handler_of Request_Get = ServerProcessGet"
| "handler_of Request_Add = ServerProcessAdd"
| "handler_of Load_Model = ServerProcessLoadModel"
| "handler_of Store_Model = ServerProcessStoreModel"
| "handler_of Server_Finish_Train = ServerProcessFinishTrain"
| "handler_of Reply_Get = WorkerProcessReplyGet"
| "handler_of Reply_Add = WorkerProcessReplyAdd"
| "handler_of Reply_Load_Model = WorkerProcessReplyLoadModel"
| "handler_of Reply_Store_Model = WorkerProcessReplyStoreModel"
| "handler_of Control_Barrier = ControllerProcessBarrier"
| "handler_of Control_Register = ControllerProcessRegister"
| "handler_of _ = CommunicatorProcessMessage"

lemmas handler_tables = server_handlers_def worker_handlers_def controller_handlers_def communicator_handlers_def
  RegisterHandler_def actor_dispatch_def

lemmas forward_tests = to_server_def to_worker_def to_controler_def

lemma dispatch_recipient:
  "msg_type m = type_code t \<Longrightarrow> recipient t = Some (a, hs) \<Longrightarrow> actor_dispatch hs m = Inr (handler_of t)"
  by (cases t) (auto simp: handler_tables)

lemma forward_recipient:
  assumes "msg_type m = type_code t" and "sint (msg_dst m) = p_rank p"
  shows "LocalForward m p = (case recipient t of None \<Rightarrow> Inr (zoo_Receive m p) | Some (a, hs) \<Rightarrow> zoo_SendTo a m p)"
  using assms by (cases t) (simp_all add: LocalForward_def forward_tests)

text \<open>C12. Every message of the protocol finds its handler: the communicator of the rank it is for puts a
  request into the mailbox of the server, a reply to a request into that of the worker, a
  registration or barrier request into that of the controller, and each of these actors has a
  handler for it; the controller's replies go to the mailbox the \<open>Zoo\<close> waits on; and a
  message for another rank goes to the network and to no local mailbox.\<close>

theorem messages_reach_handlers:
  assumes m: "msg_type m = type_code t"
  shows "(sint (msg_dst m) \<noteq> p_rank p \<longrightarrow> comm_ProcessMessage m p = Inr (p\<lparr>p_sent := p_sent p @ [m]\<rparr>))
    \<and> (sint (msg_dst m) = p_rank p \<longrightarrow> (case recipient t of
         None \<Rightarrow> comm_ProcessMessage m p = Inr (zoo_Receive m p)
       | Some (a, hs) \<Rightarrow> actor_dispatch hs m = Inr (handler_of t)
           \<and> (\<forall>q. p_actors p a = Some q \<longrightarrow>
                comm_ProcessMessage m p = Inr (p\<lparr>p_actors := (p_actors p)(a \<mapsto> queue_Push m q)\<rparr>))))"
  using forward_recipient [OF m] dispatch_recipient [OF m]
  by (auto simp: comm_ProcessMessage_def zoo_SendTo_def split: option.split)

definition demo_process :: process where
  "demo_process = \<lparr>p_rank = 1, p_actors = [kServer \<mapsto> empty_queue], p_mailbox = empty_queue, p_sent = []\<rparr>"

lemma messages_reach_handlers_witness:
  "comm_ProcessMessage (set_type (type_code Request_Add) (set_dst 1 new_message)) demo_process =
     Inr (demo_process\<lparr>p_actors := (p_actors demo_process)(kServer \<mapsto> queue_Push (set_type (type_code Request_Add) (set_dst 1 new_message)) empty_queue)\<rparr>)"
  using messages_reach_handlers [of "set_type (type_code Request_Add) (set_dst 1 new_message)" Request_Add demo_process]
  by (simp add: demo_process_def)

text \<open>A server never mixes its tables up: a request is handled by the scheduler of the table it
  names, every other table stays as it is and no table is added or dropped; a request for a
  table the server does not have ends the process.\<close>

theorem server_tables_separate:
  assumes m: "msg_type m = type_code t" and t: "recipient t = Some (kServer, hs)"
  shows "(sint (msg_table_id m) < 0 \<or> int (length sv) \<le> sint (msg_table_id m) \<longrightarrow> server_step z m sv = Inl Check)
    \<and> (\<forall>sv'. server_step z m sv = Inr sv' \<longrightarrow> length sv' = length sv
         \<and> (\<forall>k < length sv. int k \<noteq> sint (msg_table_id m) \<longrightarrow> sv' ! k = sv ! k))"
proof -
  have "hs = server_handlers" using t by (cases t) (auto simp: kServer_def kWorker_def kControllerName_def)
  then have "actor_dispatch server_handlers m = Inr (handler_of t)" using dispatch_recipient [OF m t] by simp
  then obtain f where f: "server_step z m sv = on_table f m sv"
    using t by (cases t) (auto simp: server_step_def kServer_def kWorker_def kControllerName_def server_ProcessGet_def
      server_ProcessAdd_def server_ProcessLoadModel_def server_ProcessStoreModel_def server_ProcessFinishTrain_def)
  show ?thesis unfolding f
    by (auto simp: on_table_def Let_def check_def vec_at_def in_range_def nat_eq_iff split: if_splits prod.splits)
qed

lemma server_tables_separate_witness:
  "server_step z (set_type (type_code Request_Get) (set_table_id 3 new_message)) ([] :: nat server) = Inl Check"
  using server_tables_separate [of "set_type (type_code Request_Get) (set_table_id 3 new_message)" Request_Get server_handlers "[] :: nat server" z]
  by simp

end
