(* ===== verification/KVStore.thy ===== *)
theory KVStore
  imports FileIO
begin

text \<open>
  The key-value store of a table (src/hpps/kvstore/kvstore.h and kvstore.cc), at the instance
  \<open>KVStore<uint64_t, float>\<close>: an open hash table with linear probing over at most 32 slots,
  whose nodes hold an offset into one array of values. Bit 62 of an offset marks an
  immutable key, a negative offset a free node.

  Sizes are natural numbers once the constructor has computed the capacity; the memory the
  values are allocated in is a parameter, since its contents are indeterminate.
\<close>

section \<open>The store\<close>

record kvnode =
  node_key :: u64
  node_offset :: "64 word"       \<comment> \<open>\<open>int64_t\<close>\<close>

record kvstore =
  kv_nodes :: "kvnode list"
  node_size :: nat
  node_capacity :: nat
  kv_data :: "f32 list"
  data_size :: nat
  data_capacity :: nat
  value_len :: nat

definition kImmutableMask :: "64 word" where "kImmutableMask = 0x4000000000000000"
definition kMaxProbeNum :: nat where "kMaxProbeNum = 32"

text \<open>The outputs of \<open>Get\<close>: \<open>*offset\<close>, \<open>*node_index\<close>, \<open>immutable\<close> and \<open>new_data\<close>.\<close>

record get_out =
  go_offset :: "64 word"
  go_index :: nat
  go_immutable :: bool
  go_new :: bool

fun kv_probe :: "u64 \<Rightarrow> bool \<Rightarrow> nat \<Rightarrow> nat \<Rightarrow> kvstore \<Rightarrow> (get_out \<times> kvstore) res" where
  \<comment> \<open>the loop of \<open>Get\<close>; the node index of a missing key is left unset\<close>
  "kv_probe key immu 0 index s = Inl Fatal"
| "kv_probe key immu (Suc probe_num) index s =
     (if index < node_capacity s then
        bind_res (vec_at (kv_nodes s) (int index)) (\<lambda>n.
        if sint (node_offset n) < 0 then
          if immu then Inr (\<lparr>go_offset = -1, go_index = 0, go_immutable = immu, go_new = False\<rparr>, s)
          else Inr (\<lparr>go_offset = of_nat (data_size s), go_index = index, go_immutable = immu, go_new = True\<rparr>,
             s\<lparr>kv_nodes := (kv_nodes s)[index := \<lparr>node_key = key, node_offset = of_nat (data_size s)\<rparr>],
               data_size := data_size s + value_len s, node_size := node_size s + 1\<rparr>)
        else if node_key n = key then
          if node_offset n AND kImmutableMask \<noteq> 0
          then Inr (\<lparr>go_offset = node_offset n AND NOT kImmutableMask, go_index = index,
                     go_immutable = True, go_new = False\<rparr>, s)
          else Inr (\<lparr>go_offset = node_offset n, go_index = index, go_immutable = immu, go_new = False\<rparr>, s)
        else kv_probe key immu probe_num
               (unat ((of_nat index + 1 :: u64) AND (of_nat (node_capacity s) - 1))) s)
      else Inl Fatal)"

definition kv_Get_node :: "u64 \<Rightarrow> bool \<Rightarrow> kvstore \<Rightarrow> (get_out \<times> kvstore) res" where
  "kv_Get_node key immu s =
     kv_probe key immu kMaxProbeNum (unat (key AND (of_nat (node_capacity s) - 1))) s"

definition kv_Get :: "u64 \<Rightarrow> bool \<Rightarrow> kvstore \<Rightarrow> (nat option \<times> bool \<times> bool \<times> kvstore) res" where
  \<comment> \<open>the address in \<open>data_\<close> or a null pointer, \<open>immutable\<close> and \<open>new_data\<close>\<close>
  "kv_Get key immu s =
     bind_res (kv_Get_node key immu s) (\<lambda>(g, s').
       Inr (if sint (go_offset g) < 0 then None else Some (unat (go_offset g)),
            go_immutable g, go_new g, s'))"

definition kv_find :: "u64 \<Rightarrow> kvstore \<Rightarrow> (nat option \<times> kvstore) res" where
  "kv_find key s = bind_res (kv_Get key True s) (\<lambda>(p, _, _, s'). Inr (p, s'))"

definition kv_Set :: "u64 \<Rightarrow> f32 list \<Rightarrow> bool \<Rightarrow> kvstore \<Rightarrow> kvstore res" where
  "kv_Set key val immu s =
     bind_res (kv_Get_node key False s) (\<lambda>(g, s1).
     bind_res (buf_read val 0 (value_len s1)) (\<lambda>xs.
     bind_res (buf_write (kv_data s1) (unat (go_offset g)) xs) (\<lambda>d.
     bind_res (vec_at (kv_nodes s1) (int (go_index g))) (\<lambda>n.
     let off = (if immu then node_offset n OR kImmutableMask else node_offset n AND NOT kImmutableMask) in
       Inr (s1\<lparr>kv_data := d, kv_nodes := (kv_nodes s1)[go_index g := n\<lparr>node_offset := off\<rparr>]\<rparr>)))))"

definition free_slots :: "nat \<Rightarrow> kvnode list \<Rightarrow> kvnode list res" where
  \<comment> \<open>the loops that set the offsets of the first slots to -1, with an \<open>int\<close> index\<close>
  "free_slots n ns =
     fold_res (int_body (\<lambda>i. i) (\<lambda>ns i. bind_res (vec_at ns (int i)) (\<lambda>n. vec_set ns (int i) (n\<lparr>node_offset := -1\<rparr>))))
       ns [0..<n]"

definition kv_Clear :: "kvstore \<Rightarrow> kvstore res" where
  "kv_Clear s =
     bind_res (free_slots (node_size s) (kv_nodes s)) (\<lambda>ns.
       Inr (s\<lparr>kv_nodes := ns, node_size := 0, data_size := 0\<rparr>))"

definition AddBlackList :: "kvstore \<Rightarrow> kvstore res" where
  "AddBlackList s = kv_Set 0 (replicate (value_len s) 0) True s"

definition raw_nodes :: "nat \<Rightarrow> kvnode list" where
  \<comment> \<open>the allocated nodes; what they hold does not matter once their offsets are set\<close>
  "raw_nodes cap = replicate cap \<lparr>node_key = 0, node_offset = 0\<rparr>"

lemma free_slots_raw:
  assumes "n < 2 ^ 31"
  shows "free_slots n (raw_nodes n) = Inr (replicate n \<lparr>node_key = 0, node_offset = -1\<rparr>)"
proof -
  let ?f = "\<lambda>ns i. bind_res (vec_at ns (int i)) (\<lambda>n. vec_set ns (int i) (n\<lparr>node_offset := -1\<rparr>))"
  let ?raw = "\<lparr>node_key = 0, node_offset = 0\<rparr> :: kvnode" and ?free = "\<lparr>node_key = 0, node_offset = -1\<rparr> :: kvnode"
  have "fold_res ?f (replicate n ?raw) [0..<m] = Inr (replicate m ?free @ replicate (n - m) ?raw)" if "m \<le> n" for m
    using that
  proof (induction m)
    case (Suc m)
    then have "replicate (n - m) ?raw = ?raw # replicate (n - Suc m) ?raw" by (simp flip: replicate_Suc)
    moreover have "replicate m ?free @ ?free # xs = ?free # replicate m ?free @ xs" for xs
      by (metis append_Cons replicate_app_Cons_same)
    ultimately show ?case using Suc by (simp add: fold_res_append nth_append list_update_append)
  qed simp
  from this [of n] show ?thesis using assms by (simp add: free_slots_def raw_nodes_def)
qed

partial_function (option) grow_capacity :: "u64 \<Rightarrow> u64 \<Rightarrow> u64 option" where
  \<comment> \<open>the constructor's loop; \<open>None\<close> is a loop that does not end\<close>
  "grow_capacity cap init = (if cap < init then grow_capacity (cap * 2) init else Some cap)"

declare grow_capacity.simps [code]

definition new_kvstore :: "(nat \<Rightarrow> f32) \<Rightarrow> u64 \<Rightarrow> nat \<Rightarrow> kvstore res option" where
  "new_kvstore mem init vlen =
     (case grow_capacity 1 init of None \<Rightarrow> None
      | Some c \<Rightarrow> let cap = unat c in
          Some (bind_res (free_slots cap (raw_nodes cap)) (\<lambda>ns.
            AddBlackList \<lparr>kv_nodes = ns, node_size = 0,
              node_capacity = cap, kv_data = map mem [0..<cap * vlen], data_size = 0,
              data_capacity = cap * vlen, value_len = vlen\<rparr>)))"

section \<open>Checkpoints\<close>

definition enc_kvnode :: "kvnode \<Rightarrow> byte list" where
  "enc_kvnode n = enc64 (node_key n) @ enc64 (node_offset n)"

definition dec_kvnode :: "byte list \<Rightarrow> kvnode" where
  "dec_kvnode bs = \<lparr>node_key = dec64 (take 8 bs), node_offset = dec64 (drop 8 bs)\<rparr>"

definition read_u64 :: "nat \<Rightarrow> stream \<Rightarrow> nat \<times> stream" where
  \<comment> \<open>reading into a variable of eight bytes, which keeps its bytes at the end of the file\<close>
  "read_u64 old s = (let (bs, s') = read_into (enc64 (of_nat old)) s in (unat (dec64 bs), s'))"

definition kv_Store :: "kvstore \<Rightarrow> stream \<Rightarrow> stream res" where
  "kv_Store s st =
     bind_res (buf_read (kv_nodes s) 0 (node_size s)) (\<lambda>ns.
     bind_res (buf_read (kv_data s) 0 (data_size s)) (\<lambda>xs.
     let st1 = stream_Write (enc64 (of_nat (node_capacity s))) st;
         st2 = stream_Write (enc64 (of_nat (node_size s))) st1;
         st3 = stream_Write (enc_seq enc_kvnode ns) st2;
         st4 = stream_Write (enc64 (of_nat (data_capacity s))) st3;
         st5 = stream_Write (enc64 (of_nat (data_size s))) st4
     in Inr (stream_Write (enc_seq enc32 xs) st5)))"

definition kv_Load :: "(nat \<Rightarrow> f32) \<Rightarrow> kvstore \<Rightarrow> stream \<Rightarrow> kvstore res" where
  "kv_Load mem s st =
     (let (cap, st1) = read_u64 (node_capacity s) st;
          (n, st2) = read_u64 (node_size s) st1
      in bind_res (free_slots cap (raw_nodes cap)) (\<lambda>fresh.
      bind_res (buf_read fresh 0 n) (\<lambda>head.
      let (nbytes, st3) = read_into (enc_seq enc_kvnode head) st2;
          nodes = dec_seq 16 dec_kvnode nbytes @ drop n fresh;
          (dcap, st4) = read_u64 (data_capacity s) st3;
          (dn, st5) = read_u64 (data_size s) st4;
          buf = map mem [0..<dcap]
      in bind_res (buf_read buf 0 dn) (\<lambda>dhead.
      let (dbytes, st6) = read_into (enc_seq enc32 dhead) st5
      in Inr (s\<lparr>kv_nodes := nodes, node_size := n, node_capacity := cap,
           kv_data := dec_seq 4 dec32 dbytes @ drop dn buf, data_size := dn, data_capacity := dcap\<rparr>)))))"

interpretation cnode16: codec enc_kvnode dec_kvnode 16
  by unfold_locales (simp_all add: enc_kvnode_def dec_kvnode_def c64.length_enc c64.dec_enc)

section \<open>Offsets and slots\<close>

definition pack :: "nat \<Rightarrow> bool \<Rightarrow> 64 word" where
  "pack off immu = (of_nat off OR (if immu then kImmutableMask else 0))"

lemma mask_bit: "bit kImmutableMask n \<longleftrightarrow> n = 62"
proof -
  have m: "kImmutableMask = 2 ^ 62" by (simp add: kImmutableMask_def)
  show ?thesis unfolding m bit_exp_iff by auto
qed

lemma low_offset: "off < 2 ^ 62 \<Longrightarrow> take_bit 62 (of_nat off :: 64 word) = of_nat off"
  by (simp only: take_bit_of_nat take_bit_nat_eq_self)

lemma pack_facts:
  assumes "off < 2 ^ 62"
  shows "pack off immu AND NOT kImmutableMask = of_nat off"
    and "pack off immu OR kImmutableMask = pack off True"
    and "pack off immu AND kImmutableMask \<noteq> 0 \<longleftrightarrow> immu"
    and "0 \<le> sint (pack off immu)"
    and "unat (of_nat off :: 64 word) = off"
proof -
  let ?w = "of_nat off :: 64 word"
  have "bit ?w n \<longleftrightarrow> n < 62 \<and> bit ?w n" for n
    using bit_take_bit_iff [of 62 ?w n] low_offset [OF assms] by metis
  then have low: "bit ?w n \<Longrightarrow> n < 62" for n by blast
  have w: "\<not> bit ?w 62" "\<not> bit ?w 63"
    using low [of 62] low [of 63] by linarith+
  show "pack off immu AND NOT kImmutableMask = ?w"
    using w by (intro bit_word_eqI) (auto simp: pack_def mask_bit bit_simps)
  show "pack off immu OR kImmutableMask = pack off True"
    by (intro bit_word_eqI) (auto simp: pack_def bit_simps)
  show "pack off immu AND kImmutableMask \<noteq> 0 \<longleftrightarrow> immu"
  proof (cases immu)
    case True
    have "bit (pack off immu AND kImmutableMask) 62" using True by (simp add: pack_def mask_bit bit_simps)
    then show ?thesis using True by auto
  next
    case False
    have "pack off immu AND kImmutableMask = 0"
      using False w by (intro bit_word_eqI) (auto simp: pack_def mask_bit bit_simps)
    then show ?thesis using False by simp
  qed
  have "\<not> bit (pack off immu) 63" using w by (simp add: pack_def mask_bit bit_simps)
  then show "0 \<le> sint (pack off immu)" using bit_last_iff [of "pack off immu"] by simp
  show "unat ?w = off" using assms by (simp add: unat_of_nat)
qed

definition slot :: "kvstore \<Rightarrow> u64 \<Rightarrow> nat \<Rightarrow> nat" where
  "slot s key j = (unat key + j) mod node_capacity s"

definition cap_ok :: "kvstore \<Rightarrow> bool" where
  "cap_ok s \<longleftrightarrow> (\<exists>k < 64. node_capacity s = 2 ^ k) \<and> length (kv_nodes s) = node_capacity s"

lemma and_capacity:
  assumes "k < 64"
  shows "unat (w AND (of_nat (2 ^ k) - 1) :: u64) = unat w mod 2 ^ k"
proof -
  have "of_nat (2 ^ k) - 1 = (mask k :: u64)" by (simp add: mask_eq_exp_minus_1)
  then have "w AND (of_nat (2 ^ k) - 1) = take_bit k w" by (simp only: take_bit_eq_mask)
  then show ?thesis by (simp only: unsigned_take_bit_eq) (simp add: take_bit_eq_mod)
qed

section \<open>The invariant\<close>

abbreviation used_node :: "kvnode \<Rightarrow> bool" where
  "used_node n \<equiv> 0 \<le> sint (node_offset n)"

definition node_off :: "kvnode \<Rightarrow> nat" where
  "node_off n = unat (node_offset n AND NOT kImmutableMask)"

definition node_immu :: "kvnode \<Rightarrow> bool" where
  "node_immu n \<longleftrightarrow> node_offset n AND kImmutableMask \<noteq> 0"

definition used :: "kvstore \<Rightarrow> nat set" where
  "used s = {i. i < node_capacity s \<and> used_node (kv_nodes s ! i)}"

definition node_wf :: "kvstore \<Rightarrow> nat \<Rightarrow> bool" where
  \<comment> \<open>a used node: its offset is an offset of the data, its key is found by probing\<close>
  "node_wf s i \<longleftrightarrow> (let n = kv_nodes s ! i in
     node_offset n = pack (node_off n) (node_immu n) \<and> node_off n + value_len s \<le> data_size s
     \<and> (\<exists>d < kMaxProbeNum. slot s (node_key n) d = i \<and> (\<forall>e < d. slot s (node_key n) e \<in> used s)))"

definition kv_inv :: "kvstore \<Rightarrow> bool" where
  "kv_inv s \<longleftrightarrow> cap_ok s \<and> node_capacity s * value_len s < 2 ^ 62
     \<and> length (kv_data s) = node_capacity s * value_len s
     \<and> node_size s = card (used s) \<and> data_size s = node_size s * value_len s
     \<and> (\<forall>i \<in> used s. node_wf s i)
     \<and> (\<forall>i \<in> used s. \<forall>j \<in> used s. i \<noteq> j \<longrightarrow>
          node_key (kv_nodes s ! i) \<noteq> node_key (kv_nodes s ! j)
          \<and> (node_off (kv_nodes s ! i) + value_len s \<le> node_off (kv_nodes s ! j)
             \<or> node_off (kv_nodes s ! j) + value_len s \<le> node_off (kv_nodes s ! i)))"

lemma finite_used [simp]: "finite (used s)"
  by (simp add: used_def)

lemma slot_less: "cap_ok s \<Longrightarrow> slot s key j < node_capacity s"
  by (auto simp: slot_def cap_ok_def)

lemma slot_0:
  "cap_ok s \<Longrightarrow> unat (key AND (of_nat (node_capacity s) - 1)) = slot s key 0"
  using and_capacity by (auto simp: slot_def cap_ok_def)

lemma slot_Suc:
  assumes "cap_ok s"
  shows "unat ((of_nat (slot s key j) + 1 :: u64) AND (of_nat (node_capacity s) - 1)) = slot s key (Suc j)"
proof -
  obtain k where k: "k < 64" "node_capacity s = 2 ^ k" using assms by (auto simp: cap_ok_def)
  have dv: "(2::nat) ^ k dvd 2 ^ 64" using k(1) by (intro le_imp_power_dvd) simp
  have "unat (of_nat (Suc (slot s key j)) :: u64) mod 2 ^ k = Suc (slot s key j) mod 2 ^ k"
    unfolding unat_of_nat using dv by (intro mod_mod_cancel) simp
  then show ?thesis
    using and_capacity [OF k(1), of "of_nat (Suc (slot s key j))"] k(2)
    by (simp add: slot_def mod_Suc_eq add.commute)
qed

section \<open>Probing\<close>

definition hits :: "kvstore \<Rightarrow> u64 \<Rightarrow> nat \<Rightarrow> bool" where
  \<comment> \<open>the probe stops at this slot\<close>
  "hits s key i \<longleftrightarrow> \<not> used_node (kv_nodes s ! i) \<or> node_key (kv_nodes s ! i) = key"

lemma kv_probe_step:
  assumes c: "cap_ok s" and "\<not> hits s key (slot s key j)"
  shows "kv_probe key immu (Suc p) (slot s key j) s = kv_probe key immu p (slot s key (Suc j)) s"
  using assms slot_less [OF c, of key j] slot_Suc [OF c, of key j]
  by (auto simp: hits_def cap_ok_def)

lemma kv_probe_hit:
  assumes c: "cap_ok s" and "\<forall>e < d. \<not> hits s key (slot s key (j + e))"
  shows "d \<le> p \<Longrightarrow> kv_probe key immu p (slot s key j) s = kv_probe key immu (p - d) (slot s key (j + d)) s"
  using assms(2)
proof (induction d arbitrary: j p)
  case 0
  then show ?case by simp
next
  case (Suc d)
  then obtain q where q: "p = Suc q" by (cases p) auto
  have "\<not> hits s key (slot s key j)" using Suc.prems(2) [rule_format, of 0] by simp
  moreover have "\<forall>e < d. \<not> hits s key (slot s key (Suc j + e))"
    using Suc.prems(2) by (metis Suc_less_eq add_Suc_shift)
  ultimately show ?case
    using Suc.IH [of q "Suc j"] Suc.prems(1) kv_probe_step [OF c] q by simp
qed

lemma kv_probe_full:
  assumes "cap_ok s" and "\<forall>e < p. \<not> hits s key (slot s key (j + e))"
  shows "kv_probe key immu p (slot s key j) s = Inl Fatal"
  using kv_probe_hit [OF assms, of p immu] by simp

text \<open>What the lookup finds: the first slot of the probe sequence that is free or has the key.\<close>

lemma kv_Get_node_cases:
  assumes c: "cap_ok s"
  obtains (full) "\<forall>e < kMaxProbeNum. slot s key e \<in> used s \<and> node_key (kv_nodes s ! slot s key e) \<noteq> key"
      "kv_Get_node key immu s = Inl Fatal"
  | (hit) d where "d < kMaxProbeNum" "\<forall>e < d. slot s key e \<in> used s \<and> node_key (kv_nodes s ! slot s key e) \<noteq> key"
      "hits s key (slot s key d)"
      "kv_Get_node key immu s = kv_probe key immu (kMaxProbeNum - d) (slot s key d) s"
proof -
  have hits: "\<not> hits s key (slot s key e) \<longleftrightarrow> slot s key e \<in> used s \<and> node_key (kv_nodes s ! slot s key e) \<noteq> key" for e
    using slot_less [OF c, of key e] by (auto simp: hits_def used_def)
  show ?thesis
  proof (cases "\<forall>e < kMaxProbeNum. \<not> hits s key (slot s key e)")
    case True
    then have "kv_Get_node key immu s = Inl Fatal"
      using kv_probe_full [OF c, of kMaxProbeNum key 0] slot_0 [OF c] by (simp add: kv_Get_node_def)
    then show ?thesis using True hits full by blast
  next
    case False
    define d where "d = (LEAST e. hits s key (slot s key e))"
    obtain e where e: "e < kMaxProbeNum" "hits s key (slot s key e)" using False by blast
    have d: "hits s key (slot s key d)" "d \<le> e"
      unfolding d_def by (rule LeastI [of _ e], rule e(2)) (rule Least_le, rule e(2))
    have before: "\<forall>e < d. \<not> hits s key (slot s key e)"
      unfolding d_def using not_less_Least by blast
    then have "kv_Get_node key immu s = kv_probe key immu (kMaxProbeNum - d) (slot s key d) s"
      using kv_probe_hit [OF c, of d key 0 kMaxProbeNum immu] d(2) e(1) slot_0 [OF c]
      by (simp add: kv_Get_node_def)
    then show ?thesis using hit [of d] d e(1) before hits by auto
  qed
qed

section \<open>The map a store represents\<close>

definition value_at :: "kvstore \<Rightarrow> nat \<Rightarrow> f32 list" where
  "value_at s i = take (value_len s) (drop (node_off (kv_nodes s ! i)) (kv_data s))"

definition kv_abs :: "kvstore \<Rightarrow> u64 \<rightharpoonup> f32 list \<times> bool" where
  "kv_abs s key = map_option (\<lambda>i. (value_at s i, node_immu (kv_nodes s ! i)))
     (find (\<lambda>i. used_node (kv_nodes s ! i) \<and> node_key (kv_nodes s ! i) = key) [0..<node_capacity s])"

definition kv_full :: "kvstore \<Rightarrow> u64 \<Rightarrow> bool" where
  \<comment> \<open>all slots that are probed for the key belong to other keys\<close>
  "kv_full s key \<longleftrightarrow> (\<forall>e < kMaxProbeNum. slot s key e \<in> used s \<and> node_key (kv_nodes s ! slot s key e) \<noteq> key)"

lemma inv_cap: "kv_inv s \<Longrightarrow> cap_ok s"
  by (simp add: kv_inv_def)

lemma used_less: "i \<in> used s \<Longrightarrow> i < node_capacity s"
  by (simp add: used_def)

lemma inv_keys:
  "kv_inv s \<Longrightarrow> i \<in> used s \<Longrightarrow> j \<in> used s \<Longrightarrow> node_key (kv_nodes s ! i) = node_key (kv_nodes s ! j) \<Longrightarrow> i = j"
  by (auto simp: kv_inv_def)

lemma kv_abs_used:
  assumes inv: "kv_inv s" and i: "i \<in> used s"
  shows "kv_abs s (node_key (kv_nodes s ! i)) = Some (value_at s i, node_immu (kv_nodes s ! i))"
proof -
  let ?P = "\<lambda>j. used_node (kv_nodes s ! j) \<and> node_key (kv_nodes s ! j) = node_key (kv_nodes s ! i)"
  have one: "j = i" if "j < node_capacity s" "?P j" for j
    using that inv_keys [OF inv _ i, of j] by (simp add: used_def)
  have "find ?P [0..<node_capacity s] = Some i"
    unfolding find_Some_iff using i one
    by (intro exI [of _ i]) (simp add: used_def, metis less_irrefl less_trans)
  then show ?thesis by (simp add: kv_abs_def)
qed

lemma kv_abs_None: "kv_abs s key = None \<longleftrightarrow> (\<forall>i \<in> used s. node_key (kv_nodes s ! i) \<noteq> key)"
  by (auto simp: kv_abs_def used_def find_None_iff)

lemma used_offset:
  assumes inv: "kv_inv s" and i: "i \<in> used s"
  shows "node_off (kv_nodes s ! i) + value_len s \<le> length (kv_data s)" and "node_off (kv_nodes s ! i) < 2 ^ 62"
    and "node_offset (kv_nodes s ! i) = pack (node_off (kv_nodes s ! i)) (node_immu (kv_nodes s ! i))"
proof -
  have wf: "node_wf s i" using inv i by (simp add: kv_inv_def)
  have "card (used s) \<le> node_capacity s"
    using card_mono [of "{..<node_capacity s}" "used s"] by (auto simp: used_def)
  then have "card (used s) * value_len s \<le> node_capacity s * value_len s" by (rule mult_le_mono1)
  then have "data_size s \<le> node_capacity s * value_len s" using inv by (simp add: kv_inv_def)
  moreover have "node_off (kv_nodes s ! i) + value_len s \<le> data_size s"
    using wf by (simp add: node_wf_def Let_def)
  moreover have "length (kv_data s) = node_capacity s * value_len s" using inv by (simp add: kv_inv_def)
  ultimately show le: "node_off (kv_nodes s ! i) + value_len s \<le> length (kv_data s)" by linarith
  then show "node_off (kv_nodes s ! i) < 2 ^ 62" using inv by (simp add: kv_inv_def)
  show "node_offset (kv_nodes s ! i) = pack (node_off (kv_nodes s ! i)) (node_immu (kv_nodes s ! i))"
    using wf by (simp add: node_wf_def Let_def)
qed

lemma kv_Get_found:
  assumes inv: "kv_inv s" and i: "i \<in> used s" and k: "node_key (kv_nodes s ! i) = key"
  shows "kv_Get_node key immu s = Inr (\<lparr>go_offset = of_nat (node_off (kv_nodes s ! i)), go_index = i,
    go_immutable = immu \<or> node_immu (kv_nodes s ! i), go_new = False\<rparr>, s)"
proof -
  note c = inv_cap [OF inv]
  obtain d0 where d0: "d0 < kMaxProbeNum" "slot s key d0 = i" "\<forall>e < d0. slot s key e \<in> used s"
    using inv i k by (auto simp: kv_inv_def node_wf_def Let_def)
  show ?thesis
  proof (rule kv_Get_node_cases [OF c, of key immu])
    assume "\<forall>e < kMaxProbeNum. slot s key e \<in> used s \<and> node_key (kv_nodes s ! slot s key e) \<noteq> key"
    then show ?thesis using d0 k by blast
  next
    fix d
    assume d: "d < kMaxProbeNum" "\<forall>e < d. slot s key e \<in> used s \<and> node_key (kv_nodes s ! slot s key e) \<noteq> key"
      "hits s key (slot s key d)" "kv_Get_node key immu s = kv_probe key immu (kMaxProbeNum - d) (slot s key d) s"
    have "d \<le> d0" using d(2) d0(2) k by (metis not_le)
    then have u: "slot s key d \<in> used s" using d0 i by (cases "d = d0") auto
    then have "slot s key d = i"
      using inv_keys [OF inv u i] d(3) k by (auto simp: hits_def used_def)
    moreover obtain p where "kMaxProbeNum - d = Suc p" using d(1) by (metis Suc_diff_Suc)
    moreover have "i < length (kv_nodes s)" "i < node_capacity s" "used_node (kv_nodes s ! i)"
      using i c by (auto simp: used_def cap_ok_def)
    moreover note pack_facts(1-4) [OF used_offset(2) [OF inv i], of "node_immu (kv_nodes s ! i)"]
    ultimately show ?thesis
      using d(4) k used_offset(3) [OF inv i] by (cases "node_immu (kv_nodes s ! i)") (simp_all add: pack_def)
  qed
qed

definition insert_node :: "kvstore \<Rightarrow> u64 \<Rightarrow> nat \<Rightarrow> kvstore" where
  "insert_node s key i = s\<lparr>kv_nodes := (kv_nodes s)[i := \<lparr>node_key = key, node_offset = of_nat (data_size s)\<rparr>],
     data_size := data_size s + value_len s, node_size := node_size s + 1\<rparr>"

lemma kv_Get_missing:
  assumes inv: "kv_inv s" and k: "kv_abs s key = None" and nf: "\<not> kv_full s key"
  obtains d where "d < kMaxProbeNum" "\<forall>e < d. slot s key e \<in> used s" "slot s key d \<notin> used s"
    "slot s key d < node_capacity s"
    "\<And>immu. kv_Get_node key immu s = (if immu
       then Inr (\<lparr>go_offset = -1, go_index = 0, go_immutable = True, go_new = False\<rparr>, s)
       else Inr (\<lparr>go_offset = of_nat (data_size s), go_index = slot s key d, go_immutable = False, go_new = True\<rparr>,
         insert_node s key (slot s key d)))"
proof -
  note c = inv_cap [OF inv]
  have absent: "\<forall>i \<in> used s. node_key (kv_nodes s ! i) \<noteq> key" using k by (simp add: kv_abs_None)
  define d where "d = (LEAST e. slot s key e \<notin> used s)"
  obtain e where e: "e < kMaxProbeNum" "slot s key e \<notin> used s" using nf absent by (auto simp: kv_full_def)
  have d: "slot s key d \<notin> used s" "d < kMaxProbeNum"
    using LeastI [of "\<lambda>e. slot s key e \<notin> used s", OF e(2)] Least_le [of "\<lambda>e. slot s key e \<notin> used s", OF e(2)] e(1)
    by (auto simp: d_def)
  have before: "\<forall>e < d. slot s key e \<in> used s" unfolding d_def using not_less_Least by blast
  have less: "slot s key d < node_capacity s" by (rule slot_less [OF c])
  have "kv_Get_node key immu s = (if immu
       then Inr (\<lparr>go_offset = -1, go_index = 0, go_immutable = True, go_new = False\<rparr>, s)
       else Inr (\<lparr>go_offset = of_nat (data_size s), go_index = slot s key d, go_immutable = False, go_new = True\<rparr>,
         insert_node s key (slot s key d)))" for immu
  proof (rule kv_Get_node_cases [OF c, of key immu])
    assume "\<forall>e < kMaxProbeNum. slot s key e \<in> used s \<and> node_key (kv_nodes s ! slot s key e) \<noteq> key"
    then show ?thesis using d by blast
  next
    fix d'
    assume d': "d' < kMaxProbeNum" "\<forall>e < d'. slot s key e \<in> used s \<and> node_key (kv_nodes s ! slot s key e) \<noteq> key"
      "hits s key (slot s key d')" "kv_Get_node key immu s = kv_probe key immu (kMaxProbeNum - d') (slot s key d') s"
    have "d' \<le> d" using d'(2) d(1) by (metis not_le)
    moreover have "slot s key d' \<notin> used s"
      using d'(3) absent slot_less [OF c, of key d'] by (auto simp: hits_def used_def)
    ultimately have "d' = d" using before by (metis le_neq_implies_less)
    moreover obtain p where "kMaxProbeNum - d' = Suc p" using d'(1) by (metis Suc_diff_Suc)
    ultimately show ?thesis
      using d'(4) d(1) less c by (simp add: used_def cap_ok_def insert_node_def)
  qed
  then show ?thesis using that d before less by blast
qed

lemma kv_Get_full:
  assumes "kv_inv s" and "kv_full s key"
  shows "kv_Get_node key immu s = Inl Fatal"
proof (rule kv_Get_node_cases [OF inv_cap [OF assms(1)], of key immu])
  fix d
  assume "d < kMaxProbeNum" "hits s key (slot s key d)"
  then show ?thesis using assms(2) by (auto simp: kv_full_def hits_def used_def)
qed

section \<open>Inserting and writing keep the invariant\<close>

lemma slot_cong: "node_capacity s' = node_capacity s \<Longrightarrow> slot s' = slot s"
  by (simp add: slot_def fun_eq_iff)

lemma data_size_less:
  assumes inv: "kv_inv s" and i: "i \<notin> used s" "i < node_capacity s"
  shows "data_size s + value_len s \<le> node_capacity s * value_len s" and "data_size s < 2 ^ 62"
proof -
  have "card (insert i (used s)) \<le> card {..<node_capacity s}"
    using i by (intro card_mono) (auto simp: used_def)
  then have "Suc (card (used s)) * value_len s \<le> node_capacity s * value_len s"
    using i(1) by (intro mult_le_mono1) simp
  then show le: "data_size s + value_len s \<le> node_capacity s * value_len s"
    using inv by (simp add: kv_inv_def)
  then show "data_size s < 2 ^ 62" using inv unfolding kv_inv_def by linarith
qed

lemma new_node_facts:
  assumes "off < 2 ^ 62" and "n = \<lparr>node_key = key, node_offset = of_nat off\<rparr>"
  shows "used_node n" "node_off n = off" "\<not> node_immu n"
  using pack_facts(1-4) [OF assms(1), of False] pack_facts(5) [OF assms(1)] assms(2) by (simp_all add: pack_def node_off_def node_immu_def)

lemma insert_used:
  assumes inv: "kv_inv s" and i: "i \<notin> used s" "i < node_capacity s"
  shows "used (insert_node s key i) = insert i (used s)"
  using new_node_facts(1) [OF data_size_less(2) [OF assms] refl, of key] i inv_cap [OF inv]
  by (auto simp: used_def insert_node_def cap_ok_def nth_list_update)

lemma insert_inv:
  assumes inv: "kv_inv s" and k: "kv_abs s key = None"
    and d: "d < kMaxProbeNum" "\<forall>e < d. slot s key e \<in> used s" "slot s key d \<notin> used s"
    and less: "slot s key d < node_capacity s"
  shows "kv_inv (insert_node s key (slot s key d))"
proof -
  let ?i = "slot s key d" let ?t = "insert_node s key (slot s key d)"
  note new = new_node_facts [OF data_size_less(2) [OF inv d(3) less] refl, of key]
  note u = insert_used [OF inv d(3) less, of key]
  have len: "length (kv_nodes s) = node_capacity s" using inv_cap [OF inv] by (simp add: cap_ok_def)
  have at_i: "kv_nodes ?t ! ?i = \<lparr>node_key = key, node_offset = of_nat (data_size s)\<rparr>"
    using less len by (simp add: insert_node_def)
  have at_j: "kv_nodes ?t ! j = kv_nodes s ! j" if "j \<in> used s" for j
  proof -
    have "j \<noteq> ?i" using that d(3) by auto
    then show ?thesis by (simp add: insert_node_def)
  qed
  have fields: "node_capacity ?t = node_capacity s" "value_len ?t = value_len s" "kv_data ?t = kv_data s"
      "data_size ?t = data_size s + value_len s" "node_size ?t = node_size s + 1"
      "length (kv_nodes ?t) = length (kv_nodes s)"
    by (simp_all add: insert_node_def)
  have sl: "slot ?t = slot s" by (rule slot_cong) (simp add: fields)
  have absent: "\<forall>j \<in> used s. node_key (kv_nodes s ! j) \<noteq> key" using k by (simp add: kv_abs_None)
  have wf: "node_wf s j" if "j \<in> used s" for j using that inv by (simp add: kv_inv_def)
  have wf': "node_wf ?t j" if "j \<in> used ?t" for j
  proof (cases "j = ?i")
    case True
    then show ?thesis
      using d new u by (auto simp: node_wf_def Let_def at_i fields sl pack_def intro!: exI [of _ d])
  next
    case False
    then have j: "j \<in> used s" using that u by simp
    then obtain d' where "d' < kMaxProbeNum" "slot s (node_key (kv_nodes s ! j)) d' = j"
        "\<forall>e < d'. slot s (node_key (kv_nodes s ! j)) e \<in> used s"
      using wf [OF j] by (auto simp: node_wf_def Let_def)
    then show ?thesis
      using wf [OF j] u by (auto simp: node_wf_def Let_def at_j [OF j] fields sl intro!: exI [of _ d'])
  qed
  have before: "node_off (kv_nodes s ! j) + value_len s \<le> data_size s" if "j \<in> used s" for j
    using wf [OF that] by (simp add: node_wf_def Let_def)
  have apart: "node_key (kv_nodes ?t ! j) \<noteq> node_key (kv_nodes ?t ! j')
      \<and> (node_off (kv_nodes ?t ! j) + value_len s \<le> node_off (kv_nodes ?t ! j')
         \<or> node_off (kv_nodes ?t ! j') + value_len s \<le> node_off (kv_nodes ?t ! j))"
    if "j \<in> used ?t" "j' \<in> used ?t" "j \<noteq> j'" for j j'
  proof -
    consider "j = ?i" "j' \<in> used s" | "j' = ?i" "j \<in> used s" | "j \<in> used s" "j' \<in> used s"
      using \<open>j \<in> used ?t\<close> \<open>j' \<in> used ?t\<close> \<open>j \<noteq> j'\<close> u by auto
    then show ?thesis
    proof cases
      case 1
      then show ?thesis using absent before [OF 1(2)] new(2) by (auto simp: at_i at_j [OF 1(2)])
    next
      case 2
      then show ?thesis using absent before [OF 2(2)] new(2) by (auto simp: at_i at_j [OF 2(2)])
    next
      case 3
      then show ?thesis
        using inv \<open>j \<noteq> j'\<close> by (auto simp: at_j [OF 3(1)] at_j [OF 3(2)] kv_inv_def)
    qed
  qed
  have "card (used ?t) = node_size ?t" using u d(3) inv by (simp add: fields kv_inv_def)
  then show ?thesis
    using inv wf' apart len unfolding kv_inv_def cap_ok_def by (simp add: fields)
qed

lemma insert_abs:
  assumes inv: "kv_inv s" and k: "kv_abs s key = None"
    and d: "d < kMaxProbeNum" "\<forall>e < d. slot s key e \<in> used s" "slot s key d \<notin> used s"
    and less: "slot s key d < node_capacity s"
  shows "kv_abs (insert_node s key (slot s key d)) = (kv_abs s)(key \<mapsto>
    (take (value_len s) (drop (data_size s) (kv_data s)), False))"
proof
  fix key'
  let ?i = "slot s key d" let ?t = "insert_node s key (slot s key d)"
  note new = new_node_facts [OF data_size_less(2) [OF inv d(3) less] refl, of key]
  note u = insert_used [OF inv d(3) less, of key]
  note inv' = insert_inv [OF assms]
  have at_i: "kv_nodes ?t ! ?i = \<lparr>node_key = key, node_offset = of_nat (data_size s)\<rparr>"
    using less inv_cap [OF inv] by (simp add: insert_node_def cap_ok_def)
  have at_j: "kv_nodes ?t ! j = kv_nodes s ! j" if "j \<in> used s" for j
  proof -
    have "j \<noteq> ?i" using that d(3) by auto
    then show ?thesis by (simp add: insert_node_def)
  qed
  have fields: "value_len ?t = value_len s" "kv_data ?t = kv_data s" by (simp_all add: insert_node_def)
  have "kv_abs ?t key' = kv_abs s key'" if key': "key' \<noteq> key"
  proof (cases "kv_abs s key'")
    case None
    then have "\<forall>j \<in> used ?t. node_key (kv_nodes ?t ! j) \<noteq> key'"
      using u key' at_i at_j by (auto simp: kv_abs_None)
    then show ?thesis using None by (simp add: kv_abs_None [symmetric])
  next
    case (Some v)
    then obtain j where j: "j \<in> used s" "node_key (kv_nodes s ! j) = key'"
      using kv_abs_None [of s key'] by auto
    have "j \<in> used ?t" using j u by simp
    from kv_abs_used [OF inv' this] kv_abs_used [OF inv j(1)] show ?thesis
      using j by (simp add: at_j value_at_def fields)
  qed
  moreover have "kv_abs ?t key = Some (take (value_len s) (drop (data_size s) (kv_data s)), False)"
    using kv_abs_used [OF inv', of ?i] u new by (simp add: at_i value_at_def fields)
  ultimately show "kv_abs ?t key' = ((kv_abs s)(key \<mapsto> (take (value_len s) (drop (data_size s) (kv_data s)), False))) key'"
    by simp
qed

definition write_node :: "kvstore \<Rightarrow> nat \<Rightarrow> f32 list \<Rightarrow> bool \<Rightarrow> kvstore" where
  "write_node s i xs immu = (let n = kv_nodes s ! i in
     s\<lparr>kv_data := take (node_off n) (kv_data s) @ xs @ drop (node_off n + length xs) (kv_data s),
       kv_nodes := (kv_nodes s)[i := n\<lparr>node_offset := pack (node_off n) immu\<rparr>]\<rparr>)"

lemma write_facts:
  assumes inv: "kv_inv s" and i: "i \<in> used s"
  shows "used (write_node s i xs immu) = used s"
    and "node_key (kv_nodes (write_node s i xs immu) ! j) = node_key (kv_nodes s ! j)"
    and "j \<in> used s \<Longrightarrow> node_off (kv_nodes (write_node s i xs immu) ! j) = node_off (kv_nodes s ! j)"
    and "j \<in> used s \<Longrightarrow> node_immu (kv_nodes (write_node s i xs immu) ! j) = (if j = i then immu else node_immu (kv_nodes s ! j))"
proof -
  have len: "i < length (kv_nodes s)" using i inv_cap [OF inv] by (simp add: used_def cap_ok_def)
  note p = pack_facts [OF used_offset(2) [OF inv i]]
  show "used (write_node s i xs immu) = used s"
    using i p(4) len by (auto simp: used_def write_node_def Let_def nth_list_update)
  show "node_key (kv_nodes (write_node s i xs immu) ! j) = node_key (kv_nodes s ! j)"
    using len by (cases "j = i") (simp_all add: write_node_def Let_def)
  show "node_off (kv_nodes (write_node s i xs immu) ! j) = node_off (kv_nodes s ! j)" if "j \<in> used s"
    using len p(1,5) by (cases "j = i") (simp_all add: write_node_def Let_def node_off_def)
  show "node_immu (kv_nodes (write_node s i xs immu) ! j) = (if j = i then immu else node_immu (kv_nodes s ! j))"
    if "j \<in> used s"
    using len p(3) by (cases "j = i") (simp_all add: write_node_def Let_def node_immu_def)
qed

lemma write_inv:
  assumes inv: "kv_inv s" and i: "i \<in> used s" and xs: "length xs = value_len s"
  shows "kv_inv (write_node s i xs immu)"
proof -
  let ?t = "write_node s i xs immu"
  note f = write_facts [OF inv i, where xs = xs and immu = immu]
  have fields: "node_capacity ?t = node_capacity s" "value_len ?t = value_len s" "data_size ?t = data_size s"
      "node_size ?t = node_size s" "length (kv_nodes ?t) = length (kv_nodes s)"
    by (simp_all add: write_node_def Let_def)
  have len: "length (kv_data ?t) = length (kv_data s)"
    using used_offset(1) [OF inv i] xs by (simp add: write_node_def Let_def)
  have sl: "slot ?t = slot s" by (rule slot_cong) (simp add: fields)
  have off: "node_offset (kv_nodes ?t ! j) = pack (node_off (kv_nodes ?t ! j)) (node_immu (kv_nodes ?t ! j))"
    if j: "j \<in> used s" for j
  proof (cases "j = i")
    case True
    have "i < length (kv_nodes s)" using i inv_cap [OF inv] by (simp add: used_def cap_ok_def)
    then have "node_offset (kv_nodes ?t ! i) = pack (node_off (kv_nodes s ! i)) immu"
      by (simp add: write_node_def Let_def)
    then show ?thesis using True f(3,4) [OF j] by simp
  next
    case False
    then have "node_offset (kv_nodes ?t ! j) = node_offset (kv_nodes s ! j)"
      by (simp add: write_node_def Let_def)
    then show ?thesis using False f(3,4) [OF j] used_offset(3) [OF inv j] by simp
  qed
  have "node_wf ?t j" if j: "j \<in> used s" for j
  proof -
    have "node_wf s j" using inv j by (simp add: kv_inv_def)
    then show ?thesis using off [OF j] by (simp add: node_wf_def Let_def f j sl fields)
  qed
  then show ?thesis
    using inv len unfolding kv_inv_def cap_ok_def by (simp add: f fields)
qed

lemma window_before: "p + n \<le> q \<Longrightarrow> q \<le> length d \<Longrightarrow> take n (drop p (take q d @ r)) = take n (drop p d)"
  by (simp add: drop_take)

lemma write_abs:
  assumes inv: "kv_inv s" and i: "i \<in> used s" and xs: "length xs = value_len s"
  shows "kv_abs (write_node s i xs immu) = (kv_abs s)(node_key (kv_nodes s ! i) \<mapsto> (xs, immu))"
proof
  fix key
  let ?t = "write_node s i xs immu"
  note f = write_facts [OF inv i, where xs = xs and immu = immu] and inv' = write_inv [OF assms, of immu]
  have vl: "value_len ?t = value_len s" by (simp add: write_node_def Let_def)
  have d: "kv_data ?t = take (node_off (kv_nodes s ! i)) (kv_data s) @ xs @ drop (node_off (kv_nodes s ! i) + length xs) (kv_data s)"
    by (simp add: write_node_def Let_def)
  have val: "value_at ?t j = (if j = i then xs else value_at s j)" if j: "j \<in> used s" for j
  proof (cases "j = i")
    case True
    then show ?thesis using used_offset(1) [OF inv i] xs f(3) [OF i] by (simp add: value_at_def d vl)
  next
    case False
    let ?o = "node_off (kv_nodes s ! i)" and ?p = "node_off (kv_nodes s ! j)"
    have "?o + value_len s \<le> ?p \<or> ?p + value_len s \<le> ?o" using inv i j False by (auto simp: kv_inv_def)
    moreover have "drop ?p (kv_data ?t) = drop ?p (kv_data s)" if "?o + value_len s \<le> ?p"
      using that used_offset(1) [OF inv i] xs by (simp add: d)
    moreover have "take (value_len s) (drop ?p (kv_data ?t)) = take (value_len s) (drop ?p (kv_data s))"
      if "?p + value_len s \<le> ?o"
      unfolding d using that used_offset(1) [OF inv i] by (intro window_before) simp_all
    ultimately show ?thesis using False by (auto simp: value_at_def f j vl)
  qed
  show "kv_abs ?t key = ((kv_abs s)(node_key (kv_nodes s ! i) \<mapsto> (xs, immu))) key"
  proof (cases "kv_abs s key")
    case None
    then have "kv_abs ?t key = None" "key \<noteq> node_key (kv_nodes s ! i)"
      using i by (auto simp: kv_abs_None f)
    with None show ?thesis by simp
  next
    case (Some v)
    then obtain j where j: "j \<in> used s" "node_key (kv_nodes s ! j) = key"
      using kv_abs_None [of s key] by auto
    have j': "j \<in> used ?t" using j(1) f(1) by simp
    have eq: "key = node_key (kv_nodes s ! i) \<longleftrightarrow> j = i" using inv_keys [OF inv j(1) i] j(2) by auto
    show ?thesis
      using kv_abs_used [OF inv' j'] kv_abs_used [OF inv j(1)] j eq by (auto simp: f val)
  qed
qed

section \<open>The operations refine the map\<close>

lemma kv_Set_write:
  assumes inv: "kv_inv s" and i: "i \<in> used s" and xs: "length xs = value_len s"
    and g: "kv_Get_node key False s0 = Inr (g, s)" "go_offset g = of_nat (node_off (kv_nodes s ! i))" "go_index g = i"
  shows "kv_Set key xs immu s0 = Inr (write_node s i xs immu)"
proof -
  have len: "i < length (kv_nodes s)" using i inv_cap [OF inv] by (simp add: used_def cap_ok_def)
  note p = pack_facts [OF used_offset(2) [OF inv i]]
  have "buf_write (kv_data s) (node_off (kv_nodes s ! i)) xs = Inr (kv_data (write_node s i xs immu))"
    using used_offset(1) [OF inv i] xs by (simp add: buf_write_def write_node_def Let_def)
  moreover have "(if immu then node_offset (kv_nodes s ! i) OR kImmutableMask
      else node_offset (kv_nodes s ! i) AND NOT kImmutableMask) = pack (node_off (kv_nodes s ! i)) immu"
    using p(1,2) [of "node_immu (kv_nodes s ! i)"] used_offset(3) [OF inv i]
    by (cases immu) (simp_all add: pack_def)
  ultimately show ?thesis
    using g p(5) len xs
    by (simp add: kv_Set_def buf_read_def Let_def) (simp add: write_node_def Let_def)
qed

lemma kv_Set_ok:
  assumes inv: "kv_inv s" and xs: "length xs = value_len s" and room: "\<not> kv_full s key"
  shows "\<exists>s'. kv_Set key xs immu s = Inr s' \<and> kv_inv s' \<and> kv_abs s' = (kv_abs s)(key \<mapsto> (xs, immu))
    \<and> value_len s' = value_len s \<and> node_capacity s' = node_capacity s"
proof (cases "kv_abs s key")
  case (Some v)
  then obtain i where i: "i \<in> used s" "node_key (kv_nodes s ! i) = key"
    using kv_abs_None [of s key] by auto
  have "kv_Set key xs immu s = Inr (write_node s i xs immu)"
    using kv_Set_write [OF inv i(1) xs kv_Get_found [OF inv i, of False]] by simp
  then show ?thesis
    using write_inv [OF inv i(1) xs] write_abs [OF inv i(1) xs, of immu] i(2)
    by (simp add: write_node_def Let_def)
next
  case None
  obtain d where d: "d < kMaxProbeNum" "\<forall>e < d. slot s key e \<in> used s" "slot s key d \<notin> used s"
    "slot s key d < node_capacity s"
    and get: "\<And>immu. kv_Get_node key immu s = (if immu
       then Inr (\<lparr>go_offset = -1, go_index = 0, go_immutable = True, go_new = False\<rparr>, s)
       else Inr (\<lparr>go_offset = of_nat (data_size s), go_index = slot s key d, go_immutable = False, go_new = True\<rparr>,
         insert_node s key (slot s key d)))"
    using kv_Get_missing [OF inv None room] by blast
  let ?t = "insert_node s key (slot s key d)" and ?i = "slot s key d"
  have t: "kv_inv ?t" by (rule insert_inv [OF inv None d])
  have i: "?i \<in> used ?t" using insert_used [OF inv d(3,4)] by simp
  have n: "kv_nodes ?t ! ?i = \<lparr>node_key = key, node_offset = of_nat (data_size s)\<rparr>"
    using d(4) inv_cap [OF inv] by (simp add: insert_node_def cap_ok_def)
  have off: "node_off (kv_nodes ?t ! ?i) = data_size s"
    using new_node_facts(2) [OF data_size_less(2) [OF inv d(3,4)] n] .
  have vl: "value_len ?t = value_len s" "node_capacity ?t = node_capacity s" by (simp_all add: insert_node_def)
  have "kv_Set key xs immu s = Inr (write_node ?t ?i xs immu)"
    using kv_Set_write [OF t i, of xs key s _ immu] xs vl get [of False] off by simp
  moreover have "kv_abs (write_node ?t ?i xs immu) = (kv_abs s)(key \<mapsto> (xs, immu))"
    using write_abs [OF t i, of xs immu] xs vl insert_abs [OF inv None d] n by simp
  ultimately show ?thesis
    using write_inv [OF t i] xs vl by (simp add: write_node_def Let_def)
qed

lemma kv_find_full: "kv_inv s \<Longrightarrow> kv_full s key \<Longrightarrow> kv_find key s = Inl Fatal"
  by (simp add: kv_find_def kv_Get_def kv_Get_full)

definition kv_read :: "kvstore \<Rightarrow> nat option \<Rightarrow> f32 list option" where
  \<comment> \<open>the value at an address, of \<open>value_len\<close> floats\<close>
  "kv_read s p = map_option (\<lambda>off. take (value_len s) (drop off (kv_data s))) p"

lemma kv_find_ok:
  assumes inv: "kv_inv s" and nf: "\<not> kv_full s key"
  shows "\<exists>p. kv_find key s = Inr (p, s) \<and> kv_read s p = map_option fst (kv_abs s key)"
proof (cases "kv_abs s key")
  case None
  have "kv_Get_node key True s = Inr (\<lparr>go_offset = -1, go_index = 0, go_immutable = True, go_new = False\<rparr>, s)"
    by (rule kv_Get_missing [OF inv None nf]) simp
  then show ?thesis using None by (simp add: kv_find_def kv_Get_def kv_read_def)
next
  case (Some v)
  then obtain i where i: "i \<in> used s" "node_key (kv_nodes s ! i) = key"
    using kv_abs_None [of s key] by auto
  have "0 \<le> sint (of_nat (node_off (kv_nodes s ! i)) :: 64 word)"
    using pack_facts(4) [OF used_offset(2) [OF inv i(1)], of False] by (simp add: pack_def)
  then show ?thesis
    using kv_Get_found [OF inv i, of True] kv_abs_used [OF inv i(1)] i(2)
      pack_facts(5) [OF used_offset(2) [OF inv i(1)]]
    by (simp add: kv_find_def kv_Get_def kv_read_def value_at_def)
qed

lemma kv_full_abs: "kv_full s key \<Longrightarrow> kv_inv s \<Longrightarrow> kv_abs s key = None"
proof (rule ccontr)
  assume full: "kv_full s key" and inv: "kv_inv s" and "kv_abs s key \<noteq> None"
  then obtain i where i: "i \<in> used s" "node_key (kv_nodes s ! i) = key"
    using kv_abs_None [of s key] by auto
  then obtain d where "d < kMaxProbeNum" "slot s key d = i"
    using inv by (auto simp: kv_inv_def node_wf_def Let_def)
  then show False using full i(2) by (auto simp: kv_full_def)
qed

text \<open>While a table is no larger than the probe sequence, only a table without a free slot is full.\<close>

lemma kv_full_small:
  assumes inv: "kv_inv s" and small: "node_capacity s \<le> kMaxProbeNum" and full: "kv_full s key"
  shows "node_size s = node_capacity s"
proof -
  have pos: "0 < node_capacity s" using inv by (auto simp: kv_inv_def cap_ok_def)
  have "i \<in> used s" if i: "i < node_capacity s" for i
  proof -
    let ?n = "node_capacity s"
    define e where "e = (i + ?n - unat key mod ?n) mod ?n"
    have "(unat key + e) mod ?n = (unat key mod ?n + (i + ?n - unat key mod ?n)) mod ?n"
      unfolding e_def by (simp add: mod_add_left_eq mod_add_right_eq)
    also have "\<dots> = i"
    proof -
      have "unat key mod ?n + (i + ?n - unat key mod ?n) = i + ?n"
        using mod_less_divisor [OF pos, of "unat key"] by linarith
      then show ?thesis using i by simp
    qed
    finally have "slot s key e = i" by (simp add: slot_def)
    moreover have "e < kMaxProbeNum" using pos small unfolding e_def by (meson le_trans mod_less_divisor not_le)
    ultimately show ?thesis using full by (auto simp: kv_full_def)
  qed
  then have "used s = {..<node_capacity s}" by (auto simp: used_def)
  then show ?thesis using inv by (simp add: kv_inv_def)
qed

text \<open>\<open>Get\<close> with \<open>immutable = false\<close>, and writing at the address it gives.\<close>

lemma kv_Get_address:
  assumes inv: "kv_inv s" and nf: "\<not> kv_full s key"
  shows "\<exists>i immu new s'. kv_Get key False s = Inr (Some (node_off (kv_nodes s' ! i)), immu, new, s') \<and> kv_inv s'
    \<and> i \<in> used s' \<and> node_key (kv_nodes s' ! i) = key \<and> node_immu (kv_nodes s' ! i) = immu
    \<and> new = (kv_abs s key = None) \<and> (if new then \<not> immu \<and> value_at s' i = take (value_len s) (drop (data_size s) (kv_data s)) else s' = s)
    \<and> kv_abs s' = (kv_abs s)(key \<mapsto> (value_at s' i, immu))
    \<and> kv_data s' = kv_data s \<and> value_len s' = value_len s \<and> node_capacity s' = node_capacity s"
proof (cases "kv_abs s key")
  case None
  show ?thesis
  proof (rule kv_Get_missing [OF inv None nf])
    fix d
    assume d: "d < kMaxProbeNum" "\<forall>e < d. slot s key e \<in> used s" "slot s key d \<notin> used s"
      "slot s key d < node_capacity s"
      and get: "\<And>immu. kv_Get_node key immu s = (if immu
       then Inr (\<lparr>go_offset = -1, go_index = 0, go_immutable = True, go_new = False\<rparr>, s)
       else Inr (\<lparr>go_offset = of_nat (data_size s), go_index = slot s key d, go_immutable = False, go_new = True\<rparr>,
         insert_node s key (slot s key d)))"
    let ?t = "insert_node s key (slot s key d)" and ?i = "slot s key d"
    have n: "kv_nodes ?t ! ?i = \<lparr>node_key = key, node_offset = of_nat (data_size s)\<rparr>"
      using d(4) inv_cap [OF inv] by (simp add: insert_node_def cap_ok_def)
    note small = data_size_less(2) [OF inv d(3,4)]
    note f = new_node_facts [OF small n]
    have "0 \<le> sint (of_nat (data_size s) :: 64 word)" using f(1) n by simp
    then have "kv_Get key False s = Inr (Some (node_off (kv_nodes ?t ! ?i)), False, True, ?t)"
      using get [of False] f(2) pack_facts(5) [OF small] by (simp add: kv_Get_def)
    then show ?thesis
      using insert_inv [OF inv None d] insert_used [OF inv d(3,4)] insert_abs [OF inv None d] f n None
      by (intro exI [of _ ?i] exI [of _ False] exI [of _ True] exI [of _ ?t])
        (simp add: value_at_def, simp add: insert_node_def)
  qed
next
  case (Some v)
  then obtain i where i: "i \<in> used s" "node_key (kv_nodes s ! i) = key"
    using kv_abs_None [of s key] by auto
  have "0 \<le> sint (of_nat (node_off (kv_nodes s ! i)) :: 64 word)"
    using pack_facts(4) [OF used_offset(2) [OF inv i(1)], of False] by (simp add: pack_def)
  then have "kv_Get key False s = Inr (Some (node_off (kv_nodes s ! i)), node_immu (kv_nodes s ! i), False, s)"
    using kv_Get_found [OF inv i, of False] pack_facts(5) [OF used_offset(2) [OF inv i(1)]]
    by (simp add: kv_Get_def)
  moreover have "kv_abs s = (kv_abs s)(key \<mapsto> (value_at s i, node_immu (kv_nodes s ! i)))"
    using kv_abs_used [OF inv i(1)] i(2) by auto
  ultimately show ?thesis using inv i Some
    by (intro exI [of _ i] exI [of _ "node_immu (kv_nodes s ! i)"] exI [of _ False] exI [of _ s]) simp
qed

lemma kv_Get_address_full: "kv_inv s \<Longrightarrow> kv_full s key \<Longrightarrow> kv_Get key False s = Inl Fatal"
  by (simp add: kv_Get_def kv_Get_full)

lemma write_in_place:
  assumes inv: "kv_inv s" and i: "i \<in> used s" and xs: "length xs = value_len s"
  shows "bind_res (buf_write (kv_data s) (node_off (kv_nodes s ! i)) xs) (\<lambda>d. Inr (s\<lparr>kv_data := d\<rparr>)) =
    Inr (write_node s i xs (node_immu (kv_nodes s ! i)))"
proof -
  have "(kv_nodes s)[i := (kv_nodes s ! i)\<lparr>node_offset := pack (node_off (kv_nodes s ! i)) (node_immu (kv_nodes s ! i))\<rparr>] = kv_nodes s"
    by (simp flip: used_offset(3) [OF inv i])
  then show ?thesis
    using used_offset(1) [OF inv i] xs by (simp add: buf_write_def write_node_def Let_def)
qed

section \<open>The constructor\<close>

lemma unat_2p: "n < 64 \<Longrightarrow> unat (2 ^ n :: u64) = 2 ^ n"
proof -
  assume "n < 64"
  then have "(2::nat) ^ n < 2 ^ 64" by (intro power_strict_increasing) simp_all
  moreover have "unat (of_nat (2 ^ n) :: u64) = 2 ^ n mod 2 ^ 64" by (simp only: unat_of_nat) simp
  ultimately show ?thesis by simp
qed

lemma grow_capacity_pow:
  assumes "n \<le> 63" and "unat init \<le> 2 ^ 63"
  shows "\<exists>m. grow_capacity (2 ^ n) init = Some (2 ^ m) \<and> m \<le> 63 \<and> unat init \<le> 2 ^ m \<and> (m = n \<or> 2 ^ (m - 1) < unat init)"
  using assms(1)
proof (induction "63 - n" arbitrary: n)
  case 0
  then have n: "n = 63" by simp
  have u: "unat (2 ^ 63 :: u64) = 2 ^ 63" by simp
  then have "\<not> (2 ^ 63 :: u64) < init" using assms(2) by (simp only: word_less_nat_alt u not_less)
  then show ?case unfolding n using assms(2)
    by (subst grow_capacity.simps) (intro exI [of _ 63], simp)
next
  case (Suc k)
  then have n: "n < 63" by simp
  have u: "unat (2 ^ n :: u64) = 2 ^ n" using n by (simp add: unat_2p)
  show ?case
  proof (cases "(2 ^ n :: u64) < init")
    case True
    have "grow_capacity (2 ^ n) init = grow_capacity (2 ^ Suc n) init"
      using True by (subst grow_capacity.simps) (simp add: mult.commute)
    moreover obtain m where "grow_capacity (2 ^ Suc n) init = Some (2 ^ m)" "m \<le> 63" "unat init \<le> 2 ^ m"
        "m = Suc n \<or> 2 ^ (m - 1) < unat init"
    proof -
      have "k = 63 - Suc n" "Suc n \<le> 63" using Suc.hyps(2) n by simp_all
      then show ?thesis using Suc.hyps(1) that by blast
    qed
    moreover have "2 ^ n < unat init" using True u by (simp add: word_less_nat_alt)
    ultimately show ?thesis by auto
  next
    case False
    then have "unat init \<le> 2 ^ n" using u by (simp add: word_less_nat_alt)
    moreover have "grow_capacity (2 ^ n) init = Some (2 ^ n)"
      using False by (subst grow_capacity.simps) simp
    ultimately show ?thesis using n by auto
  qed
qed

lemma grow_capacity_result:
  "grow_capacity c i = Some r \<Longrightarrow> (c = 0 \<or> (\<exists>n < 64. c = 2 ^ n)) \<longrightarrow> \<not> 2 ^ 63 < unat i"
proof (induction rule: grow_capacity.raw_induct [rotated, consumes 1, case_names step])
  case (step grow c i r)
  show ?case
  proof (intro impI notI)
    assume c: "c = 0 \<or> (\<exists>n < 64. c = 2 ^ n)" and big: "2 ^ 63 < unat i"
    have less: "c < i"
    proof (cases "c = 0")
      case True
      have "unat i \<noteq> 0" using big by (metis not_less_zero)
      then show ?thesis using True by (simp add: word_less_nat_alt)
    next
      case False
      then obtain n where n: "n < 64" "c = 2 ^ n" using c by auto
      then have "unat c = 2 ^ n" by (simp add: unat_2p)
      also have "(2::nat) ^ n \<le> 2 ^ 63" using n(1) by (intro power_increasing) auto
      finally show ?thesis using big by (simp only: word_less_nat_alt)
    qed
    have dbl: "c * 2 = 0 \<or> (\<exists>n < 64. c * 2 = 2 ^ n)"
    proof (cases "c = 0")
      case False
      then obtain n where n: "n < 64" "c = 2 ^ n" using c by auto
      show ?thesis
      proof (cases "n = 63")
        case True
        then show ?thesis using n(2) by simp
      next
        case False
        then show ?thesis using n by (intro disjI2 exI [of _ "Suc n"]) (simp add: mult.commute)
      qed
    qed simp
    have "grow (c * 2) i = Some r" using step(2) less by simp
    from step(1) [OF this] dbl big show False by blast
  qed
qed

lemma grow_capacity_diverges:
  assumes "2 ^ 63 < unat init"
  shows "grow_capacity 1 init = None"
proof (cases "grow_capacity 1 init")
  case (Some r)
  have "\<exists>n < 64. (1 :: u64) = 2 ^ n" by (rule exI [of _ 0]) simp
  then show ?thesis using grow_capacity_result [OF Some] assms by blast
qed

definition empty_store :: "(nat \<Rightarrow> f32) \<Rightarrow> nat \<Rightarrow> nat \<Rightarrow> kvstore" where
  "empty_store mem cap vlen = \<lparr>kv_nodes = replicate cap \<lparr>node_key = 0, node_offset = -1\<rparr>, node_size = 0,
     node_capacity = cap, kv_data = map mem [0..<cap * vlen], data_size = 0,
     data_capacity = cap * vlen, value_len = vlen\<rparr>"

lemma empty_store_inv:
  assumes "m < 64" and "2 ^ m * vlen < 2 ^ 62"
  shows "kv_inv (empty_store mem (2 ^ m) vlen)" and "kv_abs (empty_store mem (2 ^ m) vlen) = Map.empty"
    and "\<not> kv_full (empty_store mem (2 ^ m) vlen) key"
proof -
  have u: "used (empty_store mem (2 ^ m) vlen) = {}" by (auto simp: used_def empty_store_def)
  then show "kv_inv (empty_store mem (2 ^ m) vlen)"
    using assms by (auto simp: kv_inv_def cap_ok_def) (auto simp: empty_store_def)
  show "kv_abs (empty_store mem (2 ^ m) vlen) = Map.empty"
    using kv_abs_None u by (intro ext) simp
  show "\<not> kv_full (empty_store mem (2 ^ m) vlen) key"
    unfolding kv_full_def u by (auto simp: kMaxProbeNum_def intro: exI [of _ 0])
qed

lemma new_kvstore_ok:
  assumes "unat init \<le> 2 ^ 30" and "m = (LEAST m. unat init \<le> 2 ^ m)" and "2 ^ m * vlen < 2 ^ 62"
  shows "\<exists>s. new_kvstore mem init vlen = Some (Inr s) \<and> kv_inv s
    \<and> kv_abs s = [0 \<mapsto> (replicate vlen 0, True)] \<and> node_capacity s = 2 ^ m \<and> value_len s = vlen"
proof -
  obtain k where k: "grow_capacity 1 init = Some (2 ^ k)" "k \<le> 63" "unat init \<le> 2 ^ k" "k = 0 \<or> 2 ^ (k - 1) < unat init"
    using grow_capacity_pow [of 0 init] assms(1) by auto
  have k31: "(2 :: nat) ^ k < 2 ^ 31"
  proof (cases "k = 0")
    case False
    then have "(2 :: nat) ^ (k - 1) < 2 ^ 30" using k(4) assms(1) by simp
    then have "k - 1 < 30" by (simp only: power_strict_increasing_iff [of "2 :: nat"] one_less_numeral_iff semiring_norm)
    then show ?thesis by (intro power_strict_increasing) simp_all
  qed simp
  have "k = m" unfolding assms(2)
  proof (rule Least_equality [symmetric])
    show "unat init \<le> 2 ^ k" by (rule k(3))
    fix y assume y: "unat init \<le> 2 ^ y"
    show "k \<le> y"
    proof (rule ccontr)
      assume "\<not> k \<le> y"
      then have "y \<le> k - 1" "k \<noteq> 0" by auto
      then have "(2::nat) ^ y \<le> 2 ^ (k - 1)" "2 ^ (k - 1) < unat init"
        using k(4) by (simp_all add: power_increasing)
      then show False using y by linarith
    qed
  qed
  have u: "unat (2 ^ k :: u64) = 2 ^ k" using k(2) by (simp add: unat_2p)
  let ?e = "empty_store mem (2 ^ k) vlen"
  have e: "kv_inv ?e" "kv_abs ?e = Map.empty" "\<not> kv_full ?e 0"
    using empty_store_inv [of k vlen mem] k(2) assms(3) \<open>k = m\<close> by simp_all
  have vl: "value_len ?e = vlen" "node_capacity ?e = 2 ^ k" by (simp_all add: empty_store_def)
  have "new_kvstore mem init vlen = Some (AddBlackList ?e)"
    using k(1) u free_slots_raw [OF k31] by (simp add: new_kvstore_def Let_def empty_store_def)
  moreover obtain s where "AddBlackList ?e = Inr s" "kv_inv s" "kv_abs s = (kv_abs ?e)(0 \<mapsto> (replicate vlen 0, True))"
      "value_len s = vlen" "node_capacity s = 2 ^ k"
    using kv_Set_ok [OF e(1) _ e(3), of "replicate vlen 0" True] vl by (auto simp: AddBlackList_def)
  ultimately show ?thesis using e(2) \<open>k = m\<close> by simp
qed

section \<open>The interface of a store\<close>

text \<open>
  What the key-value tables rely on: a map from keys to values, where a key may be refused
  when the table has no room for it, and nothing else can go wrong.
\<close>

definition puts :: "bool \<Rightarrow> (u64 \<times> f32 list) list \<Rightarrow> (u64 \<rightharpoonup> f32 list \<times> bool) \<Rightarrow> (u64 \<rightharpoonup> f32 list \<times> bool)" where
  "puts im kvs m = fold (\<lambda>(k, xs) m. m(k \<mapsto> (xs, im))) kvs m"

locale kv_map =
  fixes inv :: "'s \<Rightarrow> bool" and look :: "'s \<Rightarrow> u64 \<rightharpoonup> f32 list \<times> bool" and vlen :: "'s \<Rightarrow> nat"
    and full :: "'s \<Rightarrow> u64 \<Rightarrow> bool"
    and put :: "u64 \<Rightarrow> f32 list \<Rightarrow> bool \<Rightarrow> 's \<Rightarrow> 's res" and get :: "u64 \<Rightarrow> 's \<Rightarrow> (f32 list option \<times> 's) res"
  assumes put_ok: "inv s \<Longrightarrow> length xs = vlen s \<Longrightarrow> \<not> full s k \<Longrightarrow>
      \<exists>s'. put k xs im s = Inr s' \<and> inv s' \<and> look s' = (look s)(k \<mapsto> (xs, im)) \<and> vlen s' = vlen s"
    and put_full: "inv s \<Longrightarrow> full s k \<Longrightarrow> put k xs im s = Inl Fatal"
    and get_ok: "inv s \<Longrightarrow> \<not> full s k \<Longrightarrow> get k s = Inr (map_option fst (look s k), s)"
    and full_missing: "inv s \<Longrightarrow> full s k \<Longrightarrow> look s k = None"
begin

lemma put_all:
  assumes "inv s" and "\<forall>(k, xs) \<in> set kvs. length xs = vlen s"
  shows "fold_res (\<lambda>s (k, xs). put k xs im s) s kvs = Inl Fatal
      \<and> (\<exists>us k xs vs s1. kvs = us @ (k, xs) # vs \<and> fold_res (\<lambda>s (k, xs). put k xs im s) s us = Inr s1
           \<and> inv s1 \<and> full s1 k)
    \<or> (\<exists>s'. fold_res (\<lambda>s (k, xs). put k xs im s) s kvs = Inr s' \<and> inv s' \<and> vlen s' = vlen s
         \<and> look s' = puts im kvs (look s))"
  using assms
proof (induction kvs arbitrary: s)
  case Nil
  then show ?case by (simp add: puts_def)
next
  case (Cons kv kvs)
  obtain k xs where kv: "kv = (k, xs)" by (cases kv)
  show ?case
  proof (cases "full s k")
    case True
    then have "kv # kvs = [] @ (k, xs) # kvs \<and> fold_res (\<lambda>s (k, xs). put k xs im s) s [] = Inr s \<and> inv s \<and> full s k"
      using Cons.prems(1) kv by simp
    then show ?thesis using put_full [OF Cons.prems(1) True] kv by (intro disjI1 conjI) (simp, blast)
  next
    case False
    then obtain s1 where s1: "put k xs im s = Inr s1" "inv s1" "look s1 = (look s)(k \<mapsto> (xs, im))" "vlen s1 = vlen s"
      using put_ok [OF Cons.prems(1) _ False, of xs im] Cons.prems(2) kv by auto
    have "\<forall>(k, xs) \<in> set kvs. length xs = vlen s1" using Cons.prems(2) s1(4) by auto
    note ih = Cons.IH [OF s1(2) this]
    have step: "fold_res (\<lambda>s (k, xs). put k xs im s) s (kv # us) = fold_res (\<lambda>s (k, xs). put k xs im s) s1 us" for us
      using s1(1) kv by simp
    have eq: "puts im (kv # kvs) (look s) = puts im kvs (look s1)" using kv s1(3) by (simp add: puts_def)
    from ih show ?thesis
    proof (elim disjE conjE exE)
      fix us k' xs' vs s2
      assume "fold_res (\<lambda>s (k, xs). put k xs im s) s1 kvs = Inl Fatal" and
        "kvs = us @ (k', xs') # vs" "fold_res (\<lambda>s (k, xs). put k xs im s) s1 us = Inr s2" "inv s2" "full s2 k'"
      moreover from this have "kv # kvs = (kv # us) @ (k', xs') # vs" by simp
      ultimately show ?thesis using step by (intro disjI1) metis
    next
      fix s'
      assume "fold_res (\<lambda>s (k, xs). put k xs im s) s1 kvs = Inr s'" "inv s'" "vlen s' = vlen s1"
        "look s' = puts im kvs (look s1)"
      then show ?thesis unfolding eq step using s1(4) by simp
    qed
  qed
qed

lemma get_present: "inv s \<Longrightarrow> look s k = Some (xs, im) \<Longrightarrow> get k s = Inr (Some xs, s)"
  using full_missing [of s k] get_ok [of s k] by (cases "full s k") auto

end

definition kv_value :: "u64 \<Rightarrow> kvstore \<Rightarrow> (f32 list option \<times> kvstore) res" where
  "kv_value key s = bind_res (kv_find key s) (\<lambda>(p, s'). Inr (kv_read s' p, s'))"

lemma kv_Set_full: "kv_inv s \<Longrightarrow> kv_full s key \<Longrightarrow> kv_Set key xs immu s = Inl Fatal"
  by (simp add: kv_Set_def kv_Get_full)

lemma kv_value_ok: "kv_inv s \<Longrightarrow> \<not> kv_full s k \<Longrightarrow> kv_value k s = Inr (map_option fst (kv_abs s k), s)"
  using kv_find_ok [of s k] by (auto simp: kv_value_def)

interpretation store: kv_map kv_inv kv_abs value_len kv_full kv_Set kv_value
proof
  fix s k im and xs :: "f32 list"
  assume "kv_inv s" "length xs = value_len s" "\<not> kv_full s k"
  from kv_Set_ok [OF this, of im]
  show "\<exists>s'. kv_Set k xs im s = Inr s' \<and> kv_inv s' \<and> kv_abs s' = (kv_abs s)(k \<mapsto> (xs, im)) \<and> value_len s' = value_len s"
    by blast
qed (simp_all add: kv_Set_full kv_value_ok kv_full_abs)

section \<open>Properties\<close>

text \<open>C30. \<open>Set\<close> is an update of the map the store represents: as long as one of the 32 probed slots
  is free or has the key, it writes the value and the mark of that key, changes no other
  key, and keeps the invariant of the table; otherwise the process ends.\<close>

theorem kv_Set_refines:
  assumes "kv_inv s" and "length xs = value_len s"
  shows "if kv_full s key then kv_Set key xs immu s = Inl Fatal
    else (\<exists>s'. kv_Set key xs immu s = Inr s' \<and> kv_inv s' \<and> kv_abs s' = (kv_abs s)(key \<mapsto> (xs, immu)))"
proof (cases "kv_full s key")
  case False
  from kv_Set_ok [OF assms False, of immu] False show ?thesis by auto
qed (simp add: kv_Set_full [OF assms(1)])

text \<open>C31. A lookup returns an address that holds what the map has for the key, or the null pointer when
  the key is missing, and leaves the whole store as it was; but a missing key whose 32 probed
  slots are taken ends the process, where the header promises a null pointer.\<close>

theorem kv_lookup_refines:
  assumes "kv_inv s"
  shows "if kv_full s key then kv_find key s = Inl Fatal \<and> kv_abs s key = None
    else (\<exists>p. kv_find key s = Inr (p, s) \<and> kv_read s p = map_option fst (kv_abs s key))"
  using kv_find_ok [OF assms] kv_find_full [OF assms] kv_full_abs [OF _ assms] by simp

text \<open>Up to 32 slots a table is only full when every slot is taken.\<close>

theorem kv_small_table_fills:
  assumes "kv_inv s" and "node_capacity s \<le> kMaxProbeNum" and "node_size s < node_capacity s"
    and "length xs = value_len s"
  shows "\<exists>s'. kv_Set key xs immu s = Inr s' \<and> kv_inv s' \<and> kv_abs s' = (kv_abs s)(key \<mapsto> (xs, immu))"
proof -
  have "\<not> kv_full s key" using kv_full_small [OF assms(1,2), of key] assms(3) by auto
  from kv_Set_ok [OF assms(1,4) this, of immu] show ?thesis by blast
qed

text \<open>For a requested capacity of at most \<open>2 ^ 30\<close> the constructor's loop ends with the least power of two that is no smaller than the
  requested capacity, and the new store has one key, the black-listed 0, with zeros that
  cannot be updated.\<close>

theorem new_kvstore_terminates:
  assumes "unat init \<le> 2 ^ 30" and "m = (LEAST m. unat init \<le> 2 ^ m)" and "2 ^ m * vlen < 2 ^ 62"
  shows "\<exists>s. new_kvstore mem init vlen = Some (Inr s) \<and> kv_inv s
    \<and> kv_abs s = [0 \<mapsto> (replicate vlen 0, True)] \<and> node_capacity s = 2 ^ m \<and> value_len s = vlen"
  by (rule new_kvstore_ok [OF assms])

text \<open>For a requested capacity above \<open>2 ^ 63\<close> the constructor's loop never ends: the capacity
  wraps to 0 and stays there.\<close>

theorem new_kvstore_diverges:
  assumes "2 ^ 63 < unat init"
  shows "new_kvstore mem init vlen = None"
  using grow_capacity_diverges [OF assms] by (simp add: new_kvstore_def)

text \<open>A store of capacity four with one float a key, and what one does with it.\<close>

definition with_store :: "(kvstore \<Rightarrow> 'a res) \<Rightarrow> 'a res" where
  "with_store f = (case new_kvstore (\<lambda>_. 0) 4 1 of None \<Rightarrow> Inl Fatal | Some r \<Rightarrow> bind_res r f)"

text \<open>\<open>Clear\<close> does not clear: it frees the first \<open>node_size\<close> slots of the array, not the used
  ones. A key in a later slot survives with its old offset, while the offsets start again
  from 0, so that two keys end up with the same memory: after \<open>Set(2, 7)\<close>, \<open>Clear\<close>,
  \<open>Set(1, 8)\<close> and \<open>Set(3, 9)\<close> the store still has key 2, with the value 9.\<close>

theorem clear_leaves_and_aliases:
  "with_store (\<lambda>s. bind_res (kv_Set 2 [7] False s) (\<lambda>s. bind_res (kv_Clear s) (\<lambda>s.
     bind_res (kv_value 2 s) (\<lambda>(v, s). bind_res (kv_Set 1 [8] False s) (\<lambda>s. bind_res (kv_Set 3 [9] False s) (\<lambda>s.
     bind_res (kv_value 2 s) (\<lambda>(v', s). Inr (v, v')))))))) = Inr (Some [7], Some [9])"
  by code_simp

lemma read_u64_exact:
  assumes "remaining st = enc64 (of_nat x) @ ys" and "x < 2 ^ 64"
  obtains st' where "read_u64 old st = (x, st')" "remaining st' = ys"
proof -
  obtain st' where "read_into (enc64 (of_nat old)) st = (enc64 (of_nat x), st')" "remaining st' = ys"
    using read_into_exact [OF assms(1), of "enc64 (of_nat old)"] c64.length_enc by auto
  moreover have "unat (of_nat x :: u64) = x" using assms(2) by (simp add: unat_of_nat)
  ultimately show ?thesis using that by (simp add: read_u64_def c64.dec_enc)
qed

definition free_node :: kvnode where "free_node = \<lparr>node_key = 0, node_offset = -1\<rparr>"

lemma kv_Store_bytes:
  assumes "node_size s \<le> length (kv_nodes s)" and "data_size s \<le> length (kv_data s)"
  shows "\<exists>f. kv_Store s \<lparr>content = [], pos = 0\<rparr> = Inr f \<and> content f =
    enc64 (of_nat (node_capacity s)) @ enc64 (of_nat (node_size s))
    @ enc_seq enc_kvnode (take (node_size s) (kv_nodes s))
    @ enc64 (of_nat (data_capacity s)) @ enc64 (of_nat (data_size s))
    @ enc_seq enc32 (take (data_size s) (kv_data s))"
  using assms by (simp add: kv_Store_def buf_read_def Let_def)

lemma kv_Load_bytes:
  assumes bytes: "remaining st = enc64 (of_nat cap) @ enc64 (of_nat n) @ enc_seq enc_kvnode ns
      @ enc64 (of_nat dcap) @ enc64 (of_nat dn) @ enc_seq enc32 xs"
    and small: "cap < 2 ^ 31" "dcap < 2 ^ 64" and len: "length ns = n" "n \<le> cap" "length xs = dn" "dn \<le> dcap"
  shows "kv_Load mem t st = Inr (t\<lparr>kv_nodes := ns @ replicate (cap - n) free_node, node_size := n,
    node_capacity := cap, kv_data := xs @ drop dn (map mem [0..<dcap]), data_size := dn, data_capacity := dcap\<rparr>)"
proof -
  obtain st1 where r1: "read_u64 (node_capacity t) st = (cap, st1)"
      "remaining st1 = enc64 (of_nat n) @ enc_seq enc_kvnode ns @ enc64 (of_nat dcap) @ enc64 (of_nat dn) @ enc_seq enc32 xs"
    using read_u64_exact [OF bytes] small(1) by auto
  obtain st2 where r2: "read_u64 (node_size t) st1 = (n, st2)"
      "remaining st2 = enc_seq enc_kvnode ns @ enc64 (of_nat dcap) @ enc64 (of_nat dn) @ enc_seq enc32 xs"
    using read_u64_exact [OF r1(2)] small(1) len(2) by auto
  have "length (enc_seq enc_kvnode (replicate n free_node)) = length (enc_seq enc_kvnode ns)"
    using len(1) by (simp only: cnode16.length_enc_seq length_replicate)
  then obtain st3 where r3: "read_into (enc_seq enc_kvnode (replicate n free_node)) st2 = (enc_seq enc_kvnode ns, st3)"
      "remaining st3 = enc64 (of_nat dcap) @ enc64 (of_nat dn) @ enc_seq enc32 xs"
    using read_into_exact [OF r2(2)] by blast
  obtain st4 where r4: "read_u64 (data_capacity t) st3 = (dcap, st4)"
      "remaining st4 = enc64 (of_nat dn) @ enc_seq enc32 xs"
    using read_u64_exact [OF r3(2) small(2)] .
  obtain st5 where r5: "read_u64 (data_size t) st4 = (dn, st5)" "remaining st5 = enc_seq enc32 xs @ []"
    using read_u64_exact [OF r4(2)] small(2) len(4) by auto
  let ?d = "take dn (map mem [0..<dcap])"
  have "length (enc_seq enc32 ?d) = length (enc_seq enc32 xs)"
    using len(3,4) by (simp only: c32.length_enc_seq length_take length_map length_upt)
  then obtain st6 where r6: "read_into (enc_seq enc32 ?d) st5 = (enc_seq enc32 xs, st6)"
    using read_into_exact [OF r5(2)] by blast
  have fresh: "buf_read (replicate cap free_node) 0 n = Inr (replicate n free_node)"
    using len(2) by (simp add: buf_read_def)
  have head: "buf_read (map mem [0..<dcap]) 0 dn = Inr ?d"
    using len(4) by (simp add: buf_read_def)
  show ?thesis
    unfolding kv_Load_def
    by (simp only: free_slots_raw [OF small(1), folded free_node_def] r1(1) r2(1) prod.case Let_def fresh bind_res_simps r3(1) r4(1) r5(1) head r6
        cnode16.dec_seq_enc_seq c32.dec_seq_enc_seq drop_replicate)
qed

text \<open>What a checkpoint keeps: \<open>Store\<close> writes the first \<open>node_size\<close> slots of the array, not the
  used ones, so after \<open>Store\<close> and \<open>Load\<close> a key of the store is there with its value and mark
  exactly when its slot is below the number of keys, and is lost otherwise.\<close>

theorem checkpoint_keeps_prefix:
  assumes inv: "kv_inv s" and cap: "data_capacity s = node_capacity s * value_len s"
    and t: "value_len t = value_len s" and i: "i \<in> used s" and small: "node_capacity s < 2 ^ 31"
  shows "\<exists>f s'. kv_Store s \<lparr>content = [], pos = 0\<rparr> = Inr f
    \<and> kv_Load mem t \<lparr>content = content f, pos = 0\<rparr> = Inr s'
    \<and> kv_abs s' (node_key (kv_nodes s ! i)) =
        (if i < node_size s then kv_abs s (node_key (kv_nodes s ! i)) else None)"
proof -
  let ?n = "node_size s" and ?c = "node_capacity s" and ?ds = "data_size s" and ?k = "node_key (kv_nodes s ! i)"
  have len: "length (kv_nodes s) = ?c" using inv_cap [OF inv] by (simp add: cap_ok_def)
  have n: "?n \<le> ?c" using inv card_mono [of "{..<?c}" "used s"] by (auto simp: kv_inv_def used_def)
  have dc: "?c * value_len s < 2 ^ 62" "length (kv_data s) = ?c * value_len s" "?ds = ?n * value_len s"
    using inv by (simp_all add: kv_inv_def)
  have ds: "?ds \<le> length (kv_data s)" using dc n by simp
  obtain f where f: "kv_Store s \<lparr>content = [], pos = 0\<rparr> = Inr f" "content f =
    enc64 (of_nat ?c) @ enc64 (of_nat ?n) @ enc_seq enc_kvnode (take ?n (kv_nodes s))
    @ enc64 (of_nat (data_capacity s)) @ enc64 (of_nat ?ds) @ enc_seq enc32 (take ?ds (kv_data s))"
    using kv_Store_bytes [of s] n len ds by auto
  define s' where "s' = t\<lparr>kv_nodes := take ?n (kv_nodes s) @ replicate (?c - ?n) free_node, node_size := ?n,
    node_capacity := ?c, kv_data := take ?ds (kv_data s) @ drop ?ds (map mem [0..<data_capacity s]),
    data_size := ?ds, data_capacity := data_capacity s\<rparr>"
  have "data_capacity s < 2 ^ 64" using dc(1) cap by simp
  then have load: "kv_Load mem t \<lparr>content = content f, pos = 0\<rparr> = Inr s'"
    unfolding s'_def using kv_Load_bytes [of "\<lparr>content = content f, pos = 0\<rparr>" ?c ?n "take ?n (kv_nodes s)"
        "data_capacity s" ?ds "take ?ds (kv_data s)" mem t] small n len ds dc cap
    by (simp add: f(2) remaining_def)
  have node: "kv_nodes s' ! j = (if j < ?n then kv_nodes s ! j else free_node)" if "j < ?c" for j
    using that n len by (simp add: s'_def nth_append)
  have kd: "kv_data s' = take ?ds (kv_data s) @ drop ?ds (map mem [0..<data_capacity s])"
    and vl: "value_len s' = value_len s" using t by (simp_all add: s'_def)
  have free: "\<not> used_node free_node" by (simp add: free_node_def)
  let ?P = "\<lambda>j. used_node (kv_nodes s' ! j) \<and> node_key (kv_nodes s' ! j) = ?k"
  have P: "?P j \<longleftrightarrow> j = i \<and> i < ?n" if "j < ?c" for j
    using inv_keys [OF inv _ i, of j] that i free by (auto simp: node used_def)
  have abs': "kv_abs s' ?k = map_option (\<lambda>i. (value_at s' i, node_immu (kv_nodes s' ! i))) (find ?P [0..<?c])"
    by (simp add: kv_abs_def s'_def)
  have "kv_abs s' ?k = (if i < ?n then kv_abs s ?k else None)"
  proof (cases "i < ?n")
    case True
    have ic: "i < ?c" using i by (simp add: used_def)
    have "find ?P [0..<?c] = Some i"
      unfolding find_Some_iff using P ic True by (intro exI [of _ i]) auto
    moreover have "value_at s' i = value_at s i"
    proof -
      have "node_wf s i" using inv i by (simp add: kv_inv_def)
      then have "node_off (kv_nodes s ! i) + value_len s \<le> ?ds" by (simp add: node_wf_def Let_def)
      moreover have "?ds \<le> length (kv_data s)" by (rule ds)
      ultimately show ?thesis
        using True unfolding value_at_def node [OF ic] kd vl by (simp only: if_True) (rule window_before)
    qed
    ultimately show ?thesis
      unfolding abs' kv_abs_used [OF inv i] using True node [OF ic] by simp
  next
    case False
    have "find ?P [0..<?c] = None" unfolding find_None_iff using P False by auto
    then show ?thesis unfolding abs' using False by simp
  qed
  then show ?thesis using f(1) load by blast
qed

section \<open>The properties on small stores\<close>

definition demo_store :: kvstore where "demo_store = empty_store (\<lambda>_. 0) (2 ^ 2) 1"

lemma demo_store_facts:
  "kv_inv demo_store" "kv_abs demo_store = Map.empty" "\<not> kv_full demo_store key" "value_len demo_store = 1"
  "node_capacity demo_store = 4" "node_size demo_store = 0"
proof -
  have s: "(2::nat) < 64" "(2::nat) ^ 2 * 1 < 2 ^ 62" by simp_all
  show "kv_inv demo_store" "kv_abs demo_store = Map.empty" "\<not> kv_full demo_store key"
    unfolding demo_store_def by (rule empty_store_inv [OF s])+
  show "value_len demo_store = 1" "node_capacity demo_store = 4" "node_size demo_store = 0"
    by (simp_all add: demo_store_def empty_store_def)
qed

lemma kv_Set_refines_witness:
  "\<exists>s'. kv_Set 2 [7] False demo_store = Inr s' \<and> kv_inv s' \<and> kv_abs s' = [2 \<mapsto> ([7], False)]"
  using kv_Set_refines [OF demo_store_facts(1), of "[7]" 2 False] demo_store_facts(2-4) by simp


lemma kv_small_table_fills_witness:
  "\<exists>s'. kv_Set 2 [7] True demo_store = Inr s' \<and> kv_inv s' \<and> kv_abs s' = (kv_abs demo_store)(2 \<mapsto> ([7], True))"
  by (rule kv_small_table_fills [OF demo_store_facts(1)])
    (simp_all add: demo_store_facts kMaxProbeNum_def)

lemma new_kvstore_terminates_witness:
  "\<exists>s. new_kvstore (\<lambda>_. 0) 5 2 = Some (Inr s) \<and> kv_inv s
    \<and> kv_abs s = [0 \<mapsto> (replicate 2 0, True)] \<and> node_capacity s = 2 ^ 3 \<and> value_len s = 2"
proof (rule new_kvstore_terminates)
  have "unat (5 :: u64) = 5" by simp
  moreover have "5 \<le> (2::nat) ^ y \<Longrightarrow> 3 \<le> y" for y
    by (rule ccontr) (auto simp: not_le less_Suc_eq numeral_3_eq_3)
  ultimately show "3 = (LEAST m. unat (5 :: u64) \<le> 2 ^ m)"
    by (intro Least_equality [symmetric]) simp_all
qed simp_all

lemma new_kvstore_diverges_witness: "new_kvstore (\<lambda>_. 0) (2 ^ 63 + 1) 2 = None"
  by (rule new_kvstore_diverges) simp

lemma demo_insert:
  "slot demo_store 2 0 = 2" "kv_inv (insert_node demo_store 2 2)" "used (insert_node demo_store 2 2) = {2}"
  "node_key (kv_nodes (insert_node demo_store 2 2) ! 2) = 2"
proof -
  show sl: "slot demo_store 2 0 = 2" by (simp add: slot_def demo_store_facts)
  have u: "used demo_store = {}"
    using kv_abs_None [of demo_store] kv_abs_used [OF demo_store_facts(1)] demo_store_facts(2)
    by (metis all_not_in_conv option.distinct(1))
  show "kv_inv (insert_node demo_store 2 2)"
    using insert_inv [OF demo_store_facts(1), of 2 0] sl u demo_store_facts(2,5) by (simp add: kMaxProbeNum_def)
  show "used (insert_node demo_store 2 2) = {2}"
    using insert_used [OF demo_store_facts(1), of 2 2] u demo_store_facts(5) by simp
  show "node_key (kv_nodes (insert_node demo_store 2 2) ! 2) = 2"
    by (simp add: insert_node_def demo_store_def empty_store_def)
qed

lemma kv_lookup_refines_witness:
  "\<exists>p. kv_find 2 (insert_node demo_store 2 2) = Inr (Some p, insert_node demo_store 2 2)
    \<and> Some (take 1 (drop p (kv_data (insert_node demo_store 2 2)))) = map_option fst (kv_abs (insert_node demo_store 2 2) 2)"
proof -
  let ?s = "insert_node demo_store 2 2"
  have k: "kv_abs ?s 2 \<noteq> None" unfolding kv_abs_None demo_insert(3) using demo_insert(4) by simp
  then have "\<not> kv_full ?s 2" using kv_full_abs [of ?s 2] demo_insert(2) by (meson)
  then obtain p where p: "kv_find 2 ?s = Inr (p, ?s)" "kv_read ?s p = map_option fst (kv_abs ?s 2)"
    using kv_lookup_refines [OF demo_insert(2), of 2] by auto
  have "value_len ?s = 1" by (simp add: insert_node_def demo_store_def empty_store_def)
  with p k show ?thesis by (cases p) (auto simp: kv_read_def)
qed

lemma checkpoint_keeps_prefix_witness:
  "\<exists>f s'. kv_Store (insert_node demo_store 2 2) \<lparr>content = [], pos = 0\<rparr> = Inr f
    \<and> kv_Load (\<lambda>_. 0) demo_store \<lparr>content = content f, pos = 0\<rparr> = Inr s' \<and> kv_abs s' 2 = None"
proof -
  have "data_capacity (insert_node demo_store 2 2) = 4" "node_capacity (insert_node demo_store 2 2) = 4"
    "value_len (insert_node demo_store 2 2) = 1" "node_size (insert_node demo_store 2 2) = 1"
    by (simp_all add: insert_node_def demo_store_def empty_store_def)
  then show ?thesis
    using checkpoint_keeps_prefix [OF demo_insert(2), of demo_store 2 "\<lambda>_. 0"] demo_insert(3,4) demo_store_facts(4)
    by simp
qed

end
