(* ===== verification/Tensors.thy ===== *)
theory Tensors
  imports Bytes
begin

text \<open>
  Tensors (src/hpps/common/tensor.h) and their data types (types.h): a shape, a blob that only
  grows, and the sizes the code computes from the shape in \<open>int\<close> arithmetic.
\<close>

section \<open>Data types\<close>

datatype tensor_type = KUInt32 | KUInt64 | KFloat32

fun type_flag :: "tensor_type \<Rightarrow> 8 word" where
  "type_flag KUInt32 = 0"
| "type_flag KUInt64 = 1"
| "type_flag KFloat32 = 2"

definition TensorDataTypeSize :: "8 word \<Rightarrow> nat res" where
  "TensorDataTypeSize ty =
     (if ty = type_flag KUInt32 then Inr 4
      else if ty = type_flag KUInt64 then Inr 8
      else if ty = type_flag KFloat32 then Inr 4
      else Inl Fatal)"

section \<open>Tensors\<close>

record tensor =
  t_blob :: "blob option"          \<comment> \<open>\<open>None\<close> is a null pointer\<close>
  t_shape :: "32 word list"
  t_size :: nat
  t_capacity :: nat
  t_dtype :: "8 word"

definition shape_size :: "32 word list \<Rightarrow> u64" where
  \<comment> \<open>\<open>auto size = 1\<close> is an \<open>int\<close>; the product with a dimension is converted back to it, and the
    comparison with \<open>capacity_\<close> converts it to \<open>size_t\<close>\<close>
  "shape_size shape = scast (fold (\<lambda>dim sz. sz * dim) shape (1 :: i32))"

definition Reshape :: "32 word list \<Rightarrow> tensor \<Rightarrow> tensor res" where
  "Reshape shape t =
     (let sz = unat (shape_size shape) in
      if sz > t_capacity t then
        bind_res (TensorDataTypeSize (t_dtype t)) (\<lambda>w.
        bind_res (blob_alloc (unat (of_nat w * of_nat sz :: u64))) (\<lambda>b.
          Inr (t\<lparr>t_shape := shape, t_capacity := sz, t_blob := Some b, t_size := sz\<rparr>)))
      else Inr (t\<lparr>t_shape := shape, t_size := sz\<rparr>))"

definition new_tensor :: "32 word list \<Rightarrow> 8 word \<Rightarrow> tensor res" where
  "new_tensor shape ty =
     Reshape shape \<lparr>t_blob = None, t_shape = [], t_size = 0, t_capacity = 0, t_dtype = ty\<rparr>"

definition mutable_data :: "tensor \<Rightarrow> blob res" where
  \<comment> \<open>\<open>mutable_blob()->data()\<close>\<close>
  "mutable_data t = (case t_blob t of None \<Rightarrow> Inl NullDeref | Some b \<Rightarrow> Inr b)"

section \<open>The invariant\<close>

definition tensor_wf :: "tensor \<Rightarrow> bool" where
  "tensor_wf t \<longleftrightarrow> t_size t \<le> t_capacity t \<and>
     (case TensorDataTypeSize (t_dtype t) of Inl _ \<Rightarrow> t_capacity t = 0
      | Inr w \<Rightarrow> (case t_blob t of None \<Rightarrow> t_capacity t = 0
                 | Some b \<Rightarrow> length b = w * t_capacity t))"

lemma type_size_le: "TensorDataTypeSize ty = Inr w \<Longrightarrow> 0 < w \<and> w \<le> 8"
  by (auto simp: TensorDataTypeSize_def split: if_splits)

lemma shape_size_small:
  assumes "prod_list (map unat shape) < 2 ^ 31"
  shows "unat (shape_size shape) = prod_list (map unat shape)"
proof -
  have gen: "fold (\<lambda>dim sz. sz * dim) xs (a :: i32) = a * of_nat (prod_list (map unat xs))" for xs a
  proof (induction xs arbitrary: a)
    case (Cons dim xs)
    have "of_nat (unat dim * prod_list (map unat xs)) = dim * (of_nat (prod_list (map unat xs)) :: i32)"
      by simp
    then show ?case
      using Cons [of "a * dim"] by (simp only: fold_simps list.map prod_list.Cons mult.assoc)
  qed simp
  let ?n = "prod_list (map unat shape)"
  have "fold (\<lambda>dim sz. sz * dim) shape (1 :: i32) = of_nat ?n" using gen [of shape 1] by (simp only: mult_1)
  then have "shape_size shape = word_of_int (sint (of_nat ?n :: i32))"
    by (simp only: shape_size_def scast_eq)
  also have "sint (of_nat ?n :: i32) = int ?n" by (rule sint_i32_of_nat [OF assms])
  finally show ?thesis using assms by (simp add: unat_of_nat)
qed

lemma Reshape_grow:
  assumes ty: "TensorDataTypeSize (t_dtype t) = Inr w"
    and small: "prod_list (map unat shape) < 2 ^ 31"
    and True: "prod_list (map unat shape) > t_capacity t"
  shows "Reshape shape t = Inr (t\<lparr>t_shape := shape, t_capacity := prod_list (map unat shape),
      t_blob := Some (replicate (w * prod_list (map unat shape)) 0), t_size := prod_list (map unat shape)\<rparr>)"
proof -
  let ?n = "prod_list (map unat shape)"
  have w: "0 < w" "w \<le> 8" using type_size_le [OF ty] by simp_all
  have "w * ?n \<le> 8 * ?n" using w(2) by (intro mult_le_mono1)
  also have "8 * ?n < 2 ^ 64" using small by simp
  finally have "w * ?n < 2 ^ 64" .
  then have "unat (of_nat w * of_nat ?n :: u64) = w * ?n"
    unfolding of_nat_mult [symmetric] unat_of_nat by simp
  moreover have "0 < w * ?n" using w True by simp
  ultimately show "Reshape shape t = Inr (t\<lparr>t_shape := shape, t_capacity := ?n,
      t_blob := Some (replicate (w * ?n) 0), t_size := ?n\<rparr>)"
    using True ty shape_size_small [OF small] by (simp add: Reshape_def Let_def blob_alloc_def)
qed

lemma new_tensor_ok:
  assumes "TensorDataTypeSize ty = Inr w" and "prod_list (map unat shape) < 2 ^ 31"
    and "0 < prod_list (map unat shape)"
  shows "new_tensor shape ty = Inr \<lparr>t_blob = Some (replicate (w * prod_list (map unat shape)) 0),
      t_shape = shape, t_size = prod_list (map unat shape), t_capacity = prod_list (map unat shape),
      t_dtype = ty\<rparr>"
  unfolding new_tensor_def using assms by (subst Reshape_grow) simp_all

text \<open>Reshaping keeps a tensor well formed as long as the number of elements fits an \<open>int\<close>: it
  succeeds, the size is the product of the dimensions, the blob has room for it, and a
  tensor that was large enough keeps its blob.\<close>

lemma Reshape_wf:
  assumes wf: "tensor_wf t" and ty: "TensorDataTypeSize (t_dtype t) = Inr w"
    and small: "prod_list (map unat shape) < 2 ^ 31"
  shows "\<exists>t'. Reshape shape t = Inr t' \<and> tensor_wf t' \<and> t_shape t' = shape
    \<and> t_size t' = prod_list (map unat shape) \<and> t_dtype t' = t_dtype t
    \<and> (prod_list (map unat shape) \<le> t_capacity t \<longrightarrow> t_blob t' = t_blob t)"
proof (cases "prod_list (map unat shape) > t_capacity t")
  case False
  then show ?thesis
    using wf shape_size_small [OF small] ty
    by (cases "t_blob t") (auto simp: Reshape_def tensor_wf_def Let_def)
next
  case True
  then show ?thesis using Reshape_grow [OF ty small True] ty by (simp add: tensor_wf_def)
qed

lemma Reshape_capacity:
  assumes ty: "TensorDataTypeSize (t_dtype t) = Inr w" and small: "prod_list (map unat shape) < 2 ^ 31"
    and "Reshape shape t = Inr t'"
  shows "t_capacity t' = max (t_capacity t) (prod_list (map unat shape))"
proof (cases "prod_list (map unat shape) > t_capacity t")
  case True
  then show ?thesis using Reshape_grow [OF ty small True] assms(3) by auto
next
  case False
  then show ?thesis using shape_size_small [OF small] assms(3) by (auto simp: Reshape_def Let_def)
qed

text \<open>C39. A tensor stays well formed whatever shapes it is given: made with one shape and reshaped
  any number of times, with shapes of fewer than \<open>2 ^ 31\<close> elements each, it has the last shape, the
  size that belongs to it, and memory for the largest shape it ever had.\<close>

theorem tensor_stays_wf:
  assumes ty: "TensorDataTypeSize ty = Inr w"
    and small: "\<forall>sh \<in> set (shape # shapes). prod_list (map unat sh) < 2 ^ 31"
  shows "\<exists>t. bind_res (new_tensor shape ty) (\<lambda>t. fold_res (\<lambda>t sh. Reshape sh t) t shapes) = Inr t \<and>
    tensor_wf t \<and> t_dtype t = ty \<and> t_shape t = last (shape # shapes) \<and>
    t_size t = prod_list (map unat (last (shape # shapes))) \<and>
    t_capacity t = Max ((\<lambda>sh. prod_list (map unat sh)) ` set (shape # shapes))"
  using small
proof (induction shapes rule: rev_induct)
  case Nil
  let ?t = "\<lparr>t_blob = None, t_shape = [], t_size = 0, t_capacity = 0, t_dtype = ty\<rparr>"
  have "tensor_wf ?t" using ty by (simp add: tensor_wf_def)
  then obtain t where "Reshape shape ?t = Inr t" "tensor_wf t" "t_shape t = shape" "t_dtype t = ty"
    "t_size t = prod_list (map unat shape)" "t_capacity t = max 0 (prod_list (map unat shape))"
    using Reshape_wf [of ?t w shape] Reshape_capacity [of ?t w shape] ty Nil.prems by auto
  then show ?case by (simp add: new_tensor_def)
next
  case (snoc sh shapes)
  let ?p = "\<lambda>sh. prod_list (map unat sh)"
  obtain t where t: "bind_res (new_tensor shape ty) (\<lambda>t. fold_res (\<lambda>t sh. Reshape sh t) t shapes) = Inr t"
    "tensor_wf t" "t_dtype t = ty" "t_capacity t = Max (?p ` set (shape # shapes))"
    using snoc by auto
  obtain t' where t': "Reshape sh t = Inr t'" "tensor_wf t'" "t_shape t' = sh" "t_dtype t' = ty"
    "t_size t' = ?p sh" "t_capacity t' = max (t_capacity t) (?p sh)"
    using Reshape_wf [OF t(2), of w sh] Reshape_capacity [of t w sh] t(3) ty snoc.prems by auto
  have "Max (?p ` set (shape # shapes @ [sh])) = Max (insert (?p sh) (?p ` set (shape # shapes)))"
    by (simp add: insert_commute)
  also have "\<dots> = max (t_capacity t) (?p sh)" unfolding t(4) by (subst Max_insert) (simp_all add: max.commute)
  finally have "t_capacity t' = Max (?p ` set (shape # shapes @ [sh]))" using t'(6) by simp
  moreover obtain t0 where "new_tensor shape ty = Inr t0" using t(1) by (cases "new_tensor shape ty") auto
  ultimately show ?case using t(1) t'(1-5) by (simp add: fold_res_append)
qed

text \<open>The size wraps: a shape of \<open>2 ^ 16\<close> by \<open>2 ^ 16\<close> elements has, for the code, size 0, and
  the tensor gets no memory.\<close>

theorem tensor_size_wraps:
  "new_tensor [2 ^ 16, 2 ^ 16] (type_flag KFloat32) =
     Inr \<lparr>t_blob = None, t_shape = [2 ^ 16, 2 ^ 16], t_size = 0, t_capacity = 0, t_dtype = type_flag KFloat32\<rparr>"
proof -
  have "shape_size [2 ^ 16, 2 ^ 16] = 0" by (simp add: shape_size_def)
  then show ?thesis by (simp add: new_tensor_def Reshape_def Let_def)
qed

theorem tensor_stays_wf_example:
  "\<exists>t. bind_res (new_tensor [2, 3] (type_flag KFloat32)) (\<lambda>t. fold_res (\<lambda>t sh. Reshape sh t) t [[4, 4], [2]]) = Inr t \<and>
    tensor_wf t \<and> t_shape t = [2] \<and> t_size t = 2 \<and> t_capacity t = 16"
  using tensor_stays_wf [of "type_flag KFloat32" 4 "[2, 3]" "[[4, 4], [2]]"]
  by (auto simp: TensorDataTypeSize_def)

end
