(* ===== verification/KVTable.thy ===== *)
theory KVTable
  imports KVStore ArrayTable Tensors
begin

text \<open>
  The key-value table (src/hpps/table/kv_table.h and kv_table.cc): every server holds the keys
  that are congruent to its id, the worker keeps a local copy of what it fetched. Keys are
  \<open>uint64_t\<close>, values vectors of \<open>value_len\<close> floats.
\<close>

section \<open>The worker's half\<close>

type_synonym kv_worker = kvstore

definition KVTableOption_capacity :: "zoo \<Rightarrow> u64 \<Rightarrow> u64 res" where
  \<comment> \<open>the option divides the requested capacity among the servers\<close>
  "KVTableOption_capacity z cap =
     (if num_servers z = 0 then Inl DivByZero else Inr (cap div word_of_int (num_servers z)))"

definition new_kv_worker :: "(nat \<Rightarrow> f32) \<Rightarrow> zoo \<Rightarrow> u64 \<Rightarrow> nat \<Rightarrow> kv_worker res option" where
  "new_kv_worker mem z cap vlen =
     (case KVTableOption_capacity z cap of Inl e \<Rightarrow> Some (Inl e) | Inr c \<Rightarrow> new_kvstore mem c vlen)"

definition keys_of :: "blob \<Rightarrow> u64 list" where
  \<comment> \<open>\<open>As<Key>(i)\<close> for the indices below \<open>size<Key>()\<close>\<close>
  "keys_of b = dec_seq 8 dec64 b"

definition key_server :: "zoo \<Rightarrow> u64 \<Rightarrow> int res" where
  \<comment> \<open>the \<open>int\<close> is converted to the key's type, the remainder back to \<open>int\<close>\<close>
  "key_server z k =
     (if num_servers z = 0 then Inl DivByZero
      else Inr (sint (ucast (k mod word_of_int (num_servers z)) :: i32)))"

fun bump :: "int \<Rightarrow> (int \<times> nat) list \<Rightarrow> (int \<times> nat) list" where
  \<comment> \<open>\<open>++counts[dst]\<close>\<close>
  "bump i [] = [(i, 1)]"
| "bump i ((j, n) # cs) = (if i = j then (j, n + 1) # cs else (j, n) # bump i cs)"

definition count_of :: "(int \<times> nat) list \<Rightarrow> int \<Rightarrow> nat" where
  "count_of cs i = (case map_of cs i of None \<Rightarrow> 0 | Some n \<Rightarrow> n)"

fun set_pieces :: "int \<Rightarrow> blob list \<Rightarrow> pieces \<Rightarrow> pieces" where
  "set_pieces i bs [] = [(i, bs)]"
| "set_pieces i bs ((j, bs') # out) = (if i = j then (j, bs) # out else (j, bs') # set_pieces i bs out)"

definition row_off :: "nat \<Rightarrow> nat \<Rightarrow> nat" where
  \<comment> \<open>\<open>i * value_len()\<close>: an \<open>int\<close> times a \<open>uint32_t\<close> is a \<open>uint32_t\<close>, which wraps\<close>
  "row_off i vlen = unat (of_nat i * of_nat vlen :: 32 word)"

lemma row_off_small [simp]: "i * vlen < 2 ^ 32 \<Longrightarrow> row_off i vlen = i * vlen"
  by (simp add: row_off_def unat_of_nat flip: of_nat_mult)

text \<open>Where the product does not fit, the rows at the end of a request are taken for its first rows.\<close>

theorem row_off_wraps:
  assumes "m * vlen = 2 ^ 32"
  shows "row_off (m + i) vlen = row_off i vlen"
proof -
  have "(of_nat m * of_nat vlen :: 32 word) = 0"
    using assms by (simp flip: of_nat_mult)
  then show ?thesis by (simp add: row_off_def distrib_right)
qed

definition kv_count :: "zoo \<Rightarrow> u64 list \<Rightarrow> (int \<times> nat) list res" where
  "kv_count z ks = fold_res (int_body fst (\<lambda>cs (i, k). bind_res (key_server z k) (\<lambda>dst. Inr (bump dst cs))))
     [] (enumerate 0 ks)"

definition kv_alloc :: "nat \<Rightarrow> nat \<Rightarrow> (int \<times> nat) list \<Rightarrow> pieces \<Rightarrow> pieces res" where
  \<comment> \<open>\<open>nkv\<close> is \<open>kv.size()\<close>\<close>
  "kv_alloc vlen nkv cs out = fold_res (\<lambda>out (dst, n).
     bind_res (blob_alloc (n * 8)) (\<lambda>b.
     let out1 = push_out dst b out in
     if nkv = 2 then bind_res (blob_alloc (n * 4 * vlen)) (\<lambda>b'. Inr (push_out dst b' out1))
     else Inr out1)) out cs"

definition kv_place :: "nat \<Rightarrow> zoo \<Rightarrow> blob list \<Rightarrow> (int \<times> nat) list \<times> pieces \<Rightarrow> nat \<times> u64 \<Rightarrow>
    ((int \<times> nat) list \<times> pieces) res" where
  \<comment> \<open>one iteration of the last loop: key \<open>i\<close> of the request, and its values\<close>
  "kv_place vlen z kv = (\<lambda>(cs, out) (i, k).
     bind_res (key_server z k) (\<lambda>dst.
     let bs = piece_of out dst; c = count_of cs dst in
     bind_res (vec_at bs 0) (\<lambda>kb.
     bind_res (buf_write kb (c * 8) (enc64 k)) (\<lambda>kb'.
     let bs1 = bs[0 := kb'] in
     bind_res (if length kv = 2 then
          bind_res (vec_at bs1 1) (\<lambda>vb.
          bind_res (buf_read (kv ! 1) (row_off i vlen * 4) (vlen * 4)) (\<lambda>row.
          bind_res (buf_write vb (row_off c vlen * 4) row) (\<lambda>vb'. Inr (bs1[1 := vb']))))
        else Inr bs1) (\<lambda>bs2.
       Inr (bump dst cs, set_pieces dst bs2 out))))))"

definition kv_Partition :: "nat \<Rightarrow> zoo \<Rightarrow> blob list \<Rightarrow> pieces \<Rightarrow> (int \<times> pieces) res" where
  "kv_Partition vlen z kv out =
     bind_res (check (length kv = 1 \<or> length kv = 2)) (\<lambda>_.
     bind_res (vec_at kv 0) (\<lambda>kb.
     let ks = keys_of kb in
     bind_res (kv_count z ks) (\<lambda>cs.
     bind_res (kv_alloc vlen (length kv) cs out) (\<lambda>out1.
     bind_res (fold_res (int_body fst (kv_place vlen z kv)) ([], out1) (enumerate 0 ks)) (\<lambda>(_, out2).
       Inr (int (length out2), out2))))))"

definition kv_set_row :: "f32 list \<Rightarrow> kv_worker \<Rightarrow> nat \<times> u64 \<Rightarrow> kv_worker res" where
  "kv_set_row vals = (\<lambda>s (i, k). 
     bind_res (buf_read vals (row_off i (value_len s)) (value_len s)) (\<lambda>row. kv_Set k row False s))"

definition kv_ProcessReplyGet :: "blob list \<Rightarrow> kv_worker \<Rightarrow> kv_worker res" where
  "kv_ProcessReplyGet data s =
     bind_res (check (length data = 2)) (\<lambda>_.
     bind_res (vec_at data 0) (\<lambda>kb.
     bind_res (vec_at data 1) (\<lambda>vb.
     bind_res (check (elem_count 8 kb * value_len s = elem_count 4 vb)) (\<lambda>_.
       fold_res (int_body fst (kv_set_row (dec_seq 4 dec32 vb))) s (enumerate 0 (keys_of kb))))))"

definition kv_copy_row :: "u64 list \<Rightarrow> blob \<times> kv_worker \<Rightarrow> nat \<Rightarrow> (blob \<times> kv_worker) res" where
  \<comment> \<open>one iteration of \<open>GetFromLocal\<close>: the row of key \<open>i\<close> is copied into the tensor\<close>
  "kv_copy_row key = (\<lambda>(mem, s) i.
     bind_res (vec_at key (int i)) (\<lambda>k.
     bind_res (kv_find k s) (\<lambda>(src, s').
     case src of
       None \<Rightarrow> Inl NullDeref
     | Some off \<Rightarrow>
         bind_res (buf_read (kv_data s') off (value_len s')) (\<lambda>row.
         bind_res (buf_write mem (i * (value_len s' * 4)) (enc_seq enc32 row)) (\<lambda>mem'. Inr (mem', s'))))))"

definition kv_GetFromLocal :: "u64 list \<Rightarrow> nat \<Rightarrow> tensor \<Rightarrow> kv_worker \<Rightarrow> (tensor \<times> kv_worker) res" where
  "kv_GetFromLocal key sz val s =
     bind_res (check (t_dtype val = type_flag KFloat32)) (\<lambda>_.
     bind_res (Reshape [of_nat sz, of_nat (value_len s)] val) (\<lambda>val1.
     bind_res (mutable_data val1) (\<lambda>mem.
     bind_res (fold_res (int_body (\<lambda>i. i) (kv_copy_row key)) (mem, s) [0..<sz]) (\<lambda>(mem', s'). Inr (val1\<lparr>t_blob := Some mem'\<rparr>, s')))))"

text \<open>\<open>Get\<close>/\<open>GetAsync\<close> and \<open>Add\<close>/\<open>AddAsync\<close>: the blobs handed to \<open>WorkerTable\<close>.\<close>

definition kv_worker_Get :: "u64 list \<Rightarrow> nat \<Rightarrow> blob list res" where
  "kv_worker_Get key sz = bind_res (buf_read key 0 sz) (\<lambda>ks. Inr [enc_seq enc64 ks])"

definition kv_worker_Add :: "nat \<Rightarrow> u64 list \<Rightarrow> nat \<Rightarrow> f32 list \<Rightarrow> nat \<Rightarrow> add_option option \<Rightarrow> blob list res" where
  "kv_worker_Add vlen key ksz val vsz opt =
     bind_res (check (ksz * vlen = vsz)) (\<lambda>_.
     bind_res (buf_read key 0 ksz) (\<lambda>ks.
     bind_res (buf_read val 0 vsz) (\<lambda>vs.
       Inr ([enc_seq enc64 ks, enc_seq enc32 vs] @ (case opt of None \<Rightarrow> [] | Some o' \<Rightarrow> [opt_bytes o'])))))"

text \<open>The overloads for one key and for vectors; \<open>&keys[0]\<close> needs a first element.\<close>

definition kv_Get_key :: "u64 \<Rightarrow> blob list" where
  "kv_Get_key key = [enc64 key]"

definition kv_Get_keys :: "u64 list \<Rightarrow> blob list res" where
  "kv_Get_keys ks = bind_res (vec_at ks 0) (\<lambda>_. Inr [enc_seq enc64 ks])"

definition kv_Add_key :: "nat \<Rightarrow> u64 \<Rightarrow> f32 list \<Rightarrow> nat \<Rightarrow> add_option option \<Rightarrow> blob list res" where
  "kv_Add_key vlen key val sz opt =
     bind_res (check (sz = vlen)) (\<lambda>_.
     bind_res (buf_read val 0 sz) (\<lambda>vs.
       Inr ([enc64 key, enc_seq enc32 vs] @ (case opt of None \<Rightarrow> [] | Some o' \<Rightarrow> [opt_bytes o']))))"

definition kv_Add_keys :: "nat \<Rightarrow> u64 list \<Rightarrow> f32 list \<Rightarrow> add_option option \<Rightarrow> blob list res" where
  "kv_Add_keys vlen ks vs opt =
     bind_res (check (length ks * vlen = length vs)) (\<lambda>_.
     bind_res (vec_at ks 0) (\<lambda>_.
     bind_res (vec_at vs 0) (\<lambda>_.
       Inr ([enc_seq enc64 ks, enc_seq enc32 vs] @ (case opt of None \<Rightarrow> [] | Some o' \<Rightarrow> [opt_bytes o'])))))"

text \<open>Where they are defined they build the requests of the functions on pointers.\<close>

lemma kv_overloads:
  "kv_worker_Get [k] 1 = Inr (kv_Get_key k)"
  "ks \<noteq> [] \<Longrightarrow> kv_Get_keys ks = kv_worker_Get ks (length ks)"
  "ks \<noteq> [] \<Longrightarrow> vs \<noteq> [] \<Longrightarrow> kv_Add_keys vlen ks vs opt = kv_worker_Add vlen ks (length ks) vs (length vs) opt"
  by (auto simp: kv_worker_Get_def kv_Get_key_def kv_Get_keys_def kv_Add_keys_def kv_worker_Add_def
      buf_read_def vec_at_def in_range_def)

lemma kv_Add_key_worker: "kv_Add_key vlen k val sz opt = kv_worker_Add vlen [k] 1 val sz opt"
  by (cases "sz = vlen") (auto simp: kv_Add_key_def kv_worker_Add_def buf_read_def)

section \<open>The server's half\<close>

record 'g kv_server =
  ks_store :: kvstore
  ks_updater :: updater
  ks_random :: "'g random"

definition new_kv_server :: "(nat \<Rightarrow> f32) \<Rightarrow> 'g rng \<Rightarrow> 'g \<Rightarrow> bool \<Rightarrow> string \<Rightarrow> zoo \<Rightarrow> u64 \<Rightarrow> nat \<Rightarrow> string \<Rightarrow>
    random_option \<Rightarrow> 'g kv_server res option" where
  "new_kv_server mem G g0 enable_dcasgd updater_type z cap vlen solver ropt =
     (case KVTableOption_capacity z cap of Inl e \<Rightarrow> Some (Inl e)
      | Inr c \<Rightarrow> (case new_kvstore mem c vlen of None \<Rightarrow> None
        | Some r \<Rightarrow> Some (bind_res r (\<lambda>s. Inr \<lparr>ks_store = s,
            ks_updater = GetUpdater z enable_dcasgd updater_type (unat c) solver,
            ks_random = SetRandomOption G ropt (new_random g0)\<rparr>))))"

definition kv_get_row :: "'g rng \<Rightarrow> 'g kv_server \<times> blob \<Rightarrow> nat \<times> u64 \<Rightarrow> ('g kv_server \<times> blob) res" where
  "kv_get_row G = (\<lambda>(t, vals) (i, k).
     bind_res (kv_Get k False (ks_store t)) (\<lambda>(addr, immu, new_data, s).
     let n = value_len s in
     case addr of
       Some off \<Rightarrow>
         bind_res (if new_data then
             bind_res (rnd_Gen G n (ks_random t)) (\<lambda>(xs, r).
             bind_res (buf_write (kv_data s) off xs) (\<lambda>d. Inr (t\<lparr>ks_store := s\<lparr>kv_data := d\<rparr>, ks_random := r\<rparr>)))
           else Inr (t\<lparr>ks_store := s\<rparr>)) (\<lambda>t'.
         bind_res (buf_read (kv_data (ks_store t')) off n) (\<lambda>row.
         bind_res (buf_write vals (row_off i n * 4) (enc_seq enc32 row)) (\<lambda>vals'. Inr (t', vals'))))
     | None \<Rightarrow>
         bind_res (buf_write vals (row_off i n * 4) (enc_seq enc32 (replicate n 0))) (\<lambda>vals'.
           Inr (t\<lparr>ks_store := s\<rparr>, vals'))))"

definition kv_ProcessGet :: "'g rng \<Rightarrow> 'g kv_server \<Rightarrow> blob list \<Rightarrow> (blob list \<times> 'g kv_server) res" where
  "kv_ProcessGet G t data =
     bind_res (check (length data = 1)) (\<lambda>_.
     bind_res (vec_at data 0) (\<lambda>kb.
     bind_res (blob_alloc (elem_count 8 kb * 4 * value_len (ks_store t))) (\<lambda>vals0.
     bind_res (fold_res (int_body fst (kv_get_row G)) (t, vals0) (enumerate 0 (keys_of kb))) (\<lambda>(t', vals).
       Inr ([kb, vals], t')))))"

definition kv_add_row :: "'d farith \<Rightarrow> zoo \<Rightarrow> add_option \<Rightarrow> f32 list \<Rightarrow> 'g kv_server \<Rightarrow> nat \<times> u64 \<Rightarrow> 'g kv_server res" where
  \<comment> \<open>the updater is called at offset 0 of the key's memory\<close>
  "kv_add_row A z opt vals = (\<lambda>t (i, k).
     bind_res (kv_Get k False (ks_store t)) (\<lambda>(addr, immu, new_data, s).
     if immu then Inr (t\<lparr>ks_store := s\<rparr>)
     else case addr of
       None \<Rightarrow> Inl NullDeref
     | Some off \<Rightarrow>
         bind_res (buf_read (kv_data s) off (value_len s)) (\<lambda>window.
         bind_res (updater_Update A z (ks_updater t) (value_len s) window (drop (row_off i (value_len s)) vals) opt 0)
           (\<lambda>(u, window').
         bind_res (buf_write (kv_data s) off window') (\<lambda>d.
           Inr (t\<lparr>ks_store := s\<lparr>kv_data := d\<rparr>, ks_updater := u\<rparr>))))))"

definition kv_ProcessAdd :: "'d farith \<Rightarrow> zoo \<Rightarrow> 'g kv_server \<Rightarrow> blob list \<Rightarrow> 'g kv_server res" where
  "kv_ProcessAdd A z t data =
     bind_res (check (length data = 2 \<or> length data = 3)) (\<lambda>_.
     bind_res (vec_at data 0) (\<lambda>kb.
     bind_res (vec_at data 1) (\<lambda>vb.
     bind_res (worker_rank z) (\<lambda>w.
     bind_res (if length data = 3
               then bind_res (vec_at data 2) (\<lambda>ob. opt_CopyFrom ob (new_add_option w))
               else Inr (new_add_option w)) (\<lambda>opt.
     bind_res (check (elem_count 8 kb * value_len (ks_store t) = elem_count 4 vb)) (\<lambda>_.
       fold_res (int_body fst (kv_add_row A z opt (dec_seq 4 dec32 vb))) t (enumerate 0 (keys_of kb))))))))"

definition kv_table_Store :: "'g kv_server \<Rightarrow> stream \<Rightarrow> stream res" where
  "kv_table_Store t st = kv_Store (ks_store t) st"

definition kv_table_Load :: "(nat \<Rightarrow> f32) \<Rightarrow> 'g kv_server \<Rightarrow> stream \<Rightarrow> 'g kv_server res" where
  "kv_table_Load mem t st = bind_res (kv_Load mem (ks_store t) st) (\<lambda>s. Inr (t\<lparr>ks_store := s\<rparr>))"

definition kv_ops :: "(nat \<Rightarrow> f32) \<Rightarrow> 'd farith \<Rightarrow> 'g rng \<Rightarrow> zoo \<Rightarrow> 'g kv_server table_ops" where
  "kv_ops mem A G z = \<lparr>op_get = kv_ProcessGet G, op_add = kv_ProcessAdd A z,
     op_store = kv_table_Store, op_load = kv_table_Load mem\<rparr>"

section \<open>Counting and placing\<close>

definition server_of :: "nat \<Rightarrow> u64 \<Rightarrow> int" where
  "server_of n k = int (unat k mod n)"

lemma key_server_ok:
  assumes "num_servers z = int n" and "0 < n" and "n < 2 ^ 31"
  shows "key_server z k = Inr (server_of n k)"
proof -
  have "unat (word_of_int (int n) :: u64) = n" using assms(3) by (simp add: unat_of_nat)
  then have m: "unat (k mod word_of_int (int n)) = unat k mod n" by (simp only: unat_mod_distrib)
  have "ucast (k mod word_of_int (int n)) = (of_nat (unat (k mod word_of_int (int n))) :: i32)"
    by (rule of_nat_unat [symmetric])
  then have "ucast (k mod word_of_int (int n)) = (of_nat (unat k mod n) :: i32)" by (simp only: m)
  moreover have "unat k mod n < 2 ^ 31" using assms(2,3) by (meson less_trans mod_less_divisor)
  ultimately show ?thesis
    using assms by (simp only: key_server_def server_of_def sint_i32_of_nat) simp
qed

lemma count_of_bump [simp]: "count_of (bump i cs) j = count_of cs j + (if i = j then 1 else 0)"
  by (induction i cs rule: bump.induct) (auto simp: count_of_def)

lemma keys_bump [simp]: "fst ` set (bump i cs) = insert i (fst ` set cs)"
  by (induction i cs rule: bump.induct) auto

lemma distinct_bump [simp]: "distinct (map fst cs) \<Longrightarrow> distinct (map fst (bump i cs))"
proof (induction i cs rule: bump.induct)
  case (2 i j n cs)
  then show ?case using keys_bump [of i cs] by auto
qed simp

lemma piece_of_set [simp]: "piece_of (set_pieces i bs out) j = (if i = j then bs else piece_of out j)"
  by (induction i bs out rule: set_pieces.induct) (auto simp: piece_of_def)

lemma keys_set [simp]: "fst ` set (set_pieces i bs out) = insert i (fst ` set out)"
  by (induction i bs out rule: set_pieces.induct) auto

lemma distinct_set [simp]: "distinct (map fst out) \<Longrightarrow> distinct (map fst (set_pieces i bs out))"
proof (induction i bs out rule: set_pieces.induct)
  case (2 i bs j bs' out)
  then show ?case using keys_set [of i bs out] by auto
qed simp

lemma count_of_mem: "distinct (map fst cs) \<Longrightarrow> (i, m) \<in> set cs \<Longrightarrow> count_of cs i = m"
  by (simp add: count_of_def)

lemma kv_count_ok:
  assumes key: "\<And>k. key_server z k = Inr (dst k)" and small: "length ks < 2 ^ 31"
  shows "\<exists>cs. kv_count z ks = Inr cs \<and> distinct (map fst cs) \<and> fst ` set cs = dst ` set ks
    \<and> (\<forall>i. count_of cs i = length (filter (\<lambda>k. dst k = i) ks))"
proof -
  have "\<exists>cs. fold_res (\<lambda>cs (i, k). bind_res (key_server z k) (\<lambda>dst. Inr (bump dst cs))) [] (enumerate 0 ks) = Inr cs
    \<and> distinct (map fst cs) \<and> fst ` set cs = dst ` set ks
    \<and> (\<forall>i. count_of cs i = length (filter (\<lambda>k. dst k = i) ks))"
  proof (induction ks rule: rev_induct)
    case Nil
    then show ?case by (simp add: count_of_def)
  next
    case (snoc k ks)
    then show ?case by (auto simp: fold_res_append enumerate_append_eq key)
  qed
  then show ?thesis using small by (simp add: kv_count_def)
qed

lemma zero_bytes: "replicate (n * 8) 0 = enc_seq enc64 (replicate n 0)" "replicate (n * 4) 0 = enc_seq enc32 (replicate n 0)"
proof -
  have "enc64 0 = replicate 8 0" "enc32 0 = replicate 4 0" by (simp_all add: enc64_def enc32_def eval_nat_numeral)
  then show "replicate (n * 8) 0 = enc_seq enc64 (replicate n 0)" "replicate (n * 4) 0 = enc_seq enc32 (replicate n 0)"
    by (induction n) (simp_all add: replicate_add)
qed

text \<open>The blobs of one server while its keys are being placed: what is there, and what is still zero.\<close>

definition blobs :: "nat \<Rightarrow> bool \<Rightarrow> u64 list \<Rightarrow> f32 list list \<Rightarrow> nat \<Rightarrow> blob list" where
  "blobs vlen hv ks rows pad = enc_seq enc64 (ks @ replicate pad 0) #
     (if hv then [enc_seq enc32 (concat rows @ replicate (pad * vlen) 0)] else [])"

lemma kv_alloc_ok:
  assumes "distinct (map fst cs)" and "\<forall>(i, m) \<in> set cs. 0 < m" and "hv \<longrightarrow> 0 < vlen"
    and "distinct (map fst out)" and "fst ` set cs \<inter> fst ` set out = {}"
  shows "\<exists>out'. kv_alloc vlen (if hv then 2 else 1) cs out = Inr out' \<and> distinct (map fst out')
    \<and> fst ` set out' = fst ` set cs \<union> fst ` set out
    \<and> (\<forall>(i, m) \<in> set cs. piece_of out' i = blobs vlen hv [] [] m)
    \<and> (\<forall>i. i \<notin> fst ` set cs \<longrightarrow> piece_of out' i = piece_of out i)"
  using assms(1,2,4,5)
proof (induction cs arbitrary: out)
  case Nil
  then show ?case by (simp add: kv_alloc_def)
next
  case (Cons p cs)
  obtain i m where p: "p = (i, m)" by (cases p)
  let ?kb = "replicate (m * 8) 0 :: blob" and ?vb = "replicate (m * 4 * vlen) 0 :: blob"
  let ?out = "if hv then push_out i ?vb (push_out i ?kb out) else push_out i ?kb out"
  have m: "0 < m" using Cons.prems(2) p by auto
  have alloc: "blob_alloc (m * 8) = Inr ?kb" "hv \<Longrightarrow> blob_alloc (m * 4 * vlen) = Inr ?vb"
    using m assms(3) by (simp_all add: blob_alloc_def)
  have fresh: "piece_of out i = []"
    using Cons.prems(4) p by (force simp: piece_of_def split: option.split dest: map_of_SomeD)
  have "distinct (map fst ?out)" "fst ` set cs \<inter> fst ` set ?out = {}" "distinct (map fst cs)" "\<forall>(i, m) \<in> set cs. 0 < m"
    using Cons.prems p by auto
  then obtain out' where out': "kv_alloc vlen (if hv then 2 else 1) cs ?out = Inr out'" "distinct (map fst out')"
      "fst ` set out' = fst ` set cs \<union> fst ` set ?out"
      "\<forall>(i, m) \<in> set cs. piece_of out' i = blobs vlen hv [] [] m"
      "\<forall>i. i \<notin> fst ` set cs \<longrightarrow> piece_of out' i = piece_of ?out i"
    using Cons.IH [of ?out] by blast
  have "kv_alloc vlen (if hv then 2 else 1) (p # cs) out = Inr out'"
    using out'(1) alloc by (cases hv) (simp_all add: kv_alloc_def p)
  moreover have "piece_of out' i = blobs vlen hv [] [] m"
  proof -
    have "i \<notin> fst ` set cs" using Cons.prems(1) p by simp
    moreover have "?vb = enc_seq enc32 (replicate (m * vlen) 0)"
      using zero_bytes(2) [of "m * vlen"] by (simp add: mult_ac)
    ultimately show ?thesis using out'(5) fresh zero_bytes(1) [of m] by (simp add: blobs_def)
  qed
  ultimately show ?case
    using out'(2-5) p by (intro exI [of _ out']) auto
qed

lemma row_at:
  "\<forall>r \<in> set rows. length r = v \<Longrightarrow> i < length rows \<Longrightarrow> take v (drop (i * v) (concat rows)) = rows ! i"
proof (induction rows arbitrary: i)
  case Nil
  then show ?case by simp
next
  case (Cons r rows)
  then show ?case by (cases i) simp_all
qed

lemma length_concat_rows: "\<forall>r \<in> set rows. length r = v \<Longrightarrow> length (concat rows) = length rows * v"
  by (induction rows) simp_all

lemma kv_place_ok:
  assumes key: "key_server z k = Inr d" and p: "piece_of out d = blobs vlen hv ks rows (Suc pad)"
    and c: "count_of cs d = length ks" "length rows = length ks"
    and rows: "\<forall>r \<in> set rows. length r = vlen" and row: "length row = vlen"
    and hv: "hv \<longleftrightarrow> length kv = 2" "hv \<Longrightarrow> buf_read (kv ! 1) (i * vlen * 4) (vlen * 4) = Inr (enc_seq enc32 row)"
    and small: "hv \<Longrightarrow> i * vlen < 2 ^ 32" "length ks \<le> i"
  shows "kv_place vlen z kv (cs, out) (i, k) =
    Inr (bump d cs, set_pieces d (blobs vlen hv (ks @ [k]) (rows @ [row]) pad) out)"
proof -
  have "buf_write (enc_seq enc64 (ks @ replicate (Suc pad) 0)) (length ks * 8) (enc_seq enc64 [k]) =
      Inr (enc_seq enc64 (ks @ [k] @ replicate pad 0))"
    using c64.write_enc_seq [of "length ks" "[k]" "ks @ replicate (Suc pad) 0"] by simp
  then have kb: "buf_write (enc_seq enc64 (ks @ replicate (Suc pad) 0)) (length ks * 8) (enc64 k) =
      Inr (enc_seq enc64 (ks @ [k] @ replicate pad 0))"
    by (simp add: enc_seq_def)
  have "buf_write (enc_seq enc32 (concat rows @ replicate (Suc pad * vlen) 0)) (length rows * vlen * 4) (enc_seq enc32 row) =
      Inr (enc_seq enc32 (concat rows @ row @ replicate (pad * vlen) 0))"
    using c32.write_enc_seq [of "length rows * vlen" row "concat rows @ replicate (Suc pad * vlen) 0"]
      length_concat_rows [OF rows] row
    by simp
  moreover have "hv \<Longrightarrow> row_off (length ks) vlen = length ks * vlen \<and> row_off i vlen = i * vlen"
    using small(1) mult_le_mono1 [OF small(2), of vlen] le_less_trans by (intro conjI row_off_small) blast+
  ultimately show ?thesis
    using key p c hv kb
    by (cases hv) (simp_all add: kv_place_def blobs_def Let_def del: c32.enc_seq_simps c64.enc_seq_simps)
qed

section \<open>Partitioning a request\<close>

text \<open>A request is a list of keys with their rows; a server's share of it are the keys it owns, in
  the order of the request.\<close>

definition share :: "('k \<Rightarrow> int) \<Rightarrow> int \<Rightarrow> ('k \<times> 'v) list \<Rightarrow> ('k \<times> 'v) list" where
  "share dst i kvs = filter (\<lambda>(k, _). dst k = i) kvs"

lemma share_simps [simp]:
  "share dst i [] = []"
  "share dst i ((k, v) # kvs) = (if dst k = i then (k, v) # share dst i kvs else share dst i kvs)"
  "share dst i (kvs @ kvs') = share dst i kvs @ share dst i kvs'"
  by (simp_all add: share_def)

definition rows_of :: "bool \<Rightarrow> (u64 \<times> f32 list) list \<Rightarrow> blob list" where
  \<comment> \<open>the blobs of a request: the keys, and the rows when there are any\<close>
  "rows_of hv kvs = enc_seq enc64 (map fst kvs) # (if hv then [enc_seq enc32 (concat (map snd kvs))] else [])"

definition rows_wf :: "nat \<Rightarrow> (u64 \<times> f32 list) list \<Rightarrow> bool" where
  "rows_wf vlen kvs \<longleftrightarrow> (\<forall>(k, row) \<in> set kvs. length row = vlen)"

lemma rows_wf_simps [simp]:
  "rows_wf vlen []"
  "rows_wf vlen ((k, row) # kvs) \<longleftrightarrow> length row = vlen \<and> rows_wf vlen kvs"
  "rows_wf vlen (kvs @ kvs') \<longleftrightarrow> rows_wf vlen kvs \<and> rows_wf vlen kvs'"
  "rows_wf vlen kvs \<Longrightarrow> rows_wf vlen (share dst i kvs)"
  by (auto simp: rows_wf_def share_def)

lemma rows_wf_rows: "rows_wf vlen kvs \<Longrightarrow> \<forall>r \<in> set (map snd kvs). length r = vlen"
  by (auto simp: rows_wf_def)

lemma rows_length: "rows_wf vlen kvs \<Longrightarrow> length (concat (map snd kvs)) = length kvs * vlen"
  using length_concat_rows [OF rows_wf_rows] by simp

lemma request_row:
  assumes "rows_wf vlen kvs" and "i < length kvs"
  shows "buf_read (enc_seq enc32 (concat (map snd kvs))) (i * vlen * 4) (vlen * 4) = Inr (enc_seq enc32 (snd (kvs ! i)))"
proof -
  have "i * vlen + vlen \<le> length kvs * vlen" using mult_le_mono1 [of "Suc i" "length kvs" vlen] assms(2) by simp
  then show ?thesis
    using c32.read_enc_seq [of "i * vlen" vlen "concat (map snd kvs)"] rows_length [OF assms(1)]
      row_at [OF rows_wf_rows [OF assms(1)], of i] assms(2)
    by simp
qed

lemma kv_place_loop:
  assumes key: "\<And>k. key_server z k = Inr (dst k)" and wf: "rows_wf vlen (pre @ suf)"
    and kv: "hv \<longleftrightarrow> length kv = 2" "hv \<longrightarrow> kv ! 1 = enc_seq enc32 (concat (map snd (pre @ suf)))"
    and out: "\<forall>(k, _) \<in> set (pre @ suf). piece_of out (dst k) =
        blobs vlen hv (map fst (share dst (dst k) pre)) (map snd (share dst (dst k) pre)) (length (share dst (dst k) suf))"
    and cs: "\<forall>i. count_of cs i = length (share dst i pre)"
    and d: "distinct (map fst out)" "dst ` fst ` set suf \<subseteq> fst ` set out"
    and small: "hv \<longrightarrow> length (pre @ suf) * vlen < 2 ^ 32"
  shows "\<exists>cs' out'. fold_res (kv_place vlen z kv) (cs, out) (enumerate (length pre) (map fst suf)) = Inr (cs', out')
    \<and> distinct (map fst out') \<and> fst ` set out' = fst ` set out
    \<and> (\<forall>(k, _) \<in> set (pre @ suf). piece_of out' (dst k) = rows_of hv (share dst (dst k) (pre @ suf)))"
  using wf kv(2) out cs d small
proof (induction suf arbitrary: pre cs out)
  case Nil
  then show ?case by (auto simp: blobs_def rows_of_def)
next
  case (Cons p suf)
  obtain k row where p: "p = (k, row)" by (cases p)
  let ?d = "dst k" and ?pre = "pre @ [(k, row)]"
  let ?sh = "share dst ?d pre"
  let ?bs = "blobs vlen hv (map fst ?sh @ [k]) (map snd ?sh @ [row]) (length (share dst ?d suf))"
  have "piece_of out ?d = blobs vlen hv (map fst ?sh) (map snd ?sh) (Suc (length (share dst ?d suf)))"
    using Cons.prems(3) p by simp
  moreover have "hv \<Longrightarrow> buf_read (kv ! 1) (length pre * vlen * 4) (vlen * 4) = Inr (enc_seq enc32 row)"
    using request_row [of vlen "pre @ p # suf" "length pre"] Cons.prems(1,2) p by simp
  moreover have "\<forall>r \<in> set (map snd ?sh). length r = vlen" "length row = vlen"
    using Cons.prems(1) p rows_wf_rows [of vlen ?sh] by simp_all
  moreover have "length pre * vlen \<le> length (pre @ p # suf) * vlen" by (intro mult_le_mono1) simp
  then have "hv \<Longrightarrow> length pre * vlen < 2 ^ 32" using Cons.prems(7) by (meson le_less_trans)
  moreover have "length ?sh \<le> length pre" by (simp add: share_def)
  ultimately have step: "kv_place vlen z kv (cs, out) (length pre, k) = Inr (bump ?d cs, set_pieces ?d ?bs out)"
    using Cons.prems(4) kv(1) by (intro kv_place_ok [OF key]) simp_all
  have "\<exists>cs' out'. fold_res (kv_place vlen z kv) (bump ?d cs, set_pieces ?d ?bs out) (enumerate (length ?pre) (map fst suf)) = Inr (cs', out')
    \<and> distinct (map fst out') \<and> fst ` set out' = fst ` set (set_pieces ?d ?bs out)
    \<and> (\<forall>(k, _) \<in> set (?pre @ suf). piece_of out' (dst k) = rows_of hv (share dst (dst k) (?pre @ suf)))"
  proof (rule Cons.IH)
    show "\<forall>(k', _) \<in> set (?pre @ suf). piece_of (set_pieces ?d ?bs out) (dst k') = blobs vlen hv
        (map fst (share dst (dst k') ?pre)) (map snd (share dst (dst k') ?pre)) (length (share dst (dst k') suf))"
    proof clarify
      fix k' v
      assume "(k', v) \<in> set (?pre @ suf)"
      then have "(k', v) \<in> set (pre @ p # suf)" using p by auto
      then have "piece_of out (dst k') = blobs vlen hv (map fst (share dst (dst k') pre)) (map snd (share dst (dst k') pre))
          (length (share dst (dst k') (p # suf)))"
        using Cons.prems(3) by blast
      then show "piece_of (set_pieces ?d ?bs out) (dst k') = blobs vlen hv
          (map fst (share dst (dst k') ?pre)) (map snd (share dst (dst k') ?pre)) (length (share dst (dst k') suf))"
        using p by (cases "dst k' = ?d") auto
    qed
    show "dst ` fst ` set suf \<subseteq> fst ` set (set_pieces ?d ?bs out)"
      unfolding keys_set using Cons.prems(6) by (intro subset_insertI2) simp
  qed (use Cons.prems(1,2,4,5,7) p in simp_all)
  then show ?case using step Cons.prems(6) p by (auto simp: insert_absorb)
qed

lemma share_length: "length (share dst i kvs) = length (filter (\<lambda>k. dst k = i) (map fst kvs))"
  by (induction kvs) auto

lemma kv_Partition_ok:
  assumes z: "num_servers z = int n" "0 < n" "n < 2 ^ 31" and wf: "rows_wf vlen kvs" and hv: "hv \<longrightarrow> 0 < vlen"
    and small: "length kvs < 2 ^ 31" "hv \<longrightarrow> length kvs * vlen < 2 ^ 32"
  shows "\<exists>out. kv_Partition vlen z (rows_of hv kvs) [] = Inr (int (length out), out)
    \<and> distinct (map fst out) \<and> fst ` set out = server_of n ` fst ` set kvs
    \<and> (\<forall>i \<in> fst ` set out. piece_of out i = rows_of hv (share (server_of n) i kvs))"
proof -
  let ?dst = "server_of n"
  have key: "key_server z k = Inr (?dst k)" for k by (rule key_server_ok [OF z(1-3)])
  obtain cs where cs: "kv_count z (map fst kvs) = Inr cs" "distinct (map fst cs)" "fst ` set cs = ?dst ` fst ` set kvs"
      "\<forall>i. count_of cs i = length (share ?dst i kvs)"
    using kv_count_ok [where dst = ?dst, OF key, of "map fst kvs"] small(1) by (auto simp: share_length)
  have pos: "0 < m \<and> m = length (share ?dst i kvs)" if im: "(i, m) \<in> set cs" for i m
  proof -
    have "m = length (share ?dst i kvs)" using count_of_mem [OF cs(2) im] cs(4) by simp
    moreover have "i \<in> ?dst ` fst ` set kvs" using im cs(3) by (metis fst_conv imageI)
    then have "share ?dst i kvs \<noteq> []" by (force simp: share_def filter_empty_conv)
    ultimately show ?thesis by simp
  qed
  obtain out1 where out1: "kv_alloc vlen (if hv then 2 else 1) cs [] = Inr out1" "distinct (map fst out1)"
      "fst ` set out1 = fst ` set cs" "\<forall>(i, m) \<in> set cs. piece_of out1 i = blobs vlen hv [] [] m"
    using kv_alloc_ok [OF cs(2) _ hv, of "[]"] pos by fastforce
  have "\<forall>(k, _) \<in> set kvs. piece_of out1 (?dst k) = blobs vlen hv [] [] (length (share ?dst (?dst k) kvs))"
  proof clarify
    fix k row
    assume "(k, row) \<in> set kvs"
    then have "?dst k \<in> fst ` set cs" using cs(3) by force
    then obtain m where "(?dst k, m) \<in> set cs" by auto
    then show "piece_of out1 (?dst k) = blobs vlen hv [] [] (length (share ?dst (?dst k) kvs))"
      using out1(4) pos by fastforce
  qed
  moreover have "hv \<longleftrightarrow> length (rows_of hv kvs) = 2" "hv \<longrightarrow> rows_of hv kvs ! 1 = enc_seq enc32 (concat (map snd ([] @ kvs)))"
    by (simp_all add: rows_of_def)
  ultimately obtain cs' out2 where out2: "fold_res (kv_place vlen z (rows_of hv kvs)) ([], out1) (enumerate 0 (map fst kvs)) = Inr (cs', out2)"
      "distinct (map fst out2)" "fst ` set out2 = fst ` set out1"
      "\<forall>(k, _) \<in> set kvs. piece_of out2 (?dst k) = rows_of hv (share ?dst (?dst k) kvs)"
    using kv_place_loop [where dst = ?dst and pre = "[]" and suf = kvs and cs = "[]" and z = z and hv = hv
        and kv = "rows_of hv kvs" and out = out1 and vlen = vlen, OF key] wf out1(2,3) cs(3) small(2)
    by (auto simp: count_of_def)
  have len: "length (rows_of hv kvs) = 1 \<or> length (rows_of hv kvs) = 2" "vec_at (rows_of hv kvs) 0 = Inr (enc_seq enc64 (map fst kvs))"
      "(if hv then 2 else 1) = length (rows_of hv kvs)"
    by (simp_all add: rows_of_def)
  have keys: "keys_of (enc_seq enc64 (map fst kvs)) = map fst kvs" by (simp add: keys_of_def)
  have "kv_Partition vlen z (rows_of hv kvs) [] = Inr (int (length out2), out2)"
    using cs(1) len(1) out1(1) [unfolded len(3)] out2(1) len(2) keys small(1) by (simp add: kv_Partition_def Let_def)
  moreover have "\<forall>i \<in> fst ` set out2. piece_of out2 i = rows_of hv (share ?dst i kvs)"
  proof
    fix i
    assume "i \<in> fst ` set out2"
    then have "i \<in> ?dst ` fst ` set kvs" by (simp only: out2(3) out1(3) cs(3))
    then obtain k v where "(k, v) \<in> set kvs" "i = ?dst k" by auto
    then show "piece_of out2 i = rows_of hv (share ?dst i kvs)" using out2(4) by blast
  qed
  moreover have "fst ` set out2 = ?dst ` fst ` set kvs" by (simp only: out2(3) out1(3) cs(3))
  ultimately show ?thesis using out2(2) by blast
qed

text \<open>C34. For fewer than 2^31 keys, whose rows have together fewer than 2^32 floats, \<open>Partition\<close> sends every
  server exactly the keys it owns: the servers that get a message are those that own a key of
  the request, each gets its keys in the order of the request, with
  their rows when the request has values, and the count it returns is the number of messages.\<close>

theorem kv_Partition_shares:
  assumes z: "num_servers z = int n" "0 < n" "n < 2 ^ 31" and wf: "rows_wf vlen kvs" and hv: "hv \<longrightarrow> 0 < vlen"
    and small: "length kvs < 2 ^ 31" "hv \<longrightarrow> length kvs * vlen < 2 ^ 32"
  shows "\<exists>out. kv_Partition vlen z (rows_of hv kvs) [] = Inr (int (length out), out)
    \<and> distinct (map fst out) \<and> fst ` set out = server_of n ` fst ` set kvs
    \<and> (\<forall>i \<in> fst ` set out. piece_of out i = rows_of hv (share (server_of n) i kvs))"
  by (rule kv_Partition_ok [OF z wf hv small])

text \<open>An \<open>Add\<close> with an option, the only kind the C interface sends, never reaches a server:
  \<open>Add\<close> builds three blobs, the server's \<open>ProcessAdd\<close> reads three, but \<open>Partition\<close> checks for
  one or two and ends the process.\<close>

theorem kv_add_option_fatal:
  assumes "length ks = n" and "length vs = n * vlen"
  shows "\<exists>kv. kv_worker_Add vlen ks n vs (n * vlen) (Some opt) = Inr kv \<and> kv_Partition vlen z kv out = Inl Check"
  using assms by (simp add: kv_worker_Add_def buf_read_def kv_Partition_def)

section \<open>The worker's copy\<close>

lemma keys_of_enc [simp]: "keys_of (enc_seq enc64 ks) = ks"
  by (simp add: keys_of_def)

lemma set_rows_loop:
  assumes "kv_inv s" and "rows_wf (value_len s) (pre @ suf)" and "length (pre @ suf) * value_len s < 2 ^ 32"
  shows "fold_res (kv_set_row (concat (map snd (pre @ suf)))) s (enumerate (length pre) (map fst suf)) =
    fold_res (\<lambda>s (k, xs). kv_Set k xs False s) s suf"
  using assms
proof (induction suf arbitrary: pre s)
  case Nil
  then show ?case by simp
next
  case (Cons p suf)
  obtain k row where p: "p = (k, row)" by (cases p)
  have "length pre * value_len s + value_len s \<le> length (pre @ p # suf) * value_len s"
    using mult_le_mono1 [of "Suc (length pre)" "length (pre @ p # suf)" "value_len s"] by simp
  moreover have "take (value_len s) (drop (length pre * value_len s) (concat (map snd (pre @ p # suf)))) = row"
    by (subst row_at [OF rows_wf_rows [OF Cons.prems(2)]]) (simp_all add: nth_append p)
  ultimately have "buf_read (concat (map snd (pre @ p # suf))) (length pre * value_len s) (value_len s) = Inr row"
    by (simp only: buf_read_def rows_length [OF Cons.prems(2)] if_True)
  moreover have "length pre * value_len s \<le> length (pre @ p # suf) * value_len s" by (intro mult_le_mono1) simp
  then have "row_off (length pre) (value_len s) = length pre * value_len s"
    using Cons.prems(3) by (intro row_off_small) (rule le_less_trans)
  ultimately have step: "kv_set_row (concat (map snd (pre @ p # suf))) s (length pre, k) = kv_Set k row False s"
    by (simp add: kv_set_row_def)
  show ?case
  proof (cases "kv_full s k")
    case True
    then show ?thesis using step kv_Set_full [OF Cons.prems(1) True, of row False] p by simp
  next
    case False
    then obtain s1 where s1: "kv_Set k row False s = Inr s1" "kv_inv s1" "value_len s1 = value_len s"
      using kv_Set_ok [OF Cons.prems(1) _ False, of row False] Cons.prems(2) p by auto
    then show ?thesis using Cons.IH [OF s1(2), of "pre @ [p]"] Cons.prems(2,3) step p by simp
  qed
qed

lemma kv_ProcessReplyGet_puts:
  assumes "kv_inv s" and wf: "rows_wf (value_len s) kvs"
    and "length kvs < 2 ^ 31" "length kvs * value_len s < 2 ^ 32"
  shows "kv_ProcessReplyGet (rows_of True kvs) s = fold_res (\<lambda>s (k, xs). kv_Set k xs False s) s kvs"
  using set_rows_loop [of s "[]" kvs] assms rows_length [OF wf]
  by (simp add: kv_ProcessReplyGet_def rows_of_def numeral_2_eq_2)

lemma puts_distinct:
  assumes "distinct (map fst kvs)" and "(k, xs) \<in> set kvs"
  shows "puts im kvs m k = Some (xs, im)"
  using assms
proof (induction kvs rule: rev_induct)
  case (snoc p kvs)
  then show ?case by (cases p) (force simp: puts_def)
qed simp

lemma copy_row_ok:
  assumes "kv_inv s" and k: "kv_abs s k = Some (row, im)" and row: "length row = value_len s" "0 < value_len s"
    and i: "i < length key" "key ! i = k" and mem: "(i + 1) * (value_len s * 4) \<le> length mem"
    and pre: "take (i * (value_len s * 4)) mem = done_rows"
  shows "\<exists>mem'. kv_copy_row key (mem, s) i = Inr (mem', s) \<and> length mem' = length mem
    \<and> take ((i + 1) * (value_len s * 4)) mem' = done_rows @ enc_seq enc32 row"
proof -
  have "\<not> kv_full s k" using kv_full_abs [of s k] assms(1) k by auto
  then obtain p where p: "kv_find k s = Inr (p, s)" "kv_read s p = Some row"
    using kv_find_ok [OF assms(1), of k] k by auto
  then obtain off where off: "p = Some off" "row = take (value_len s) (drop off (kv_data s))"
    by (auto simp: kv_read_def)
  have "off + value_len s \<le> length (kv_data s)" using arg_cong [OF off(2), of length] row by simp
  then have read: "buf_read (kv_data s) off (value_len s) = Inr row" using off(2) by (simp add: buf_read_def)
  let ?o = "i * (value_len s * 4)"
  let ?mem = "take ?o mem @ enc_seq enc32 row @ drop (?o + value_len s * 4) mem"
  have o: "?o + value_len s * 4 \<le> length mem" using mem by (simp add: add.commute)
  then have "buf_write mem ?o (enc_seq enc32 row) = Inr ?mem" using row by (simp add: buf_write_def)
  then have "kv_copy_row key (mem, s) i = Inr (?mem, s)"
    using p(1) off(1) read i by (simp add: kv_copy_row_def)
  moreover have "length ?mem = length mem" using o row by simp
  moreover have dl: "length done_rows = ?o" using o by (simp flip: pre)
  moreover have "take (?o + value_len s * 4) ?mem = done_rows @ enc_seq enc32 row"
    using dl pre row by simp
  ultimately show ?thesis by (intro exI [of _ ?mem]) (simp add: add.commute)
qed

lemma copy_rows_loop:
  assumes inv: "kv_inv s" and vl: "0 < value_len s" and wf: "rows_wf (value_len s) (pre @ suf)"
    and present: "\<forall>(k, row) \<in> set suf. \<exists>im. kv_abs s k = Some (row, im)"
    and mem: "length (pre @ suf) * (value_len s * 4) \<le> length mem"
      "take (length pre * (value_len s * 4)) mem = enc_seq enc32 (concat (map snd pre))"
  shows "\<exists>mem'. fold_res (kv_copy_row (map fst (pre @ suf))) (mem, s) [length pre..<length (pre @ suf)] = Inr (mem', s)
    \<and> length mem' = length mem
    \<and> take (length (pre @ suf) * (value_len s * 4)) mem' = enc_seq enc32 (concat (map snd (pre @ suf)))"
  using wf present mem
proof (induction suf arbitrary: pre mem)
  case Nil
  then show ?case by simp
next
  case (Cons p suf)
  obtain k row where p: "p = (k, row)" by (cases p)
  obtain im where im: "kv_abs s k = Some (row, im)" using Cons.prems(2) p by auto
  have "(length pre + 1) * (value_len s * 4) \<le> length (pre @ p # suf) * (value_len s * 4)"
    by (intro mult_le_mono1) simp
  then have "(length pre + 1) * (value_len s * 4) \<le> length mem" using Cons.prems(3) by (rule le_trans)
  then obtain mem1 where mem1: "kv_copy_row (map fst (pre @ p # suf)) (mem, s) (length pre) = Inr (mem1, s)"
      "length mem1 = length mem"
      "take ((length pre + 1) * (value_len s * 4)) mem1 = enc_seq enc32 (concat (map snd pre)) @ enc_seq enc32 row"
    using copy_row_ok [OF inv im _ vl _ _ _ Cons.prems(4), of "map fst (pre @ p # suf)"] Cons.prems(1) p
    by (auto simp: nth_append)
  have "[length pre..<length (pre @ p # suf)] = length pre # [length (pre @ [p])..<length ((pre @ [p]) @ suf)]"
    by (simp add: upt_rec)
  moreover have "\<exists>mem'. fold_res (kv_copy_row (map fst ((pre @ [p]) @ suf))) (mem1, s)
      [length (pre @ [p])..<length ((pre @ [p]) @ suf)] = Inr (mem', s) \<and> length mem' = length mem1
    \<and> take (length ((pre @ [p]) @ suf) * (value_len s * 4)) mem' = enc_seq enc32 (concat (map snd ((pre @ [p]) @ suf)))"
    using Cons.prems mem1(2,3) p by (intro Cons.IH) simp_all
  ultimately show ?case using mem1(1,2) by (simp del: upt_Suc)
qed

text \<open>C35. A reply to a Get, of distinct keys and fewer than 2^31 floats, is in the local copy afterwards: unless the probes of one of its keys find only
  other keys, in which case the process ends there, the worker's map is the old one
  overwritten with the reply's rows, and \<open>GetFromLocal\<close> on the keys of the request copies exactly
  those rows, in the order of the keys, into the tensor, which it has reshaped to the number of
  keys by \<open>value_len\<close>.\<close>

theorem kv_reply_then_read:
  assumes inv: "kv_inv s" and wf: "rows_wf (value_len s) kvs" and vl: "0 < value_len s"
    and ks: "distinct (map fst kvs)" "kvs \<noteq> []" and small: "length kvs * value_len s < 2 ^ 31"
    and t: "tensor_wf t" "t_dtype t = type_flag KFloat32"
  shows "kv_ProcessReplyGet (rows_of True kvs) s = Inl Fatal
      \<and> (\<exists>us k xs vs s1. kvs = us @ (k, xs) # vs \<and> kv_ProcessReplyGet (rows_of True us) s = Inr s1 \<and> kv_full s1 k)
    \<or> (\<exists>s' t' mem. kv_ProcessReplyGet (rows_of True kvs) s = Inr s' \<and> kv_inv s'
        \<and> kv_abs s' = puts False kvs (kv_abs s)
        \<and> kv_GetFromLocal (map fst kvs) (length kvs) t s' = Inr (t', s')
        \<and> t_shape t' = [of_nat (length kvs), of_nat (value_len s)] \<and> t_size t' = length kvs * value_len s
        \<and> t_blob t' = Some mem \<and> take (t_size t' * 4) mem = enc_seq enc32 (concat (map snd kvs)))"
proof -
  have "length us < 2 ^ 31 \<and> length us * value_len s < 2 ^ 32" if "length us \<le> length kvs" for us :: "(u64 \<times> f32 list) list"
  proof -
    have "length us * value_len s \<le> length kvs * value_len s" using that by (rule mult_le_mono1)
    moreover have "length us \<le> length us * value_len s" using vl by simp
    moreover have "(2 :: nat) ^ 31 < 2 ^ 32" by simp
    ultimately show ?thesis using small by (intro conjI) linarith+
  qed
  note puts = kv_ProcessReplyGet_puts [OF inv _ conjunct1 [OF this] conjunct2 [OF this]]
  have wf': "\<forall>(k, xs) \<in> set kvs. length xs = value_len s" using wf by (simp add: rows_wf_def)
  from store.put_all [OF inv wf', of False] show ?thesis
  proof (elim disjE conjE exE)
    fix us k xs vs s1
    assume "fold_res (\<lambda>s (k, xs). kv_Set k xs False s) s kvs = Inl Fatal" and split: "kvs = us @ (k, xs) # vs"
      and us: "fold_res (\<lambda>s (k, xs). kv_Set k xs False s) s us = Inr s1" "kv_full s1 k"
    then show ?thesis
      using puts [OF wf] puts [of us] wf by auto
  next
    fix s'
    assume fold: "fold_res (\<lambda>s (k, xs). kv_Set k xs False s) s kvs = Inr s'" and inv': "kv_inv s'"
      and vl': "value_len s' = value_len s" and abs: "kv_abs s' = puts False kvs (kv_abs s)"
    let ?n = "length kvs" and ?v = "value_len s"
    have "?n \<le> ?n * ?v" "?v \<le> ?n * ?v" using vl ks(2) by (simp_all add: Suc_le_eq)
    then have v64: "?n < 2 ^ 31" "?v < 2 ^ 31" using small by (simp_all only: le_less_trans)
    have ty: "TensorDataTypeSize (t_dtype t) = Inr 4"
      using t(2) by (simp add: TensorDataTypeSize_def)
    have prod: "prod_list (map unat [of_nat ?n :: 32 word, of_nat ?v]) = ?n * ?v"
      using v64 by (simp add: unat_of_nat)
    obtain t1 where t1: "Reshape [of_nat ?n, of_nat ?v] t = Inr t1" "tensor_wf t1"
        "t_shape t1 = [of_nat ?n, of_nat ?v]" "t_size t1 = ?n * ?v" "t_dtype t1 = t_dtype t"
      using Reshape_wf [OF t(1) ty, of "[of_nat ?n, of_nat ?v]"] prod small by auto
    obtain mem where mem: "t_blob t1 = Some mem" "?n * (?v * 4) \<le> length mem"
      using t1(2,4,5) ty vl ks(2) by (auto simp: tensor_wf_def split: option.splits)
    have "\<forall>(k, row) \<in> set kvs. \<exists>im. kv_abs s' k = Some (row, im)"
      using puts_distinct [OF ks(1)] abs by auto
    then obtain mem' where mem': "fold_res (kv_copy_row (map fst kvs)) (mem, s') [0..<?n] = Inr (mem', s')"
        "take (?n * (?v * 4)) mem' = enc_seq enc32 (concat (map snd kvs))"
      using copy_rows_loop [OF inv', of "[]" kvs mem] vl vl' wf mem(2) by auto
    have "kv_GetFromLocal (map fst kvs) ?n t s' = Inr (t1\<lparr>t_blob := Some mem'\<rparr>, s')"
      using t(2) t1(1) vl' mem(1) mem'(1) v64(1) by (simp add: kv_GetFromLocal_def mutable_data_def)
    then show ?thesis
      using puts [OF wf] fold inv' abs t1(3,4) mem'(2)
      by (intro disjI2 exI [of _ s'] exI [of _ "t1\<lparr>t_blob := Some mem'\<rparr>"] exI [of _ mem']) (simp add: mult.assoc)
  qed
qed

section \<open>The server\<close>

text \<open>
  A Get on the server reads rows one key after the other and adds the missing keys; once a key has a
  row, the later keys of the request leave it alone.
\<close>

definition kv_row :: "kvstore \<Rightarrow> u64 \<Rightarrow> f32 list" where
  "kv_row s k = (case kv_abs s k of None \<Rightarrow> [] | Some (row, _) \<Rightarrow> row)"

lemma value_at_length: "kv_inv s \<Longrightarrow> i \<in> used s \<Longrightarrow> length (value_at s i) = value_len s"
  using used_offset(1) [of s i] by (simp add: value_at_def)

lemma kv_get_row_ok:
  assumes inv: "kv_inv (ks_store t)" and rnd: "rng_ok G" "random_wf (ks_random t)"
    and vl: "value_len (ks_store t) = v" and nf: "\<not> kv_full (ks_store t) k"
    and vals: "(i + 1) * v * 4 \<le> length vals" and small: "i * v < 2 ^ 32"
  shows "\<exists>t' row. kv_get_row G (t, vals) (i, k) =
      Inr (t', take (i * v * 4) vals @ enc_seq enc32 row @ drop ((i + 1) * v * 4) vals)
    \<and> kv_inv (ks_store t') \<and> random_wf (ks_random t') \<and> ks_updater t' = ks_updater t
    \<and> value_len (ks_store t') = v \<and> length row = v \<and> kv_row (ks_store t') k = row
    \<and> kv_abs (ks_store t) \<subseteq>\<^sub>m kv_abs (ks_store t')
    \<and> dom (kv_abs (ks_store t')) = insert k (dom (kv_abs (ks_store t)))"
proof -
  from kv_Get_address [OF inv nf] obtain j immu new s' where
      g0: "kv_Get k False (ks_store t) = Inr (Some (node_off (kv_nodes s' ! j)), immu, new, s')"
      "kv_inv s'" "j \<in> used s'" "node_key (kv_nodes s' ! j) = k" "node_immu (kv_nodes s' ! j) = immu"
      "new = (kv_abs (ks_store t) k = None)"
      "if new then \<not> immu \<and> value_at s' j = take (value_len (ks_store t)) (drop (data_size (ks_store t)) (kv_data (ks_store t)))
       else s' = ks_store t"
      "kv_abs s' = (kv_abs (ks_store t))(k \<mapsto> (value_at s' j, immu))" "value_len s' = value_len (ks_store t)"
    by (elim exE conjE) (rule that)
  note g = g0(1-8) g0(9) [unfolded vl]
  have o: "i * v * 4 + v * 4 \<le> length vals" using vals by (simp add: add_mult_distrib)
  show ?thesis
  proof (cases new)
    case False
    let ?row = "value_at s' j"
    have len: "length ?row = v" using value_at_length [OF g(2,3)] g(9) by simp
    have "buf_read (kv_data s') (node_off (kv_nodes s' ! j)) v = Inr ?row"
      using used_offset(1) [OF g(2,3)] g(9) by (simp add: buf_read_def value_at_def)
    moreover have "buf_write vals (i * v * 4) (enc_seq enc32 ?row) =
        Inr (take (i * v * 4) vals @ enc_seq enc32 ?row @ drop ((i + 1) * v * 4) vals)"
      using o len by (simp add: buf_write_def add.commute)
    ultimately have "kv_get_row G (t, vals) (i, k) =
        Inr (t\<lparr>ks_store := s'\<rparr>, take (i * v * 4) vals @ enc_seq enc32 ?row @ drop ((i + 1) * v * 4) vals)"
      using g(1,9) False small by (simp add: kv_get_row_def Let_def)
    moreover have "kv_abs s' k = Some (?row, immu)" using g(8) by simp
    moreover have "s' = ks_store t" using g(7) False by simp
    ultimately show ?thesis using g(2,9) rnd(2) len
      by (intro exI [of _ "t\<lparr>ks_store := s'\<rparr>"] exI [of _ ?row]) (auto simp: kv_row_def)
  next
    case True
    obtain xs r where xs: "rnd_Gen G v (ks_random t) = Inr (xs, r)" "length xs = v" "random_wf r"
      using rnd_Gen_ok [OF rnd, of v] by auto
    have len: "length xs = value_len s'" using xs(2) g(9) by simp
    let ?s = "write_node s' j xs immu" and ?off = "node_off (kv_nodes s' ! j)"
    obtain dat where dat: "buf_write (kv_data s') ?off xs = Inr dat" "s'\<lparr>kv_data := dat\<rparr> = ?s"
      using write_in_place [OF g(2,3) len] g(5) by auto
    have ab: "kv_abs ?s = (kv_abs (ks_store t))(k \<mapsto> (xs, immu))"
      using write_abs [OF g(2,3) len, of immu] g(4,8) by simp
    have vs: "value_len ?s = v" using g(9) by (simp flip: dat(2))
    have "j \<in> used ?s" "kv_inv ?s" using write_facts(1) [OF g(2,3)] g(3) write_inv [OF g(2,3) len] by simp_all
    note used_offset(1) [OF this(2,1)]
    moreover have off: "node_off (kv_nodes ?s ! j) = ?off" using write_facts(3) [OF g(2,3,3)] by simp
    moreover have "value_at ?s j = xs"
      using kv_abs_used [OF \<open>kv_inv ?s\<close> \<open>j \<in> used ?s\<close>] ab write_facts(2) [OF g(2,3), of xs immu j] g(4) by simp
    ultimately have "buf_read (kv_data ?s) ?off v = Inr xs"
      using vs by (simp add: buf_read_def value_at_def)
    moreover have "buf_write vals (i * v * 4) (enc_seq enc32 xs) =
        Inr (take (i * v * 4) vals @ enc_seq enc32 xs @ drop ((i + 1) * v * 4) vals)"
      using o xs(2) by (simp add: buf_write_def add.commute)
    ultimately have "kv_get_row G (t, vals) (i, k) =
        Inr (t\<lparr>ks_store := ?s, ks_random := r\<rparr>, take (i * v * 4) vals @ enc_seq enc32 xs @ drop ((i + 1) * v * 4) vals)"
      using g(1,9) True xs(1) dat small by (simp add: kv_get_row_def Let_def)
    then show ?thesis using \<open>kv_inv ?s\<close> vs ab xs(2,3) g(6) True
      by (intro exI [of _ "t\<lparr>ks_store := ?s, ks_random := r\<rparr>"] exI [of _ xs]) (auto simp: kv_row_def map_le_def)
  qed
qed

lemma kv_row_le: "m \<subseteq>\<^sub>m kv_abs s' \<Longrightarrow> m = kv_abs s \<Longrightarrow> k \<in> dom m \<Longrightarrow> kv_row s' k = kv_row s k"
  by (auto simp: kv_row_def map_le_def)

lemma kv_get_stuck_Cons:
  assumes "kv_get_row G (t, vals) (i, k) = Inr (t1, vals1)"
    and "ks = us @ k' # vs" "fold_res (kv_get_row G) (t1, vals1) (enumerate (Suc i) us) = Inr (t2, vals2)" "kv_full (ks_store t2) k'"
  shows "k # ks = (k # us) @ k' # vs \<and> fold_res (kv_get_row G) (t, vals) (enumerate i (k # us)) = Inr (t2, vals2)
    \<and> kv_full (ks_store t2) k'"
  using assms by simp

lemma kv_get_loop:
  assumes rnd: "rng_ok G" and vl: "0 < v"
  shows "kv_inv (ks_store t) \<Longrightarrow> random_wf (ks_random t) \<Longrightarrow> value_len (ks_store t) = v \<Longrightarrow>
    (n + length suf) * v * 4 \<le> length vals \<Longrightarrow> take (n * v * 4) vals = pre \<Longrightarrow> (n + length suf) * v < 2 ^ 32 \<Longrightarrow>
    fold_res (kv_get_row G) (t, vals) (enumerate n suf) = Inl Fatal
      \<and> (\<exists>us k vs t1 vals1. suf = us @ k # vs
           \<and> fold_res (kv_get_row G) (t, vals) (enumerate n us) = Inr (t1, vals1) \<and> kv_full (ks_store t1) k)
    \<or> (\<exists>t' vals'. fold_res (kv_get_row G) (t, vals) (enumerate n suf) = Inr (t', vals')
      \<and> kv_inv (ks_store t') \<and> ks_updater t' = ks_updater t \<and> kv_abs (ks_store t) \<subseteq>\<^sub>m kv_abs (ks_store t')
      \<and> dom (kv_abs (ks_store t')) = set suf \<union> dom (kv_abs (ks_store t)) \<and> length vals' = length vals
      \<and> take ((n + length suf) * v * 4) vals' = pre @ enc_seq enc32 (concat (map (kv_row (ks_store t')) suf)))"
proof (induction suf arbitrary: t vals n pre)
  case Nil
  then show ?case by auto
next
  case (Cons k suf)
  show ?case
  proof (cases "kv_full (ks_store t) k")
    case True
    then have "kv_get_row G (t, vals) (n, k) = Inl Fatal"
      using kv_Get_address_full [OF Cons.prems(1)] by (simp add: kv_get_row_def)
    then have "fold_res (kv_get_row G) (t, vals) (enumerate n (k # suf)) = Inl Fatal" by simp
    moreover have "k # suf = [] @ k # suf \<and> fold_res (kv_get_row G) (t, vals) (enumerate n []) = Inr (t, vals)
        \<and> kv_full (ks_store t) k" using True by simp
    ultimately show ?thesis by (intro disjI1 conjI) blast+
  next
    case False
    have "(n + 1) * v * 4 \<le> (n + length (k # suf)) * v * 4" by (intro mult_le_mono1) simp
    then have room: "(n + 1) * v * 4 \<le> length vals" using Cons.prems(4) by (rule le_trans)
    have "n * v \<le> (n + length (k # suf)) * v" by (intro mult_le_mono1) simp
    then have small: "n * v < 2 ^ 32" using Cons.prems(6) by (rule le_less_trans)
    obtain t1 row where s: "kv_get_row G (t, vals) (n, k) =
        Inr (t1, take (n * v * 4) vals @ enc_seq enc32 row @ drop ((n + 1) * v * 4) vals)"
      "kv_inv (ks_store t1)" "random_wf (ks_random t1)" "ks_updater t1 = ks_updater t"
      "value_len (ks_store t1) = v" "length row = v" "kv_row (ks_store t1) k = row"
      "kv_abs (ks_store t) \<subseteq>\<^sub>m kv_abs (ks_store t1)"
      "dom (kv_abs (ks_store t1)) = insert k (dom (kv_abs (ks_store t)))"
      using kv_get_row_ok [OF Cons.prems(1) rnd Cons.prems(2,3) False room small] by blast
    let ?vals = "take (n * v * 4) vals @ enc_seq enc32 row @ drop ((n + 1) * v * 4) vals"
    have len: "length ?vals = length vals" and pre: "take (Suc n * v * 4) ?vals = pre @ enc_seq enc32 row"
      and short: "(Suc n + length suf) * v * 4 \<le> length ?vals"
      using room s(6) Cons.prems(4) Cons.prems(5) by (auto simp: add_mult_distrib)
    have "(Suc n + length suf) * v < 2 ^ 32" using Cons.prems(6) by simp
    from Cons.IH [OF s(2,3,5) short pre this] show ?thesis
    proof (elim disjE conjE exE)
      fix us k' vs t2 vals2
      assume *: "suf = us @ k' # vs" "fold_res (kv_get_row G) (t1, ?vals) (enumerate (Suc n) us) = Inr (t2, vals2)"
          "kv_full (ks_store t2) k'"
        and "fold_res (kv_get_row G) (t1, ?vals) (enumerate (Suc n) suf) = Inl Fatal"
      then have "fold_res (kv_get_row G) (t, vals) (enumerate n (k # suf)) = Inl Fatal" using s(1) by simp
      with kv_get_stuck_Cons [OF s(1) *] show ?thesis by blast
    next
      fix t' vals'
      assume r: "fold_res (kv_get_row G) (t1, ?vals) (enumerate (Suc n) suf) = Inr (t', vals')" "kv_inv (ks_store t')"
          "ks_updater t' = ks_updater t1" "kv_abs (ks_store t1) \<subseteq>\<^sub>m kv_abs (ks_store t')"
          "dom (kv_abs (ks_store t')) = set suf \<union> dom (kv_abs (ks_store t1))" "length vals' = length ?vals"
          "take ((Suc n + length suf) * v * 4) vals' = (pre @ enc_seq enc32 row) @ enc_seq enc32 (concat (map (kv_row (ks_store t')) suf))"
      have "kv_row (ks_store t') k = row" using kv_row_le [OF r(4) refl] s(7,9) by simp
      moreover have "fold_res (kv_get_row G) (t, vals) (enumerate n (k # suf)) = Inr (t', vals')" using s(1) r(1) by simp
      moreover have "kv_abs (ks_store t) \<subseteq>\<^sub>m kv_abs (ks_store t')" using s(8) r(4) by (rule map_le_trans)
      ultimately show ?thesis using r s(4,9) len by (intro disjI2 exI [of _ t'] exI [of _ vals']) simp
    qed
  qed
qed

text \<open>C36. A Get on the server of fewer than 2^31 keys whose rows, none of them empty, have together fewer
  than 2^32 floats answers with the keys of the request and one row a key, and the rows are those
  its map has afterwards: keys that were there keep their rows, the missing ones are added with
  random rows, nothing else changes. The exception is a key whose probes find only other keys,
  which ends the process.\<close>

theorem kv_server_get:
  assumes inv: "kv_inv (ks_store t)" and rnd: "rng_ok G" "random_wf (ks_random t)"
    and vl: "0 < value_len (ks_store t)" and ks: "ks \<noteq> []"
    and small: "length ks < 2 ^ 31" "length ks * value_len (ks_store t) < 2 ^ 32"
  shows "kv_ProcessGet G t [enc_seq enc64 ks] = Inl Fatal
      \<and> (\<exists>k \<in> set ks. \<exists>s1. kv_inv s1 \<and> kv_full s1 k \<and> kv_abs (ks_store t) \<subseteq>\<^sub>m kv_abs s1
           \<and> dom (kv_abs s1) \<subseteq> set ks \<union> dom (kv_abs (ks_store t)))
    \<or> (\<exists>t'. kv_ProcessGet G t [enc_seq enc64 ks] = Inr (rows_of True (map (\<lambda>k. (k, kv_row (ks_store t') k)) ks), t')
      \<and> kv_inv (ks_store t') \<and> ks_updater t' = ks_updater t \<and> kv_abs (ks_store t) \<subseteq>\<^sub>m kv_abs (ks_store t')
      \<and> dom (kv_abs (ks_store t')) = set ks \<union> dom (kv_abs (ks_store t)))"
proof -
  let ?v = "value_len (ks_store t)"
  let ?vals = "replicate (length ks * 4 * ?v) 0 :: blob"
  have alloc: "blob_alloc (length ks * 4 * ?v) = Inr ?vals" using vl ks by (simp add: blob_alloc_def)
  have room: "(0 + length us) * ?v * 4 \<le> length ?vals" if "length us \<le> length ks" for us :: "u64 list"
    using that by simp
  have get: "kv_ProcessGet G t [enc_seq enc64 ks] = bind_res (fold_res (kv_get_row G) (t, ?vals) (enumerate 0 ks))
      (\<lambda>(t', vals). Inr ([enc_seq enc64 ks, vals], t'))"
    using alloc small(1) by (simp add: kv_ProcessGet_def)
  have off: "(0 + length us) * ?v < 2 ^ 32" if "length us \<le> length ks" for us :: "u64 list"
    using le_less_trans [OF mult_le_mono1 [OF that, of ?v] small(2)] by (simp only: add_0)
  note loop = kv_get_loop [OF rnd(1) vl inv rnd(2) refl room _ off, OF _ refl]
  from loop [of ks, OF order_refl order_refl] show ?thesis
  proof (elim disjE conjE exE)
    fix us k vs t1 vals1
    assume fatal: "fold_res (kv_get_row G) (t, ?vals) (enumerate 0 ks) = Inl Fatal"
      and us: "ks = us @ k # vs" "fold_res (kv_get_row G) (t, ?vals) (enumerate 0 us) = Inr (t1, vals1)" "kv_full (ks_store t1) k"
    have "length us \<le> length ks" using us(1) by simp
    then have "kv_inv (ks_store t1)" "kv_abs (ks_store t) \<subseteq>\<^sub>m kv_abs (ks_store t1)"
      "dom (kv_abs (ks_store t1)) = set us \<union> dom (kv_abs (ks_store t))"
      using loop [of us] us(2) by auto
    moreover have "kv_ProcessGet G t [enc_seq enc64 ks] = Inl Fatal" using get fatal by simp
    ultimately show ?thesis using us(1,3) by (intro disjI1 conjI bexI [of _ k] exI [of _ "ks_store t1"]) auto
  next
    fix t' vals'
    assume r: "fold_res (kv_get_row G) (t, ?vals) (enumerate 0 ks) = Inr (t', vals')"
      "take ((0 + length ks) * ?v * 4) vals' = take (0 * ?v * 4) ?vals @ enc_seq enc32 (concat (map (kv_row (ks_store t')) ks))"
      "length vals' = length ?vals" and rest: "kv_inv (ks_store t')" "ks_updater t' = ks_updater t"
      "kv_abs (ks_store t) \<subseteq>\<^sub>m kv_abs (ks_store t')" "dom (kv_abs (ks_store t')) = set ks \<union> dom (kv_abs (ks_store t))"
    have "vals' = enc_seq enc32 (concat (map (kv_row (ks_store t')) ks))" using r(2,3) by simp
    then have "kv_ProcessGet G t [enc_seq enc64 ks] = Inr (rows_of True (map (\<lambda>k. (k, kv_row (ks_store t') k)) ks), t')"
      using get r(1) by (simp add: rows_of_def comp_def)
    with rest show ?thesis by blast
  qed
qed

section \<open>Adding on the server\<close>

text \<open>What the updaters without state of their own do to one cell.\<close>

definition upd_cell :: "'d farith \<Rightarrow> add_option \<Rightarrow> updater \<Rightarrow> f32 \<Rightarrow> f32 \<Rightarrow> f32" where
  "upd_cell A opt u x dl = (if u = Sgd then fsub A x (fmul A dl (learning_rate opt)) else fadd A x dl)"

lemma upd_cell_Update:
  assumes "u = Plain \<or> u = Sgd" and "length d = n" and "n \<le> length delta" and "n < 2 ^ 31"
  shows "updater_Update A z u n d delta opt 0 = Inr (u, map2 (upd_cell A opt u) d (take n delta))"
  using assms plain_Update [of 0 n d delta A z opt] sgd_Update [of 0 n d delta A z opt]
  by (auto simp: upd_cell_def fun_eq_iff)

definition add_row :: "(f32 \<Rightarrow> f32 \<Rightarrow> f32) \<Rightarrow> f32 list \<Rightarrow> (u64 \<rightharpoonup> f32 list \<times> bool) \<Rightarrow> u64 \<times> f32 list \<Rightarrow>
    (u64 \<rightharpoonup> f32 list \<times> bool)" where
  \<comment> \<open>\<open>raw\<close> is what the memory of a new key holds\<close>
  "add_row f raw m = (\<lambda>(k, row). case m k of
       None \<Rightarrow> m(k \<mapsto> (map2 f raw row, False))
     | Some (old, immu) \<Rightarrow> if immu then m else m(k \<mapsto> (map2 f old row, False)))"

definition raw_memory :: "kvstore \<Rightarrow> f32 list" where
  "raw_memory s = take (value_len s) (drop (data_size s) (kv_data s))"

lemma kv_add_row_ok:
  assumes inv: "kv_inv (ks_store t)" and u: "ks_updater t = Plain \<or> ks_updater t = Sgd"
    and v: "value_len (ks_store t) = v" and nf: "\<not> kv_full (ks_store t) k"
    and vals: "(i + 1) * v \<le> length vals" "take v (drop (i * v) vals) = row"
    and small: "i * v < 2 ^ 32" "v < 2 ^ 31"
  shows "\<exists>t'. kv_add_row A z opt vals t (i, k) = Inr t' \<and> kv_inv (ks_store t')
    \<and> ks_updater t' = ks_updater t \<and> ks_random t' = ks_random t \<and> value_len (ks_store t') = v
    \<and> kv_abs (ks_store t') = add_row (upd_cell A opt (ks_updater t)) (raw_memory (ks_store t)) (kv_abs (ks_store t)) (k, row)"
proof -
  from kv_Get_address [OF inv nf] obtain j immu new s' where
      g0: "kv_Get k False (ks_store t) = Inr (Some (node_off (kv_nodes s' ! j)), immu, new, s')"
      "kv_inv s'" "j \<in> used s'" "node_key (kv_nodes s' ! j) = k" "node_immu (kv_nodes s' ! j) = immu"
      "new = (kv_abs (ks_store t) k = None)"
      "if new then \<not> immu \<and> value_at s' j = take (value_len (ks_store t)) (drop (data_size (ks_store t)) (kv_data (ks_store t)))
       else s' = ks_store t"
      "kv_abs s' = (kv_abs (ks_store t))(k \<mapsto> (value_at s' j, immu))" "value_len s' = value_len (ks_store t)"
    by (elim exE conjE) (rule that)
  note g = g0(1-8) g0(9) [unfolded v]
  have old: "\<not> new \<Longrightarrow> kv_abs (ks_store t) k = Some (value_at s' j, immu)"
    using g(7,8) by (metis fun_upd_same)
  show ?thesis
  proof (cases immu)
    case True
    then have new: "\<not> new" using g(7) by auto
    then have "s' = ks_store t" using g(7) by simp
    then show ?thesis using g(1,2,9) old [OF new] True
      by (intro exI [of _ "t\<lparr>ks_store := s'\<rparr>"]) (simp add: kv_add_row_def add_row_def)
  next
    case False
    let ?x = "value_at s' j" and ?f = "upd_cell A opt (ks_updater t)"
    let ?new = "map2 ?f ?x row" and ?off = "node_off (kv_nodes s' ! j)"
    have lx: "length ?x = v" using value_at_length [OF g(2,3)] g(9) by simp
    have lr: "v \<le> length (drop (i * v) vals)" "length row = v" using vals by auto
    then have ln: "length ?new = value_len s'" using lx g(9) by simp
    have read: "buf_read (kv_data s') ?off v = Inr ?x"
      using used_offset(1) [OF g(2,3)] g(9) by (simp add: buf_read_def value_at_def)
    have upd: "updater_Update A z (ks_updater t) v ?x (drop (i * v) vals) opt 0 = Inr (ks_updater t, ?new)"
      using upd_cell_Update [OF u lx lr(1) small(2)] vals(2) by simp
    obtain dat where dat: "buf_write (kv_data s') ?off ?new = Inr dat" "s'\<lparr>kv_data := dat\<rparr> = write_node s' j ?new immu"
      using write_in_place [OF g(2,3) ln] g(5) by auto
    have "kv_add_row A z opt vals t (i, k) = Inr (t\<lparr>ks_store := write_node s' j ?new immu\<rparr>)"
      using g(1,9) False read upd dat(1) dat(2) small(1)
      by (simp add: kv_add_row_def del: updater_Update.simps)
    moreover have "value_len (write_node s' j ?new immu) = v" using g(9) by (simp flip: dat(2))
    moreover have "kv_abs (write_node s' j ?new immu) =
        add_row ?f (raw_memory (ks_store t)) (kv_abs (ks_store t)) (k, row)"
    proof (cases new)
      case True
      then have "?x = raw_memory (ks_store t)" "kv_abs (ks_store t) k = None" using g(6,7) by (auto simp: raw_memory_def)
      then show ?thesis using write_abs [OF g(2,3) ln, of immu] g(4,8) False by (simp add: add_row_def)
    next
      case new: False
      then show ?thesis using write_abs [OF g(2,3) ln, of immu] g(4,8) old [OF new] False by (simp add: add_row_def)
    qed
    ultimately show ?thesis using write_inv [OF g(2,3) ln]
      by (intro exI [of _ "t\<lparr>ks_store := write_node s' j ?new immu\<rparr>"]) simp
  qed
qed






text \<open>An Add of a key the server does not have starts from whatever the memory of the new key
  holds: \<open>ProcessAdd\<close> does not look at \<open>new_data\<close>, as \<open>ProcessGet\<close> does, and so adds the delta
  to uninitialised floats.\<close>

theorem kv_add_uninitialised:
  assumes "kv_inv (ks_store t)" and "ks_updater t = Plain" and wf: "length row = value_len (ks_store t)"
    and new: "kv_abs (ks_store t) k = None" and nf: "\<not> kv_full (ks_store t) k" and w: "worker_rank z = Inr w"
    and small: "value_len (ks_store t) < 2 ^ 31"
  shows "\<exists>t'. kv_ProcessAdd A z t (rows_of True [(k, row)]) = Inr t'
    \<and> kv_abs (ks_store t') = (kv_abs (ks_store t))(k \<mapsto> (map2 (fadd A) (raw_memory (ks_store t)) row, False))"
proof -
  obtain t' where "kv_add_row A z (new_add_option w) row t (0, k) = Inr t'"
    "kv_abs (ks_store t') = add_row (upd_cell A (new_add_option w) Plain) (raw_memory (ks_store t)) (kv_abs (ks_store t)) (k, row)"
    using kv_add_row_ok [OF assms(1) _ refl nf, of 0 row row A z "new_add_option w"] assms(2) wf small by auto
  moreover have "upd_cell A (new_add_option w) Plain = fadd A" by (simp add: upd_cell_def fun_eq_iff)
  moreover have "rows_of True [(k, row)] = [enc_seq enc64 [k], enc_seq enc32 row]" by (simp add: rows_of_def)
  ultimately show ?thesis using w new wf
    by (simp add: kv_ProcessAdd_def numeral_2_eq_2 numeral_3_eq_3 add_row_def int_body_def fits_int_def del: c64.enc_seq_simps)
qed

section \<open>The properties at concrete inputs\<close>

lemma kv_Partition_shares_witness:
  "\<exists>out. kv_Partition 1 two_servers (rows_of True [(2, [7]), (3, [8]), (4, [9])]) [] = Inr (int (length out), out)
    \<and> distinct (map fst out) \<and> fst ` set out = server_of 2 ` fst ` set [(2 :: u64, [7 :: f32]), (3, [8]), (4, [9])]
    \<and> (\<forall>i \<in> fst ` set out. piece_of out i = rows_of True (share (server_of 2) i [(2, [7]), (3, [8]), (4, [9])]))"
  by (rule kv_Partition_shares) (simp_all add: two_servers_def)

lemma kv_add_option_fatal_witness:
  "\<exists>kv. kv_worker_Add 1 [2, 3] 2 [7, 8] (2 * 1) (Some (new_add_option 0)) = Inr kv \<and> kv_Partition 1 two_servers kv [] = Inl Check"
  by (rule kv_add_option_fatal) simp_all

definition demo_tensor :: tensor where
  "demo_tensor = \<lparr>t_blob = None, t_shape = [], t_size = 0, t_capacity = 0, t_dtype = 2\<rparr>"

lemma kv_reply_then_read_witness:
  "\<exists>s' t' mem. kv_ProcessReplyGet (rows_of True [(2, [7]), (3, [8])]) demo_store = Inr s' \<and> kv_inv s'
    \<and> kv_GetFromLocal [2, 3] (Suc (Suc 0)) demo_tensor s' = Inr (t', s')
    \<and> t_blob t' = Some mem \<and> take (t_size t' * 4) mem = enc_seq enc32 [7, 8]"
proof -
  have ty: "t_dtype demo_tensor = type_flag KFloat32" by (simp add: demo_tensor_def)
  have wf: "tensor_wf demo_tensor" by (simp add: demo_tensor_def tensor_wf_def TensorDataTypeSize_def)
  have run: "isl (kv_ProcessReplyGet (rows_of True [(2, [7]), (3, [8])]) demo_store) = False"
    by code_simp
  then have "kv_ProcessReplyGet (rows_of True [(2, [7]), (3, [8])]) demo_store \<noteq> Inl Fatal" by auto
  then show ?thesis
    using kv_reply_then_read [OF demo_store_facts(1), of "[(2, [7]), (3, [8])]", OF _ _ _ _ _ wf ty] demo_store_facts(4)
    by (simp del: enumerate_simps c32.enc_seq_simps) blast
qed

definition demo_kv_server :: "nat \<Rightarrow> i32 kv_server" where
  "demo_kv_server k = \<lparr>ks_store = (if k = 0 then demo_store else insert_node demo_store 2 2), ks_updater = Plain,
     ks_random = new_random 7\<rparr>"

lemma demo_kv_server_1:
  "kv_inv (ks_store (demo_kv_server 1))" "value_len (ks_store (demo_kv_server 1)) = 1"
  "2 \<in> dom (kv_abs (ks_store (demo_kv_server 1)))"
proof -
  show "kv_inv (ks_store (demo_kv_server 1))" using demo_insert(2) by (simp add: demo_kv_server_def)
  show "value_len (ks_store (demo_kv_server 1)) = 1"
    by (simp add: demo_kv_server_def insert_node_def demo_store_facts)
  have "kv_abs (insert_node demo_store 2 2) 2 \<noteq> None" using kv_abs_None demo_insert(3,4) by fastforce
  then show "2 \<in> dom (kv_abs (ks_store (demo_kv_server 1)))" by (auto simp: demo_kv_server_def)
qed


lemma kv_add_uninitialised_witness:
  "\<exists>t'. kv_ProcessAdd bit_arith two_servers (demo_kv_server 0) (rows_of True [(5, [3])]) = Inr t'
    \<and> kv_abs (ks_store t') = (kv_abs (ks_store (demo_kv_server 0)))(5 \<mapsto> (map2 (fadd bit_arith) (raw_memory (ks_store (demo_kv_server 0))) [3], False))"
  by (rule kv_add_uninitialised [where w = 0])
    (simp_all add: demo_kv_server_def demo_store_facts two_servers_def worker_rank_def rank_to_worker_id_def vec_at_def in_range_def)

lemma kv_server_get_witness:
  "\<exists>t'. kv_ProcessGet counting_rng (demo_kv_server 1) [enc_seq enc64 [2]] =
      Inr (rows_of True [(2, kv_row (ks_store t') 2)], t')
    \<and> kv_inv (ks_store t') \<and> kv_abs (ks_store (demo_kv_server 1)) \<subseteq>\<^sub>m kv_abs (ks_store t')"
proof -
  have "isl (kv_ProcessGet counting_rng (demo_kv_server 1) [enc_seq enc64 [2]]) = False" by code_simp
  then have "kv_ProcessGet counting_rng (demo_kv_server 1) [enc_seq enc64 [2]] \<noteq> Inl Fatal" by auto
  moreover have "random_wf (ks_random (demo_kv_server 1))" by (simp add: demo_kv_server_def new_random_wf)
  ultimately show ?thesis
    using kv_server_get [OF demo_kv_server_1(1) counting_rng_ok, of "[2]"] demo_kv_server_1(2) by auto
qed

end
