(* ===== verification/Requests.thy ===== *)
theory Requests
  imports Actors ArrayTable KVTable
begin

text \<open>
  The life of a request on the worker's side: \<open>WorkerTable\<close> (src/hpps/frame/table_interface.cc)
  numbers it, makes a \<open>Waiter\<close> for it (common/waiter.h) and sends it to the worker actor; the
  worker actor (frame/worker.cc) cuts it into one message per server and, as the replies come in,
  counts the waiter down; \<open>Wait\<close> returns when the count is zero.

  A worker table's virtual functions \<open>Partition\<close> and \<open>ProcessReplyGet\<close> come as a record of
  functions over the state of the concrete table. The order in which the pieces of a partition
  are sent is that of an \<open>unordered_map\<close>: a parameter of the model.
\<close>

section \<open>Waiters\<close>

definition new_Waiter :: int where "new_Waiter = 1"
definition waiter_Notify :: "int \<Rightarrow> int" where "waiter_Notify n = n - 1"
definition waiter_Reset :: "int \<Rightarrow> int \<Rightarrow> int" where "waiter_Reset k n = k"
definition waiter_blocks :: "int \<Rightarrow> bool" where "waiter_blocks n \<longleftrightarrow> n > 0"

section \<open>Worker tables\<close>

record 'w worker_ops =
  wop_partition :: "'w \<Rightarrow> blob list \<Rightarrow> pieces \<Rightarrow> (int \<times> pieces) res"
  wop_reply_get :: "blob list \<Rightarrow> 'w \<Rightarrow> 'w res"

record 'w worker_table =
  wt_state :: 'w
  waitings :: "int option list"   \<comment> \<open>\<open>None\<close> is a null pointer\<close>
  wt_msg_id :: i32
  wt_table_id :: i32

definition new_worker_table :: "'w \<Rightarrow> i32 \<Rightarrow> 'w worker_table" where
  "new_worker_table w mid = \<lparr>wt_state = w, waitings = [], wt_msg_id = 0, wt_table_id = mid\<rparr>"

definition begin_request :: "zoo \<Rightarrow> msg_type \<Rightarrow> blob list \<Rightarrow> 'w worker_table \<Rightarrow> i32 \<times> message \<times> 'w worker_table" where
  \<comment> \<open>the common part of \<open>GetAsync\<close>, \<open>AddAsync\<close>, \<open>Store\<close> and \<open>Load\<close>: the id, and the message
    for the worker actor\<close>
  "begin_request z ty data t =
     (let mid = wt_msg_id t;
          t' = t\<lparr>wt_msg_id := mid + 1, waitings := waitings t @ [Some new_Waiter]\<rparr>;
          m = set_table_id (wt_table_id t) (set_msg_id mid (set_type (type_code ty)
                (set_src (word_of_int (zoo_rank z)) new_message)))
      in (mid, m\<lparr>msg_data := data\<rparr>, t'))"

definition table_GetAsync :: "zoo \<Rightarrow> blob \<Rightarrow> blob option \<Rightarrow> 'w worker_table \<Rightarrow> i32 \<times> message \<times> 'w worker_table" where
  "table_GetAsync z keys option t =
     begin_request z Request_Get (keys # (case option of None \<Rightarrow> [] | Some b \<Rightarrow> [b])) t"

definition table_AddAsync :: "zoo \<Rightarrow> blob \<Rightarrow> blob \<Rightarrow> add_option option \<Rightarrow> 'w worker_table \<Rightarrow> i32 \<times> message \<times> 'w worker_table" where
  "table_AddAsync z keys values option t =
     begin_request z Request_Add (keys # values # (case option of None \<Rightarrow> [] | Some o' \<Rightarrow> [opt_bytes o'])) t"

definition table_Store :: "zoo \<Rightarrow> string \<Rightarrow> 'w worker_table \<Rightarrow> i32 \<times> message \<times> 'w worker_table" where
  \<comment> \<open>the caller then waits for the id\<close>
  "table_Store z uri t = begin_request z Store_Model [bytes_of_string uri @ [0]] t"

definition table_Load :: "zoo \<Rightarrow> string \<Rightarrow> 'w worker_table \<Rightarrow> i32 \<times> message \<times> 'w worker_table" where
  "table_Load z uri t = begin_request z Load_Model [bytes_of_string uri @ [0]] t"

definition waiting :: "i32 \<Rightarrow> 'w worker_table \<Rightarrow> int res" where
  "waiting mid t = bind_res (vec_at (waitings t) (sint mid)) (\<lambda>w. case w of None \<Rightarrow> Inl NotNull | Some n \<Rightarrow> Inr n)"

definition table_Reset :: "i32 \<Rightarrow> int \<Rightarrow> 'w worker_table \<Rightarrow> 'w worker_table res" where
  "table_Reset mid k t = bind_res (waiting mid t) (\<lambda>n.
     bind_res (vec_set (waitings t) (sint mid) (Some (waiter_Reset k n))) (\<lambda>ws. Inr (t\<lparr>waitings := ws\<rparr>)))"

definition table_Notify :: "i32 \<Rightarrow> 'w worker_table \<Rightarrow> 'w worker_table res" where
  "table_Notify mid t = bind_res (waiting mid t) (\<lambda>n.
     bind_res (vec_set (waitings t) (sint mid) (Some (waiter_Notify n))) (\<lambda>ws. Inr (t\<lparr>waitings := ws\<rparr>)))"

definition table_Wait :: "i32 \<Rightarrow> 'w worker_table \<Rightarrow> 'w worker_table option res" where
  \<comment> \<open>\<open>None\<close>: the thread stays blocked on the waiter in this state; otherwise it frees the
    waiter and returns\<close>
  "table_Wait mid t = bind_res (waiting mid t) (\<lambda>n.
     if waiter_blocks n then Inr None
     else bind_res (vec_set (waitings t) (sint mid) None) (\<lambda>ws. Inr (Some (t\<lparr>waitings := ws\<rparr>))))"

section \<open>The worker actor\<close>

type_synonym 'w worker = "('w worker_ops \<times> 'w worker_table) list"

definition worker_RegisterTable :: "'w worker_ops \<Rightarrow> 'w \<Rightarrow> 'w worker \<Rightarrow> int \<times> 'w worker" where
  "worker_RegisterTable ops w wk =
     (int (length wk), wk @ [(ops, new_worker_table w (of_nat (length wk)))])"

definition cached_table :: "message \<Rightarrow> 'w worker \<Rightarrow> ('w worker_ops \<times> 'w worker_table) res" where
  "cached_table m wk = vec_at wk (sint (msg_table_id m))"

definition set_cached_table :: "message \<Rightarrow> 'w worker_table \<Rightarrow> 'w worker \<Rightarrow> 'w worker" where
  "set_cached_table m t wk = (let k = nat (sint (msg_table_id m)) in wk[k := (fst (wk ! k), t)])"

definition request_to :: "zoo \<Rightarrow> msg_type \<Rightarrow> message \<Rightarrow> int \<Rightarrow> blob list \<Rightarrow> message res" where
  "request_to z ty m server data = bind_res (server_id_to_rank z server) (\<lambda>r.
     Inr ((set_table_id (msg_table_id m) (set_msg_id (msg_id m) (set_type (type_code ty)
       (set_dst (word_of_int r) (set_src (word_of_int (zoo_rank z)) new_message)))))\<lparr>msg_data := data\<rparr>))"

definition send_pieces :: "zoo \<Rightarrow> msg_type \<Rightarrow> message \<Rightarrow> pieces \<Rightarrow> message list res" where
  "send_pieces z ty m ps = fold_res (\<lambda>out (i, bs). bind_res (request_to z ty m i bs) (\<lambda>m'. Inr (out @ [m']))) [] ps"

definition worker_request :: "zoo \<Rightarrow> (pieces \<Rightarrow> pieces) \<Rightarrow> msg_type \<Rightarrow> message \<Rightarrow> 'w worker \<Rightarrow> (message list \<times> 'w worker) res" where
  \<comment> \<open>\<open>order\<close> is the order in which the hash map of the pieces is iterated\<close>
  "worker_request z order ty m wk =
     bind_res (cached_table m wk) (\<lambda>(ops, t).
     bind_res (wop_partition ops (wt_state t) (msg_data m) []) (\<lambda>(num, ps).
     bind_res (table_Reset (msg_id m) num t) (\<lambda>t'.
     bind_res (send_pieces z ty m (order ps)) (\<lambda>out.
       Inr (out, set_cached_table m t' wk)))))"

definition worker_ProcessGet :: "zoo \<Rightarrow> (pieces \<Rightarrow> pieces) \<Rightarrow> message \<Rightarrow> 'w worker \<Rightarrow> (message list \<times> 'w worker) res" where
  "worker_ProcessGet z order m wk = worker_request z order Request_Get m wk"

definition worker_ProcessAdd :: "zoo \<Rightarrow> (pieces \<Rightarrow> pieces) \<Rightarrow> message \<Rightarrow> 'w worker \<Rightarrow> (message list \<times> 'w worker) res" where
  "worker_ProcessAdd z order m wk =
     bind_res (check (msg_data m \<noteq> [])) (\<lambda>_. worker_request z order Request_Add m wk)"

definition worker_notify :: "message \<Rightarrow> 'w worker \<Rightarrow> 'w worker res" where
  "worker_notify m wk = bind_res (cached_table m wk) (\<lambda>(ops, t).
     bind_res (table_Notify (msg_id m) t) (\<lambda>t'. Inr (set_cached_table m t' wk)))"

definition worker_ProcessReplyGet :: "message \<Rightarrow> 'w worker \<Rightarrow> 'w worker res" where
  "worker_ProcessReplyGet m wk =
     bind_res (cached_table m wk) (\<lambda>(ops, t).
     bind_res (wop_reply_get ops (msg_data m) (wt_state t)) (\<lambda>w.
       worker_notify m (set_cached_table m (t\<lparr>wt_state := w\<rparr>) wk)))"

definition worker_ProcessReplyAdd :: "message \<Rightarrow> 'w worker \<Rightarrow> 'w worker res" where
  "worker_ProcessReplyAdd m wk = worker_notify m wk"
definition worker_ProcessReplyLoadModel :: "message \<Rightarrow> 'w worker \<Rightarrow> 'w worker res" where
  "worker_ProcessReplyLoadModel m wk = worker_notify m wk"
definition worker_ProcessReplyStoreModel :: "message \<Rightarrow> 'w worker \<Rightarrow> 'w worker res" where
  "worker_ProcessReplyStoreModel m wk = worker_notify m wk"

fun to_string :: "nat \<Rightarrow> string" where
  \<comment> \<open>\<open>std::to_string\<close> of a number that is not negative\<close>
  "to_string n = (if n < 10 then [char_of (48 + n)] else to_string (n div 10) @ [char_of (48 + n mod 10)])"

declare to_string.simps [simp del]

definition c_string :: "blob \<Rightarrow> string" where
  \<comment> \<open>a \<open>std::string\<close> made from a \<open>char*\<close>: the bytes before the first zero\<close>
  "c_string b = string_of_bytes (takeWhile (\<lambda>x. x \<noteq> 0) b)"

definition worker_model :: "zoo \<Rightarrow> msg_type \<Rightarrow> message \<Rightarrow> message list res" where
  \<comment> \<open>\<open>ProcessLoadModel\<close> and \<open>ProcessStoreModel\<close>: one file for every server\<close>
  "worker_model z ty m =
     bind_res (vec_at (msg_data m) 0) (\<lambda>b.
     fold_res (\<lambda>out i. bind_res (request_to z ty m (int i)
         [bytes_of_string (c_string b @ ''.'' @ to_string i)]) (\<lambda>m'. Inr (out @ [m'])))
       [] [0..<nat (num_servers z)])"

definition worker_ProcessLoadModel :: "zoo \<Rightarrow> message \<Rightarrow> message list res" where
  "worker_ProcessLoadModel z m = worker_model z Load_Model m"
definition worker_ProcessStoreModel :: "zoo \<Rightarrow> message \<Rightarrow> message list res" where
  "worker_ProcessStoreModel z m = worker_model z Store_Model m"

section \<open>Counting replies\<close>

text \<open>Table \<open>k\<close> of the worker has a waiter for the id, which waits for \<open>c\<close> more replies.\<close>

definition waits_for :: "'w worker \<Rightarrow> nat \<Rightarrow> i32 \<Rightarrow> int \<Rightarrow> bool" where
  "waits_for wk k mid c \<longleftrightarrow> k < length wk \<and> waiting mid (snd (wk ! k)) = Inr c"

definition about :: "nat \<Rightarrow> i32 \<Rightarrow> message \<Rightarrow> bool" where
  "about k mid m \<longleftrightarrow> sint (msg_table_id m) = int k \<and> msg_id m = mid"

lemma waiting_set:
  assumes "waiting mid t = Inr c"
  shows "\<exists>ws. vec_set (waitings t) (sint mid) x = Inr ws \<and> waiting mid (t\<lparr>waitings := ws\<rparr>) =
    (case x of None \<Rightarrow> Inl NotNull | Some n \<Rightarrow> Inr n)"
  using assms by (auto simp: waiting_def vec_at_def vec_set_def in_range_def split: if_splits option.splits)

lemma notify_step:
  assumes w: "waits_for wk k mid c" and m: "about k mid m"
  shows "\<exists>wk'. worker_notify m wk = Inr wk' \<and> waits_for wk' k mid (c - 1) \<and> length wk' = length wk
    \<and> (\<forall>j. j \<noteq> k \<longrightarrow> wk' ! j = wk ! j)
    \<and> fst (wk' ! k) = fst (wk ! k) \<and> wt_state (snd (wk' ! k)) = wt_state (snd (wk ! k))"
proof -
  obtain ops t where t: "wk ! k = (ops, t)" by (cases "wk ! k")
  have k: "k < length wk" "waiting mid t = Inr c" using w t by (simp_all add: waits_for_def)
  obtain ws where "vec_set (waitings t) (sint mid) (Some (waiter_Notify c)) = Inr ws"
    "waiting mid (t\<lparr>waitings := ws\<rparr>) = Inr (waiter_Notify c)"
    using waiting_set [OF k(2), of "Some (waiter_Notify c)"] by auto
  then show ?thesis using m t k
    by (simp add: worker_notify_def cached_table_def about_def table_Notify_def set_cached_table_def waits_for_def waiter_Notify_def)
qed

lemma notify_all:
  assumes "waits_for wk k mid c" and "\<forall>m \<in> set ms. about k mid m"
  shows "\<exists>wk'. fold_res (\<lambda>wk m. worker_notify m wk) wk ms = Inr wk' \<and> waits_for wk' k mid (c - int (length ms))
    \<and> fst (wk' ! k) = fst (wk ! k) \<and> wt_state (snd (wk' ! k)) = wt_state (snd (wk ! k))"
  using assms
proof (induction ms arbitrary: wk c)
  case Nil
  then show ?case by simp
next
  case (Cons m ms)
  obtain wk1 where s: "worker_notify m wk = Inr wk1" "waits_for wk1 k mid (c - 1)"
    "fst (wk1 ! k) = fst (wk ! k)" "wt_state (snd (wk1 ! k)) = wt_state (snd (wk ! k))"
    using notify_step [OF Cons.prems(1), of m] Cons.prems(2) by auto
  show ?case using Cons.IH [OF s(2)] Cons.prems(2) s(1,3,4) by (auto simp: algebra_simps)
qed

lemma wait_returns:
  assumes "waits_for wk k mid c"
  shows "if c > 0 then table_Wait mid (snd (wk ! k)) = Inr None
    else \<exists>t'. table_Wait mid (snd (wk ! k)) = Inr (Some t') \<and> waiting mid t' = Inl NotNull"
  using assms waiting_set [of mid "snd (wk ! k)" c None]
  by (auto simp: waits_for_def table_Wait_def waiter_blocks_def)

lemma fresh_waiter:
  assumes "begin_request z ty d t = (mid, m, t')" and "length (waitings t) = unat (wt_msg_id t)" and "unat (wt_msg_id t) < 2 ^ 31 - 1"
  shows "waiting mid t' = Inr 1" and "length (waitings t') = unat (wt_msg_id t')" and "mid = wt_msg_id t"
    and "msg_id m = mid" and "msg_table_id m = wt_table_id t" and "msg_type m = type_code ty" and "msg_data m = d"
    and "wt_state t' = wt_state t" and "wt_table_id t' = wt_table_id t"
proof -
  have s: "sint (wt_msg_id t) = int (unat (wt_msg_id t))"
    using sint_i32_of_nat [of "unat (wt_msg_id t)"] assms(3) by simp
  have at: "(waitings t @ [Some (1 :: int)]) ! unat (wt_msg_id t) = Some 1" by (metis assms(2) nth_append_length)
  show "waiting mid t' = Inr 1" using assms s at
    by (auto simp: begin_request_def Let_def waiting_def vec_at_def in_range_def new_Waiter_def)
  have "unat (wt_msg_id t + 1) = unat (wt_msg_id t) + 1"
  proof -
    have "wt_msg_id t + 1 = of_nat (unat (wt_msg_id t) + 1)" by simp
    then have "unat (wt_msg_id t + 1) = (unat (wt_msg_id t) + 1) mod 2 ^ 32" by (simp only: unat_of_nat) simp
    then show ?thesis using assms(3) by simp
  qed
  then show "length (waitings t') = unat (wt_msg_id t')" using assms(1,2) by (auto simp: begin_request_def Let_def)
qed (use assms(1) in \<open>auto simp: begin_request_def Let_def\<close>)

section \<open>What the worker actor relies on\<close>

text \<open>
  The contract of a worker table: for a request it accepts, \<open>Partition\<close> reports as many pieces as it
  makes, one for each of the servers the request concerns.
\<close>

definition sent :: "zoo \<Rightarrow> msg_type \<Rightarrow> message \<Rightarrow> int \<times> blob list \<Rightarrow> message" where
  "sent z ty m = (\<lambda>(i, bs). (set_table_id (msg_table_id m) (set_msg_id (msg_id m) (set_type (type_code ty)
     (set_dst (word_of_int (server_ranks z ! nat i)) (set_src (word_of_int (zoo_rank z)) new_message)))))\<lparr>msg_data := bs\<rparr>)"

lemma sent_fields [simp]:
  "msg_table_id (sent z ty m p) = msg_table_id m" "msg_id (sent z ty m p) = msg_id m"
  "msg_type (sent z ty m p) = type_code ty" "msg_data (sent z ty m p) = snd p"
  "msg_src (sent z ty m p) = word_of_int (zoo_rank z)"
  "msg_dst (sent z ty m p) = word_of_int (server_ranks z ! nat (fst p))"
  by (cases p; simp add: sent_def)+

lemma send_pieces_ok:
  "\<forall>(i, _) \<in> set ps. 0 \<le> i \<and> i < int (length (server_ranks z)) \<Longrightarrow>
   send_pieces z ty m ps = Inr (map (sent z ty m) ps)"
proof (induction ps rule: rev_induct)
  case Nil
  then show ?case by (simp add: send_pieces_def)
next
  case (snoc p ps)
  obtain i bs where p: "p = (i, bs)" by (cases p)
  have "server_id_to_rank z i = Inr (server_ranks z ! nat i)"
    using snoc.prems p by (simp add: server_id_to_rank_def vec_at_def in_range_def)
  then show ?case using snoc p by (simp add: send_pieces_def fold_res_append request_to_def sent_def)
qed

locale sharding =
  fixes ops :: "'w worker_ops" and n :: nat and req :: "'w \<Rightarrow> blob list \<Rightarrow> bool"
    and dests :: "blob list \<Rightarrow> int set" and good :: "blob list \<Rightarrow> pieces \<Rightarrow> bool"
  assumes partition: "req w d \<Longrightarrow> \<exists>ps. wop_partition ops w d [] = Inr (int (length ps), ps)
      \<and> distinct (map fst ps) \<and> fst ` set ps = dests d \<and> good d ps"
    and dests_servers: "req w d \<Longrightarrow> dests d \<subseteq> int ` {..<n}"
begin

lemma request_sent:
  assumes r: "req (wt_state t) (msg_data m)" and wk: "wk ! k = (ops, t)" "waits_for wk k mid c" and m: "about k mid m"
    and order: "\<And>ps. mset (order ps) = mset ps" and z: "length (server_ranks z) = n"
  shows "\<exists>ps wk'. worker_request z order ty m wk = Inr (map (sent z ty m) (order ps), wk')
    \<and> distinct (map fst ps) \<and> fst ` set ps = dests (msg_data m) \<and> good (msg_data m) ps
    \<and> waits_for wk' k mid (int (length ps)) \<and> fst (wk' ! k) = ops \<and> wt_state (snd (wk' ! k)) = wt_state t"
proof -
  obtain ps where ps: "wop_partition ops (wt_state t) (msg_data m) [] = Inr (int (length ps), ps)"
      "distinct (map fst ps)" "fst ` set ps = dests (msg_data m)" "good (msg_data m) ps"
    using partition [OF r] by blast
  have k: "k < length wk" "waiting mid t = Inr c" using wk by (simp_all add: waits_for_def)
  obtain ws where ws: "vec_set (waitings t) (sint mid) (Some (int (length ps))) = Inr ws"
      "waiting mid (t\<lparr>waitings := ws\<rparr>) = Inr (int (length ps))"
    using waiting_set [OF k(2), of "Some (int (length ps))"] by auto
  have "set (order ps) = set ps" using order [of ps] by (metis set_mset_mset)
  then have "\<forall>(i, _) \<in> set (order ps). 0 \<le> i \<and> i < int (length (server_ranks z))"
    using ps(3) dests_servers [OF r] z by force
  then have "send_pieces z ty m (order ps) = Inr (map (sent z ty m) (order ps))" by (rule send_pieces_ok)
  then have "worker_request z order ty m wk =
      Inr (map (sent z ty m) (order ps), wk[k := (ops, t\<lparr>waitings := ws\<rparr>)])"
    using ps(1) k ws wk(1) m
    by (simp add: worker_request_def cached_table_def about_def table_Reset_def waiter_Reset_def set_cached_table_def)
  then show ?thesis using ps(2-4) ws(2) k(1)
    by (intro exI [of _ ps] exI [of _ "wk[k := (ops, t\<lparr>waitings := ws\<rparr>)]"]) (simp add: waits_for_def)
qed

text \<open>Adds, whose replies carry no data: the caller waits for exactly the servers of the request.\<close>

lemma add_waits:
  assumes r: "req (wt_state t) (msg_data m)" and wk: "wk ! k = (ops, t)" "waits_for wk k mid c" and m: "about k mid m"
    and order: "\<And>ps. mset (order ps) = mset ps" and z: "length (server_ranks z) = n" and d: "msg_data m \<noteq> []"
  shows "\<exists>out wk'. worker_ProcessAdd z order m wk = Inr (out, wk')
    \<and> mset (map msg_dst out) = image_mset (\<lambda>i. word_of_int (server_ranks z ! nat i)) (mset_set (dests (msg_data m)))
    \<and> (\<forall>replies. (\<forall>r \<in> set replies. about k mid r) \<longrightarrow> length replies \<le> length out \<longrightarrow>
        (\<exists>wk''. fold_res (\<lambda>wk r. worker_ProcessReplyAdd r wk) wk' replies = Inr wk''
          \<and> (if length replies < length out then table_Wait mid (snd (wk'' ! k)) = Inr None
             else \<exists>t''. table_Wait mid (snd (wk'' ! k)) = Inr (Some t''))))"
proof -
  obtain ps wk' where s: "worker_request z order Request_Add m wk = Inr (map (sent z Request_Add m) (order ps), wk')"
    "distinct (map fst ps)" "fst ` set ps = dests (msg_data m)" "waits_for wk' k mid (int (length ps))"
    using request_sent [OF r wk m order z, of Request_Add] by blast
  have dst: "mset (map msg_dst (map (sent z Request_Add m) (order ps))) =
      image_mset (\<lambda>i. word_of_int (server_ranks z ! nat i)) (mset_set (dests (msg_data m)))"
  proof -
    have "mset (map msg_dst (map (sent z Request_Add m) (order ps))) = image_mset (\<lambda>p. word_of_int (server_ranks z ! nat (fst p))) (mset (order ps))"
      by (simp add: image_mset.compositionality comp_def)
    also have "\<dots> = image_mset (\<lambda>i. word_of_int (server_ranks z ! nat i)) (mset (map fst ps))"
      by (simp add: order image_mset.compositionality comp_def)
    also have "mset (map fst ps) = mset_set (dests (msg_data m))"
      using mset_set_set [OF s(2)] s(3) by simp
    finally show ?thesis .
  qed
  have len: "length (order ps) = length ps" using order [of ps] by (metis size_mset)
  have "\<exists>wk''. fold_res (\<lambda>wk r. worker_ProcessReplyAdd r wk) wk' replies = Inr wk''
      \<and> (if length replies < length ps then table_Wait mid (snd (wk'' ! k)) = Inr None
         else \<exists>t''. table_Wait mid (snd (wk'' ! k)) = Inr (Some t''))"
    if rs: "\<forall>r \<in> set replies. about k mid r" "length replies \<le> length ps" for replies
  proof -
    obtain wk'' where w: "fold_res (\<lambda>wk r. worker_ProcessReplyAdd r wk) wk' replies = Inr wk''"
      "waits_for wk'' k mid (int (length ps) - int (length replies))"
      using notify_all [OF s(4) rs(1)] by (auto simp: worker_ProcessReplyAdd_def)
    then show ?thesis using wait_returns [OF w(2)] rs(2) by (auto split: if_splits)
  qed
  then show ?thesis using s(1) d dst len
    by (intro exI [of _ "map (sent z Request_Add m) (order ps)"] exI [of _ wk']) (simp add: worker_ProcessAdd_def)
qed

end

section \<open>The tables keep the contract\<close>

definition array_wops :: "array_worker worker_ops" where
  "array_wops = \<lparr>wop_partition = array_Partition, wop_reply_get = array_ProcessReplyGet\<rparr>"

definition kv_wops :: "zoo \<Rightarrow> kv_worker worker_ops" where
  "kv_wops z = \<lparr>wop_partition = (\<lambda>s. kv_Partition (value_len s) z), wop_reply_get = kv_ProcessReplyGet\<rparr>"

lemma array_Partition_get:
  assumes aw: "offsets_ok aw sz n"
  shows "\<exists>out. array_Partition aw [key] [] = Inr (int n, out) \<and> distinct (map fst out)
    \<and> fst ` set out = int ` {..<n} \<and> (\<forall>i < n. piece_of out (int i) = [key])"
proof -
  have ints: "[0..int n - 1] = map int [0..<n]" by (rule nth_equalityI) simp_all
  let ?out = "\<lambda>m. fold (\<lambda>i. push_out i key) (map int [0..<m]) []"
  have f: "distinct (map fst (?out m)) \<and> fst ` set (?out m) = int ` {..<m}
      \<and> (\<forall>i. piece_of (?out m) (int i) = (if i < m then [key] else []))" for m
    by (induction m) (auto simp: lessThan_Suc)
  have "array_Partition aw [key] [] = Inr (int n, ?out n)"
    using aw push_keys_loop by (simp add: array_Partition_def offsets_ok_def ints)
  then show ?thesis using f [of n] by auto
qed

definition array_req :: "nat \<Rightarrow> array_worker \<Rightarrow> blob list \<Rightarrow> bool" where
  "array_req n aw d \<longleftrightarrow> (\<exists>sz. offsets_ok aw sz n \<and> sz < 2 ^ 31 \<and> (d = [all_key]
     \<or> (\<exists>vals opt. length vals = sz \<and> d = all_key # enc_seq enc32 vals # (case opt of None \<Rightarrow> [] | Some b \<Rightarrow> [b]))))"

definition array_pieces :: "nat \<Rightarrow> blob list \<Rightarrow> pieces \<Rightarrow> bool" where
  "array_pieces n d ps \<longleftrightarrow> (d = [all_key] \<longrightarrow> (\<forall>i < n. piece_of ps (int i) = [all_key]))"

lemma distinct_length: "distinct (map fst ps) \<Longrightarrow> fst ` set ps = int ` {..<n} \<Longrightarrow> length ps = n"
proof -
  assume "distinct (map fst ps)" and eq: "fst ` set ps = int ` {..<n}"
  then have "length ps = card (fst ` set ps)" using distinct_card [of "map fst ps"] by simp
  then show "length ps = n" using eq by (simp add: card_image)
qed

interpretation array_shards: sharding array_wops n "array_req n" "\<lambda>_. int ` {..<n}" "array_pieces n" for n
proof
  fix w d
  assume "array_req n w d"
  then obtain sz where sz: "offsets_ok w sz n" "sz < 2 ^ 31" and cases: "d = [all_key]
      \<or> (\<exists>vals opt. length vals = sz \<and> d = all_key # enc_seq enc32 vals # (case opt of None \<Rightarrow> [] | Some b \<Rightarrow> [b]))"
    by (auto simp: array_req_def)
  from cases have "\<exists>ps. array_Partition w d [] = Inr (int n, ps) \<and> distinct (map fst ps)
      \<and> fst ` set ps = int ` {..<n} \<and> array_pieces n d ps"
  proof
    assume "d = [all_key]"
    then show ?thesis using array_Partition_get [OF sz(1), of all_key] by (auto simp: array_pieces_def)
  next
    assume "\<exists>vals opt. length vals = sz \<and> d = all_key # enc_seq enc32 vals # (case opt of None \<Rightarrow> [] | Some b \<Rightarrow> [b])"
    then obtain vals opt where v: "length vals = sz" "d = all_key # enc_seq enc32 vals # (case opt of None \<Rightarrow> [] | Some b \<Rightarrow> [b])"
      by blast
    then show ?thesis using array_Partition_ok [OF sz v] by (auto simp: array_pieces_def)
  qed
  then show "\<exists>ps. wop_partition array_wops w d [] = Inr (int (length ps), ps) \<and> distinct (map fst ps)
      \<and> fst ` set ps = int ` {..<n} \<and> array_pieces n d ps"
    using distinct_length by (auto simp: array_wops_def)
qed simp

definition kv_req :: "zoo \<Rightarrow> nat \<Rightarrow> kv_worker \<Rightarrow> blob list \<Rightarrow> bool" where
  "kv_req z n s d \<longleftrightarrow> num_servers z = int n \<and> 0 < n \<and> n < 2 ^ 31
     \<and> (\<exists>hv kvs. d = rows_of hv kvs \<and> rows_wf (value_len s) kvs \<and> (hv \<longrightarrow> 0 < value_len s)
         \<and> length kvs < 2 ^ 31 \<and> (hv \<longrightarrow> length kvs * value_len s < 2 ^ 32))"

definition kv_dests :: "nat \<Rightarrow> blob list \<Rightarrow> int set" where
  "kv_dests n d = server_of n ` set (keys_of (hd d))"

definition kv_pieces :: "nat \<Rightarrow> blob list \<Rightarrow> pieces \<Rightarrow> bool" where
  "kv_pieces n d ps \<longleftrightarrow> (\<exists>hv kvs. d = rows_of hv kvs
     \<and> (\<forall>i \<in> fst ` set ps. piece_of ps i = rows_of hv (share (server_of n) i kvs)))"

interpretation kv_shards: sharding "kv_wops z" n "kv_req z n" "kv_dests n" "kv_pieces n" for z n
proof
  fix w d
  assume "kv_req z n w d"
  then obtain hv kvs where z: "num_servers z = int n" "0 < n" "n < 2 ^ 31"
      and d: "d = rows_of hv kvs" "rows_wf (value_len w) kvs" "hv \<longrightarrow> 0 < value_len w"
        "length kvs < 2 ^ 31" "hv \<longrightarrow> length kvs * value_len w < 2 ^ 32"
    by (auto simp: kv_req_def)
  obtain ps where ps: "kv_Partition (value_len w) z (rows_of hv kvs) [] = Inr (int (length ps), ps)" "distinct (map fst ps)"
    "fst ` set ps = server_of n ` fst ` set kvs"
    "\<forall>i \<in> fst ` set ps. piece_of ps i = rows_of hv (share (server_of n) i kvs)"
    using kv_Partition_ok [OF z d(2-5)] by blast
  have "kv_dests n d = server_of n ` fst ` set kvs" by (simp add: d(1) kv_dests_def rows_of_def)
  moreover have pieces: "kv_pieces n d ps" unfolding kv_pieces_def using d(1) ps(4) by blast
  ultimately show "\<exists>ps. wop_partition (kv_wops z) w d [] = Inr (int (length ps), ps) \<and> distinct (map fst ps)
      \<and> fst ` set ps = kv_dests n d \<and> kv_pieces n d ps"
    using ps(1-3) d(1) pieces by (simp add: kv_wops_def)
next
  fix w d
  assume "kv_req z n w d"
  then have "0 < n" by (simp add: kv_req_def)
  then show "kv_dests n d \<subseteq> int ` {..<n}" by (auto simp: kv_dests_def server_of_def)
qed

section \<open>Properties\<close>

text \<open>C11. An Add on an array table is complete when every server has answered, and not before: the
  worker actor sends one message to each of the \<open>n\<close> servers, whatever order the hash map of the
  pieces is iterated in; as the replies come in no notification fails, \<open>Wait\<close> stays blocked
  while one is missing and returns after the last.\<close>

theorem array_add_waits_for_all:
  assumes aw: "offsets_ok (wt_state t) sz n" and sz: "sz < 2 ^ 31" and delta: "length delta = sz"
    and wk: "k < length wk" "wk ! k = (array_wops, t')" and k: "wt_table_id t = of_nat k" "k < 2 ^ 31"
    and ids: "length (waitings t) = unat (wt_msg_id t)" "unat (wt_msg_id t) < 2 ^ 31 - 1"
    and add: "table_AddAsync z all_key (enc_seq enc32 delta) opt t = (mid, m, t')"
    and order: "\<And>ps. mset (order ps) = mset ps" and z: "length (server_ranks z) = n"
  shows "\<exists>out wk'. worker_ProcessAdd z order m wk = Inr (out, wk')
    \<and> mset (map msg_dst out) = mset (map word_of_int (server_ranks z))
    \<and> (\<forall>replies. (\<forall>r \<in> set replies. about k mid r) \<longrightarrow> length replies \<le> n \<longrightarrow>
        (\<exists>wk''. fold_res (\<lambda>wk r. worker_ProcessReplyAdd r wk) wk' replies = Inr wk''
          \<and> (if length replies < n then table_Wait mid (snd (wk'' ! k)) = Inr None
             else \<exists>t''. table_Wait mid (snd (wk'' ! k)) = Inr (Some t''))))"
proof -
  let ?d = "all_key # enc_seq enc32 delta # (case opt of None \<Rightarrow> [] | Some o' \<Rightarrow> [opt_bytes o'])"
  have b: "begin_request z Request_Add ?d t = (mid, m, t')" using add by (simp add: table_AddAsync_def)
  note f = fresh_waiter [OF b ids]
  have "array_req n (wt_state t) ?d" unfolding array_req_def using aw sz delta
    by (intro exI [of _ sz] conjI disjI2 exI [of _ delta] exI [of _ "map_option opt_bytes opt"]) (simp_all split: option.split)
  then have req: "array_req n (wt_state t') (msg_data m)" "msg_data m \<noteq> []" using f(7,8) by simp_all
  have w: "waits_for wk k mid 1" using wk f(1) by (simp add: waits_for_def)
  have ab: "about k mid m" using f(4,5) k by (simp add: about_def sint_i32_of_nat)
  have dsts: "image_mset (\<lambda>i. word_of_int (server_ranks z ! nat i)) (mset_set (int ` {..<n})) = mset (map word_of_int (server_ranks z))"
  proof -
    have "mset_set (int ` {..<n}) = image_mset int (mset_set {..<n})" by (simp add: image_mset_mset_set)
    moreover have "mset_set {..<n} = mset [0..<n]" by (simp add: mset_set_upto_eq_mset_upto)
    ultimately have "image_mset (\<lambda>i. word_of_int (server_ranks z ! nat i)) (mset_set (int ` {..<n})) =
        mset (map (\<lambda>i. word_of_int (server_ranks z ! i)) [0..<n])"
      by (simp add: image_mset.compositionality comp_def)
    also have "map (\<lambda>i. word_of_int (server_ranks z ! i)) [0..<n] = map word_of_int (server_ranks z)"
      using z by (intro nth_equalityI) simp_all
    finally show ?thesis .
  qed
  obtain out wk' where r: "worker_ProcessAdd z order m wk = Inr (out, wk')"
    "mset (map msg_dst out) = mset (map word_of_int (server_ranks z))"
    "\<forall>replies. (\<forall>r \<in> set replies. about k mid r) \<longrightarrow> length replies \<le> length out \<longrightarrow>
        (\<exists>wk''. fold_res (\<lambda>wk r. worker_ProcessReplyAdd r wk) wk' replies = Inr wk''
          \<and> (if length replies < length out then table_Wait mid (snd (wk'' ! k)) = Inr None
             else \<exists>t''. table_Wait mid (snd (wk'' ! k)) = Inr (Some t'')))"
    using array_shards.add_waits [OF req(1) wk(2) w ab order z req(2)] unfolding dsts by blast
  have "length out = n" using r(2) z by (metis length_map size_mset)
  then show ?thesis using r by blast
qed

text \<open>C24. A checkpoint does not wait for all servers: \<open>Store\<close> (and \<open>Load\<close>) make a waiter for one
  reply, and the worker actor sends one message per server but, unlike for a Get or an Add,
  never tells the waiter so. With two servers or more \<open>Wait\<close> returns after the first reply and
  frees the waiter, and the next reply ends the process on the null pointer.\<close>

theorem store_returns_early:
  assumes wk: "k < length wk" "wk ! k = (ops, t')" and k: "wt_table_id t = of_nat k" "k < 2 ^ 31"
    and ids: "length (waitings t) = unat (wt_msg_id t)" "unat (wt_msg_id t) < 2 ^ 31 - 1"
    and store: "table_Store z uri t = (mid, m, t')"
    and z: "num_servers z = int n" "length (server_ranks z) = n" and r: "about k mid r1" "about k mid r2"
  shows "(\<exists>out. worker_ProcessStoreModel z m = Inr out \<and> length out = n)
    \<and> (\<exists>wk1 t1. worker_ProcessReplyStoreModel r1 wk = Inr wk1 \<and> table_Wait mid (snd (wk1 ! k)) = Inr (Some t1)
        \<and> worker_ProcessReplyStoreModel r2 (wk1[k := (fst (wk1 ! k), t1)]) = Inl NotNull)"
proof -
  have b: "begin_request z Store_Model [bytes_of_string uri @ [0]] t = (mid, m, t')" using store by (simp add: table_Store_def)
  note f = fresh_waiter [OF b ids]
  have w: "waits_for wk k mid 1" using wk f(1) by (simp add: waits_for_def)
  obtain wk1 where n1: "worker_notify r1 wk = Inr wk1" "waits_for wk1 k mid 0" "length wk1 = length wk"
    using notify_step [OF w r(1)] by auto
  obtain t1 where t1: "table_Wait mid (snd (wk1 ! k)) = Inr (Some t1)" "waiting mid t1 = Inl NotNull"
    using wait_returns [OF n1(2)] by auto
  have "worker_ProcessReplyStoreModel r2 (wk1[k := (fst (wk1 ! k), t1)]) = Inl NotNull"
    using r(2) t1(2) wk(1) n1(3)
    by (simp add: worker_ProcessReplyStoreModel_def worker_notify_def cached_table_def about_def table_Notify_def)
  moreover have "\<exists>out. worker_ProcessStoreModel z m = Inr out \<and> length out = n"
  proof -
    have "\<exists>out. fold_res (\<lambda>out i. bind_res (request_to z Store_Model m (int i) (d i)) (\<lambda>m'. Inr (out @ [m']))) [] [0..<j] = Inr out
        \<and> length out = j" if "j \<le> n" for j and d :: "nat \<Rightarrow> blob list"
      using that by (induction j) (auto simp: fold_res_append request_to_def server_id_to_rank_def z)
    then show ?thesis using z(1) f(7) by (simp add: worker_ProcessStoreModel_def worker_model_def)
  qed
  ultimately show ?thesis using n1(1) t1(1) by (auto simp: worker_ProcessReplyStoreModel_def)
qed

lemma demo_offsets: "offsets_ok \<lparr>aw_size = 5, aw_num_server = 2, server_offsets = [0, 2, 5], aw_data = d\<rparr> 5 2"
proof -
  have "[0..<Suc 2] = [0, 1, 2]" by (simp add: upt_rec)
  then show ?thesis by (simp add: offsets_ok_def piece_start_def)
qed

definition demo_wt :: "array_worker worker_table" where
  "demo_wt = new_worker_table \<lparr>aw_size = 5, aw_num_server = 2, server_offsets = [0, 2, 5], aw_data = []\<rparr> (of_nat 0)"

definition demo_add :: "i32 \<times> message \<times> array_worker worker_table" where
  "demo_add = table_AddAsync two_servers all_key (enc_seq enc32 [1, 2, 3, 4, 5]) None demo_wt"

definition demo_ckpt :: "i32 \<times> message \<times> array_worker worker_table" where
  "demo_ckpt = table_Store two_servers ''m'' demo_wt"

lemma array_add_waits_for_all_witness:
  "\<exists>out wk'. worker_ProcessAdd two_servers rev (fst (snd demo_add)) [(array_wops, snd (snd demo_add))] = Inr (out, wk')
    \<and> mset (map msg_dst out) = mset (map word_of_int (server_ranks two_servers))
    \<and> (\<forall>replies. (\<forall>r \<in> set replies. about 0 (fst demo_add) r) \<longrightarrow> length replies \<le> 2 \<longrightarrow>
        (\<exists>wk''. fold_res (\<lambda>wk r. worker_ProcessReplyAdd r wk) wk' replies = Inr wk''
          \<and> (if length replies < 2 then table_Wait (fst demo_add) (snd (wk'' ! 0)) = Inr None
             else \<exists>t''. table_Wait (fst demo_add) (snd (wk'' ! 0)) = Inr (Some t''))))"
proof (rule array_add_waits_for_all)
  show "offsets_ok (wt_state demo_wt) 5 2"
    by (simp add: demo_wt_def new_worker_table_def demo_offsets)
  show "table_AddAsync two_servers all_key (enc_seq enc32 [1, 2, 3, 4, 5]) None demo_wt =
      (fst demo_add, fst (snd demo_add), snd (snd demo_add))" by (simp add: demo_add_def)
qed (simp_all add: demo_wt_def new_worker_table_def two_servers_def)

lemma store_returns_early_witness:
  "(\<exists>out. worker_ProcessStoreModel two_servers (fst (snd demo_ckpt)) = Inr out \<and> length out = 2)
    \<and> (\<exists>wk1 t1. worker_ProcessReplyStoreModel (set_msg_id (fst demo_ckpt) new_message) [(array_wops, snd (snd demo_ckpt))] = Inr wk1
        \<and> table_Wait (fst demo_ckpt) (snd (wk1 ! 0)) = Inr (Some t1)
        \<and> worker_ProcessReplyStoreModel (set_msg_id (fst demo_ckpt) new_message) (wk1[0 := (fst (wk1 ! 0), t1)]) = Inl NotNull)"
proof (rule store_returns_early)
  show "table_Store two_servers ''m'' demo_wt = (fst demo_ckpt, fst (snd demo_ckpt), snd (snd demo_ckpt))" by (simp add: demo_ckpt_def)
qed (simp_all add: demo_wt_def new_worker_table_def two_servers_def about_def msg_table_id_def set_msg_id_def new_message_def msg_id_def)

end
