(* ===== verification/EndToEnd.thy ===== *)
theory EndToEnd
  imports Requests
begin

text \<open>
  A Get of an array table from one end to the other: the worker table numbers the request, the
  worker actor sends one message to each server, every server's actor hands it to the scheduler
  of the table, which answers, the replies come back in any order, and the caller of \<open>Wait\<close>
  finds the table in its buffer.
\<close>

definition outbox_of :: "nat \<Rightarrow> 't server \<Rightarrow> message list" where
  "outbox_of k sv = (case snd (sv ! k) of AsyncSched s \<Rightarrow> outbox s | SyncSched s \<Rightarrow> outbox s)"

definition deliver :: "(int \<Rightarrow> zoo) \<Rightarrow> (int \<Rightarrow> 't server) \<Rightarrow> nat \<Rightarrow> message \<Rightarrow> message list res" where
  \<comment> \<open>the message reaches the server of the rank it is addressed to; what table \<open>k\<close> there answers\<close>
  "deliver zs svs k m = (let r = sint (msg_dst m) in
     bind_res (server_step (zs r) m (svs r)) (\<lambda>sv. Inr (drop (length (outbox_of k (svs r))) (outbox_of k sv))))"

definition serves_piece :: "'d farith \<Rightarrow> zoo \<Rightarrow> nat \<Rightarrow> nat \<Rightarrow> nat \<Rightarrow> f32 list \<Rightarrow> nat \<Rightarrow> array_server server \<Rightarrow> bool" where
  \<comment> \<open>table \<open>k\<close> of this server is server \<open>i\<close>'s piece of the parameters, run asynchronously\<close>
  "serves_piece A z k sz n vals i sv \<longleftrightarrow> k < length sv
     \<and> (\<exists>s. sv ! k = (array_ops A z, AsyncSched s) \<and> holds_piece z sz n vals i (table s))"

definition get_reply :: "message \<Rightarrow> nat \<Rightarrow> nat \<Rightarrow> f32 list \<Rightarrow> nat \<Rightarrow> message" where
  "get_reply m sz n vals i =
     (CreateReplyMessage m)\<lparr>msg_data := [enc32 (of_nat i), enc_seq enc32 (piece sz n vals i)]\<rparr>"

lemma deliver_get:
  assumes sv: "serves_piece A (zs r) k sz n vals i (svs r)" and r: "sint (msg_dst m) = r" and m: "about k mid m"
    and req: "msg_type m = type_code Request_Get" "msg_data m = [all_key]"
  shows "deliver zs svs k m = Inr [get_reply m sz n vals i]"
proof -
  obtain s where s: "k < length (svs r)" "svs r ! k = (array_ops A (zs r), AsyncSched s)" "holds_piece (zs r) sz n vals i (table s)"
    using sv by (auto simp: serves_piece_def)
  have ok: "array_inv (zs r) (piece_len sz n i) (table s)" "array_get_ok (msg_data m)"
    using s(3) req(2) by (simp_all add: holds_piece_def array_get_ok_def)
  obtain s' where s': "sched_ProcessGet (array_ops A (zs r)) m s = Inr s'"
      "outbox s' = outbox s @ [(CreateReplyMessage m)\<lparr>msg_data := array_answer (msg_data m) (array_look (table s))\<rparr>]"
    using array.async_get_answered [OF ok, where A = A] by blast
  have "array_answer (msg_data m) (array_look (table s)) = [enc32 (of_nat i), enc_seq enc32 (piece sz n vals i)]"
    using s(3) by (simp add: array_answer_def array_look_def holds_piece_def)
  moreover have "actor_dispatch server_handlers m = Inr ServerProcessGet"
    using dispatch_recipient [of m Request_Get kServer server_handlers] req(1) by simp
  ultimately show ?thesis using s s' r m
    by (simp add: deliver_def Let_def server_step_def server_ProcessGet_def on_table_def about_def outbox_of_def get_reply_def)
qed

lemma permuted_map: "mset ys = mset (map f xs) \<Longrightarrow> \<exists>xs'. mset xs' = mset xs \<and> ys = map f xs'"
proof (induction ys arbitrary: xs)
  case Nil
  then show ?case by (intro exI [of _ "[]"]) simp
next
  case (Cons y ys)
  have "y \<in> set (map f xs)" using Cons.prems by (metis list.set_intros(1) set_mset_mset)
  then obtain x where x: "x \<in> set xs" "y = f x" by auto
  have m: "mset xs = add_mset x (mset (remove1 x xs))" using x(1) by simp
  have "mset (map f xs) = add_mset y (mset (map f (remove1 x xs)))"
    using arg_cong [OF m, of "image_mset f"] x(2) by (simp del: mset_remove1)
  then have "mset ys = mset (map f (remove1 x xs))" using Cons.prems by simp
  then obtain xs' where "mset xs' = mset (remove1 x xs)" "ys = map f xs'" using Cons.IH by blast
  then show ?case using x by (intro exI [of _ "x # xs'"]) simp
qed

lemma reply_get_loop:
  assumes held: "\<forall>i \<in> set js. array_ProcessGet (servers i) [all_key] = Inr (msg_data (reply i), servers i) \<and> about k mid (reply i)"
    and "waits_for wk k mid c" and "fst (wk ! k) = array_wops"
    and "collect_replies servers (wt_state (snd (wk ! k))) js = Inr aw"
  shows "\<exists>wk'. fold_res (\<lambda>wk r. worker_ProcessReplyGet r wk) wk (map reply js) = Inr wk'
    \<and> waits_for wk' k mid (c - int (length js)) \<and> wt_state (snd (wk' ! k)) = aw"
  using assms
proof (induction js arbitrary: wk c)
  case Nil
  then show ?case by (simp add: collect_replies_def)
next
  case (Cons i js)
  obtain t where t: "wk ! k = (array_wops, t)" using Cons.prems(3) by (cases "wk ! k") simp
  have i: "array_ProcessGet (servers i) [all_key] = Inr (msg_data (reply i), servers i)" "about k mid (reply i)"
    using Cons.prems(1) by simp_all
  obtain aw1 where aw1: "array_ProcessReplyGet (msg_data (reply i)) (wt_state t) = Inr aw1" "collect_replies servers aw1 js = Inr aw"
    using Cons.prems(4) i(1) t by (auto simp: collect_replies_def)
  let ?wk = "wk[k := (array_wops, t\<lparr>wt_state := aw1\<rparr>)]"
  have k: "k < length wk" using Cons.prems(2) by (simp add: waits_for_def)
  have w: "waits_for ?wk k mid c" using Cons.prems(2) t k by (simp add: waits_for_def waiting_def)
  obtain wk1 where n1: "worker_notify (reply i) ?wk = Inr wk1" "waits_for wk1 k mid (c - 1)"
      "fst (wk1 ! k) = array_wops" "wt_state (snd (wk1 ! k)) = aw1"
    using notify_step [OF w i(2)] k by auto
  have "worker_ProcessReplyGet (reply i) wk = Inr wk1"
    using i(2) t aw1(1) n1(1) k
    by (simp add: worker_ProcessReplyGet_def cached_table_def about_def set_cached_table_def array_wops_def)
  moreover obtain wk' where "fold_res (\<lambda>wk r. worker_ProcessReplyGet r wk) wk1 (map reply js) = Inr wk'"
      "waits_for wk' k mid (c - 1 - int (length js))" "wt_state (snd (wk' ! k)) = aw"
    using Cons.IH [OF _ n1(2,3)] Cons.prems(1) aw1(2) n1(4) by auto
  ultimately show ?case by (auto simp: algebra_simps)
qed

definition valid_ranks :: "zoo \<Rightarrow> bool" where
  "valid_ranks z \<longleftrightarrow> (\<forall>r \<in> set (server_ranks z). 0 \<le> r \<and> r < 2 ^ 31)"

lemma rank_word: "valid_ranks z \<Longrightarrow> i < length (server_ranks z) \<Longrightarrow>
  sint (word_of_int (server_ranks z ! i) :: i32) = server_ranks z ! i"
  by (intro sint_i32_of_int) (auto simp: valid_ranks_def dest!: nth_mem)

lemma array_pieces_list:
  assumes "distinct (map fst ps)" and "fst ` set ps = int ` {..<n}" and "array_pieces n [all_key] ps" and "mset qs = mset ps"
  shows "\<exists>is. qs = map (\<lambda>i. (int i, [all_key])) is \<and> mset is = mset [0..<n]"
proof -
  have ps: "\<exists>i < n. p = (int i, [all_key])" if "p \<in> set ps" for p
  proof -
    have "fst p \<in> int ` {..<n}" using that assms(2) by auto
    then obtain i where i: "i < n" "fst p = int i" by auto
    then have "snd p = piece_of ps (int i)" using piece_of_map_of [OF assms(1), of "int i" "snd p"] that by (metis prod.collapse)
    then show ?thesis using assms(3) i by (intro exI [of _ i]) (auto simp: array_pieces_def intro: prod_eqI)
  qed
  have "set qs = set ps" using assms(4) by (metis set_mset_mset)
  then have "(int (nat (fst p)), [all_key]) = p" if "p \<in> set qs" for p
    using ps [of p] that by auto
  then have "qs = map (\<lambda>i. (int i, [all_key])) (map (nat \<circ> fst) qs)"
    by (simp add: comp_def map_idI)
  moreover have "mset (map (nat \<circ> fst) qs) = mset [0..<n]"
  proof -
    have "mset (map fst ps) = mset_set (int ` {..<n})" using mset_set_set [OF assms(1)] assms(2) by simp
    also have "\<dots> = image_mset int (mset [0..<n])" by (simp add: image_mset_mset_set mset_set_upto_eq_mset_upto lessThan_atLeast0)
    finally have "image_mset nat (mset (map fst ps)) = mset [0..<n]" by (simp add: image_mset.compositionality comp_def)
    then show ?thesis using assms(4) by (simp add: image_mset.compositionality comp_def)
  qed
  ultimately show ?thesis by blast
qed

text \<open>The replies of all servers, in whatever order, fill the buffer and end the wait.\<close>

lemma replies_fill_buffer:
  assumes w: "waits_for wk k mid (int n)" "fst (wk ! k) = array_wops"
    and aw: "offsets_ok (wt_state (snd (wk ! k))) sz n" "aw_data (wt_state (snd (wk ! k))) = enc_seq enc32 ws" "length ws = sz"
    and sz: "0 < n" "n < sz" "sz < 2 ^ 31" and vals: "length vals = sz"
    and held: "\<forall>i < n. holds_piece (zs i) sz n vals i (tables i)"
    and reply_ok: "\<And>i. i < n \<Longrightarrow>
      array_ProcessGet (tables i) [all_key] = Inr (msg_data (reply i), tables i) \<and> about k mid (reply i)"
    and arr: "mset arrival = mset (map reply is)" and "is": "mset is = mset [0..<n]"
  shows "\<exists>wk2 t2. fold_res (\<lambda>wk r. worker_ProcessReplyGet r wk) wk arrival = Inr wk2
    \<and> table_Wait mid (snd (wk2 ! k)) = Inr (Some t2) \<and> aw_data (wt_state t2) = enc_seq enc32 vals"
proof -
  obtain js where js: "mset js = mset is" "arrival = map reply js" using permuted_map [OF arr] by blast
  have set_js: "set js = {..<n}" using js(1) "is" by (metis atLeast_upt set_mset_mset)
  have len: "length js = n" using js(1) "is" by (metis diff_zero length_upt size_mset)
  obtain aw2 ws2 where c: "collect_replies tables (wt_state (snd (wk ! k))) js = Inr aw2"
      "aw_data aw2 = enc_seq enc32 ws2" "length ws2 = sz"
      "\<forall>j < n. piece sz n ws2 j = (if j \<in> set js then piece sz n vals j else piece sz n ws j)"
    using collect_pieces [OF aw(1) sz(3,2) held vals _ aw(2,3), of js] set_js by auto
  have "ws2 = vals" using pieces_determine [OF sz(1) c(3) vals] c(4) set_js by auto
  moreover obtain wk2 where wk2: "fold_res (\<lambda>wk r. worker_ProcessReplyGet r wk) wk (map reply js) = Inr wk2"
      "waits_for wk2 k mid (int n - int (length js))" "wt_state (snd (wk2 ! k)) = aw2"
    using reply_get_loop [where servers = tables and reply = reply, OF _ w c(1)] reply_ok set_js by auto
  moreover obtain t2 where "table_Wait mid (snd (wk2 ! k)) = Inr (Some t2)"
    using wait_returns [OF wk2(2)] len by auto
  moreover from this have "wt_state t2 = wt_state (snd (wk2 ! k))"
    by (auto simp: table_Wait_def split: if_splits)
  ultimately show ?thesis using js(2) c(2) wk2(3) by auto
qed

text \<open>C8. A Get returns the table. Let the \<open>n\<close> servers hold the pieces of \<open>vals\<close>, each under its rank,
  with an asynchronous scheduler. Then the worker actor turns the request into \<open>n\<close> messages, each
  server that receives its message answers with one reply, and in whatever order the replies
  reach the worker actor, it handles all of them; then \<open>Wait\<close> returns and the caller's buffer
  holds exactly \<open>vals\<close>.\<close>

theorem array_get_end_to_end:
  assumes aw: "offsets_ok (wt_state t) sz n" "aw_data (wt_state t) = enc_seq enc32 ws" "length ws = sz"
    and sz: "0 < n" "n < sz" "sz < 2 ^ 31" and vals: "length vals = sz"
    and wk: "k < length wk" "wk ! k = (array_wops, t')" and k: "wt_table_id t = of_nat k" "k < 2 ^ 31"
    and ids: "length (waitings t) = unat (wt_msg_id t)" "unat (wt_msg_id t) < 2 ^ 31 - 1"
    and req: "table_GetAsync z all_key None t = (mid, m, t')"
    and order: "\<And>ps. mset (order ps) = mset ps" and z: "length (server_ranks z) = n" "valid_ranks z"
    and servers: "\<forall>i < n. serves_piece A (zs (server_ranks z ! i)) k sz n vals i (svs (server_ranks z ! i))"
  shows "\<exists>out wk1 replies. worker_ProcessGet z order m wk = Inr (out, wk1) \<and> length out = n
    \<and> list_all2 (\<lambda>m' r. deliver zs svs k m' = Inr [r]) out replies
    \<and> (\<forall>arrival. mset arrival = mset replies \<longrightarrow>
        (\<exists>wk2 t2. fold_res (\<lambda>wk r. worker_ProcessReplyGet r wk) wk1 arrival = Inr wk2
          \<and> table_Wait mid (snd (wk2 ! k)) = Inr (Some t2) \<and> aw_data (wt_state t2) = enc_seq enc32 vals))"
proof -
  have b: "begin_request z Request_Get [all_key] t = (mid, m, t')" using req by (simp add: table_GetAsync_def)
  note f = fresh_waiter [OF b ids]
  have "array_req n (wt_state t) [all_key]" using aw(1) sz(3) by (auto simp: array_req_def)
  then have r: "array_req n (wt_state t') (msg_data m)" using f(7,8) by simp
  have w: "waits_for wk k mid 1" using wk f(1) by (simp add: waits_for_def)
  have ab: "about k mid m" using f(4,5) k by (simp add: about_def sint_i32_of_nat)
  obtain ps wk1 where s: "worker_request z order Request_Get m wk = Inr (map (sent z Request_Get m) (order ps), wk1)"
      "distinct (map fst ps)" "fst ` set ps = int ` {..<n}" "array_pieces n (msg_data m) ps"
      "waits_for wk1 k mid (int (length ps))" "fst (wk1 ! k) = array_wops" "wt_state (snd (wk1 ! k)) = wt_state t'"
    using array_shards.request_sent [OF r wk(2) w ab order z(1), of Request_Get] by blast
  obtain "is" where is': "order ps = map (\<lambda>i. (int i, [all_key])) is" "mset is = mset [0..<n]"
    using array_pieces_list [OF s(2,3) _ order] s(4) f(7) by auto
  have set_is: "set is = {..<n}" using is'(2) by (metis atLeast_upt set_mset_mset)
  let ?m = "\<lambda>i. sent z Request_Get m (int i, [all_key])"
  let ?reply = "\<lambda>i. get_reply (?m i) sz n vals i"
  define srv where "srv = (\<lambda>i. table (case snd (svs (server_ranks z ! i) ! k) of AsyncSched s \<Rightarrow> s))"
  have held: "\<forall>i < n. holds_piece (zs (server_ranks z ! i)) sz n vals i (srv i)"
    using servers by (auto simp: serves_piece_def srv_def)
  have reply_ok: "array_ProcessGet (srv i) [all_key] = Inr (msg_data (?reply i), srv i) \<and> about k mid (?reply i)" if "i < n" for i
    using array_ProcessGet_ok [of "zs (server_ranks z ! i)" "piece_len sz n i" "srv i" "[all_key]"] held that ab
    by (auto simp: array_get_ok_def array_answer_def array_look_def holds_piece_def get_reply_def about_def)
  have del: "deliver zs svs k (?m i) = Inr [?reply i]" if "i < n" for i
    using that servers rank_word [OF z(2), of i] z(1) ab by (intro deliver_get [where r = "server_ranks z ! i"]) (auto simp: about_def)
  have n: "length ps = n" "length is = n"
    using is' order [of ps] by (metis diff_zero length_map length_upt size_mset)+
  have aw1: "offsets_ok (wt_state (snd (wk1 ! k))) sz n" "aw_data (wt_state (snd (wk1 ! k))) = enc_seq enc32 ws"
    using aw s(7) f(8) by simp_all
  have "\<exists>wk2 t2. fold_res (\<lambda>wk r. worker_ProcessReplyGet r wk) wk1 arrival = Inr wk2
      \<and> table_Wait mid (snd (wk2 ! k)) = Inr (Some t2) \<and> aw_data (wt_state t2) = enc_seq enc32 vals"
    if arr: "mset arrival = mset (map ?reply is)" for arrival
    by (rule replies_fill_buffer [OF s(5) [unfolded n] s(6) aw1 aw(3) sz vals held reply_ok arr is'(2)])
  moreover have "list_all2 (\<lambda>m' r. deliver zs svs k m' = Inr [r]) (map ?m is) (map ?reply is)"
    using del set_is by (auto simp: list.rel_map intro!: list.rel_refl_strong)
  ultimately show ?thesis using s(1) is'(1) n
    by (intro exI [of _ "map ?m is"] exI [of _ wk1] exI [of _ "map ?reply is"]) (simp add: worker_ProcessGet_def comp_def)
qed

text \<open>Two servers with a table of five floats.\<close>

definition demo_table :: "array_worker worker_table" where
  "demo_table = new_worker_table \<lparr>aw_size = 5, aw_num_server = 2, server_offsets = [0, 2, 5],
     aw_data = enc_seq enc32 [0, 0, 0, 0, 0]\<rparr> (of_nat 0)"

definition demo_get :: "i32 \<times> message \<times> array_worker worker_table" where
  "demo_get = table_GetAsync two_servers all_key None demo_table"

definition demo_svs :: "int \<Rightarrow> array_server server" where
  "demo_svs r = [(array_ops bit_arith two_servers, AsyncSched \<lparr>table = demo_server (nat r), outbox = [], files = Map.empty\<rparr>)]"

lemma demo_table_ok: "offsets_ok (wt_state demo_table) 5 2"
  by (simp add: demo_table_def new_worker_table_def demo_offsets)

lemma array_get_end_to_end_witness:
  "\<exists>out wk1 replies. worker_ProcessGet two_servers rev (fst (snd demo_get)) [(array_wops, snd (snd demo_get))] = Inr (out, wk1)
    \<and> length out = 2 \<and> list_all2 (\<lambda>m' r. deliver (\<lambda>_. two_servers) demo_svs 0 m' = Inr [r]) out replies
    \<and> (\<forall>arrival. mset arrival = mset replies \<longrightarrow>
        (\<exists>wk2 t2. fold_res (\<lambda>wk r. worker_ProcessReplyGet r wk) wk1 arrival = Inr wk2
          \<and> table_Wait (fst demo_get) (snd (wk2 ! 0)) = Inr (Some t2) \<and> aw_data (wt_state t2) = enc_seq enc32 [10, 11, 12, 13, 14]))"
proof (rule array_get_end_to_end [OF demo_table_ok])
  show "aw_data (wt_state demo_table) = enc_seq enc32 [0, 0, 0, 0, 0]" by (simp add: demo_table_def new_worker_table_def)
  show "table_GetAsync two_servers all_key None demo_table = (fst demo_get, fst (snd demo_get), snd (snd demo_get))"
    by (simp add: demo_get_def)
  show "\<forall>i < 2. serves_piece bit_arith two_servers 0 5 2 [10, 11, 12, 13, 14] i (demo_svs (server_ranks two_servers ! i))"
    using demo_server_holds by (auto simp: serves_piece_def demo_svs_def two_servers_def less_2_cases_iff)
qed (simp_all add: demo_table_def new_worker_table_def two_servers_def valid_ranks_def)

end
