(* ===== verification/Collective.thy ===== *)
theory Collective
  imports Bytes
begin

text \<open>
  Blocking communication between machines, as the collective operations use it:
  \<open>SendTo\<close>, \<open>RecvFrom\<close> and \<open>SendRecv\<close> of \<open>NetInterface\<close> (src/hpps/net/net.h) in their two
  implementations (mpi_net.h, zmq_net.h). A machine is a process that sends, receives, waits
  for a send to complete or has finished; the machines run in any order, and a directed pair of
  machines has a channel that keeps the order of its messages. MPI receives from the machine it
  names; a ZeroMQ DEALER socket hands out whichever message is there, so its \<open>RecvFrom\<close> ignores
  the rank.

  \<open>MPI_Wait\<close> on the request of an \<open>MPI_Isend\<close> returns once the message has been received; MPI
  may let it return earlier, when it has a copy of the message, but need not. So the relation of
  steps has a parameter \<open>lib\<close>: the lengths of messages whose send completes without the
  receiver. With \<open>\<lambda>_. False\<close> every send waits for its receiver (a synchronous send), with
  \<open>\<lambda>_. True\<close> it may complete at any time.

  The middle sections prove that with MPI neither the order in which the machines run nor the
  moment at which a send completes matters: if one run finishes, even one in which MPI completes
  few sends early, every run does, in the same state.
\<close>

section \<open>Processes\<close>

datatype 'a proc =
    Done 'a
  | Crash err
  | Send int blob "'a proc"
  | Recv int nat blob "blob \<Rightarrow> 'a proc"
    \<comment> \<open>the rank asked for, the length wanted, the bytes read so far, the rest of the program\<close>
  | WaitSent int nat "'a proc"
    \<comment> \<open>\<open>MPI_Wait\<close> on the last send to a rank, of a message of that length\<close>

primrec bindp :: "'a proc \<Rightarrow> ('a \<Rightarrow> 'b proc) \<Rightarrow> 'b proc" where
  "bindp (Done x) f = f x"
| "bindp (Crash e) f = Crash e"
| "bindp (Send d b p) f = Send d b (bindp p f)"
| "bindp (Recv s n acc k) f = Recv s n acc (\<lambda>b. bindp (k b) f)"
| "bindp (WaitSent d n p) f = WaitSent d n (bindp p f)"

definition lift :: "'a res \<Rightarrow> ('a \<Rightarrow> 'b proc) \<Rightarrow> 'b proc" where
  "lift r f = (case r of Inl e \<Rightarrow> Crash e | Inr x \<Rightarrow> f x)"

fun fold_proc :: "('s \<Rightarrow> 'x \<Rightarrow> 's proc) \<Rightarrow> 's \<Rightarrow> 'x list \<Rightarrow> 's proc" where
  "fold_proc f s [] = Done s"
| "fold_proc f s (x # xs) = bindp (f s x) (\<lambda>s'. fold_proc f s' xs)"

lemma lift_simps [simp]:
  "lift (Inl e) f = Crash e"
  "lift (Inr x) f = f x"
  by (simp_all add: lift_def)

lemma bindp_Done [simp]: "bindp p Done = p"
  by (induction p) simp_all

lemma bindp_assoc: "bindp (bindp p f) g = bindp p (\<lambda>x. bindp (f x) g)"
  by (induction p) simp_all

lemma bindp_lift [simp]: "bindp (lift r f) g = lift r (\<lambda>x. bindp (f x) g)"
  by (cases r) simp_all

lemma fold_proc_append:
  "fold_proc f s (xs @ ys) = bindp (fold_proc f s xs) (\<lambda>s'. fold_proc f s' ys)"
  by (induction xs arbitrary: s) (simp_all add: bindp_assoc)

section \<open>The two implementations of the interface\<close>

datatype net_kind = MPI | ZMQ

text \<open>
  \<open>MPINetWrapper::SendTo\<close> returns at once for nothing to send, and so does the loop of
  \<open>ZMQNetWrapper::SendTo\<close>. \<open>MPINetWrapper::SendRecv\<close> calls \<open>MPI_Isend\<close> whatever the length, and
  \<open>MPI_Wait\<close> after it has received; \<open>ZMQNetWrapper::SendRecv\<close> calls \<open>SendTo\<close>, and a ZeroMQ socket
  queues what it sends.
\<close>

definition mpi_SendTo :: "int \<Rightarrow> blob \<Rightarrow> unit proc" where
  "mpi_SendTo r buf = (if length buf = 0 then Done ()
     else Send r buf (WaitSent r (length buf) (Done ())))"

definition mpi_RecvFrom :: "int \<Rightarrow> nat \<Rightarrow> blob proc" where
  "mpi_RecvFrom r len = Recv r len [] Done"

definition mpi_SendRecv :: "int \<Rightarrow> blob \<Rightarrow> int \<Rightarrow> nat \<Rightarrow> blob proc" where
  "mpi_SendRecv send_rank send_data recv_rank recv_len =
     Send send_rank send_data
       (Recv recv_rank recv_len [] (\<lambda>x. WaitSent send_rank (length send_data) (Done x)))"

definition zmq_SendTo :: "int \<Rightarrow> blob \<Rightarrow> unit proc" where
  "zmq_SendTo r buf = (if 0 < length buf then Send r buf (Done ()) else Done ())"

definition zmq_RecvFrom :: "int \<Rightarrow> nat \<Rightarrow> blob proc" where
  "zmq_RecvFrom r len = Recv r len [] Done"

definition zmq_SendRecv :: "int \<Rightarrow> blob \<Rightarrow> int \<Rightarrow> nat \<Rightarrow> blob proc" where
  "zmq_SendRecv send_rank send_buf recv_rank recv_len =
     bindp (zmq_SendTo send_rank send_buf) (\<lambda>_. zmq_RecvFrom recv_rank recv_len)"

fun net_SendTo :: "net_kind \<Rightarrow> int \<Rightarrow> blob \<Rightarrow> unit proc" where
  "net_SendTo MPI = mpi_SendTo"
| "net_SendTo ZMQ = zmq_SendTo"

fun net_RecvFrom :: "net_kind \<Rightarrow> int \<Rightarrow> nat \<Rightarrow> blob proc" where
  "net_RecvFrom MPI = mpi_RecvFrom"
| "net_RecvFrom ZMQ = zmq_RecvFrom"

fun net_SendRecv :: "net_kind \<Rightarrow> int \<Rightarrow> blob \<Rightarrow> int \<Rightarrow> nat \<Rightarrow> blob proc" where
  "net_SendRecv MPI = mpi_SendRecv"
| "net_SendRecv ZMQ = zmq_SendRecv"

section \<open>Machines running side by side\<close>

record 'a net =
  procs :: "int \<Rightarrow> 'a proc"
  chan :: "int \<times> int \<Rightarrow> blob list"
  \<comment> \<open>\<open>(s, d)\<close>: the messages \<open>s\<close> sent to \<open>d\<close> that \<open>d\<close> has not received\<close>

text \<open>
  One iteration of the receive loop, the message being there. \<open>MPI_Recv\<close> fails on a message
  longer than the rest of the buffer (\<open>MPI_ERR_TRUNCATE\<close>, which \<open>HPPS_MPI_CALL\<close> checks);
  \<open>zmq_recv\<close> cuts it off and returns its full length.
\<close>

definition recv_more :: "net_kind \<Rightarrow> int \<Rightarrow> nat \<Rightarrow> blob \<Rightarrow> (blob \<Rightarrow> 'a proc) \<Rightarrow> blob \<Rightarrow> 'a proc" where
  "recv_more kind s n acc k m =
     (if length acc + length m \<le> n then Recv s n (acc @ m) k
      else if kind = MPI then Crash Check
      else k (acc @ take (n - length acc) m))"

text \<open>
  A step of machine \<open>p\<close>; \<open>q\<close> is the machine whose message a ZeroMQ socket hands out next.
\<close>

definition run_step :: "net_kind \<Rightarrow> (nat \<Rightarrow> bool) \<Rightarrow> int \<Rightarrow> int \<Rightarrow> 'a net \<Rightarrow> 'a net option" where
  \<comment> \<open>the last message sent on a channel has been received when the channel is empty\<close>
  "run_step kind lib p q c = (case procs c p of
     Done _ \<Rightarrow> None
   | Crash _ \<Rightarrow> None
   | Send d b rest \<Rightarrow>
       Some \<lparr>procs = (procs c)(p := rest), chan = (chan c)((p, d) := chan c (p, d) @ [b])\<rparr>
   | WaitSent d n rest \<Rightarrow>
       if chan c (p, d) = [] \<or> lib n then Some (c\<lparr>procs := (procs c)(p := rest)\<rparr>) else None
   | Recv s n acc k \<Rightarrow>
       if n \<le> length acc then Some (c\<lparr>procs := (procs c)(p := k acc)\<rparr>)
       else (let f = (case kind of MPI \<Rightarrow> s | ZMQ \<Rightarrow> q) in
         case chan c (f, p) of
           [] \<Rightarrow> None
         | m # ms \<Rightarrow> Some \<lparr>procs = (procs c)(p := recv_more kind s n acc k m),
                          chan = (chan c)((f, p) := ms)\<rparr>))"

inductive steps :: "net_kind \<Rightarrow> (nat \<Rightarrow> bool) \<Rightarrow> 'a net \<Rightarrow> nat \<Rightarrow> 'a net \<Rightarrow> bool" for kind lib where
  steps_0: "steps kind lib c 0 c"
| steps_Suc: "run_step kind lib p q c = Some c' \<Longrightarrow> steps kind lib c' n c'' \<Longrightarrow> steps kind lib c (Suc n) c''"

inductive_cases steps_0E [elim!]: "steps kind lib c 0 c'"
inductive_cases steps_SucE: "steps kind lib c (Suc n) c'"

definition start :: "(int \<Rightarrow> 'a proc) \<Rightarrow> 'a net" where
  "start ps = \<lparr>procs = ps, chan = (\<lambda>_. [])\<rparr>"

lemma steps_trans: "steps kind lib a m b \<Longrightarrow> steps kind lib b n c \<Longrightarrow> steps kind lib a (m + n) c"
  by (induction rule: steps.induct) (auto intro: steps_Suc)

text \<open>No machine can take a step, and none could if MPI completed every send.\<close>

definition stuck :: "net_kind \<Rightarrow> 'a net \<Rightarrow> bool" where
  "stuck kind c \<longleftrightarrow> (\<forall>p q. run_step kind (\<lambda>_. True) p q c = None)"

section \<open>With MPI the schedule does not matter\<close>

lemma stuck_run_step: "stuck kind c \<Longrightarrow> run_step kind lib p q c = None"
  unfolding stuck_def run_step_def
  by (elim allE [of _ p] allE [of _ q]) (auto split: proc.splits if_splits)

lemma run_step_MPI_choice:
  "run_step MPI g p q c = Some a \<Longrightarrow> run_step MPI h p q' c = Some b \<Longrightarrow> a = b"
  by (auto simp: run_step_def split: proc.splits if_splits)

lemma run_step_diamond:
  assumes "run_step MPI g p q c = Some a" and "run_step MPI h p' q' c = Some b" and "p \<noteq> p'"
  shows "\<exists>d. run_step MPI h p' q' a = Some d \<and> run_step MPI g p q b = Some d"
proof (cases c)
  case (fields ps ch)
  then show ?thesis
    using assms
    by (cases "ps p"; cases "ps p'")
      (auto simp: run_step_def Let_def fun_upd_twist split: if_splits list.splits)
qed

text \<open>Take a run with the sends \<open>g\<close> completed early that finishes. Then every run, whichever sends it
  completes early, is at most as long, and can be finished completing no others than \<open>g\<close>.\<close>

lemma steps_random_descent:
  assumes "steps MPI g c n f" and "stuck MPI f" and "steps MPI h c m x"
  shows "m \<le> n \<and> steps MPI g x (n - m) f"
  using assms
proof (induction n arbitrary: c m x)
  case 0
  then have "f = c" by auto
  then show ?case using 0 stuck_run_step [of MPI c]
    by (cases m) (auto intro: steps_0 elim: steps_SucE)
next
  case (Suc n)
  show ?case
  proof (cases m)
    case 0
    then show ?thesis using Suc.prems by auto
  next
    case m: (Suc m')
    from Suc.prems(1) obtain p q c1 where c1: "run_step MPI g p q c = Some c1" "steps MPI g c1 n f"
      by (auto elim: steps_SucE)
    from Suc.prems(3) obtain p' q' x1 where x1: "run_step MPI h p' q' c = Some x1" "steps MPI h x1 m' x"
      unfolding m by (auto elim: steps_SucE)
    have "steps MPI g x1 n f"
    proof (cases "p = p'")
      case True
      then show ?thesis using c1 run_step_MPI_choice [OF c1(1)] x1(1) by blast
    next
      case False
      then obtain d where d: "run_step MPI h p' q' c1 = Some d" "run_step MPI g p q x1 = Some d"
        using run_step_diamond [OF c1(1) x1(1)] by blast
      have "steps MPI h c1 1 d" using steps_Suc [OF d(1) steps_0] by simp
      then have "1 \<le> n \<and> steps MPI g d (n - 1) f" by (rule Suc.IH [OF c1(2) Suc.prems(2)])
      then show ?thesis using steps_Suc [OF d(2)] by (cases n) auto
    qed
    then have "m' \<le> n \<and> steps MPI g x (n - m') f" by (rule Suc.IH [OF _ Suc.prems(2) x1(2)])
    then show ?thesis by (simp add: m)
  qed
qed

section \<open>Exchanges in which every message is received\<close>

definition reaches :: "net_kind \<Rightarrow> (nat \<Rightarrow> bool) \<Rightarrow> 'a net \<Rightarrow> 'a net \<Rightarrow> bool" where
  "reaches kind lib c c' \<longleftrightarrow> (\<exists>n. steps kind lib c n c')"

lemma reaches_refl [simp]: "reaches kind lib c c"
  unfolding reaches_def by (blast intro: steps_0)

lemma reaches_trans [trans]: "reaches kind lib a b \<Longrightarrow> reaches kind lib b c \<Longrightarrow> reaches kind lib a c"
  unfolding reaches_def by (blast intro: steps_trans)

lemma reaches_step: "run_step kind lib p q c = Some c' \<Longrightarrow> reaches kind lib c c'"
  unfolding reaches_def by (blast intro: steps_Suc steps_0)

text \<open>
  The channels hold nothing but empty messages, and not even these unless \<open>empties\<close>: an
  exchange of no bytes sends a message that its receiver never asks for.
\<close>

definition quiet :: "bool \<Rightarrow> 'a net \<Rightarrow> bool" where
  "quiet empties c \<longleftrightarrow> (\<forall>sd. \<forall>m \<in> set (chan c sd). empties \<and> m = [])"

lemma send_all:
  assumes "distinct ps" and "\<And>p. p \<in> set ps \<Longrightarrow> procs c p = Send (out p) (b p) (rest p)"
  shows "reaches kind lib c
    \<lparr>procs = (\<lambda>p. if p \<in> set ps then rest p else procs c p),
     chan = (\<lambda>(s, d). chan c (s, d) @ (if s \<in> set ps \<and> d = out s then [b s] else []))\<rparr>"
  using assms
proof (induction ps arbitrary: c)
  case Nil
  then show ?case by (cases c) simp
next
  case (Cons p ps)
  let ?c = "\<lparr>procs = (procs c)(p := rest p),
    chan = (chan c)((p, out p) := chan c (p, out p) @ [b p])\<rparr>"
  have "run_step kind lib p 0 c = Some ?c"
    using Cons.prems(2) [of p] by (simp add: run_step_def)
  then have "reaches kind lib c ?c" by (rule reaches_step)
  also have "reaches kind lib ?c
    \<lparr>procs = (\<lambda>q. if q \<in> set ps then rest q else procs ?c q),
     chan = (\<lambda>(s, d). chan ?c (s, d) @ (if s \<in> set ps \<and> d = out s then [b s] else []))\<rparr>"
    using Cons.prems by (intro Cons.IH) auto
  also have "\<lparr>procs = (\<lambda>q. if q \<in> set ps then rest q else procs ?c q),
     chan = (\<lambda>(s, d). chan ?c (s, d) @ (if s \<in> set ps \<and> d = out s then [b s] else []))\<rparr>
    = \<lparr>procs = (\<lambda>q. if q \<in> set (p # ps) then rest q else procs c q),
     chan = (\<lambda>(s, d). chan c (s, d) @ (if s \<in> set (p # ps) \<and> d = out s then [b s] else []))\<rparr>"
    using Cons.prems(1) by (auto simp: fun_eq_iff)
  finally show ?case .
qed

lemma recv_one:
  assumes "procs c p = Recv s (length acc + length m) acc k"
    and "chan c (s, p) = junk @ [m]" and "\<forall>x \<in> set junk. empties \<and> x = []" and "empties \<or> m \<noteq> []"
  shows "\<exists>l. (\<forall>x \<in> set l. empties \<and> x = []) \<and> (m \<noteq> [] \<longrightarrow> l = []) \<and>
    reaches MPI lib c \<lparr>procs = (procs c)(p := k (acc @ m)), chan = (chan c)((s, p) := l)\<rparr>"
proof (cases "m = []")
  case True
  have "run_step MPI lib p 0 c = Some \<lparr>procs = (procs c)(p := k (acc @ m)),
      chan = (chan c)((s, p) := junk @ [m])\<rparr>"
    using assms True by (simp add: run_step_def fun_upd_idem)
  then show ?thesis using True assms(3,4) by (intro exI [of _ "junk @ [m]"]) (auto intro: reaches_step)
next
  case False
  have "reaches MPI lib c \<lparr>procs = (procs c)(p := k (acc @ m)), chan = (chan c)((s, p) := [])\<rparr>"
    using assms
  proof (induction junk arbitrary: c)
    case Nil
    let ?c = "\<lparr>procs = (procs c)(p := Recv s (length acc + length m) (acc @ m) k),
      chan = (chan c)((s, p) := [])\<rparr>"
    have "run_step MPI lib p 0 c = Some ?c"
      using Nil False by (simp add: run_step_def recv_more_def)
    moreover have "run_step MPI lib p 0 ?c =
        Some \<lparr>procs = (procs c)(p := k (acc @ m)), chan = (chan c)((s, p) := [])\<rparr>"
      by (simp add: run_step_def)
    ultimately show ?case by (metis reaches_step reaches_trans)
  next
    case (Cons x junk)
    let ?c = "c\<lparr>chan := (chan c)((s, p) := junk @ [m])\<rparr>"
    have "run_step MPI lib p 0 c = Some ?c"
      using Cons.prems False by (simp add: run_step_def recv_more_def fun_upd_idem)
    then have "reaches MPI lib c ?c" by (rule reaches_step)
    also have "reaches MPI lib ?c \<lparr>procs = (procs ?c)(p := k (acc @ m)), chan = (chan ?c)((s, p) := [])\<rparr>"
      using Cons.prems by (intro Cons.IH) auto
    finally show ?case by (simp add: fun_upd_def cong: if_cong)
  qed
  then show ?thesis by (intro exI [of _ "[]"]) simp
qed

text \<open>What is left on a channel after the message \<open>m\<close> has been received.\<close>

definition leftover :: "bool \<Rightarrow> blob \<Rightarrow> blob list \<Rightarrow> bool" where
  "leftover empties m l \<longleftrightarrow> (\<forall>x \<in> set l. empties \<and> x = []) \<and> (m \<noteq> [] \<longrightarrow> l = [])"

lemma recv_all:
  assumes "distinct ps"
    and "\<And>p. p \<in> set ps \<Longrightarrow> procs c p = Recv (s p) (length (m p)) [] (k p)"
    and "\<And>p. p \<in> set ps \<Longrightarrow> \<exists>junk. chan c (s p, p) = junk @ [m p] \<and> (\<forall>x \<in> set junk. empties \<and> x = [])"
    and "\<And>p. p \<in> set ps \<Longrightarrow> empties \<or> m p \<noteq> []"
  shows "\<exists>c'. reaches MPI lib c c' \<and> procs c' = (\<lambda>p. if p \<in> set ps then k p (m p) else procs c p) \<and>
    (\<forall>q p. (if p \<in> set ps \<and> q = s p then leftover empties (m p) (chan c' (q, p))
      else chan c' (q, p) = chan c (q, p)))"
  using assms
proof (induction ps arbitrary: c)
  case Nil
  then show ?case by (intro exI [of _ c]) simp
next
  case (Cons p ps)
  from Cons.prems(3) [of p] obtain junk
    where j: "chan c (s p, p) = junk @ [m p]" "\<forall>x \<in> set junk. empties \<and> x = []" by auto
  obtain l where l: "leftover empties (m p) l"
    and c1: "reaches MPI lib c \<lparr>procs = (procs c)(p := k p (m p)), chan = (chan c)((s p, p) := l)\<rparr>"
    using recv_one [of c p "s p" "[]" "m p" "k p", OF _ j(1) j(2)] Cons.prems(2,4) [of p]
    by (auto simp: leftover_def)
  let ?c = "\<lparr>procs = (procs c)(p := k p (m p)), chan = (chan c)((s p, p) := l)\<rparr>"
  have "\<exists>c'. reaches MPI lib ?c c' \<and> procs c' = (\<lambda>p. if p \<in> set ps then k p (m p) else procs ?c p) \<and>
    (\<forall>q p. (if p \<in> set ps \<and> q = s p then leftover empties (m p) (chan c' (q, p))
      else chan c' (q, p) = chan ?c (q, p)))"
    using Cons.prems by (intro Cons.IH) auto
  then obtain c' where c': "reaches MPI lib ?c c'"
    "procs c' = (\<lambda>p. if p \<in> set ps then k p (m p) else procs ?c p)"
    "\<And>q p. if p \<in> set ps \<and> q = s p then leftover empties (m p) (chan c' (q, p))
      else chan c' (q, p) = chan ?c (q, p)" by blast
  have "reaches MPI lib c c'" using c1 c'(1) by (rule reaches_trans)
  moreover have "procs c' = (\<lambda>q. if q \<in> set (p # ps) then k q (m q) else procs c q)"
    using Cons.prems(1) by (auto simp: c'(2))
  moreover have "if a \<in> set (p # ps) \<and> q = s a then leftover empties (m a) (chan c' (q, a))
      else chan c' (q, a) = chan c (q, a)" for q a
    using c'(3) [of a q] l Cons.prems(1) by (auto split: if_splits)
  ultimately show ?case by blast
qed

text \<open>The machines \<open>ps\<close> wait for their last sends, which have been received or need not be.\<close>

lemma wait_all:
  assumes "distinct ps" and "\<And>p. p \<in> set ps \<Longrightarrow> procs c p = WaitSent (d p) (n p) (rest p)"
    and "\<And>p. p \<in> set ps \<Longrightarrow> chan c (p, d p) = [] \<or> lib (n p)"
  shows "reaches kind lib c (c\<lparr>procs := \<lambda>p. if p \<in> set ps then rest p else procs c p\<rparr>)"
  using assms
proof (induction ps arbitrary: c)
  case Nil
  then show ?case by (cases c) simp
next
  case (Cons p ps)
  let ?c = "c\<lparr>procs := (procs c)(p := rest p)\<rparr>"
  have "run_step kind lib p 0 c = Some ?c"
    using Cons.prems(2,3) [of p] by (simp add: run_step_def)
  then have "reaches kind lib c ?c" by (rule reaches_step)
  also have "reaches kind lib ?c (?c\<lparr>procs := \<lambda>q. if q \<in> set ps then rest q else procs ?c q\<rparr>)"
    using Cons.prems by (intro Cons.IH) auto
  also have "?c\<lparr>procs := \<lambda>q. if q \<in> set ps then rest q else procs ?c q\<rparr>
      = c\<lparr>procs := \<lambda>q. if q \<in> set (p # ps) then rest q else procs c q\<rparr>"
    using Cons.prems(1) by (auto simp: fun_eq_iff)
  finally show ?case .
qed

text \<open>
  One round: the machines \<open>ps\<close> each send to \<open>out p\<close>, then receive from \<open>inn p\<close>, then wait for
  their send, and the two maps are inverse to each other.
\<close>

lemma exchange:
  assumes "distinct ps" "quiet empties c"
    and "\<And>p. p \<in> set ps \<Longrightarrow> procs c p = Send (out p) (b p)
      (Recv (inn p) (length (b (inn p))) [] (\<lambda>x. WaitSent (out p) (length (b p)) (k p x)))"
    and "\<And>p. p \<in> set ps \<Longrightarrow> inn p \<in> set ps \<and> out p \<in> set ps \<and> out (inn p) = p \<and> inn (out p) = p"
    and "\<And>p. p \<in> set ps \<Longrightarrow> empties \<or> b p \<noteq> []" and "empties \<Longrightarrow> lib 0"
  shows "\<exists>c'. reaches MPI lib c c' \<and> quiet empties c' \<and>
    procs c' = (\<lambda>p. if p \<in> set ps then k p (b (inn p)) else procs c p)"
proof -
  let ?k = "\<lambda>p x. WaitSent (out p) (length (b p)) (k p x)"
  let ?c = "\<lparr>procs = (\<lambda>p. if p \<in> set ps then Recv (inn p) (length (b (inn p))) [] (?k p) else procs c p),
     chan = (\<lambda>(s, d). chan c (s, d) @ (if s \<in> set ps \<and> d = out s then [b s] else []))\<rparr>"
  have 1: "reaches MPI lib c ?c" using assms(1,3) by (intro send_all) auto
  have "\<exists>c'. reaches MPI lib ?c c' \<and>
    procs c' = (\<lambda>p. if p \<in> set ps then ?k p (b (inn p)) else procs ?c p) \<and>
    (\<forall>q p. (if p \<in> set ps \<and> q = inn p then leftover empties (b (inn p)) (chan c' (q, p))
      else chan c' (q, p) = chan ?c (q, p)))"
    using assms(1-5) by (intro recv_all) (auto simp: quiet_def)
  then obtain c2 where c2: "reaches MPI lib ?c c2"
    "procs c2 = (\<lambda>p. if p \<in> set ps then ?k p (b (inn p)) else procs ?c p)"
    "\<And>q p. if p \<in> set ps \<and> q = inn p then leftover empties (b (inn p)) (chan c2 (q, p))
      else chan c2 (q, p) = chan ?c (q, p)" by blast
  let ?c' = "c2\<lparr>procs := \<lambda>p. if p \<in> set ps then k p (b (inn p)) else procs c2 p\<rparr>"
  have 3: "reaches MPI lib c2 ?c'"
  proof (rule wait_all [OF assms(1)])
    show "procs c2 p = WaitSent (out p) (length (b p)) (k p (b (inn p)))" if "p \<in> set ps" for p
      using that by (simp add: c2(2))
    show "chan c2 (p, out p) = [] \<or> lib (length (b p))" if "p \<in> set ps" for p
      using c2(3) [of "out p" p] assms(4) [OF that] assms(5,6) that by (cases "b p") (auto simp: leftover_def)
  qed
  have "\<forall>m \<in> set (chan c2 (q, p)). empties \<and> m = []" for q p
    using c2(3) [of p q] assms(2,4) by (auto simp: quiet_def leftover_def split: if_splits)
  then have "quiet empties ?c'" by (auto simp: quiet_def)
  moreover have "reaches MPI lib c ?c'" using 1 c2(1) 3 by (blast intro: reaches_trans)
  moreover have "procs ?c' = (\<lambda>p. if p \<in> set ps then k p (b (inn p)) else procs c p)"
    by (auto simp: c2(2))
  ultimately show ?thesis by blast
qed

text \<open>A loop of such rounds: \<open>S i p\<close> is the state of machine \<open>p\<close> before round \<open>i\<close>.\<close>

lemma exchange_loop:
  assumes "distinct ps" "i \<le> n" "quiet empties c"
    and "\<And>p. p \<in> set ps \<Longrightarrow> procs c p = bindp (fold_proc (f p) (S i p) [i..<n]) (k p)"
    and "\<And>j p. i \<le> j \<Longrightarrow> j < n \<Longrightarrow> p \<in> set ps \<Longrightarrow> f p (S j p) j =
      Send (out j p) (b j p) (Recv (inn j p) (length (b j (inn j p))) []
        (\<lambda>x. WaitSent (out j p) (length (b j p)) (g j p x)))"
    and "\<And>j p. i \<le> j \<Longrightarrow> j < n \<Longrightarrow> p \<in> set ps \<Longrightarrow> g j p (b j (inn j p)) = Done (S (Suc j) p)"
    and "\<And>j p. i \<le> j \<Longrightarrow> j < n \<Longrightarrow> p \<in> set ps \<Longrightarrow>
      inn j p \<in> set ps \<and> out j p \<in> set ps \<and> out j (inn j p) = p \<and> inn j (out j p) = p"
    and "\<And>j p. i \<le> j \<Longrightarrow> j < n \<Longrightarrow> p \<in> set ps \<Longrightarrow> empties \<or> b j p \<noteq> []" and "empties \<Longrightarrow> lib 0"
  shows "\<exists>c'. reaches MPI lib c c' \<and> quiet empties c' \<and>
    procs c' = (\<lambda>p. if p \<in> set ps then k p (S n p) else procs c p)"
  using assms(2-)
proof (induction "n - i" arbitrary: i c)
  case 0
  then have "i = n" by simp
  then show ?case using 0 by (intro exI [of _ c]) auto
next
  case (Suc d)
  then have up: "[i..<n] = i # [Suc i..<n]" by (simp add: upt_conv_Cons)
  let ?k = "\<lambda>p x. bindp (g i p x) (\<lambda>s. bindp (fold_proc (f p) s [Suc i..<n]) (k p))"
  have "\<exists>c'. reaches MPI lib c c' \<and> quiet empties c' \<and>
    procs c' = (\<lambda>p. if p \<in> set ps then ?k p (b i (inn i p)) else procs c p)"
    using Suc.prems Suc.hyps(2) assms(1)
    by (intro exchange [where out = "out i"]) (simp_all add: up bindp_assoc)
  then obtain c1 where c1: "reaches MPI lib c c1" "quiet empties c1"
    "procs c1 = (\<lambda>p. if p \<in> set ps then ?k p (b i (inn i p)) else procs c p)" by blast
  have "\<exists>c'. reaches MPI lib c1 c' \<and> quiet empties c' \<and>
    procs c' = (\<lambda>p. if p \<in> set ps then k p (S n p) else procs c1 p)"
    using Suc.hyps(2) Suc.prems c1
    by (intro Suc.hyps(1)) auto
  then obtain c' where c': "reaches MPI lib c1 c'" "quiet empties c'"
    "procs c' = (\<lambda>p. if p \<in> set ps then k p (S n p) else procs c1 p)" by blast
  have "reaches MPI lib c c'" using c1(1) c'(1) by (rule reaches_trans)
  then show ?case using c'(2,3) c1(3) by (intro exI [of _ c']) auto
qed

end
