(* ===== verification/Topology.thy ===== *)
theory Topology
  imports Prelude
begin

unbundle bit_operations_syntax

text \<open>
  src/hpps/net/allreduce_topo.cc with the maps of allreduce_engine.h: whom a machine talks to
  in each round of the Bruck all-gather and of the recursive-halving reduce-scatter. Ranks,
  block indices and distances are ints as in the source; \<open>1 << i\<close> is \<open>2 ^ i\<close>, which agrees
  with the 32-bit shift up to \<open>2 ^ 30\<close> machines. The divisions and remainders are those of
  non-negative ints, where C and HOL agree.
\<close>

section \<open>The Bruck map\<close>

record bruck_map =
  bruck_k :: nat
  in_ranks :: "int list"
  out_ranks :: "int list"

definition BruckMap_new :: "nat \<Rightarrow> bruck_map" where
  "BruckMap_new n = \<lparr>bruck_k = n, in_ranks = replicate n (- 1), out_ranks = replicate n (- 1)\<rparr>"

function doublings :: "int \<Rightarrow> nat \<Rightarrow> nat" where
  \<comment> \<open>\<open>for (k = 0; (1 << k) < num_machines; k++)\<close>\<close>
  "doublings n k = (if 2 ^ k < n then doublings n (k + 1) else k)"
  by pat_completeness auto
termination
  by (relation "measure (\<lambda>(n, k). nat (n - 2 ^ k))") auto

declare doublings.simps [simp del]

definition set_peers :: "nat \<Rightarrow> int \<Rightarrow> int \<Rightarrow> bruck_map \<Rightarrow> bruck_map" where
  \<comment> \<open>the two assignments a round of \<open>Construct\<close> makes\<close>
  "set_peers j i out m =
     m\<lparr>in_ranks := (in_ranks m)[j := i], out_ranks := (out_ranks m)[j := out]\<rparr>"

definition BruckMap_Construct :: "int \<Rightarrow> int \<Rightarrow> bruck_map" where
  "BruckMap_Construct rank num_machines =
    (let k = doublings num_machines 0;
         distance = map (\<lambda>i. 2 ^ i) [0..<k] in
     fold (\<lambda>j. set_peers j ((rank + distance ! j) mod num_machines)
         ((rank - distance ! j + num_machines) mod num_machines))
       [0..<k] (BruckMap_new k))"

section \<open>The recursive halving map\<close>

datatype halving_type = Normal | GroupLeader | Other

record halving_map =
  rh_k :: nat
  rh_type :: halving_type
  neighbor :: "int option" \<comment> \<open>\<open>None\<close>: not assigned\<close>
  ranks :: "int list"
  send_block_start :: "int list"
  send_block_len :: "int list"
  recv_block_start :: "int list"
  recv_block_len :: "int list"

definition RecursiveHalvingMap_new :: "halving_type \<Rightarrow> nat \<Rightarrow> halving_map" where
  "RecursiveHalvingMap_new t n =
    (let v = (if t \<noteq> Other then replicate n (- 1) else []) in
     \<lparr>rh_k = n, rh_type = t, neighbor = None, ranks = v, send_block_start = v, send_block_len = v,
      recv_block_start = v, recv_block_len = v\<rparr>)"

function halvings :: "int \<Rightarrow> nat \<Rightarrow> nat" where
  \<comment> \<open>\<open>while ((1 << k) <= num_machines) { ++k; }\<close>\<close>
  "halvings n k = (if 2 ^ k \<le> n then halvings n (k + 1) else k)"
  by pat_completeness auto
termination
  by (relation "measure (\<lambda>(n, k). nat (n + 1 - 2 ^ k))") auto

declare halvings.simps [simp del]

definition set_round :: "nat \<Rightarrow> int \<Rightarrow> int \<Rightarrow> int \<Rightarrow> int \<Rightarrow> int \<Rightarrow> halving_map \<Rightarrow> halving_map" where
  \<comment> \<open>the five assignments a round of \<open>Construct\<close> makes\<close>
  "set_round i r rs rl ss sl m = m\<lparr>ranks := (ranks m)[i := r],
     recv_block_start := (recv_block_start m)[i := rs],
     recv_block_len := (recv_block_len m)[i := rl],
     send_block_start := (send_block_start m)[i := ss],
     send_block_len := (send_block_len m)[i := sl]\<rparr>"

definition direction :: "int \<Rightarrow> int \<Rightarrow> int" where
  "direction r d = (if (r div d) mod 2 = 0 then 1 else - 1)"

text \<open>The number of machines is a power of two: every machine is a group.\<close>

definition halving_round :: "int \<Rightarrow> int list \<Rightarrow> nat \<Rightarrow> halving_map \<Rightarrow> halving_map" where
  "halving_round rank distance i m =
    (let d = distance ! i;
         next_node_idx = rank + direction rank d * d in
     set_round i next_node_idx (rank div d * d) d (next_node_idx div d * d) d m)"

text \<open>Otherwise the last \<open>2 * rest\<close> machines form groups of two.\<close>

definition node_types :: "int \<Rightarrow> int \<Rightarrow> halving_type list" where
  "node_types num_machines rest =
    fold (\<lambda>i t. let right = num_machines - i * 2 - 1; left = num_machines - i * 2 - 2 in
        (t[nat left := GroupLeader])[nat right := Other])
      [0..rest - 1] (replicate (nat num_machines) Normal)"

record groups =
  group_cnt :: int
  group_block_start :: "int list"
  group_block_len :: "int list"
  group_to_node :: "int list"
  node_to_group :: "int list"

definition add_machine :: "halving_type list \<Rightarrow> int \<Rightarrow> groups \<Rightarrow> groups" where
  "add_machine types i g =
    (let g1 = (if types ! nat i = Normal \<or> types ! nat i = GroupLeader
               then g\<lparr>group_to_node := (group_to_node g)[nat (group_cnt g) := i],
                      group_cnt := group_cnt g + 1\<rparr>
               else g);
         c = group_cnt g1 - 1 in
     g1\<lparr>node_to_group := (node_to_group g1)[nat i := c],
        group_block_len := (group_block_len g1)[nat c := group_block_len g1 ! nat c + 1]\<rparr>)"

definition start_groups :: "int \<Rightarrow> groups \<Rightarrow> groups" where
  "start_groups lower g =
    fold (\<lambda>i g. g\<lparr>group_block_start := (group_block_start g)
        [nat i := group_block_start g ! nat (i - 1) + group_block_len g ! nat (i - 1)]\<rparr>)
      [1..lower - 1] (g\<lparr>group_block_start := (group_block_start g)[0 := 0]\<rparr>)"

definition make_groups :: "int \<Rightarrow> int \<Rightarrow> halving_type list \<Rightarrow> groups" where
  "make_groups num_machines lower types =
    (let z = replicate (nat lower) 0 in
     start_groups lower (fold (add_machine types) [0..num_machines - 1]
       \<lparr>group_cnt = 0, group_block_start = z, group_block_len = z, group_to_node = z,
        node_to_group = replicate (nat num_machines) 0\<rparr>))"

definition group_round :: "groups \<Rightarrow> int \<Rightarrow> int list \<Rightarrow> nat \<Rightarrow> halving_map \<Rightarrow> halving_map" where
  "group_round g cur distance i m =
    (let d = distance ! i;
         other = cur + direction cur d * d;
         recv = cur div d * d;
         send = other div d * d;
         blocks = (\<lambda>b. sum_list (map (\<lambda>j. group_block_len g ! nat (b + j)) [0..d - 1])) in
     set_round i (group_to_node g ! nat other)
       (group_block_start g ! nat recv) (blocks recv)
       (group_block_start g ! nat send) (blocks send) m)"

definition RecursiveHalvingMap_Construct :: "int \<Rightarrow> int \<Rightarrow> halving_map" where
  "RecursiveHalvingMap_Construct rank num_machines =
    (let k = halvings num_machines 0 - 1;
         distance = map (\<lambda>i. 2 ^ (k - 1 - i)) [0..<k] in
     if 2 ^ k = num_machines then
       fold (halving_round rank distance) [0..<k] (RecursiveHalvingMap_new Normal k)
     else
       (let lower = 2 ^ k;
            rest = num_machines - lower;
            types = node_types num_machines rest;
            g = make_groups num_machines lower types;
            t = types ! nat rank;
            m = RecursiveHalvingMap_new t k in
        case t of
          Other \<Rightarrow> m\<lparr>neighbor := Some (rank - 1)\<rparr>
        | GroupLeader \<Rightarrow> fold (group_round g (node_to_group g ! nat rank) distance) [0..<k]
            (m\<lparr>neighbor := Some (rank + 1)\<rparr>)
        | Normal \<Rightarrow> fold (group_round g (node_to_group g ! nat rank) distance) [0..<k] m))"

section \<open>Loops that fill an array\<close>

lemma fold_set_nth:
  "m \<le> length xs \<Longrightarrow> fold (\<lambda>j xs. xs[j := f j]) [0..<m] xs = map f [0..<m] @ drop m xs"
proof (induction m)
  case 0
  then show ?case by simp
next
  case (Suc m)
  then show ?case
    by (simp add: list_update_append flip: Cons_nth_drop_Suc)
qed

lemma fold_set_all: "length xs = k \<Longrightarrow> fold (\<lambda>j xs. xs[j := f j]) [0..<k] xs = map f [0..<k]"
  by (simp add: fold_set_nth)

lemma upto_map_upt: "[0..int m - 1] = map int [0..<m]"
proof (induction m)
  case 0
  then show ?case by simp
next
  case (Suc m)
  then show ?case using upto_rec2 [of 0 "int m"] by simp
qed

section \<open>The Bruck rounds fit together\<close>

lemma doublings_bound: "2 ^ k < n \<or> k = 0 \<Longrightarrow> 1 \<le> n \<Longrightarrow>
  n \<le> 2 ^ doublings n k \<and> (doublings n k = 0 \<or> 2 ^ (doublings n k - 1) < n)"
proof (induction n k rule: doublings.induct)
  case (1 n k)
  show ?case
  proof (cases "2 ^ k < n")
    case True
    show ?thesis
    proof (cases "2 ^ (k + 1) < n")
      case True
      then show ?thesis using 1 \<open>2 ^ k < n\<close> by (simp add: doublings.simps [of n k])
    next
      case False
      then have "doublings n k = k + 1"
        using \<open>2 ^ k < n\<close> by (simp add: doublings.simps)
      then show ?thesis using \<open>2 ^ k < n\<close> False by simp
    qed
  next
    case False
    then have "doublings n k = k" by (simp add: doublings.simps)
    then show ?thesis using 1 False by auto
  qed
qed

lemma Bruck_fields:
  defines "D \<equiv> \<lambda>n. doublings n 0"
  shows "bruck_k (BruckMap_Construct r n) = D n"
    and "in_ranks (BruckMap_Construct r n) = map (\<lambda>j. (r + 2 ^ j) mod n) [0..<D n]"
    and "out_ranks (BruckMap_Construct r n) = map (\<lambda>j. (r - 2 ^ j + n) mod n) [0..<D n]"
proof -
  have 1: "bruck_k (fold (\<lambda>j. set_peers j (f j) (g j)) js m) = bruck_k m"
    "in_ranks (fold (\<lambda>j. set_peers j (f j) (g j)) js m) = fold (\<lambda>j xs. xs[j := f j]) js (in_ranks m)"
    "out_ranks (fold (\<lambda>j. set_peers j (f j) (g j)) js m) = fold (\<lambda>j xs. xs[j := g j]) js (out_ranks m)"
    for f g js m
    by (induction js arbitrary: m) (simp_all add: set_peers_def)
  show "bruck_k (BruckMap_Construct r n) = D n"
    "in_ranks (BruckMap_Construct r n) = map (\<lambda>j. (r + 2 ^ j) mod n) [0..<D n]"
    "out_ranks (BruckMap_Construct r n) = map (\<lambda>j. (r - 2 ^ j + n) mod n) [0..<D n]"
    unfolding BruckMap_Construct_def Let_def 1 D_def by (simp_all add: BruckMap_new_def fold_set_all)
qed

lemma Bruck_round:
  assumes "0 \<le> r" "r < n" and "j < bruck_k (BruckMap_Construct r n)"
  defines "s \<equiv> in_ranks (BruckMap_Construct r n) ! j"
    and "d \<equiv> out_ranks (BruckMap_Construct r n) ! j"
  shows "0 \<le> s" "s < n" "0 \<le> d" "d < n" and
    "out_ranks (BruckMap_Construct s n) ! j = r" "in_ranks (BruckMap_Construct d n) ! j = r"
    "s = (r + 2 ^ j) mod n"
proof -
  have j: "j < doublings n 0" using assms(3) by (simp add: Bruck_fields)
  have s: "s = (r + 2 ^ j) mod n" and d: "d = (r - 2 ^ j + n) mod n"
    using j by (simp_all add: s_def d_def Bruck_fields)
  show "s = (r + 2 ^ j) mod n" by fact
  show "0 \<le> s" "s < n" "0 \<le> d" "d < n" using assms(1,2) by (simp_all add: s d)
  have "(s - 2 ^ j + n) mod n = r"
    unfolding s using assms(1,2) by (metis add_diff_cancel_right' mod_add_self2 mod_diff_left_eq mod_pos_pos_trivial)
  then show "out_ranks (BruckMap_Construct s n) ! j = r" using j by (simp add: Bruck_fields)
  have "(d + 2 ^ j) mod n = (r - 2 ^ j + n + 2 ^ j) mod n"
    unfolding d by (simp add: mod_add_left_eq)
  then have "(d + 2 ^ j) mod n = r" using assms(1,2) by simp
  then show "in_ranks (BruckMap_Construct d n) ! j = r" using j by (simp add: Bruck_fields)
qed

section \<open>The halving rounds fit together, one machine a group\<close>

lemma halvings_bound: "2 ^ k \<le> n \<Longrightarrow> 2 ^ (halvings n k - 1) \<le> n \<and> n < 2 ^ halvings n k \<and> k < halvings n k"
proof (induction n k rule: halvings.induct)
  case (1 n k)
  show ?case
  proof (cases "2 ^ (k + 1) \<le> n")
    case True
    then show ?thesis using 1 by (simp add: halvings.simps [of n k])
  next
    case False
    then have "halvings n k = k + 1" using 1 by (simp add: halvings.simps)
    then show ?thesis using False 1 by simp
  qed
qed

lemma halvings_pow: "halvings (2 ^ k) 0 - 1 = k"
proof -
  have *: "2 ^ (halvings (2 ^ k) 0 - 1) \<le> (2 :: int) ^ k" "(2 :: int) ^ k < 2 ^ halvings (2 ^ k) 0"
    using halvings_bound [of 0 "2 ^ k"] by simp_all
  then have "halvings (2 ^ k) 0 - 1 \<le> k" "k < halvings (2 ^ k) 0" by simp_all
  then show ?thesis by arith
qed

lemma fold_set_round:
  defines "F \<equiv> \<lambda>r rs rl ss sl i. set_round i (r i) (rs i) (rl i) (ss i) (sl i)"
  shows "rh_k (fold (F r rs rl ss sl) is m) = rh_k m"
    "rh_type (fold (F r rs rl ss sl) is m) = rh_type m"
    "neighbor (fold (F r rs rl ss sl) is m) = neighbor m"
    "ranks (fold (F r rs rl ss sl) is m) = fold (\<lambda>i xs. xs[i := r i]) is (ranks m)"
    "recv_block_start (fold (F r rs rl ss sl) is m) = fold (\<lambda>i xs. xs[i := rs i]) is (recv_block_start m)"
    "recv_block_len (fold (F r rs rl ss sl) is m) = fold (\<lambda>i xs. xs[i := rl i]) is (recv_block_len m)"
    "send_block_start (fold (F r rs rl ss sl) is m) = fold (\<lambda>i xs. xs[i := ss i]) is (send_block_start m)"
    "send_block_len (fold (F r rs rl ss sl) is m) = fold (\<lambda>i xs. xs[i := sl i]) is (send_block_len m)"
  unfolding F_def by (induction "is" arbitrary: m) (simp_all add: set_round_def)

definition partner :: "int \<Rightarrow> int \<Rightarrow> int" where
  "partner r d = r + direction r d * d"

lemma parity_flip:
  defines "f \<equiv> \<lambda>q::int. q + (if q mod 2 = 0 then 1 else - 1)"
  shows "f q mod 2 = (if q mod 2 = 0 then 1 else 0)" "f q div 2 = q div 2" "0 \<le> q \<Longrightarrow> 0 \<le> f q"
  unfolding f_def by presburger+

lemma partner_props:
  assumes "0 \<le> r" "0 < d"
  shows "partner (partner r d) d = r" "0 \<le> partner r d"
    "partner r d div d = r div d + direction r d" "partner r d mod d = r mod d"
    "partner r d div (2 * d) = r div (2 * d)"
    "partner r d \<noteq> r"
proof -
  have q: "partner r d div d = r div d + direction r d" "partner r d mod d = r mod d"
    using assms(2) by (auto simp: partner_def direction_def)
  then show "partner r d div d = r div d + direction r d" "partner r d mod d = r mod d" by simp_all
  have "direction (partner r d) d = - direction r d"
    using parity_flip(1) [of "r div d"] unfolding direction_def q by (simp split: if_splits)
  then show "partner (partner r d) d = r" by (simp add: partner_def)
  have "(r div d + direction r d) div 2 = (r div d) div 2"
    using parity_flip(2) [of "r div d"] by (simp add: direction_def)
  then show "partner r d div (2 * d) = r div (2 * d)"
    using assms(2) q by (simp add: zdiv_zmult2_eq mult.commute [of 2 d])
  have "0 \<le> r div d" using assms by (simp add: pos_imp_zdiv_nonneg_iff)
  then have "0 \<le> r div d + direction r d"
    using parity_flip(3) [of "r div d"] by (simp add: direction_def)
  then show "0 \<le> partner r d" using q assms(2) by (metis pos_imp_zdiv_nonneg_iff)
  show "partner r d \<noteq> r" using assms(2) by (auto simp: partner_def direction_def)
qed

lemma int_div_less_iff: "0 < d \<Longrightarrow> r div d < m \<longleftrightarrow> r < m * d" for r d m :: int
proof -
  assume d: "0 < d"
  have "m \<le> r div d \<longleftrightarrow> m * d \<le> r"
  proof
    assume "m \<le> r div d"
    then have "m * d \<le> (r div d) * d" using d by simp
    also have "\<dots> \<le> r" using d by (simp add: minus_mod_eq_div_mult [symmetric])
    finally show "m * d \<le> r" .
  next
    assume "m * d \<le> r"
    then show "m \<le> r div d" using zdiv_mono1 [of "m * d" r d] d by simp
  qed
  then show ?thesis by linarith
qed

lemma partner_bound:
  assumes "0 \<le> r" "r < 2 ^ k" "i < k"
  shows "partner r (2 ^ (k - 1 - i)) < 2 ^ k"
proof -
  let ?d = "2 ^ (k - 1 - i) :: int"
  have pw: "(2 :: int) ^ k = (2 * ?d) * 2 ^ i"
    using assms(3) by (simp flip: power_add power_Suc)
  have "partner r ?d div (2 * ?d) = r div (2 * ?d)" by (rule partner_props) (use assms in auto)
  also have "\<dots> < 2 ^ i"
    using assms(1,2) unfolding pw by (simp add: int_div_less_iff mult.commute)
  finally show ?thesis unfolding pw by (simp add: int_div_less_iff mult.commute)
qed

section \<open>Groups of one and of two\<close>

text \<open>
  The first \<open>q\<close> machines are groups of their own, the others pair up: \<open>lead q c\<close> is the
  leader of group \<open>c\<close> and the number of machines before the group, \<open>group_of q i\<close> the group of
  machine \<open>i\<close>.
\<close>

definition lead :: "int \<Rightarrow> int \<Rightarrow> int" where
  "lead q c = (if c \<le> q then c else 2 * c - q)"

definition group_of :: "int \<Rightarrow> int \<Rightarrow> int" where
  "group_of q i = (if i < q then i else q + (i - q) div 2)"

definition is_other :: "int \<Rightarrow> int \<Rightarrow> bool" where
  "is_other q i \<longleftrightarrow> q \<le> i \<and> (i - q) mod 2 = 1"

lemma group_of_lead [simp]: "0 \<le> q \<Longrightarrow> group_of q (lead q c) = c"
  by (simp add: group_of_def lead_def)

lemma lead_group_of [simp]: "\<not> is_other q i \<Longrightarrow> lead q (group_of q i) = i"
  unfolding group_of_def lead_def is_other_def by presburger

lemma lead_not_other [simp]: "\<not> is_other q (lead q c)"
  unfolding lead_def is_other_def by presburger

lemma lead_mono: "c \<le> d \<Longrightarrow> lead q c \<le> lead q d"
  by (simp add: lead_def)

lemma lead_strict_mono: "c < d \<Longrightarrow> lead q c < lead q d"
  by (simp add: lead_def)

lemma lead_0 [simp]: "0 \<le> q \<Longrightarrow> lead q 0 = 0"
  by (simp add: lead_def)

lemma lead_top: "n = l + rest \<Longrightarrow> q = l - rest \<Longrightarrow> 0 \<le> rest \<Longrightarrow> lead q l = n"
  by (simp add: lead_def)

lemma node_types_length [simp]: "length (node_types n rest) = nat n"
proof -
  have "length (fold (\<lambda>i t. (t[f i := x])[g i := y]) is t) = length t"
    for f g :: "int \<Rightarrow> nat" and x y :: halving_type and "is" t
    by (induction "is" arbitrary: t) simp_all
  then show ?thesis by (simp add: node_types_def Let_def)
qed

lemma node_types_nth:
  assumes "0 \<le> rest" "2 * rest \<le> n" "0 \<le> i" "i < n"
  shows "node_types n rest ! nat i =
    (if i < n - 2 * rest then Normal else if (i - n) mod 2 = 0 then GroupLeader else Other)"
proof -
  let ?f = "\<lambda>i t. (t[nat (n - i * 2 - 2) := GroupLeader])[nat (n - i * 2 - 1) := Other]"
  have len: "length (fold ?f is t) = length t" for "is" t
    by (induction "is" arbitrary: t) simp_all
  have "2 * int R \<le> n \<Longrightarrow> fold ?f [0..int R - 1] (replicate (nat n) Normal) ! nat i =
    (if i < n - 2 * int R then Normal else if (i - n) mod 2 = 0 then GroupLeader else Other)" for R
  proof (induction R)
    case 0
    then show ?case using assms by simp
  next
    case (Suc R)
    have up: "[0..int (Suc R) - 1] = [0..int R - 1] @ [int R]" by (simp add: upto_rec2)
    let ?t = "fold ?f [0..int R - 1] (replicate (nat n) Normal)"
    have 1: "fold ?f [0..int (Suc R) - 1] (replicate (nat n) Normal) = ?f (int R) ?t"
      unfolding up by simp
    have l: "nat i < length ?t" using assms len by simp
    consider "i = n - int R * 2 - 1" | "i = n - int R * 2 - 2" |
      "nat i \<noteq> nat (n - int R * 2 - 1)" "nat i \<noteq> nat (n - int R * 2 - 2)"
      "i \<noteq> n - int R * 2 - 1" "i \<noteq> n - int R * 2 - 2"
      using assms(3) Suc.prems by fastforce
    then show ?case
    proof cases
      case 1
      then have "?f (int R) ?t ! nat i = Other" using l by simp
      moreover have "(i - n) mod 2 \<noteq> 0" "\<not> i < n - 2 * int (Suc R)" using 1 by presburger+
      ultimately show ?thesis using \<open>fold ?f _ _ = _\<close> by simp
    next
      case 2
      then have "?f (int R) ?t ! nat i = GroupLeader" using l Suc.prems
        by (simp add: nth_list_update)
      moreover have "(i - n) mod 2 = 0" "\<not> i < n - 2 * int (Suc R)" using 2 by presburger+
      ultimately show ?thesis using \<open>fold ?f _ _ = _\<close> by simp
    next
      case 3
      then have "?f (int R) ?t ! nat i = ?t ! nat i" by simp
      then show ?thesis using \<open>fold ?f _ _ = _\<close> Suc 3 by auto
    qed
  qed
  from this [of "nat rest"] show ?thesis using assms by (simp add: node_types_def Let_def)
qed

text \<open>What the grouping loop has built after the first \<open>m\<close> machines.\<close>

definition grouped :: "int \<Rightarrow> int \<Rightarrow> int \<Rightarrow> int \<Rightarrow> groups \<Rightarrow> bool" where
  "grouped n l q m g \<longleftrightarrow>
     group_cnt g = (if m = 0 then 0 else group_of q (m - 1) + 1) \<and>
     length (group_to_node g) = nat l \<and> length (node_to_group g) = nat n \<and>
     length (group_block_len g) = nat l \<and> length (group_block_start g) = nat l \<and>
     (\<forall>c. 0 \<le> c \<and> c < group_cnt g \<longrightarrow> group_to_node g ! nat c = lead q c) \<and>
     (\<forall>i. 0 \<le> i \<and> i < m \<longrightarrow> node_to_group g ! nat i = group_of q i) \<and>
     (\<forall>c. 0 \<le> c \<and> c < l \<longrightarrow>
        group_block_len g ! nat c = max 0 (min m (lead q (c + 1)) - lead q c))"

lemma nth_update_nat: "0 \<le> i \<Longrightarrow> 0 \<le> j \<Longrightarrow> nat i < length xs \<Longrightarrow>
  xs[nat i := x] ! nat j = (if i = j then x else xs ! nat j)"
  by (auto simp: nth_list_update)

lemma group_of_pred:
  assumes "0 < m" "0 \<le> q"
  shows "group_of q (m - 1) + 1 = (if is_other q m then group_of q m + 1 else group_of q m)"
proof -
  have x: "(x - 1) div 2 + 1 = (if x mod 2 = 1 then x div 2 + 1 else x div 2)" for x :: int
    by presburger
  consider "m < q" | "m = q" | "q < m" by linarith
  then show ?thesis
    using x [of "m - q"] by cases (auto simp: group_of_def is_other_def algebra_simps split: if_splits)
qed

lemma group_of_bounds: "0 \<le> q \<Longrightarrow> lead q (group_of q m) \<le> m \<and> m < lead q (group_of q m + 1)"
proof -
  have x: "2 * (x div 2) \<le> x" "x < 2 * (x div 2) + 2" for x :: int by presburger+
  show ?thesis using x [of "m - q"] by (auto simp: lead_def group_of_def)
qed

lemma add_machine_grouped:
  assumes g: "grouped n l q m g" and m: "0 \<le> m" "m < n"
    and shape: "0 \<le> q" "n = 2 * l - q" "q \<le> l"
    and type: "types ! nat m = Other \<longleftrightarrow> is_other q m"
  shows "grouped n l q (m + 1) (add_machine types m g)"
proof -
  have types: "(types ! nat m = Normal \<or> types ! nat m = GroupLeader) \<longleftrightarrow> \<not> is_other q m"
    using type by (cases "types ! nat m") auto
  let ?c = "group_of q m"
  have c: "0 \<le> ?c" "?c < l"
    unfolding group_of_def using m shape by presburger+
  have cnt: "group_cnt g = (if is_other q m then ?c + 1 else ?c)"
  proof -
    have "group_cnt g = (if m = 0 then 0 else group_of q (m - 1) + 1)"
      using g by (simp add: grouped_def)
    then show ?thesis using m(1) shape(1) group_of_pred [of m q]
      by (cases "m = 0") (simp_all add: group_of_def is_other_def)
  qed
  let ?h = "if is_other q m then g
    else g\<lparr>group_to_node := (group_to_node g)[nat ?c := m], group_cnt := ?c + 1\<rparr>"
  have step: "add_machine types m g = ?h\<lparr>node_to_group := (node_to_group g)[nat m := ?c],
      group_block_len := (group_block_len g)[nat ?c := group_block_len g ! nat ?c + 1]\<rparr>"
    using cnt by (simp add: add_machine_def Let_def types)
  have fresh: "\<not> is_other q m \<Longrightarrow> lead q ?c = m" by simp
  note m_in = group_of_bounds [OF shape(1), of m]
  have own: "max 0 (min (m + 1) (lead q (?c + 1)) - lead q ?c)
      = max 0 (min m (lead q (?c + 1)) - lead q ?c) + 1"
    using m_in by linarith
  have rest: "max 0 (min (m + 1) (lead q (d + 1)) - lead q d)
      = max 0 (min m (lead q (d + 1)) - lead q d)" if "d \<noteq> ?c" for d
  proof (cases "d < ?c")
    case True
    then show ?thesis using m_in lead_mono [of "d + 1" ?c q] by simp
  next
    case False
    then show ?thesis using that m_in lead_mono [of "?c + 1" d q] by linarith
  qed
  have idx: "nat ?c < nat l" "nat m < nat n" using c m by simp_all
  let ?a = "add_machine types m g"
  have G: "length (group_to_node g) = nat l" "length (node_to_group g) = nat n"
    "length (group_block_len g) = nat l" "length (group_block_start g) = nat l"
    "\<And>c. 0 \<le> c \<Longrightarrow> c < group_cnt g \<Longrightarrow> group_to_node g ! nat c = lead q c"
    "\<And>i. 0 \<le> i \<Longrightarrow> i < m \<Longrightarrow> node_to_group g ! nat i = group_of q i"
    "\<And>c. 0 \<le> c \<Longrightarrow> c < l \<Longrightarrow>
      group_block_len g ! nat c = max 0 (min m (lead q (c + 1)) - lead q c)"
    using g by (simp_all add: grouped_def)
  have 1: "group_cnt ?a = ?c + 1" unfolding step using cnt by simp
  have 2: "group_to_node ?a ! nat d = lead q d" if "0 \<le> d" "d < ?c + 1" for d
    unfolding step using that G(1,5) idx fresh c cnt
    by (auto simp: nth_update_nat)
  have 3: "node_to_group ?a ! nat i = group_of q i" if "0 \<le> i" "i < m + 1" for i
    unfolding step using that G(2,6) idx m by (cases "i = m") (simp_all add: nth_update_nat)
  have 4: "group_block_len ?a ! nat d = max 0 (min (m + 1) (lead q (d + 1)) - lead q d)"
    if "0 \<le> d" "d < l" for d
  proof (cases "d = ?c")
    case True
    then show ?thesis unfolding step using that G(3,7) idx own by simp
  next
    case False
    then have "group_block_len ?a ! nat d = group_block_len g ! nat d"
      unfolding step using that c(1) by simp
    then show ?thesis using that G(7) rest [OF False] by simp
  qed
  have 5: "length (group_to_node ?a) = nat l" "length (node_to_group ?a) = nat n"
    "length (group_block_len ?a) = nat l" "length (group_block_start ?a) = nat l"
    unfolding step using G(1-4) by simp_all
  show ?thesis
    unfolding grouped_def using m(1) 1 2 3 4 5 by simp
qed

lemma start_groups_props:
  assumes "length (group_block_start g) = nat l" "length (group_block_len g) = nat l" "0 < l"
    and "\<And>c. 0 \<le> c \<Longrightarrow> c < l \<Longrightarrow> group_block_len g ! nat c = f (c + 1) - f c" and "f 0 = 0"
  shows "\<And>c. 0 \<le> c \<Longrightarrow> c < l \<Longrightarrow> group_block_start (start_groups l g) ! nat c = f c"
    and "group_block_len (start_groups l g) = group_block_len g"
    and "group_to_node (start_groups l g) = group_to_node g"
    and "node_to_group (start_groups l g) = node_to_group g"
proof -
  let ?F = "\<lambda>i g. g\<lparr>group_block_start := (group_block_start g)
        [nat i := group_block_start g ! nat (i - 1) + group_block_len g ! nat (i - 1)]\<rparr>"
  let ?g = "g\<lparr>group_block_start := (group_block_start g)[0 := 0]\<rparr>"
  have "int m < l \<Longrightarrow> (let h = fold ?F [1..int m] ?g in
      group_block_len h = group_block_len g \<and> group_to_node h = group_to_node g \<and>
      node_to_group h = node_to_group g \<and> length (group_block_start h) = nat l \<and>
      (\<forall>c. 0 \<le> c \<and> c \<le> int m \<longrightarrow> group_block_start h ! nat c = f c))" for m
  proof (induction m)
    case 0
    have "c = 0" if "0 \<le> c" "c \<le> 0" for c :: int using that by simp
    then show ?case using assms by (auto simp: Let_def)
  next
    case (Suc m)
    have up: "[1..int (Suc m)] = [1..int m] @ [int (Suc m)]" by (simp add: upto_rec2)
    let ?h = "fold ?F [1..int m] ?g"
    have h: "group_block_len ?h = group_block_len g" "group_to_node ?h = group_to_node g"
      "node_to_group ?h = node_to_group g" "length (group_block_start ?h) = nat l"
      "\<And>c. 0 \<le> c \<Longrightarrow> c \<le> int m \<Longrightarrow> group_block_start ?h ! nat c = f c"
      using Suc by (simp_all add: Let_def)
    have "group_block_start ?h ! m + group_block_len g ! m = f (int m + 1)"
      using h(5) [of "int m"] assms(4) [of "int m"] Suc.prems by simp
    then have new: "fold ?F [1..int (Suc m)] ?g = ?h\<lparr>group_block_start :=
        (group_block_start ?h)[nat (int (Suc m)) := f (int m + 1)]\<rparr>"
      unfolding up using h(1) by (simp add: nat_add_distrib)
    have "(group_block_start ?h)[nat (int (Suc m)) := f (int m + 1)] ! nat c = f c"
      if "0 \<le> c" "c \<le> int (Suc m)" for c
      using that h(5) [of c] h(4) Suc.prems
      by (cases "c = int (Suc m)") (simp_all add: nth_update_nat add.commute)
    then show ?case unfolding new using h by (simp add: Let_def)
  qed
  from this [of "nat (l - 1)"] assms(3)
  show "\<And>c. 0 \<le> c \<Longrightarrow> c < l \<Longrightarrow> group_block_start (start_groups l g) ! nat c = f c"
    and "group_block_len (start_groups l g) = group_block_len g"
    and "group_to_node (start_groups l g) = group_to_node g"
    and "node_to_group (start_groups l g) = node_to_group g"
    by (simp_all add: start_groups_def Let_def)
qed

lemma make_groups_props:
  assumes "0 \<le> rest" "rest \<le> l" "0 < l" "n = l + rest"
  defines "q \<equiv> l - rest" and "g \<equiv> make_groups n l (node_types n rest)"
  shows "\<And>c. 0 \<le> c \<Longrightarrow> c < l \<Longrightarrow> group_to_node g ! nat c = lead q c"
    and "\<And>i. 0 \<le> i \<Longrightarrow> i < n \<Longrightarrow> node_to_group g ! nat i = group_of q i"
    and "\<And>c. 0 \<le> c \<Longrightarrow> c < l \<Longrightarrow> group_block_len g ! nat c = lead q (c + 1) - lead q c"
    and "\<And>c. 0 \<le> c \<Longrightarrow> c < l \<Longrightarrow> group_block_start g ! nat c = lead q c"
proof -
  have shape: "0 \<le> q" "n = 2 * l - q" "q \<le> l" using assms by auto
  let ?z = "replicate (nat l) (0 :: int)"
  let ?g = "\<lparr>group_cnt = 0, group_block_start = ?z, group_block_len = ?z, group_to_node = ?z,
    node_to_group = replicate (nat n) 0\<rparr>"
  have types: "types = Other \<longleftrightarrow> is_other q m" if "0 \<le> m" "m < n" "types = node_types n rest ! nat m"
    for m types
  proof -
    have "n - 2 * rest = q" using assms by simp
    moreover have "(m - n) mod 2 = (m - q) mod 2" using shape(2) by presburger
    ultimately show ?thesis using that assms node_types_nth [of rest n m]
      by (auto simp: is_other_def)
  qed
  have "int m \<le> n \<Longrightarrow> grouped n l q (int m) (fold (add_machine (node_types n rest)) [0..int m - 1] ?g)" for m
  proof (induction m)
    case 0
    have "max 0 (min 0 (lead q (c + 1)) - lead q c) = 0" if "0 \<le> c" for c
      using that shape(1) by (simp add: lead_def)
    then show ?case by (simp add: grouped_def)
  next
    case (Suc m)
    have up: "[0..int (Suc m) - 1] = [0..int m - 1] @ [int m]" by (simp add: upto_rec2)
    show ?case
      unfolding up using Suc add_machine_grouped [OF Suc.IH _ _ shape types [OF _ _ refl]]
      by (simp add: add.commute)
  qed
  from this [of "nat n"] assms(1-4)
  have G: "grouped n l q n (fold (add_machine (node_types n rest)) [0..n - 1] ?g)"
    by simp
  have cnt: "group_of q (n - 1) + 1 = l"
    unfolding group_of_def using shape assms(1-4) by presburger
  have len: "max 0 (min n (lead q (c + 1)) - lead q c) = lead q (c + 1) - lead q c"
    if "0 \<le> c" "c < l" for c
    using that shape lead_mono [of "c + 1" l q] lead_mono [of c "c + 1" q]
    by (simp add: lead_def)
  show "\<And>c. 0 \<le> c \<Longrightarrow> c < l \<Longrightarrow> group_to_node g ! nat c = lead q c"
    "\<And>i. 0 \<le> i \<Longrightarrow> i < n \<Longrightarrow> node_to_group g ! nat i = group_of q i"
    "\<And>c. 0 \<le> c \<Longrightarrow> c < l \<Longrightarrow> group_block_len g ! nat c = lead q (c + 1) - lead q c"
    "\<And>c. 0 \<le> c \<Longrightarrow> c < l \<Longrightarrow> group_block_start g ! nat c = lead q c"
    using G cnt len shape assms(1-4) unfolding g_def make_groups_def Let_def grouped_def
    by (simp_all add: start_groups_props [where f = "lead q"])
qed

section \<open>The recursive halving map of every machine\<close>

text \<open>
  Both branches of \<open>Construct\<close> compute the same map, with \<open>q\<close> the number of groups of one: the
  group of the machine halves its window of groups in every round, keeps the half it is in
  and sends the other one.
\<close>

lemma halving_k_bounds:
  assumes "1 \<le> n"
  defines "k \<equiv> halvings n 0 - 1"
  shows "2 ^ k \<le> n" "n < 2 * 2 ^ k"
proof -
  have *: "2 ^ (halvings n 0 - 1) \<le> n" "n < 2 ^ halvings n 0" "0 < halvings n 0"
    using assms(1) halvings_bound [of 0 n] by simp_all
  then show "2 ^ k \<le> n" "n < 2 * 2 ^ k"
    unfolding k_def by (simp_all flip: power_Suc)
qed

definition halving_dist :: "int \<Rightarrow> nat \<Rightarrow> int" where
  "halving_dist n i = 2 ^ (halvings n 0 - 1 - 1 - i)"

definition singles :: "int \<Rightarrow> int" where
  "singles n = 2 * 2 ^ (halvings n 0 - 1) - n"

lemma sum_lead:
  assumes "\<And>c. 0 \<le> c \<Longrightarrow> c < l \<Longrightarrow> f (nat c) = lead q (c + 1) - lead q c"
    and "0 \<le> b" "b + int d \<le> l"
  shows "sum_list (map (\<lambda>j. f (nat (b + j))) [0..int d - 1]) = lead q (b + int d) - lead q b"
  using assms(3)
proof (induction d)
  case 0
  then show ?case by simp
next
  case (Suc d)
  have up: "[0..int (Suc d) - 1] = [0..int d - 1] @ [int d]" by (simp add: upto_rec2)
  show ?case
    unfolding up using Suc assms(1) [of "b + int d"] assms(2) by (simp add: ac_simps)
qed

lemma fold_cong_list: "(\<And>x s. x \<in> set xs \<Longrightarrow> f x s = g x s) \<Longrightarrow> fold f xs s = fold g xs s"
  by (rule fold_cong) auto

lemma window_in_range:
  assumes "0 \<le> c" "c < 2 ^ k" "i < k"
  defines "d \<equiv> 2 ^ (k - 1 - i) :: int"
  shows "0 \<le> c div d * d" "c div d * d + d \<le> 2 ^ k" "0 < d"
proof -
  show d: "0 < d" by (simp add: d_def)
  show "0 \<le> c div d * d" using assms(1) d by (simp add: pos_imp_zdiv_nonneg_iff)
  have "k = (i + 1) + (k - 1 - i)" using assms(3) by simp
  then have pw: "(2 :: int) ^ k = 2 ^ (i + 1) * d" unfolding d_def by (metis power_add)
  have "c div d < 2 ^ (i + 1)" using assms(2) d unfolding pw by (simp add: int_div_less_iff)
  then have "(c div d + 1) * d \<le> 2 ^ (i + 1) * d" using d by (intro mult_right_mono) auto
  then show "c div d * d + d \<le> 2 ^ k" unfolding pw by (simp add: distrib_right)
qed

definition dist_at :: "nat \<Rightarrow> nat \<Rightarrow> int" where
  "dist_at k i = 2 ^ (k - 1 - i)"

definition lead_round :: "int \<Rightarrow> int \<Rightarrow> (nat \<Rightarrow> int) \<Rightarrow> nat \<Rightarrow> halving_map \<Rightarrow> halving_map" where
  \<comment> \<open>the round of a group \<open>c\<close>, block numbers being those of the groups' leaders\<close>
  "lead_round q c d i = set_round i (lead q (partner c (d i)))
     (lead q (c div d i * d i)) (lead q (c div d i * d i + d i) - lead q (c div d i * d i))
     (lead q (partner c (d i) div d i * d i))
     (lead q (partner c (d i) div d i * d i + d i) - lead q (partner c (d i) div d i * d i))"

lemma partner_range: "0 \<le> c \<Longrightarrow> c < 2 ^ k \<Longrightarrow> i < k \<Longrightarrow> 0 \<le> partner c (dist_at k i) \<and> partner c (dist_at k i) < 2 ^ k"
  using partner_props(2) [of c "dist_at k i"] partner_bound [of c k i] by (simp add: dist_at_def)

lemma halving_round_lead:
  assumes r: "0 \<le> r" "r < 2 ^ k" and i: "i < k"
  shows "halving_round r (map (dist_at k) [0..<k]) i = lead_round (2 ^ k) r (dist_at k) i"
proof -
  let ?d = "dist_at k i"
  have p: "0 \<le> partner r ?d" "partner r ?d < 2 ^ k" using partner_range [OF r i] by simp_all
  note w = window_in_range [OF r i, folded dist_at_def] window_in_range [OF p i, folded dist_at_def]
  have at: "map (dist_at k) [0..<k] ! i = ?d" using i by simp
  have l: "lead (2 ^ k) (r div ?d * ?d) = r div ?d * ?d"
    "lead (2 ^ k) (r div ?d * ?d + ?d) = r div ?d * ?d + ?d"
    "lead (2 ^ k) (partner r ?d div ?d * ?d) = partner r ?d div ?d * ?d"
    "lead (2 ^ k) (partner r ?d div ?d * ?d + ?d) = partner r ?d div ?d * ?d + ?d"
    "lead (2 ^ k) (partner r ?d) = partner r ?d"
    using w p by (auto simp: lead_def simp del: mult_le_cancel_right)
  show ?thesis
    unfolding fun_eq_iff halving_round_def lead_round_def Let_def at l partner_def [symmetric] by simp
qed

text \<open>The blocks of a group are those between its leader and the leader of the next one.\<close>

lemma group_round_lead:
  fixes n r k
  defines "g \<equiv> make_groups n (2 ^ k) (node_types n (n - 2 ^ k))" and "q \<equiv> 2 * 2 ^ k - n"
  defines "c \<equiv> group_of q r"
  assumes n: "2 ^ k \<le> n" "n - 2 ^ k \<le> 2 ^ k" and r: "0 \<le> r" "r < n" and c: "0 \<le> c" "c < 2 ^ k" and i: "i < k"
  shows "group_round g (node_to_group g ! nat r) (map (dist_at k) [0..<k]) i = lead_round q c (dist_at k) i"
proof -
  let ?d = "dist_at k i" and ?rest = "n - 2 ^ k"
  have rest: "0 \<le> ?rest" "?rest \<le> 2 ^ k" "(0 :: int) < 2 ^ k" "n = 2 ^ k + ?rest" using n by simp_all
  have q: "2 ^ k - ?rest = q" by (simp add: q_def)
  note g = make_groups_props [OF rest, folded g_def, unfolded q]
  have p: "0 \<le> partner c ?d" "partner c ?d < 2 ^ k" using partner_range [OF c i] by simp_all
  note w = window_in_range [OF c i, folded dist_at_def] window_in_range [OF p i, folded dist_at_def]
  have di: "?d = int (2 ^ (k - 1 - i))" by (simp add: dist_at_def)
  have blocks: "sum_list (map (\<lambda>j. group_block_len g ! nat (b + j)) [0..?d - 1]) = lead q (b + ?d) - lead q b"
    if "0 \<le> b" "b + ?d \<le> 2 ^ k" for b
    unfolding di using that g(3)
    by (intro sum_lead [where l = "2 ^ k" and f = "\<lambda>j. group_block_len g ! j"]) (simp_all add: dist_at_def)
  have lt: "c div ?d * ?d < 2 ^ k" "partner c ?d div ?d * ?d < 2 ^ k"
    using w c p i by (smt (verit))+
  have at: "map (dist_at k) [0..<k] ! i = ?d" using i by simp
  have here: "node_to_group g ! nat r = c" using g(2) [OF r] by (simp add: c_def)
  show ?thesis
    unfolding fun_eq_iff group_round_def lead_round_def Let_def here at partner_def [symmetric]
      blocks [OF w(1,2)] blocks [OF w(4,5)] g(1) [OF p] g(4) [OF w(1) lt(1)] g(4) [OF w(4) lt(2)]
    by simp
qed

lemma node_type_at:
  assumes "2 ^ k \<le> n" "2 * (n - 2 ^ k) \<le> n" "0 \<le> r" "r < n" and q: "q = 2 * 2 ^ k - n"
  shows "node_types n (n - 2 ^ k) ! nat r = (if is_other q r then Other else if q \<le> r then GroupLeader else Normal)"
proof -
  have "node_types n (n - 2 ^ k) ! nat r = (if r < q then Normal else if (r - n) mod 2 = 0 then GroupLeader else Other)"
    using node_types_nth [of "n - 2 ^ k" n r] assms by (simp add: algebra_simps)
  moreover have "(r - n) mod 2 = (r - q) mod 2" using q by presburger
  ultimately show ?thesis by (auto simp: is_other_def)
qed

lemma group_range:
  assumes "0 \<le> r" "r < n" "P \<le> n" "n < 2 * P" "q = 2 * P - n"
  shows "0 \<le> group_of q r" "group_of q r < P"
proof -
  have "2 * ((r - q) div 2) \<le> r - q" "q \<le> r \<Longrightarrow> 0 \<le> (r - q) div 2" by simp_all
  then show "0 \<le> group_of q r" "group_of q r < P" using assms by (auto simp: group_of_def)
qed

lemma new_map_neighbor: "RecursiveHalvingMap_new t k\<lparr>neighbor := None\<rparr> = RecursiveHalvingMap_new t k"
  by (simp add: RecursiveHalvingMap_new_def Let_def)

text \<open>The map of a machine: that of its group, and for a machine of a pair the name of the other.\<close>

lemma halving_shape:
  assumes "1 \<le> n" "0 \<le> r" "r < n"
  defines "k \<equiv> halvings n 0 - 1" and "q \<equiv> singles n"
  defines "c \<equiv> group_of q r"
  shows "\<exists>t nb. RecursiveHalvingMap_Construct r n = (let m = RecursiveHalvingMap_new t k\<lparr>neighbor := nb\<rparr> in
        if is_other q r then m else fold (lead_round q c (dist_at k)) [0..<k] m)
      \<and> (t = Other \<longleftrightarrow> is_other q r) \<and> (t = GroupLeader \<longleftrightarrow> q \<le> r \<and> \<not> is_other q r)
      \<and> (q \<le> r \<longrightarrow> nb = Some (if is_other q r then r - 1 else r + 1))"
    and "0 \<le> c" "c < 2 ^ k"
proof -
  note k = halving_k_bounds [OF assms(1), folded k_def]
  have q: "q = 2 * 2 ^ k - n" by (simp add: q_def singles_def k_def)
  show c: "0 \<le> c" "c < 2 ^ k"
    unfolding c_def using group_range [OF assms(2,3) k q] by simp_all
  have dist: "map (\<lambda>i. 2 ^ (k - 1 - i)) [0..<k] = map (dist_at k) [0..<k]" by (simp add: dist_at_def [abs_def])
  note Construct = RecursiveHalvingMap_Construct_def Let_def k_def [symmetric] dist
  show "\<exists>t nb. RecursiveHalvingMap_Construct r n = (let m = RecursiveHalvingMap_new t k\<lparr>neighbor := nb\<rparr> in
        if is_other q r then m else fold (lead_round q c (dist_at k)) [0..<k] m)
      \<and> (t = Other \<longleftrightarrow> is_other q r) \<and> (t = GroupLeader \<longleftrightarrow> q \<le> r \<and> \<not> is_other q r)
      \<and> (q \<le> r \<longrightarrow> nb = Some (if is_other q r then r - 1 else r + 1))"
  proof (cases "2 ^ k = n")
    case True
    then have qn: "q = n" "q = 2 ^ k" "c = r" "\<not> is_other q r" "\<not> q \<le> r"
      using q assms(3) by (simp_all add: c_def group_of_def is_other_def)
    have "fold (halving_round r (map (dist_at k) [0..<k])) [0..<k] m = fold (lead_round q c (dist_at k)) [0..<k] m" for m
      unfolding qn(2,3) using assms(2,3) True by (intro fold_cong_list) (simp add: halving_round_lead)
    then have "RecursiveHalvingMap_Construct r n = fold (lead_round q c (dist_at k)) [0..<k] (RecursiveHalvingMap_new Normal k)"
      unfolding Construct if_P [OF True] .
    then show ?thesis
      using qn by (intro exI [of _ Normal] exI [of _ None]) (simp add: new_map_neighbor Let_def)
  next
    case False
    have bounds: "2 ^ k \<le> n" "n - 2 ^ k \<le> 2 ^ k" "2 * (n - 2 ^ k) \<le> n" using k by simp_all
    let ?g = "make_groups n (2 ^ k) (node_types n (n - 2 ^ k))"
    have "fold (group_round ?g (node_to_group ?g ! nat r) (map (dist_at k) [0..<k])) [0..<k] m =
        fold (lead_round q c (dist_at k)) [0..<k] m" for m
      using group_round_lead [OF bounds(1,2) assms(2,3)] c unfolding c_def q by (intro fold_cong_list) simp
    note M = this node_type_at [OF bounds(1,3) assms(2,3) q]
    have "RecursiveHalvingMap_Construct r n =
        (case if is_other q r then Other else if q \<le> r then GroupLeader else Normal of
          Other \<Rightarrow> RecursiveHalvingMap_new Other k\<lparr>neighbor := Some (r - 1)\<rparr>
        | GroupLeader \<Rightarrow> fold (lead_round q c (dist_at k)) [0..<k] (RecursiveHalvingMap_new GroupLeader k\<lparr>neighbor := Some (r + 1)\<rparr>)
        | Normal \<Rightarrow> fold (lead_round q c (dist_at k)) [0..<k] (RecursiveHalvingMap_new Normal k))"
      unfolding Construct if_not_P [OF False] M by (simp split: halving_type.split)
    moreover have "is_other q r \<Longrightarrow> q \<le> r" by (simp add: is_other_def)
    ultimately show ?thesis
      by (intro exI [of _ "if is_other q r then Other else if q \<le> r then GroupLeader else Normal"]
          exI [of _ "if is_other q r then Some (r - 1) else if q \<le> r then Some (r + 1) else None"])
        (auto simp: new_map_neighbor Let_def)
  qed
qed

lemma halving_fields:
  assumes "1 \<le> n" "0 \<le> r" "r < n"
  defines "k \<equiv> halvings n 0 - 1" and "q \<equiv> singles n" and "m \<equiv> RecursiveHalvingMap_Construct r n"
  defines "c \<equiv> group_of q r"
  shows "rh_k m = k" and "rh_type m = Other \<longleftrightarrow> is_other q r"
    and "rh_type m = GroupLeader \<longleftrightarrow> q \<le> r \<and> \<not> is_other q r"
    and "q \<le> r \<Longrightarrow> neighbor m = Some (if is_other q r then r - 1 else r + 1)"
    and "\<not> is_other q r \<Longrightarrow> ranks m = map (\<lambda>i. lead q (partner c (halving_dist n i))) [0..<k]"
    and "\<not> is_other q r \<Longrightarrow> recv_block_start m =
      map (\<lambda>i. lead q (c div halving_dist n i * halving_dist n i)) [0..<k]"
    and "\<not> is_other q r \<Longrightarrow> recv_block_len m = map (\<lambda>i.
      lead q (c div halving_dist n i * halving_dist n i + halving_dist n i)
      - lead q (c div halving_dist n i * halving_dist n i)) [0..<k]"
    and "\<not> is_other q r \<Longrightarrow> send_block_start m = map (\<lambda>i.
      lead q (partner c (halving_dist n i) div halving_dist n i * halving_dist n i)) [0..<k]"
    and "\<not> is_other q r \<Longrightarrow> send_block_len m = map (\<lambda>i.
      lead q (partner c (halving_dist n i) div halving_dist n i * halving_dist n i + halving_dist n i)
      - lead q (partner c (halving_dist n i) div halving_dist n i * halving_dist n i)) [0..<k]"
    and "0 \<le> c" "c < 2 ^ k"
proof -
  obtain t nb where shape: "m = (let m = RecursiveHalvingMap_new t k\<lparr>neighbor := nb\<rparr> in
        if is_other q r then m else fold (lead_round q c (dist_at k)) [0..<k] m)"
      "t = Other \<longleftrightarrow> is_other q r" "t = GroupLeader \<longleftrightarrow> q \<le> r \<and> \<not> is_other q r"
      "q \<le> r \<longrightarrow> nb = Some (if is_other q r then r - 1 else r + 1)"
    using halving_shape(1) [OF assms(1-3)] unfolding k_def q_def m_def c_def by blast
  have d: "halving_dist n = dist_at k" by (simp add: fun_eq_iff halving_dist_def dist_at_def k_def)
  note fields = RecursiveHalvingMap_new_def lead_round_def [abs_def] fold_set_round fold_set_all Let_def
  show "0 \<le> c" "c < 2 ^ k"
    using halving_shape(2,3) [OF assms(1-3)] by (simp_all add: c_def q_def k_def)
  show "rh_k m = k" "rh_type m = Other \<longleftrightarrow> is_other q r"
    "rh_type m = GroupLeader \<longleftrightarrow> q \<le> r \<and> \<not> is_other q r"
    "q \<le> r \<Longrightarrow> neighbor m = Some (if is_other q r then r - 1 else r + 1)"
    using shape by (simp_all add: fields)
  show "\<not> is_other q r \<Longrightarrow> ranks m = map (\<lambda>i. lead q (partner c (halving_dist n i))) [0..<k]"
    "\<not> is_other q r \<Longrightarrow> recv_block_start m =
      map (\<lambda>i. lead q (c div halving_dist n i * halving_dist n i)) [0..<k]"
    "\<not> is_other q r \<Longrightarrow> recv_block_len m = map (\<lambda>i.
      lead q (c div halving_dist n i * halving_dist n i + halving_dist n i)
      - lead q (c div halving_dist n i * halving_dist n i)) [0..<k]"
    "\<not> is_other q r \<Longrightarrow> send_block_start m = map (\<lambda>i.
      lead q (partner c (halving_dist n i) div halving_dist n i * halving_dist n i)) [0..<k]"
    "\<not> is_other q r \<Longrightarrow> send_block_len m = map (\<lambda>i.
      lead q (partner c (halving_dist n i) div halving_dist n i * halving_dist n i + halving_dist n i)
      - lead q (partner c (halving_dist n i) div halving_dist n i * halving_dist n i)) [0..<k]"
    using shape(1,2) unfolding d by (simp_all add: fields)
qed

lemma group_shape:
  assumes "1 \<le> n"
  shows "0 \<le> singles n" "singles n \<le> 2 ^ (halvings n 0 - 1)"
    "\<And>c. 0 \<le> c \<Longrightarrow> 0 \<le> lead (singles n) c"
    "lead (singles n) (2 ^ (halvings n 0 - 1)) = n"
    "\<And>c. c < 2 ^ (halvings n 0 - 1) \<Longrightarrow> lead (singles n) c < n"
proof -
  note k = halving_k_bounds [OF assms]
  show q: "0 \<le> singles n" "singles n \<le> 2 ^ (halvings n 0 - 1)"
    using k by (simp_all add: singles_def)
  show n: "lead (singles n) (2 ^ (halvings n 0 - 1)) = n"
    using q by (simp add: lead_def singles_def)
  show "0 \<le> lead (singles n) c" if "0 \<le> c" for c using that q by (simp add: lead_def)
  show "lead (singles n) c < n" if "c < 2 ^ (halvings n 0 - 1)" for c
    using lead_strict_mono [OF that, of "singles n"] n by simp
qed

lemma halving_round_match:
  assumes "1 \<le> n" "0 \<le> r" "r < n"
  defines "m \<equiv> RecursiveHalvingMap_Construct r n"
  assumes "rh_type m \<noteq> Other" "i < rh_k m"
  defines "m' \<equiv> RecursiveHalvingMap_Construct (ranks m ! i) n"
  shows "0 \<le> ranks m ! i" "ranks m ! i < n" "ranks m ! i \<noteq> r" "rh_type m' \<noteq> Other"
    and "ranks m' ! i = r"
    and "send_block_start m ! i = recv_block_start m' ! i"
    and "send_block_len m ! i = recv_block_len m' ! i"
    and "recv_block_start m ! i = send_block_start m' ! i"
    and "recv_block_len m ! i = send_block_len m' ! i"
    and "0 \<le> recv_block_start m ! i" "0 \<le> recv_block_len m ! i"
    and "recv_block_start m ! i + recv_block_len m ! i \<le> n"
proof -
  define q where "q = singles n"
  define k where "k = halvings n 0 - 1"
  define c where "c = group_of q r"
  define d where "d = halving_dist n i"
  note F = halving_fields [OF assms(1-3), folded q_def k_def, folded m_def c_def]
  note G = group_shape [OF assms(1), folded q_def k_def]
  have r: "\<not> is_other q r" "i < k" using assms(5,6) F(1,2) by simp_all
  have c: "0 \<le> c" "c < 2 ^ k" by (fact F(10), fact F(11))
  have d: "d = 2 ^ (k - 1 - i)" by (simp add: d_def halving_dist_def k_def)
  have d0: "0 < d" by (simp add: d)
  have p: "0 \<le> partner c d" "partner c d < 2 ^ k" "partner (partner c d) d = c" "partner c d \<noteq> c"
    using partner_props [OF c(1) d0] partner_bound [OF c r(2)] by (simp_all add: d)
  have P: "ranks m ! i = lead q (partner c d)" using F(5) r by (simp add: d_def)
  show P0: "0 \<le> ranks m ! i" "ranks m ! i < n" unfolding P using G(3,5) p by simp_all
  have c': "group_of q (ranks m ! i) = partner c d" using G(1) by (simp add: P)
  note F' = halving_fields [OF assms(1) P0, folded q_def k_def, folded m'_def, unfolded c']
  have o: "\<not> is_other q (ranks m ! i)" by (simp add: P)
  show "rh_type m' \<noteq> Other" using F'(2) o by simp
  show "ranks m ! i \<noteq> r" using c' p(4) by (auto simp: c_def)
  show "ranks m' ! i = r" using F'(5) o r p(3) by (simp add: d_def c_def)
  show "send_block_start m ! i = recv_block_start m' ! i"
    "send_block_len m ! i = recv_block_len m' ! i"
    "recv_block_start m ! i = send_block_start m' ! i"
    "recv_block_len m ! i = send_block_len m' ! i"
    using F(6-9) F'(6-9) o r p(3) by (simp_all add: d_def)
  note w = window_in_range [OF c r(2), folded d]
  have R: "recv_block_start m ! i = lead q (c div d * d)"
    "recv_block_len m ! i = lead q (c div d * d + d) - lead q (c div d * d)"
    using F(6,7) r by (simp_all add: d_def)
  show "0 \<le> recv_block_start m ! i" unfolding R using G(3) w by simp
  show "0 \<le> recv_block_len m ! i" unfolding R using lead_mono [of "c div d * d"] d0 by simp
  show "recv_block_start m ! i + recv_block_len m ! i \<le> n"
    unfolding R using lead_mono [OF w(2), of q] G(4) by simp
qed

text \<open>In every round of the Bruck all-gather the machines' maps agree: with n machines, the
  machine a rank expects data from in round j sends to exactly that rank in round j, and the
  machine it sends to expects data from exactly that rank; both are valid ranks.\<close>

theorem bruck_rounds_match:
  assumes "0 \<le> r" "r < n" and "j < bruck_k (BruckMap_Construct r n)"
  defines "s \<equiv> in_ranks (BruckMap_Construct r n) ! j"
    and "d \<equiv> out_ranks (BruckMap_Construct r n) ! j"
  shows "0 \<le> s \<and> s < n \<and> out_ranks (BruckMap_Construct s n) ! j = r \<and>
    0 \<le> d \<and> d < n \<and> in_ranks (BruckMap_Construct d n) ! j = r"
  using Bruck_round [OF assms(1-3)] by (simp add: s_def d_def)

theorem bruck_rounds_match_example:
  "2 < bruck_k (BruckMap_Construct 1 5) \<and> in_ranks (BruckMap_Construct 1 5) ! 2 = 0 \<and>
   out_ranks (BruckMap_Construct 0 5) ! 2 = 1"
proof -
  have k: "2 < bruck_k (BruckMap_Construct 1 5)" "in_ranks (BruckMap_Construct 1 5) ! 2 = 0"
    by code_simp+
  then show ?thesis using bruck_rounds_match [of 1 5 2] by simp
qed

text \<open>C20. In every round of recursive halving, for any number of machines, the partner of a
  machine that takes part is another machine that takes part and has the first as its partner
  in that round; the blocks one sends are exactly the blocks the other receives, in both
  directions, and the blocks received lie within the n blocks.\<close>

theorem halving_rounds_match:
  assumes "1 \<le> n" "0 \<le> r" "r < n"
  defines "m \<equiv> RecursiveHalvingMap_Construct r n"
  assumes "rh_type m \<noteq> Other" "i < rh_k m"
  defines "m' \<equiv> RecursiveHalvingMap_Construct (ranks m ! i) n"
  shows "0 \<le> ranks m ! i \<and> ranks m ! i < n \<and> ranks m ! i \<noteq> r \<and> rh_type m' \<noteq> Other \<and>
    ranks m' ! i = r \<and>
    send_block_start m ! i = recv_block_start m' ! i \<and>
    send_block_len m ! i = recv_block_len m' ! i \<and>
    recv_block_start m ! i = send_block_start m' ! i \<and>
    recv_block_len m ! i = send_block_len m' ! i \<and>
    0 \<le> recv_block_start m ! i \<and> 0 \<le> recv_block_len m ! i \<and>
    recv_block_start m ! i + recv_block_len m ! i \<le> n"
  using halving_round_match [OF assms(1-3) assms(5,6) [unfolded m_def]]
  unfolding m_def m'_def by blast

theorem halving_rounds_match_example:
  "ranks (RecursiveHalvingMap_Construct 1 6) ! 0 = 4 \<and>
   ranks (RecursiveHalvingMap_Construct 4 6) ! 0 = 1 \<and>
   send_block_start (RecursiveHalvingMap_Construct 1 6) ! 0 = 2 \<and>
   recv_block_start (RecursiveHalvingMap_Construct 4 6) ! 0 = 2"
proof -
  have "rh_type (RecursiveHalvingMap_Construct 1 6) \<noteq> Other" "0 < rh_k (RecursiveHalvingMap_Construct 1 6)"
    "ranks (RecursiveHalvingMap_Construct 1 6) ! 0 = 4"
    "send_block_start (RecursiveHalvingMap_Construct 1 6) ! 0 = 2"
    by code_simp+
  then show ?thesis using halving_rounds_match [of 6 1 0] by simp
qed

end
