(* ===== verification/Allreduce.thy ===== *)
theory Allreduce
  imports Collective Topology
begin

text \<open>
  The allreduce engine (src/hpps/net/allreduce_engine.h, allreduce_engine.cc): every machine runs
  \<open>Allgather\<close>, \<open>ReduceScatter\<close> or \<open>Allreduce\<close> as a process of theory Collective, over its
  Bruck and halving maps. Sizes and positions are ints, buffers lists of bytes; a \<open>memcpy\<close>
  or a \<open>std::reverse\<close> that leaves its buffer ends the process with \<open>OutOfRange\<close>. The reduce
  function of the caller is a parameter: \<open>reducer src dst\<close> is the new content of \<open>dst\<close>.

  A sum or product of sizes outside of \<open>int\<close> is \<open>IntOverflow\<close>; the machines are fewer than
  \<open>2 ^ 30\<close>, so that their ranks can be added and \<open>1 << k\<close> stays an \<open>int\<close>. The division by
  \<open>type_size\<close> is that of non-negative ints.
\<close>

section \<open>The engine\<close>

record engine =
  linkers :: net_kind
  my_rank :: int
  num_of_machines :: int
  the_bruck_map :: bruck_map
  the_halving_map :: halving_map
  engine_buffer :: blob

definition engine_Init :: "net_kind \<Rightarrow> int \<Rightarrow> int \<Rightarrow> engine" where
  \<comment> \<open>\<open>Init\<close>; the rank and the size are those of the network interface\<close>
  "engine_Init net r n = \<lparr>linkers = net, my_rank = r, num_of_machines = n,
     the_bruck_map = BruckMap_Construct r n,
     the_halving_map = RecursiveHalvingMap_Construct r n,
     engine_buffer = replicate (1024 * 1024) 0\<rparr>"

definition block_sum :: "int list \<Rightarrow> int list \<Rightarrow> int res" where
  \<comment> \<open>the loops that add up the lengths of the blocks \<open>js\<close>\<close>
  "block_sum block_len js = fold_res (\<lambda>s j. bind_res (vec_at block_len j) (\<lambda>l. int_result (s + l))) 0 js"

definition reverse_range :: "int \<Rightarrow> int \<Rightarrow> blob \<Rightarrow> blob res" where
  \<comment> \<open>\<open>std::reverse(output + a, output + b)\<close>\<close>
  "reverse_range a b out =
     (if 0 \<le> a \<and> a \<le> b \<and> b \<le> int (length out)
      then Inr (take (nat a) out @ rev (take (nat (b - a)) (drop (nat a) out)) @ drop (nat b) out)
      else Inl OutOfRange)"

section \<open>All-gather\<close>

definition Allgather_round ::
  "engine \<Rightarrow> int list \<Rightarrow> blob \<times> int \<times> int \<Rightarrow> nat \<Rightarrow> (blob \<times> int \<times> int) proc" where
  "Allgather_round E block_len = (\<lambda>(output, write_ptr, accumulated_block) i.
     let n = num_of_machines E;
         cur_block_size = (if 2 ^ i < n - accumulated_block then 2 ^ i else n - accumulated_block) in
     lift (vec_at (out_ranks (the_bruck_map E)) (int i)) (\<lambda>target.
     lift (block_sum block_len (map (\<lambda>j. (my_rank E + j) mod n) [0..cur_block_size - 1])) (\<lambda>send_len.
     lift (vec_at (in_ranks (the_bruck_map E)) (int i)) (\<lambda>incoming.
     lift (block_sum block_len
       (map (\<lambda>j. (my_rank E + accumulated_block + j) mod n) [0..cur_block_size - 1])) (\<lambda>need_recv_cnt.
     lift (buf_read output 0 (nat send_len)) (\<lambda>data.
     bindp (net_SendRecv (linkers E) target data incoming (nat need_recv_cnt)) (\<lambda>received.
     lift (buf_write output (nat write_ptr) received) (\<lambda>output'.
     lift (int_result (write_ptr + need_recv_cnt)) (\<lambda>write_ptr'.
     Done (output', write_ptr', accumulated_block + cur_block_size))))))))))"

definition Allgather ::
  "engine \<Rightarrow> blob \<Rightarrow> int \<Rightarrow> int list \<Rightarrow> int list \<Rightarrow> blob \<Rightarrow> blob proc" where
  "Allgather E input all_size block_start block_len output =
     lift (vec_at block_len (my_rank E)) (\<lambda>own.
     lift (buf_read input 0 (nat own)) (\<lambda>mine.
     lift (buf_write output 0 mine) (\<lambda>output0.
     bindp (fold_proc (Allgather_round E block_len) (output0, own, 1) [0..<bruck_k (the_bruck_map E)])
       (\<lambda>(output1, _, _).
     lift (vec_at block_start (my_rank E)) (\<lambda>here.
     lift (reverse_range 0 all_size output1) (\<lambda>output2.
     lift (reverse_range 0 here output2) (\<lambda>output3.
     lift (reverse_range here all_size output3) Done)))))))"

definition equal_blocks :: "int \<Rightarrow> int \<Rightarrow> int list \<times> int list" where
  \<comment> \<open>the loop that gives every machine a block of \<open>len\<close> bytes; its sums are at most \<open>n * len\<close>,
    which its callers compute too\<close>
  "equal_blocks n len = fold (\<lambda>i (st, ln).
     (st[nat i := st ! nat (i - 1) + ln ! nat (i - 1)], ln[nat i := len]))
     [1..n - 1] ((replicate (nat n) 0)[0 := 0], (replicate (nat n) 0)[0 := len])"

definition Allgather_equal :: "engine \<Rightarrow> blob \<Rightarrow> int \<Rightarrow> blob \<Rightarrow> blob proc" where
  \<comment> \<open>\<open>Allgather(input, send_size, output)\<close>\<close>
  "Allgather_equal E input send_size output =
     (let (st, ln) = equal_blocks (num_of_machines E) send_size in
      lift (int_result (send_size * num_of_machines E)) (\<lambda>all_size.
      Allgather E input all_size st ln output))"

section \<open>Reduce-scatter\<close>

definition ReduceScatter_round ::
  "engine \<Rightarrow> int list \<Rightarrow> int list \<Rightarrow> (blob \<Rightarrow> blob \<Rightarrow> blob) \<Rightarrow> blob \<times> blob \<Rightarrow> nat \<Rightarrow> (blob \<times> blob) proc"
  where
  "ReduceScatter_round E block_start block_len reducer = (\<lambda>(input, output) i.
     let m = the_halving_map E in
     lift (vec_at (ranks m) (int i)) (\<lambda>target.
     lift (vec_at (send_block_start m) (int i)) (\<lambda>ss.
     lift (vec_at (recv_block_start m) (int i)) (\<lambda>rs.
     lift (vec_at (send_block_len m) (int i)) (\<lambda>sl.
     lift (block_sum block_len (map (\<lambda>j. ss + j) [0..sl - 1])) (\<lambda>send_size.
     lift (vec_at (recv_block_len m) (int i)) (\<lambda>rl.
     lift (block_sum block_len (map (\<lambda>j. rs + j) [0..rl - 1])) (\<lambda>need_recv_cnt.
     lift (vec_at block_start ss) (\<lambda>send_at.
     lift (buf_read input (nat send_at) (nat send_size)) (\<lambda>data.
     bindp (net_SendRecv (linkers E) target data target (nat need_recv_cnt)) (\<lambda>received.
     lift (buf_write output 0 received) (\<lambda>output'.
     lift (vec_at block_start rs) (\<lambda>recv_at.
     lift (buf_read input (nat recv_at) (nat need_recv_cnt)) (\<lambda>old.
     lift (buf_write input (nat recv_at) (reducer received old)) (\<lambda>input'.
     Done (input', output'))))))))))))))))"

definition is_powerof_2 :: "int \<Rightarrow> bool" where
  "is_powerof_2 n \<longleftrightarrow> n AND (n - 1) = 0"

definition neighbor_of :: "engine \<Rightarrow> int res" where
  \<comment> \<open>reading a neighbor that was never assigned is undefined\<close>
  "neighbor_of E = (case neighbor (the_halving_map E) of None \<Rightarrow> Inl OutOfRange | Some r \<Rightarrow> Inr r)"

definition ReduceScatter ::
  "engine \<Rightarrow> blob \<Rightarrow> int \<Rightarrow> int list \<Rightarrow> int list \<Rightarrow> blob \<Rightarrow> (blob \<Rightarrow> blob \<Rightarrow> blob) \<Rightarrow>
   (blob \<times> blob) proc" where
  \<comment> \<open>the result is the new content of \<open>input\<close>, which the rounds overwrite, and of \<open>output\<close>\<close>
  "ReduceScatter E input input_size block_start block_len output reducer =
     (let typ = rh_type (the_halving_map E); grouped = (\<not> is_powerof_2 (num_of_machines E));
          finish = (\<lambda>(input, output).
            lift (vec_at block_start (my_rank E)) (\<lambda>at.
            lift (vec_at block_len (my_rank E)) (\<lambda>l.
            lift (buf_read input (nat at) (nat l)) (\<lambda>mine.
            lift (buf_write output 0 mine) (\<lambda>output'. Done (input, output')))))) in
      bindp
        (if grouped \<and> typ = Other then
           lift (neighbor_of E) (\<lambda>nb.
           lift (buf_read input 0 (nat input_size)) (\<lambda>data.
           bindp (net_SendTo (linkers E) nb data) (\<lambda>_. Done (input, output))))
         else if grouped \<and> typ = GroupLeader then
           lift (neighbor_of E) (\<lambda>nb.
           bindp (net_RecvFrom (linkers E) nb (nat input_size)) (\<lambda>received.
           lift (buf_write output 0 received) (\<lambda>output'.
           lift (buf_read input 0 (nat input_size)) (\<lambda>old.
           lift (buf_write input 0 (reducer received old)) (\<lambda>input'.
           Done (input', output'))))))
         else Done (input, output)) (\<lambda>s.
      bindp
        (if typ \<noteq> Other then
           fold_proc (ReduceScatter_round E block_start block_len reducer) s [0..<rh_k (the_halving_map E)]
         else Done s) (\<lambda>(input, output).
      if grouped \<and> typ = GroupLeader then
        lift (neighbor_of E) (\<lambda>nb.
        lift (vec_at block_start nb) (\<lambda>at.
        lift (vec_at block_len nb) (\<lambda>l.
        lift (buf_read input (nat at) (nat l)) (\<lambda>data.
        bindp (net_SendTo (linkers E) nb data) (\<lambda>_. finish (input, output))))))
      else if grouped \<and> typ = Other then
        lift (vec_at block_len (my_rank E)) (\<lambda>need_recv_cnt.
        lift (neighbor_of E) (\<lambda>nb.
        bindp (net_RecvFrom (linkers E) nb (nat need_recv_cnt)) (\<lambda>received.
        lift (buf_write output 0 received) (\<lambda>output'. Done (input, output')))))
      else finish (input, output))))"

section \<open>All-reduce\<close>

definition AllreduceByAllGather ::
  "engine \<Rightarrow> blob \<Rightarrow> int \<Rightarrow> blob \<Rightarrow> (blob \<Rightarrow> blob \<Rightarrow> blob) \<Rightarrow> (engine \<times> blob) proc" where
  "AllreduceByAllGather E input input_size output reducer =
     (let n = num_of_machines E in
      lift (int_result (input_size * n)) (\<lambda>all_size.
      let (st, ln) = equal_blocks n input_size;
          buffer = (if int (length (engine_buffer E)) < all_size
                    then replicate (nat all_size) 0 else engine_buffer E) in
      bindp (Allgather E input all_size st ln buffer) (\<lambda>gathered.
      lift (fold_res (\<lambda>buf i.
          bind_res (vec_at st i) (\<lambda>at.
          bind_res (buf_read buf (nat at) (nat input_size)) (\<lambda>src.
          bind_res (vec_at st 0) (\<lambda>to.
          bind_res (buf_read buf (nat to) (nat input_size)) (\<lambda>dst.
          buf_write buf (nat to) (reducer src dst)))))) gathered [1..n - 1]) (\<lambda>buffer'.
      lift (buf_read buffer' 0 (nat input_size)) (\<lambda>result.
      lift (buf_write output 0 result) (\<lambda>output'.
      Done (E\<lparr>engine_buffer := buffer'\<rparr>, output')))))))"

definition allreduce_blocks :: "int \<Rightarrow> int \<Rightarrow> int \<Rightarrow> int list \<times> int list" where
  \<comment> \<open>the assignment of blocks to ranks in \<open>Allreduce\<close>; with at least \<open>n\<close> elements \<open>step * type_size\<close>
    and the sums are at most \<open>input_size\<close>, so only \<open>count + n\<close>, which the caller checks, can overflow\<close>
  "allreduce_blocks n input_size type_size =
     (let count = input_size div type_size;
          step = (let s = (count + n - 1) div n in if s < 1 then 1 else s);
          (st, ln) = fold (\<lambda>i (st, ln).
            let l = (if step * type_size < input_size - st ! nat i
                     then step * type_size else input_size - st ! nat i) in
            (st[nat (i + 1) := st ! nat i + l], ln[nat i := l]))
            [0..n - 2] (replicate (nat n) 0, replicate (nat n) 0) in
      (st, ln[nat (n - 1) := input_size - st ! nat (n - 1)]))"

definition Allreduce ::
  "engine \<Rightarrow> blob \<Rightarrow> int \<Rightarrow> int \<Rightarrow> blob \<Rightarrow> (blob \<Rightarrow> blob \<Rightarrow> blob) \<Rightarrow> (engine \<times> blob) proc" where
  "Allreduce E input input_size type_size output reducer =
     (if type_size = 0 then Crash DivByZero
      else let n = num_of_machines E; count = input_size div type_size in
        if count < n \<or> input_size < 4096
        then AllreduceByAllGather E input input_size output reducer
        else lift (int_result (count + n)) (\<lambda>_.
          let (st, ln) = allreduce_blocks n input_size type_size in
          bindp (ReduceScatter E input input_size st ln output reducer) (\<lambda>(input', output').
          bindp (Allgather E output' input_size st ln output') (\<lambda>result. Done (E, result)))))"

end
