(* ===== verification/Gather.thy ===== *)
theory Gather
  imports Allreduce
begin

text \<open>
  The Bruck all-gather, run by all machines over MPI: whatever the order in which they run,
  they all finish, with the blocks of all machines in rank order.
\<close>

section \<open>What a machine has gathered\<close>

text \<open>The first \<open>a\<close> blocks, counted from rank \<open>r\<close> and wrapping around at \<open>n\<close>.\<close>

definition gathered :: "int \<Rightarrow> (int \<Rightarrow> blob) \<Rightarrow> int \<Rightarrow> nat \<Rightarrow> blob" where
  "gathered n blk r a = concat (map (\<lambda>j. blk ((r + int j) mod n)) [0..<a])"

definition block_lens :: "int \<Rightarrow> (int \<Rightarrow> blob) \<Rightarrow> int list" where
  "block_lens n blk = map (\<lambda>j. int (length (blk j))) [0..n - 1]"

definition block_starts :: "int \<Rightarrow> (int \<Rightarrow> blob) \<Rightarrow> int list" where
  "block_starts n blk = map (\<lambda>j. int (length (gathered n blk 0 (nat j)))) [0..n - 1]"

lemma gathered_0 [simp]: "gathered n blk r 0 = []"
  by (simp add: gathered_def)

lemma gathered_mod [simp]: "gathered n blk (r mod n) a = gathered n blk r a"
  unfolding gathered_def mod_add_left_eq ..

lemma gathered_add: "gathered n blk r (a + b) = gathered n blk r a @ gathered n blk (r + int a) b"
  unfolding gathered_def by (induction b) (simp_all add: add.assoc)

lemma gathered_1: "0 \<le> r \<Longrightarrow> r < n \<Longrightarrow> gathered n blk r 1 = blk r"
  by (simp add: gathered_def)

lemma gathered_rotate:
  assumes "0 \<le> r" "r < n"
  shows "gathered n blk r (nat n) = gathered n blk r (nat (n - r)) @ gathered n blk 0 (nat r)"
    and "gathered n blk 0 (nat n) = gathered n blk 0 (nat r) @ gathered n blk r (nat (n - r))"
proof -
  have n: "nat n = nat (n - r) + nat r" "nat n = nat r + nat (n - r)" using assms by simp_all
  have "gathered n blk (r + int (nat (n - r))) (nat r) = gathered n blk 0 (nat r)"
    using assms gathered_mod [of n blk n "nat r"] by simp
  then show "gathered n blk r (nat n) = gathered n blk r (nat (n - r)) @ gathered n blk 0 (nat r)"
    unfolding n(1) gathered_add by simp
  show "gathered n blk 0 (nat n) = gathered n blk 0 (nat r) @ gathered n blk r (nat (n - r))"
    unfolding n(2) gathered_add using assms by simp
qed

lemma length_gathered_all:
  "0 \<le> r \<Longrightarrow> r < n \<Longrightarrow> length (gathered n blk r (nat n)) = length (gathered n blk 0 (nat n))"
  using gathered_rotate [of r n blk] by simp

lemma gathered_mono: "a \<le> b \<Longrightarrow> length (gathered n blk r a) \<le> length (gathered n blk r b)"
  using gathered_add [of n blk r a "b - a"] by simp

lemma block_lens_at: "0 \<le> j \<Longrightarrow> j < n \<Longrightarrow> vec_at (block_lens n blk) j = Inr (int (length (blk j)))"
  by (simp add: block_lens_def vec_at_def in_range_def nth_upto)

lemma block_starts_at:
  "0 \<le> j \<Longrightarrow> j < n \<Longrightarrow> vec_at (block_starts n blk) j = Inr (int (length (gathered n blk 0 (nat j))))"
  by (simp add: block_starts_def vec_at_def in_range_def nth_upto)

lemma fold_res_block_sum:
  assumes "\<And>j. j \<in> set js \<Longrightarrow> vec_at ln j = Inr (int (f j))"
    and "s + sum_list (map f js) < 2 ^ 31"
  shows "fold_res (\<lambda>s j. bind_res (vec_at ln j) (\<lambda>l. int_result (s + l))) (int s) js
    = Inr (int (s + sum_list (map f js)))"
  using assms
proof (induction js arbitrary: s)
  case Nil
  then show ?case by simp
next
  case (Cons j js)
  then have "fits_int (int (s + f j))" unfolding fits_int_nat by simp
  then show ?case using Cons.IH [of "s + f j"] Cons.prems by (simp add: add.assoc)
qed

lemma length_gathered:
  "length (gathered n blk r a) = sum_list (map (\<lambda>j. length (blk ((r + j) mod n))) [0..int a - 1])"
  unfolding gathered_def upto_map_upt by (induction a) simp_all

lemma block_sum_gathered:
  assumes "0 < n" and "length (gathered n blk r a) < 2 ^ 31"
  shows "block_sum (block_lens n blk) (map (\<lambda>j. (r + j) mod n) [0..int a - 1])
    = Inr (int (length (gathered n blk r a)))"
proof -
  let ?js = "map (\<lambda>j. (r + j) mod n) [0..int a - 1]"
  have "vec_at (block_lens n blk) j = Inr (int (length (blk j)))" if "j \<in> set ?js" for j
    using that assms(1) by (auto simp: block_lens_at)
  moreover have "0 + sum_list (map (\<lambda>j. length (blk j)) ?js) < 2 ^ 31"
    using assms(2) by (simp add: length_gathered comp_def)
  ultimately have "fold_res (\<lambda>s j. bind_res (vec_at (block_lens n blk) j) (\<lambda>l. int_result (s + l))) (int 0) ?js
      = Inr (int (0 + sum_list (map (\<lambda>j. length (blk j)) ?js)))"
    by (rule fold_res_block_sum)
  then show ?thesis by (simp add: block_sum_def length_gathered comp_def)
qed

section \<open>The rounds\<close>

definition engine_ok :: "engine \<Rightarrow> int \<Rightarrow> int \<Rightarrow> bool" where
  "engine_ok E r n \<longleftrightarrow> linkers E = MPI \<and> my_rank E = r \<and> num_of_machines E = n \<and>
     the_bruck_map E = BruckMap_Construct r n \<and> the_halving_map E = RecursiveHalvingMap_Construct r n"

lemma engine_ok_Init [simp]: "engine_ok (engine_Init MPI r n) r n"
  by (simp add: engine_ok_def engine_Init_def)

lemma engine_ok_buffer [simp]: "engine_ok (E\<lparr>engine_buffer := b\<rparr>) r n = engine_ok E r n"
  by (simp add: engine_ok_def)

text \<open>The number of blocks a machine holds before round \<open>i\<close>, and the state of its loop.\<close>

definition acc_blocks :: "int \<Rightarrow> nat \<Rightarrow> nat" where
  "acc_blocks n i = min (2 ^ i) (nat n)"

definition gather_state :: "int \<Rightarrow> (int \<Rightarrow> blob) \<Rightarrow> (int \<Rightarrow> blob) \<Rightarrow> nat \<Rightarrow> int \<Rightarrow> blob \<times> int \<times> int" where
  "gather_state n blk out i r = (let g = gathered n blk r (acc_blocks n i) in
     (g @ drop (length g) (out r), int (length g), int (acc_blocks n i)))"

lemma doublings_less: "i < doublings n 0 \<Longrightarrow> 1 \<le> n \<Longrightarrow> 2 ^ i < n"
proof -
  assume "i < doublings n 0" "1 \<le> n"
  then have "2 ^ (doublings n 0 - 1) < n" "i \<le> doublings n 0 - 1"
    using doublings_bound [of 0 n] by auto
  moreover from this(2) have "(2 :: int) ^ i \<le> 2 ^ (doublings n 0 - 1)"
    by (rule power_increasing) simp
  ultimately show ?thesis by linarith
qed

lemma acc_blocks_last: "1 \<le> n \<Longrightarrow> acc_blocks n (doublings n 0) = nat n"
  using doublings_bound [of 0 n] by (simp add: acc_blocks_def nat_le_iff)

lemma buf_write_gathered:
  "length g + length x \<le> length out \<Longrightarrow>
   buf_write (g @ drop (length g) out) (length g) x = Inr ((g @ x) @ drop (length (g @ x)) out)"
  by (simp add: buf_write_def add.commute)

text \<open>What a machine does with the \<open>x\<close> it received in round \<open>i\<close> from \<open>s\<close>: the rest of the round.\<close>

definition gather_cont :: "int \<Rightarrow> (int \<Rightarrow> blob) \<Rightarrow> (int \<Rightarrow> blob) \<Rightarrow> nat \<Rightarrow> int \<Rightarrow> int \<Rightarrow> blob \<Rightarrow> (blob \<times> int \<times> int) proc" where
  "gather_cont n blk out i r s x = (let g = gathered n blk r (acc_blocks n i) in
     lift (buf_write (fst (gather_state n blk out i r)) (length g) x) (\<lambda>output.
     lift (int_result (int (length g) +
         int (length (gathered n blk s (acc_blocks n (Suc i) - acc_blocks n i))))) (\<lambda>write_ptr.
     Done (output, write_ptr, int (acc_blocks n (Suc i))))))"

lemma Allgather_round_exchange:
  assumes E: "engine_ok E r n" and r: "0 \<le> r" "r < n" and i: "i < doublings n 0"
    and len: "length (gathered n blk 0 (nat n)) \<le> length (out r)" "length (gathered n blk 0 (nat n)) < 2 ^ 31"
  defines "cur \<equiv> acc_blocks n (Suc i) - acc_blocks n i"
    and "s \<equiv> (r + 2 ^ i) mod n" and "d \<equiv> (r - 2 ^ i + n) mod n"
  shows "Allgather_round E (block_lens n blk) (gather_state n blk out i r) i =
      Send d (gathered n blk r cur) (Recv s (length (gathered n blk s cur)) []
        (\<lambda>x. WaitSent d (length (gathered n blk r cur)) (gather_cont n blk out i r s x)))"
    and "gather_cont n blk out i r s (gathered n blk s cur) = Done (gather_state n blk out (Suc i) r)"
proof -
  have less: "2 ^ i < n" using doublings_less [OF i] r by simp
  then have "2 ^ i < nat n" by (simp add: zless_nat_eq_int_zless)
  then have acc: "acc_blocks n i = 2 ^ i" by (simp add: acc_blocks_def)
  have acc': "acc_blocks n (Suc i) = 2 ^ i + cur" "cur \<le> 2 ^ i"
    using \<open>2 ^ i < nat n\<close> unfolding cur_def acc by (auto simp: acc_blocks_def)
  have cur: "(if 2 ^ i < n - int (acc_blocks n i) then 2 ^ i else n - int (acc_blocks n i)) = int cur"
  proof -
    have "m \<le> N \<Longrightarrow> (if int m < int N - int m then int m else int N - int m) = int (min (2 * m) N - m)"
      for m N by auto
    moreover have "int cur = int (min (2 * 2 ^ i) (nat n) - 2 ^ i)"
      by (simp only: cur_def acc) (simp only: acc_blocks_def power_Suc)
    moreover have "(2 :: int) ^ i = int (2 ^ i)" "n = int (nat n)" using r by simp_all
    ultimately show ?thesis using \<open>2 ^ i < nat n\<close> unfolding acc by (metis less_imp_le)
  qed
  let ?g = "gathered n blk r (2 ^ i)"
  have g: "gathered n blk r (2 ^ i + cur) = ?g @ gathered n blk s cur"
    unfolding s_def gathered_mod gathered_add by simp
  have all: "length (gathered n blk r (2 ^ i + cur)) \<le> length (gathered n blk r (nat n))"
    using acc' unfolding acc_blocks_def by (intro gathered_mono) simp
  then have fits: "length ?g + length (gathered n blk s cur) \<le> length (out r)"
      "length ?g + length (gathered n blk s cur) < 2 ^ 31"
    using len length_gathered_all [OF r, of blk] g by simp_all
  have pre: "gathered n blk r (2 ^ i) = gathered n blk r cur @ gathered n blk (r + int cur) (2 ^ i - cur)"
    using acc'(2) gathered_add [of n blk r cur "2 ^ i - cur"] by simp
  have rd: "buf_read (?g @ drop (length ?g) (out r)) 0 (length (gathered n blk r cur))
      = Inr (gathered n blk r cur)"
    unfolding buf_read_def pre by simp
  have sums: "block_sum (block_lens n blk) (map (\<lambda>j. (r + j) mod n) [0..int cur - 1])
      = Inr (int (length (gathered n blk r cur)))"
    "block_sum (block_lens n blk) (map (\<lambda>j. (r + 2 ^ i + j) mod n) [0..int cur - 1])
      = Inr (int (length (gathered n blk s cur)))"
    using block_sum_gathered [of n blk r cur] block_sum_gathered [of n blk "r + 2 ^ i" cur] fits(2) pre r
    unfolding s_def gathered_mod by simp_all
  have peers: "vec_at (out_ranks (BruckMap_Construct r n)) (int i) = Inr d"
    "vec_at (in_ranks (BruckMap_Construct r n)) (int i) = Inr s"
    using i by (simp_all add: Bruck_fields s_def d_def)
  have acc'': "int (acc_blocks n i) = 2 ^ i" by (simp add: acc)
  have acc_sum: "int (acc_blocks n i) + int cur = int (acc_blocks n (Suc i))"
    unfolding acc acc'(1) by simp
  have E': "num_of_machines E = n" "my_rank E = r" "linkers E = MPI"
    "the_bruck_map E = BruckMap_Construct r n"
    using E by (simp_all add: engine_ok_def)
  show "Allgather_round E (block_lens n blk) (gather_state n blk out i r) i =
      Send d (gathered n blk r cur) (Recv s (length (gathered n blk s cur)) []
        (\<lambda>x. WaitSent d (length (gathered n blk r cur)) (gather_cont n blk out i r s x)))"
    unfolding Allgather_round_def gather_state_def gather_cont_def Let_def prod.case fst_conv E' cur sums
      sums(2) [folded acc''] peers lift_simps nat_int rd [folded acc] net_SendRecv.simps mpi_SendRecv_def
      bindp.simps acc_sum cur_def [symmetric] ..
  have "fits_int (int (length ?g) + int (length (gathered n blk s cur)))"
    using fits(2) by (simp add: fits_int_def)
  then show "gather_cont n blk out i r s (gathered n blk s cur) = Done (gather_state n blk out (Suc i) r)"
    using buf_write_gathered [OF fits(1)] g
    by (simp add: gather_cont_def gather_state_def Let_def acc acc'(1))
qed

section \<open>The whole operation\<close>

lemma rotate_by_reversals:
  assumes "length (a @ b) = t" "length b = h"
  shows "bind_res (reverse_range 0 (int t) ((a @ b) @ rest))
      (\<lambda>o2. bind_res (reverse_range 0 (int h) o2) (\<lambda>o3. reverse_range (int h) (int t) o3))
    = Inr ((b @ a) @ rest)"
  using assms by (auto simp: reverse_range_def)

definition gather_finish :: "engine \<Rightarrow> int list \<Rightarrow> int \<Rightarrow> blob \<times> int \<times> int \<Rightarrow> blob proc" where
  "gather_finish E block_start all_size = (\<lambda>(output1, _, _).
     lift (vec_at block_start (my_rank E)) (\<lambda>here.
     lift (reverse_range 0 all_size output1) (\<lambda>output2.
     lift (reverse_range 0 here output2) (\<lambda>output3.
     lift (reverse_range here all_size output3) Done))))"

lemma Allgather_unfold:
  assumes E: "engine_ok E r n" and r: "0 \<le> r" "r < n"
    and len: "length (gathered n blk 0 (nat n)) \<le> length (out r)"
    and inp: "length (blk r) \<le> length input" "take (length (blk r)) input = blk r"
  shows "Allgather E input all_size (block_starts n blk) (block_lens n blk) (out r) =
    bindp (fold_proc (Allgather_round E (block_lens n blk)) (gather_state n blk out 0 r)
        [0..<doublings n 0])
      (gather_finish E (block_starts n blk) all_size)"
proof -
  have b: "gathered n blk r 1 = blk r" using gathered_1 [OF r] .
  have "nat n \<ge> 1" using r by simp
  then have "length (gathered n blk r 1) \<le> length (gathered n blk r (nat n))"
    by (rule gathered_mono)
  then have "length (blk r) \<le> length (out r)"
    using len length_gathered_all [OF r, of blk] b by simp
  then have w: "buf_write (out r) 0 (blk r) = Inr (blk r @ drop (length (blk r)) (out r))"
    by (simp add: buf_write_def)
  have acc: "acc_blocks n 0 = 1" using r by (simp add: acc_blocks_def)
  show ?thesis
    using E inp w b acc
    by (simp add: Allgather_def gather_finish_def gather_state_def block_lens_at [OF r] buf_read_def
      engine_ok_def Bruck_fields Let_def)
qed

lemma gather_finish_state:
  assumes E: "engine_ok E r n" and r: "0 \<le> r" "r < n"
    and len: "length (gathered n blk 0 (nat n)) \<le> length (out r)"
  shows "gather_finish E (block_starts n blk) (int (length (gathered n blk 0 (nat n))))
      (gather_state n blk out (doublings n 0) r)
    = Done (gathered n blk 0 (nat n) @ drop (length (gathered n blk 0 (nat n))) (out r))"
proof -
  let ?a = "gathered n blk r (nat (n - r))" and ?b = "gathered n blk 0 (nat r)"
  let ?t = "length (gathered n blk 0 (nat n))"
  note rot = gathered_rotate [OF r, of blk]
  have st: "fst (gather_state n blk out (doublings n 0) r) = (?a @ ?b) @ drop ?t (out r)"
    using r length_gathered_all [OF r, of blk] rot
    by (simp add: gather_state_def Let_def acc_blocks_last add.commute)
  have at: "vec_at (block_starts n blk) (my_rank E) = Inr (int (length ?b))"
    using E block_starts_at [OF r] by (simp add: engine_ok_def)
  have "bind_res (reverse_range 0 (int ?t) ((?a @ ?b) @ drop ?t (out r)))
      (\<lambda>o2. bind_res (reverse_range 0 (int (length ?b)) o2)
        (\<lambda>o3. reverse_range (int (length ?b)) (int ?t) o3))
    = Inr ((?b @ ?a) @ drop ?t (out r))"
    using rot(2) by (intro rotate_by_reversals) simp_all
  then show ?thesis
    using st at rot(2) unfolding gather_finish_def
    by (cases "gather_state n blk out (doublings n 0) r") (auto simp: lift_def)
qed

definition no_block_empty :: "int \<Rightarrow> (int \<Rightarrow> blob) \<Rightarrow> bool" where
  "no_block_empty n blk \<longleftrightarrow> (\<forall>r \<in> set [0..n - 1]. blk r \<noteq> [])"

lemma gathered_nonempty:
  assumes "no_block_empty n blk" "0 < n" "0 < a"
  shows "gathered n blk r a \<noteq> []"
proof -
  have "gathered n blk r a = blk (r mod n) @ gathered n blk (r + 1) (a - 1)"
    using gathered_add [of n blk r 1 "a - 1"] assms(3) by (simp add: gathered_def)
  then show ?thesis using assms(1,2) by (simp add: no_block_empty_def)
qed

lemma Allgather_all:
  assumes n: "1 \<le> n" and q: "quiet empties c" and e: "empties \<or> no_block_empty n blk"
    and E: "\<And>r. 0 \<le> r \<Longrightarrow> r < n \<Longrightarrow> engine_ok (E r) r n"
    and lib: "empties \<Longrightarrow> lib 0" and small: "length (gathered n blk 0 (nat n)) < 2 ^ 31"
    and len: "\<And>r. 0 \<le> r \<Longrightarrow> r < n \<Longrightarrow> length (gathered n blk 0 (nat n)) \<le> length (out r)"
    and inp: "\<And>r. 0 \<le> r \<Longrightarrow> r < n \<Longrightarrow>
      length (blk r) \<le> length (input r) \<and> take (length (blk r)) (input r) = blk r"
    and procs: "\<And>r. 0 \<le> r \<Longrightarrow> r < n \<Longrightarrow> procs c r =
      bindp (Allgather (E r) (input r) (int (length (gathered n blk 0 (nat n))))
        (block_starts n blk) (block_lens n blk) (out r)) (k r)"
  shows "\<exists>c'. reaches MPI lib c c' \<and> quiet empties c' \<and>
    procs c' = (\<lambda>r. if 0 \<le> r \<and> r < n
      then k r (gathered n blk 0 (nat n) @ drop (length (gathered n blk 0 (nat n))) (out r))
      else procs c r)"
proof -
  let ?t = "int (length (gathered n blk 0 (nat n)))"
  let ?K = "\<lambda>r x. bindp (gather_finish (E r) (block_starts n blk) ?t x) (k r)"
  let ?inn = "\<lambda>i r. (r + 2 ^ i) mod n" and ?out = "\<lambda>i r. (r - 2 ^ i + n) mod n"
  let ?cur = "\<lambda>i. acc_blocks n (Suc i) - acc_blocks n i"
  have "\<exists>c'. reaches MPI lib c c' \<and> quiet empties c' \<and>
    procs c' = (\<lambda>r. if r \<in> set [0..n - 1] then ?K r (gather_state n blk out (doublings n 0) r)
      else procs c r)"
  proof (rule exchange_loop [where i = 0 and S = "gather_state n blk out"
        and f = "\<lambda>r. Allgather_round (E r) (block_lens n blk)" and out = ?out and inn = ?inn
        and b = "\<lambda>i r. gathered n blk r (?cur i)"
        and g = "\<lambda>i r. gather_cont n blk out i r (?inn i r)"])
    show "distinct [0..n - 1]" by simp
    show "quiet empties c" by fact
    show "procs c r = bindp (fold_proc (Allgather_round (E r) (block_lens n blk))
        (gather_state n blk out 0 r) [0..<doublings n 0]) (?K r)" if "r \<in> set [0..n - 1]" for r
      using that procs [of r] Allgather_unfold [of "E r" r n blk out "input r" ?t] E [of r] len [of r]
        inp [of r] by (simp add: bindp_assoc)
  next
    fix i r assume i: "i < doublings n 0" and "r \<in> set [0..n - 1]"
    then have r: "0 \<le> r" "r < n" by simp_all
    note X = Allgather_round_exchange [OF E [OF r] r i, of blk out, OF len [OF r] small]
    show "Allgather_round (E r) (block_lens n blk) (gather_state n blk out i r) i =
      Send (?out i r) (gathered n blk r (?cur i)) (Recv (?inn i r)
        (length (gathered n blk (?inn i r) (?cur i))) []
        (\<lambda>x. WaitSent (?out i r) (length (gathered n blk r (?cur i)))
          (gather_cont n blk out i r (?inn i r) x)))"
      by (rule X(1))
    show "gather_cont n blk out i r (?inn i r) (gathered n blk (?inn i r) (?cur i))
      = Done (gather_state n blk out (Suc i) r)"
      by (rule X(2))
    have B: "i < bruck_k (BruckMap_Construct x n)" for x using i by (simp add: Bruck_fields)
    have F: "in_ranks (BruckMap_Construct x n) ! i = ?inn i x"
      "out_ranks (BruckMap_Construct x n) ! i = ?out i x" for x
      using i by (simp_all add: Bruck_fields del: mod_add_self2)
    show "?inn i r \<in> set [0..n - 1] \<and> ?out i r \<in> set [0..n - 1] \<and> ?out i (?inn i r) = r \<and>
        ?inn i (?out i r) = r"
      using Bruck_round [OF r B] unfolding F by simp
    have "0 < ?cur i" using doublings_less [OF i n]
      by (auto simp: acc_blocks_def zless_nat_eq_int_zless)
    then show "empties \<or> gathered n blk r (?cur i) \<noteq> []"
      using e gathered_nonempty [of n blk "?cur i"] n by auto
  qed (simp_all add: lib)
  moreover have "?K r (gather_state n blk out (doublings n 0) r)
      = k r (gathered n blk 0 (nat n) @ drop (length (gathered n blk 0 (nat n))) (out r))"
    if "r \<in> set [0..n - 1]" for r
    using that gather_finish_state [OF E _ _ len] by simp
  ultimately show ?thesis by (simp add: if_distrib cong: if_cong)
qed

lemma stuck_if_Done: "(\<And>r. \<exists>x. procs c r = Done x) \<Longrightarrow> stuck kind c"
proof -
  assume d: "\<And>r. \<exists>x. procs c r = Done x"
  have "run_step kind (\<lambda>_. True) p q c = None" for p q
    using d [of p] by (auto simp: run_step_def)
  then show ?thesis by (simp add: stuck_def)
qed

section \<open>All-gather over a list of blocks\<close>

definition lens_of :: "blob list \<Rightarrow> int list" where
  "lens_of bs = map (\<lambda>b. int (length b)) bs"

definition starts_of :: "blob list \<Rightarrow> int list" where
  "starts_of bs = map (\<lambda>i. int (length (concat (take i bs)))) [0..<length bs]"

lemma concat_take_gathered:
  "i \<le> length bs \<Longrightarrow> gathered (int (length bs)) (\<lambda>r. bs ! nat r) 0 i = concat (take i bs)"
proof -
  assume i: "i \<le> length bs"
  have "map (\<lambda>j. bs ! nat ((0 + int j) mod int (length bs))) [0..<i] = take i bs"
    using i by (intro nth_equalityI) auto
  then show ?thesis by (simp add: gathered_def)
qed

lemma block_lists:
  "block_lens (int (length bs)) (\<lambda>r. bs ! nat r) = lens_of bs"
  "block_starts (int (length bs)) (\<lambda>r. bs ! nat r) = starts_of bs"
  by (auto simp: block_lens_def lens_of_def block_starts_def starts_of_def upto_map_upt
      concat_take_gathered intro!: nth_equalityI)

definition allgather_start :: "net_kind \<Rightarrow> blob list \<Rightarrow> (nat \<Rightarrow> blob) \<Rightarrow> blob net" where
  "allgather_start kind bs out = start (\<lambda>r. if 0 \<le> r \<and> r < int (length bs)
     then Allgather (engine_Init kind r (int (length bs))) (bs ! nat r) (int (length (concat bs)))
       (starts_of bs) (lens_of bs) (out (nat r))
     else Done [])"

lemma quiet_start [simp]: "quiet e (start ps)"
  by (simp add: quiet_def start_def)

lemma allgather_run:
  assumes bs: "bs \<noteq> []" and len: "\<And>r. r < length bs \<Longrightarrow> length (concat bs) \<le> length (out r)"
    and small: "length (concat bs) < 2 ^ 31" and lib: "[] \<in> set bs \<Longrightarrow> lib 0"
  shows "\<exists>c'. reaches MPI lib (allgather_start MPI bs out) c' \<and> quiet ([] \<in> set bs) c' \<and>
    procs c' = (\<lambda>r. if 0 \<le> r \<and> r < int (length bs)
      then Done (concat bs @ drop (length (concat bs)) (out (nat r))) else Done [])"
proof -
  let ?n = "int (length bs)" and ?blk = "\<lambda>r. bs ! nat r"
  have all: "gathered ?n ?blk 0 (nat ?n) = concat bs" by (simp add: concat_take_gathered)
  have e: "[] \<in> set bs \<or> no_block_empty ?n ?blk"
    by (auto simp: no_block_empty_def in_set_conv_nth)
  have "\<exists>c'. reaches MPI lib (allgather_start MPI bs out) c' \<and> quiet ([] \<in> set bs) c' \<and>
    procs c' = (\<lambda>r. if 0 \<le> r \<and> r < ?n
      then Done (gathered ?n ?blk 0 (nat ?n) @ drop (length (gathered ?n ?blk 0 (nat ?n))) (out (nat r)))
      else procs (allgather_start MPI bs out) r)"
    using bs len e small lib
    by (intro Allgather_all [where E = "\<lambda>r. engine_Init MPI r ?n" and out = "\<lambda>r. out (nat r)"
          and input = "\<lambda>r. bs ! nat r"])
      (simp_all add: allgather_start_def concat_take_gathered block_lists start_def quiet_def Suc_le_eq)
  then show ?thesis unfolding all
    by (simp add: allgather_start_def start_def cong: if_cong)
qed

text \<open>C7. All-gather over MPI: when every machine runs \<open>Allgather\<close> with the block table of \<open>bs\<close>,
  its own block and an output buffer that is large enough, the blocks together fitting an \<open>int\<close>,
  every run ends after the same number of steps with no machine blocked or crashed; then every
  machine's buffer starts with all blocks in rank order and is otherwise unchanged. If no block
  is empty, no message is left in the network. Runs take the machines' steps in whatever order,
  and \<open>MPI_Wait\<close> on a send may return before the message is received (\<open>early\<close>); but no run
  needs that: from every state the rest of it can be done with every send waiting for its
  receiver, except those of the lengths \<open>eager\<close>. These may be none at all, unless a block is
  empty: \<open>SendRecv\<close> sends an empty block though its receiver does not receive it, so MPI has to
  complete an empty send by itself.\<close>

theorem allgather_collects:
  assumes "bs \<noteq> []" and "length bs < 2 ^ 30" and "length (concat bs) < 2 ^ 31"
    and "\<And>r. r < length bs \<Longrightarrow> length (concat bs) \<le> length (out r)" and "[] \<in> set bs \<Longrightarrow> eager 0"
  shows "\<exists>N f. (\<forall>early m c. steps MPI early (allgather_start MPI bs out) m c \<longrightarrow>
      m \<le> N \<and> steps MPI eager c (N - m) f) \<and>
    (\<forall>r < length bs. procs f (int r) = Done (concat bs @ drop (length (concat bs)) (out r))) \<and>
    ([] \<notin> set bs \<longrightarrow> (\<forall>sd. chan f sd = []))"
proof -
  obtain f N where f: "steps MPI eager (allgather_start MPI bs out) N f" "quiet ([] \<in> set bs) f"
    "procs f = (\<lambda>r. if 0 \<le> r \<and> r < int (length bs)
      then Done (concat bs @ drop (length (concat bs)) (out (nat r))) else Done [])"
    using allgather_run [of bs out eager] assms unfolding reaches_def by blast
  have "stuck MPI f" by (rule stuck_if_Done) (simp add: f(3))
  then show ?thesis
    using steps_random_descent [OF f(1)] f(2,3)
    by (intro exI [of _ N] exI [of _ f]) (auto simp: quiet_def)
qed

theorem allgather_collects_example:
  "\<exists>N f. (\<forall>early m c. steps MPI early (allgather_start MPI [[1, 2], [3], [4, 5]] (\<lambda>_. [0, 0, 0, 0, 0, 9])) m c \<longrightarrow>
      m \<le> N \<and> steps MPI (\<lambda>_. False) c (N - m) f) \<and>
    procs f 0 = Done [1, 2, 3, 4, 5, 9] \<and> procs f 1 = Done [1, 2, 3, 4, 5, 9] \<and>
    procs f 2 = Done [1, 2, 3, 4, 5, 9] \<and> (\<forall>sd. chan f sd = [])"
proof -
  obtain N f where f: "\<forall>early m c. steps MPI early (allgather_start MPI [[1, 2], [3], [4, 5]] (\<lambda>_. [0, 0, 0, 0, 0, 9])) m c
      \<longrightarrow> m \<le> N \<and> steps MPI (\<lambda>_. False) c (N - m) f"
    "\<forall>r < 3. procs f (int r) = Done [1, 2, 3, 4, 5, 9]" "\<forall>sd. chan f sd = []"
    using allgather_collects [of "[[1, 2], [3], [4, 5]]" "\<lambda>_. [0, 0, 0, 0, 0, 9]" "\<lambda>_. False"] by auto
  have "procs f 0 = Done [1, 2, 3, 4, 5, 9]" "procs f 1 = Done [1, 2, 3, 4, 5, 9]"
    "procs f 2 = Done [1, 2, 3, 4, 5, 9]"
    using f(2) [rule_format, of 0] f(2) [rule_format, of 1] f(2) [rule_format, of 2] by simp_all
  with f show ?thesis by blast
qed

text \<open>The order matters: \<open>SendRecv\<close> posts its send, receives, and waits then. Had it been \<open>SendTo\<close>
  followed by \<open>RecvFrom\<close>, two machines exchanging a byte would reach a state in which both
  wait for the other, unless MPI completes the sends early.\<close>

theorem blocking_order_deadlocks:
  fixes b :: blob
  defines "c \<equiv> start (\<lambda>r. if r = 0 \<or> r = 1
    then bindp (mpi_SendTo (1 - r) [7]) (\<lambda>_. mpi_RecvFrom (1 - r) 1) else Done [])"
  shows "\<exists>f. steps MPI (\<lambda>_. False) c 2 f \<and> (\<forall>p q. run_step MPI (\<lambda>_. False) p q f = None) \<and>
    (\<exists>p. \<forall>x. procs f p \<noteq> Done x)"
proof -
  let ?w = "\<lambda>r. WaitSent (1 - r) 1 (mpi_RecvFrom (1 - r) 1)"
  let ?f = "\<lparr>procs = (procs c)(0 := ?w 0, 1 := ?w 1), chan = (chan c)((0, 1) := [[7]], (1, 0) := [[7]])\<rparr>"
  have "steps MPI (\<lambda>_. False) c (Suc (Suc 0)) ?f"
    by (rule steps_Suc [of _ _ 0 0], simp add: c_def start_def run_step_def mpi_SendTo_def)
      (rule steps_Suc [of _ _ 1 0 _ _ 0, OF _ steps_0], simp add: c_def start_def run_step_def mpi_SendTo_def)
  moreover have "run_step MPI (\<lambda>_. False) p q ?f = None" for p q
    by (simp add: c_def start_def run_step_def)
  moreover have "procs ?f 0 \<noteq> Done x" for x by simp
  ultimately show ?thesis unfolding numeral_2_eq_2 by blast
qed

text \<open>And an empty \<open>SendRecv\<close>, which an empty block causes, ends only if MPI completes an empty
  send that nobody receives.\<close>

theorem empty_exchange_blocks:
  assumes "\<not> lib 0" and "procs c p = mpi_SendRecv d [] s 0" and "chan c (p, d) = []"
  shows "\<exists>c'. steps MPI lib c 2 c' \<and> procs c' p = WaitSent d 0 (Done []) \<and> chan c' (p, d) = [[]] \<and>
    run_step MPI lib p q c' = None"
proof -
  let ?c1 = "\<lparr>procs = (procs c)(p := Recv s 0 [] (\<lambda>x. WaitSent d 0 (Done x))), chan = (chan c)((p, d) := [[]])\<rparr>"
  let ?c2 = "?c1\<lparr>procs := (procs c)(p := WaitSent d 0 (Done []))\<rparr>"
  have "run_step MPI lib p 0 c = Some ?c1" using assms by (simp add: run_step_def mpi_SendRecv_def)
  moreover have "run_step MPI lib p 0 ?c1 = Some ?c2" by (simp add: run_step_def)
  ultimately have "steps MPI lib c (Suc (Suc 0)) ?c2" by (blast intro: steps.intros)
  moreover have "run_step MPI lib p q ?c2 = None" using assms(1) by (simp add: run_step_def)
  ultimately show ?thesis unfolding numeral_2_eq_2 by (intro exI [of _ ?c2]) simp
qed

section \<open>Two runs\<close>

primrec outcome :: "'a proc \<Rightarrow> 'a option" where
  "outcome (Done x) = Some x"
| "outcome (Crash e) = None"
| "outcome (Send d b p) = None"
| "outcome (Recv s n acc k) = None"
| "outcome (WaitSent d n p) = None"

lemma outcome_Some: "outcome p = Some x \<longleftrightarrow> p = Done x"
  by (cases p) simp_all

primrec run_sched :: "net_kind \<Rightarrow> (nat \<Rightarrow> bool) \<Rightarrow> (int \<times> int) list \<Rightarrow> 'a net \<Rightarrow> 'a net option" where
  "run_sched kind lib [] c = Some c"
| "run_sched kind lib (pq # pqs) c =
     (case run_step kind lib (fst pq) (snd pq) c of None \<Rightarrow> None | Some c' \<Rightarrow> run_sched kind lib pqs c')"

lemma run_sched_steps: "run_sched kind lib pqs c = Some c' \<Longrightarrow> steps kind lib c (length pqs) c'"
  by (induction pqs arbitrary: c) (auto intro: steps.intros split: option.splits)

lemma run_sched_outside:
  "run_sched kind lib pqs c = Some c' \<Longrightarrow> r \<notin> fst ` set pqs \<Longrightarrow> procs c' r = procs c r"
proof (induction pqs arbitrary: c)
  case Nil
  then show ?case by simp
next
  case (Cons pq pqs)
  then obtain c1 where c1: "run_step kind lib (fst pq) (snd pq) c = Some c1" "run_sched kind lib pqs c1 = Some c'"
    by (auto split: option.splits)
  have "procs c1 r = procs c r"
    using c1(1) Cons.prems(2)
    by (auto simp: run_step_def Let_def split: proc.splits if_splits list.splits)
  then show ?case using Cons.IH [OF c1(2)] Cons.prems(2) by simp
qed

text \<open>The engine without its buffer, which an all-gather does not use.\<close>

lemma Allgather_no_buffer:
  "Allgather E i a st ln out = Allgather (E\<lparr>engine_buffer := []\<rparr>) i a st ln out"
  by (simp add: Allgather_def Allgather_round_def)

definition small_engine :: "net_kind \<Rightarrow> int \<Rightarrow> int \<Rightarrow> engine" where
  "small_engine net r n = \<lparr>linkers = net, my_rank = r, num_of_machines = n,
     the_bruck_map = BruckMap_Construct r n, the_halving_map = RecursiveHalvingMap_Construct r n,
     engine_buffer = []\<rparr>"

lemma allgather_start_small: "allgather_start kind bs out = start (\<lambda>r. if 0 \<le> r \<and> r < int (length bs)
     then Allgather (small_engine kind r (int (length bs))) (bs ! nat r) (int (length (concat bs)))
       (starts_of bs) (lens_of bs) (out (nat r))
     else Done [])"
proof -
  have "Allgather (engine_Init kind r n) i a st ln o1 = Allgather (small_engine kind r n) i a st ln o1"
    for r n i a st ln o1
    by (subst Allgather_no_buffer) (simp add: engine_Init_def small_engine_def)
  note eq = this
  show ?thesis unfolding allgather_start_def eq ..
qed

text \<open>\<open>ZMQNetWrapper::RecvFrom\<close> ignores the rank it is asked for, so the same all-gather can
  go wrong over ZeroMQ without any error: three machines with one byte each can all run to the
  end while machine 0 ends with the blocks of machines 1 and 2 swapped, because machine 2's
  message of the second round reached it before machine 1's of the first.\<close>

theorem zmq_allgather_mixes_ranks:
  "\<exists>n f. steps ZMQ (\<lambda>_. False) (allgather_start ZMQ [[10], [11], [12]] (\<lambda>_. [0, 0, 0])) n f \<and> stuck ZMQ f \<and>
    procs f 0 = Done [10, 12, 11] \<and> procs f 1 = Done [10, 11, 12] \<and> procs f 2 = Done [10, 11, 12]"
proof -
  let ?c = "allgather_start ZMQ [[10], [11], [12]] (\<lambda>_. [0, 0, 0])"
  let ?s = "[(0, 0), (2, 0), (2, 0), (2, 0), (2, 0), (0, 2), (0, 0), (0, 0), (1, 0), (1, 2), (1, 0),
    (1, 0), (1, 0), (1, 0), (0, 1), (0, 0), (2, 1), (2, 0)] :: (int \<times> int) list"
  have "map_option (\<lambda>f. map (\<lambda>r. outcome (procs f r)) [0, 1, 2]) (run_sched ZMQ (\<lambda>_. False) ?s ?c)
      = Some [Some [10, 12, 11], Some [10, 11, 12], Some [10, 11, 12]]"
    unfolding allgather_start_small by code_simp
  then obtain f where f: "run_sched ZMQ (\<lambda>_. False) ?s ?c = Some f" "procs f 0 = Done [10, 12, 11]"
    "procs f 1 = Done [10, 11, 12]" "procs f 2 = Done [10, 11, 12]"
    by (cases "run_sched ZMQ (\<lambda>_. False) ?s ?c") (auto simp: outcome_Some)
  have "\<exists>x. procs f r = Done x" for r
    using run_sched_outside [OF f(1), of r] f(2-4)
    by (cases "r = 0 \<or> r = 1 \<or> r = 2") (auto simp: allgather_start_def start_def)
  then have "stuck ZMQ f" by (rule stuck_if_Done)
  then show ?thesis using run_sched_steps [OF f(1)] f(2-4) by blast
qed

end
