(* ===== verification/Reduce.thy ===== *)
theory Reduce
  imports Gather
begin

text \<open>
  Recursive halving, block by block: which machines' data the block of a machine combines before
  each round. The reduce function need not be associative or commutative: a block ends as some
  bracketing of the blocks of all machines, each of them exactly once.
\<close>

section \<open>Combinations\<close>

text \<open>\<open>combined f X S v\<close>: \<open>v\<close> is made with \<open>f\<close> from the values \<open>X r\<close> of the machines \<open>r\<close> in
  \<open>S\<close>, each used once.\<close>

inductive combined :: "('a \<Rightarrow> 'a \<Rightarrow> 'a) \<Rightarrow> (int \<Rightarrow> 'a) \<Rightarrow> int set \<Rightarrow> 'a \<Rightarrow> bool" for f X where
  combined_one: "combined f X {r} (X r)"
| combined_two: "combined f X A u \<Longrightarrow> combined f X B v \<Longrightarrow> A \<inter> B = {} \<Longrightarrow> combined f X (A \<union> B) (f u v)"

lemma combined_finite: "combined f X S v \<Longrightarrow> finite S \<and> S \<noteq> {}"
  by (induction rule: combined.induct) simp_all

text \<open>If the reduce function adds, the bracketing does not matter.\<close>

lemma combined_sum:
  assumes "combined f X S v" and "\<And>r. r \<in> S \<Longrightarrow> P (X r)"
    and "\<And>a b. P a \<Longrightarrow> P b \<Longrightarrow> P (f a b) \<and> h (f a b) = h a + (h b :: 'b :: comm_monoid_add)"
  shows "P v \<and> h v = (\<Sum>r \<in> S. h (X r))"
  using assms(1,2)
proof (induction rule: combined.induct)
  case (combined_one r)
  then show ?case by simp
next
  case (combined_two A u B v)
  then show ?case
    using assms(3) combined_finite [OF combined_two.hyps(1)] combined_finite [OF combined_two.hyps(2)]
    by (simp add: sum.union_disjoint)
qed

section \<open>The blocks before a round\<close>

definition leads_two :: "int \<Rightarrow> int \<Rightarrow> bool" where
  "leads_two n r \<longleftrightarrow> singles n \<le> r \<and> \<not> is_other (singles n) r"

text \<open>The machine \<open>r\<close> exchanges with in round \<open>i\<close>, and the blocks \<open>a, \<dots>, b - 1\<close> it receives.\<close>

definition peer :: "int \<Rightarrow> nat \<Rightarrow> int \<Rightarrow> int" where
  "peer n i r = lead (singles n) (partner (group_of (singles n) r) (halving_dist n i))"

definition win_from :: "int \<Rightarrow> int \<Rightarrow> int \<Rightarrow> int" where
  "win_from n d r = lead (singles n) (group_of (singles n) r div d * d)"

definition win_to :: "int \<Rightarrow> int \<Rightarrow> int \<Rightarrow> int" where
  "win_to n d r = lead (singles n) (group_of (singles n) r div d * d + d)"

fun rs_blk :: "int \<Rightarrow> (blob \<Rightarrow> blob \<Rightarrow> blob) \<Rightarrow> (int \<Rightarrow> int \<Rightarrow> blob) \<Rightarrow> nat \<Rightarrow> int \<Rightarrow> int \<Rightarrow> blob" where
  "rs_blk n red X 0 r j = (if leads_two n r then red (X (r + 1) j) (X r j) else X r j)"
| "rs_blk n red X (Suc i) r j =
     (if win_from n (halving_dist n i) r \<le> j \<and> j < win_to n (halving_dist n i) r
      then red (rs_blk n red X i (peer n i r) j) (rs_blk n red X i r j) else rs_blk n red X i r j)"

abbreviation rounds :: "int \<Rightarrow> nat" where "rounds n \<equiv> halvings n 0 - 1"

definition dist :: "int \<Rightarrow> nat \<Rightarrow> int" where "dist n i = 2 ^ (rounds n - i)"

lemma halving_dist_dist: "i < rounds n \<Longrightarrow> halving_dist n i = dist n (Suc i) \<and> dist n i = 2 * halving_dist n i"
proof -
  assume "i < rounds n"
  then have "rounds n - i = Suc (rounds n - 1 - i)" by simp
  then show ?thesis by (simp add: halving_dist_def dist_def)
qed

lemma group_less:
  assumes "1 \<le> n" "0 \<le> r" "r < n"
  shows "0 \<le> group_of (singles n) r" "group_of (singles n) r < 2 ^ rounds n"
  using halving_fields(10,11) [OF assms] by simp_all

definition contributors :: "int \<Rightarrow> int \<Rightarrow> int \<Rightarrow> int set" where
  "contributors n D r = {s. 0 \<le> s \<and> s < n \<and> group_of (singles n) s mod D = group_of (singles n) r mod D}"

lemma group_members:
  assumes "0 \<le> q" "\<not> is_other q r" "q \<le> r"
  shows "group_of q s = group_of q r \<longleftrightarrow> s = r \<or> s = r + 1"
proof -
  have half: "x div 2 = y div 2 \<longleftrightarrow> x = y \<or> x = y + 1" if "y mod 2 = 0" for x y :: int
    using that by presburger
  have pos: "0 \<le> x div 2" if "0 \<le> x" for x :: int using that by simp
  have "(r - q) mod 2 = 0" using assms(2,3) unfolding is_other_def by presburger
  note h = half [OF this, of "s - q"]
  show ?thesis using assms(3) h pos [of "r - q"] by (auto simp: group_of_def)
qed

lemma group_single:
  assumes "0 \<le> q" "r < q"
  shows "group_of q s = group_of q r \<longleftrightarrow> s = r"
proof -
  have "0 \<le> x div 2" if "0 \<le> x" for x :: int using that by simp
  from this [of "s - q"] show ?thesis using assms by (auto simp: group_of_def)
qed

lemma leader_has_partner:
  assumes "1 \<le> n" "r < n" "leads_two n r"
  shows "r + 1 < n" "is_other (singles n) (r + 1)"
proof -
  have gen: "r + 1 < N \<and> is_other q (r + 1)" if "N = 2 * m - q" "r < N" "q \<le> r" "\<not> is_other q r" for N q m :: int
    using that unfolding is_other_def by presburger
  have "n = 2 * 2 ^ rounds n - singles n" by (simp add: singles_def)
  from gen [OF this assms(2)] show "r + 1 < n" "is_other (singles n) (r + 1)"
    using assms(3) by (simp_all add: leads_two_def)
qed

lemma contributors_first:
  assumes "1 \<le> n" "0 \<le> r" "r < n" "\<not> is_other (singles n) r"
  shows "contributors n (dist n 0) r = (if leads_two n r then {r + 1} \<union> {r} else {r})"
proof -
  note q = group_shape(1) [OF assms(1)]
  have "group_of (singles n) s mod dist n 0 = group_of (singles n) s" if "0 \<le> s" "s < n" for s
    using group_less [OF assms(1) that] by (simp add: dist_def)
  then have C: "contributors n (dist n 0) r = {s. 0 \<le> s \<and> s < n \<and> group_of (singles n) s = group_of (singles n) r}"
    using assms(2,3) by (auto simp: contributors_def)
  show ?thesis
  proof (cases "leads_two n r")
    case True
    then show ?thesis
      using C group_members [OF q assms(4)] leader_has_partner [OF assms(1,3) True] assms(2)
      by (auto simp: leads_two_def)
  next
    case False
    then have "r < singles n" using assms(4) by (simp add: leads_two_def)
    then show ?thesis using C group_single [OF q] False assms(2,3) by auto
  qed
qed

lemma window_shrinks:
  fixes c d :: int
  assumes "0 < d"
  shows "c div (2 * d) * (2 * d) \<le> c div d * d" "c div d * d + d \<le> c div (2 * d) * (2 * d) + 2 * d"
proof -
  let ?m = "c div d"
  have e: "c div (2 * d) * (2 * d) = ?m div 2 * 2 * d" using assms by (simp add: zdiv_zmult2_eq mult.commute [of 2 d])
  have "?m div 2 * 2 \<le> ?m" "?m + 1 \<le> ?m div 2 * 2 + 2" by linarith+
  then have "?m div 2 * 2 * d \<le> ?m * d" "(?m + 1) * d \<le> (?m div 2 * 2 + 2) * d"
    using assms by (simp_all add: mult_right_mono)
  then show "c div (2 * d) * (2 * d) \<le> ?m * d" "?m * d + d \<le> c div (2 * d) * (2 * d) + 2 * d"
    unfolding e by (simp_all add: distrib_right)
qed

lemma mod_double: "0 < d \<Longrightarrow> x mod (2 * d) = d * (x div d mod 2) + x mod d" for x d :: int
  using zmod_zmult2_eq [of 2 x d] by (simp add: mult.commute)

lemma mod_split:
  assumes "0 < d" "0 \<le> c"
  shows "x mod d = c mod d \<longleftrightarrow> x mod (2 * d) = c mod (2 * d) \<or> x mod (2 * d) = partner c d mod (2 * d)"
    "c mod (2 * d) \<noteq> partner c d mod (2 * d)"
proof -
  note P = partner_props [OF assms(2,1)]
  let ?p = "c div d mod 2"
  have pp: "partner c d mod (2 * d) = d * (1 - ?p) + c mod d"
    unfolding mod_double [OF assms(1), of "partner c d"] P(3,4)
    using parity_flip(1) [of "c div d"] by (auto simp: direction_def)
  have two: "y mod 2 = 0 \<or> y mod 2 = 1" for y :: int by presburger
  show "c mod (2 * d) \<noteq> partner c d mod (2 * d)"
    unfolding pp mod_double [OF assms(1), of c] using two [of "c div d"] assms(1) by auto
  have in_d: "x mod (2 * d) mod d = x mod d" "c mod (2 * d) mod d = c mod d" "partner c d mod (2 * d) mod d = c mod d"
    using P(4) by (simp_all add: mod_mod_cancel)
  show "x mod d = c mod d \<longleftrightarrow> x mod (2 * d) = c mod (2 * d) \<or> x mod (2 * d) = partner c d mod (2 * d)"
  proof
    assume "x mod d = c mod d"
    then show "x mod (2 * d) = c mod (2 * d) \<or> x mod (2 * d) = partner c d mod (2 * d)"
      unfolding pp mod_double [OF assms(1), of x] mod_double [OF assms(1), of c]
      using two [of "x div d"] two [of "c div d"] by auto
  next
    assume "x mod (2 * d) = c mod (2 * d) \<or> x mod (2 * d) = partner c d mod (2 * d)"
    then show "x mod d = c mod d" using in_d by metis
  qed
qed

lemma halving_dist_pos [simp]: "0 < halving_dist n i"
  by (simp add: halving_dist_def)

lemma peer_props:
  assumes "1 \<le> n" "0 \<le> r" "r < n" "i < rounds n"
  shows "0 \<le> peer n i r" "peer n i r < n" "\<not> is_other (singles n) (peer n i r)"
    "group_of (singles n) (peer n i r) = partner (group_of (singles n) r) (halving_dist n i)"
    "\<not> is_other (singles n) r \<Longrightarrow> peer n i (peer n i r) = r"
proof -
  let ?q = "singles n" and ?c = "group_of (singles n) r" and ?d = "halving_dist n i"
  note c = group_less [OF assms(1-3)] and G = group_shape [OF assms(1)]
  have p: "0 \<le> partner ?c ?d" "partner ?c ?d < 2 ^ rounds n"
    using partner_props(2) [OF c(1), of ?d] partner_bound [OF c assms(4)] by (simp_all add: halving_dist_def)
  show "0 \<le> peer n i r" "peer n i r < n" "\<not> is_other ?q (peer n i r)"
    using G(3,5) p by (simp_all add: peer_def)
  show g: "group_of ?q (peer n i r) = partner ?c ?d" using G(1) by (simp add: peer_def)
  show "peer n i (peer n i r) = r" if "\<not> is_other ?q r"
    using that partner_props(1) [OF c(1), of ?d] unfolding peer_def [of n i "peer n i r"] g by simp
qed

lemma contributors_round:
  assumes "1 \<le> n" "0 \<le> r" "r < n" "i < rounds n"
  shows "contributors n (dist n (Suc i)) r = contributors n (dist n i) (peer n i r) \<union> contributors n (dist n i) r"
    "contributors n (dist n i) (peer n i r) \<inter> contributors n (dist n i) r = {}"
proof -
  note c = group_less [OF assms(1-3)] and d = halving_dist_dist [OF assms(4)]
  note M = mod_split [OF halving_dist_pos [of n i] c(1), folded peer_props(4) [OF assms]]
  show "contributors n (dist n (Suc i)) r = contributors n (dist n i) (peer n i r) \<union> contributors n (dist n i) r"
    unfolding contributors_def d [THEN conjunct1, symmetric] d [THEN conjunct2] M(1) by blast
  show "contributors n (dist n i) (peer n i r) \<inter> contributors n (dist n i) r = {}"
    unfolding contributors_def d [THEN conjunct2] using M(2) by auto
qed

lemma window_round:
  assumes "1 \<le> n" "0 \<le> r" "r < n" "i < rounds n"
  shows "win_from n (dist n i) r \<le> win_from n (halving_dist n i) r" "win_to n (halving_dist n i) r \<le> win_to n (dist n i) r"
    "win_from n (dist n i) (peer n i r) = win_from n (dist n i) r" "win_to n (dist n i) (peer n i r) = win_to n (dist n i) r"
proof -
  note c = group_less [OF assms(1-3)] and d = halving_dist_dist [OF assms(4), THEN conjunct2]
  note w = window_shrinks [OF halving_dist_pos [of n i], of "group_of (singles n) r"]
  show "win_from n (dist n i) r \<le> win_from n (halving_dist n i) r" "win_to n (halving_dist n i) r \<le> win_to n (dist n i) r"
    unfolding win_from_def win_to_def d using w by (simp_all add: lead_mono)
  have "partner (group_of (singles n) r) (halving_dist n i) div dist n i = group_of (singles n) r div dist n i"
    unfolding d using partner_props(5) [OF c(1), of "halving_dist n i"] by simp
  then show "win_from n (dist n i) (peer n i r) = win_from n (dist n i) r" "win_to n (dist n i) (peer n i r) = win_to n (dist n i) r"
    unfolding win_from_def win_to_def peer_props(4) [OF assms] by simp_all
qed

lemma rs_blk_combined:
  assumes "1 \<le> n" "i \<le> rounds n" "0 \<le> r" "r < n" "\<not> is_other (singles n) r"
    and "win_from n (dist n i) r \<le> j" "j < win_to n (dist n i) r"
  shows "combined red (\<lambda>s. X s j) (contributors n (dist n i) r) (rs_blk n red X i r j)"
  using assms(2-)
proof (induction i arbitrary: r)
  case 0
  show ?case
    unfolding contributors_first [OF assms(1) 0(2,3,4)]
    by (auto intro: combined_one combined_two [OF combined_one combined_one, of "r + 1" r, simplified])
next
  case (Suc i)
  then have i: "i < rounds n" "i \<le> rounds n" by simp_all
  note p = peer_props [OF assms(1) Suc.prems(2,3) i(1)]
  note w = window_round [OF assms(1) Suc.prems(2,3) i(1)]
  have e: "halving_dist n i = dist n (Suc i)" using halving_dist_dist [OF i(1)] by simp
  have j: "win_from n (dist n i) r \<le> j" "j < win_to n (dist n i) r"
    using w(1,2) Suc.prems(5,6) unfolding e by linarith+
  have "combined red (\<lambda>s. X s j) (contributors n (dist n i) r) (rs_blk n red X i r j)"
    using Suc.IH [OF i(2) Suc.prems(2-4) j] .
  moreover have "combined red (\<lambda>s. X s j) (contributors n (dist n i) (peer n i r)) (rs_blk n red X i (peer n i r) j)"
    using Suc.IH [OF i(2) p(1-3)] j w(3,4) by simp
  ultimately show ?case
    using contributors_round [OF assms(1) Suc.prems(2,3) i(1)] Suc.prems(5,6)
    by (simp add: e combined_two)
qed

text \<open>After the last round the blocks of a machine's group combine the data of all machines.\<close>

lemma rs_blk_final:
  assumes "1 \<le> n" "0 \<le> r" "r < n"
  defines "l \<equiv> lead (singles n) (group_of (singles n) r)"
  shows "combined red (\<lambda>s. X s r) {0..<n} (rs_blk n red X (rounds n) l r)"
proof -
  let ?q = "singles n" and ?c = "group_of (singles n) r"
  note c = group_less [OF assms(1-3)] and G = group_shape [OF assms(1)]
  have D: "dist n (rounds n) = 1" by (simp add: dist_def)
  have l: "0 \<le> l" "l < n" "\<not> is_other ?q l" "group_of ?q l = ?c" using G c by (simp_all add: l_def)
  have "win_from n 1 l \<le> r" "r < win_to n 1 l"
    using group_of_bounds [OF G(1), of r] l(4) by (simp_all add: win_from_def win_to_def)
  then have "combined red (\<lambda>s. X s r) (contributors n 1 l) (rs_blk n red X (rounds n) l r)"
    using rs_blk_combined [OF assms(1) order_refl l(1-3), of r red X] unfolding D by simp
  moreover have "contributors n 1 l = {0..<n}" by (auto simp: contributors_def)
  ultimately show ?thesis by simp
qed

section \<open>Blocks in a buffer\<close>

definition blocks :: "(int \<Rightarrow> blob) \<Rightarrow> int \<Rightarrow> int \<Rightarrow> blob" where
  "blocks B a b = concat (map B [a..b - 1])"

lemma upto_halves: "a \<le> b \<Longrightarrow> b \<le> c \<Longrightarrow> [a..c - 1] = [a..b - 1] @ [b..c - 1]" for a b c :: int
  using upto_split1 [of a b "c - 1"] by (cases "b = c") simp_all

lemma blocks_split: "a \<le> b \<Longrightarrow> b \<le> c \<Longrightarrow> blocks B a c = blocks B a b @ blocks B b c"
  unfolding blocks_def by (simp add: upto_halves [of a b c])

lemma blocks_single: "blocks B a (a + 1) = B a"
  by (simp add: blocks_def)

lemma blocks_cong: "(\<And>j. a \<le> j \<Longrightarrow> j < b \<Longrightarrow> B j = C j) \<Longrightarrow> blocks B a b = blocks C a b"
  unfolding blocks_def by (intro arg_cong [where f = concat] map_cong) simp_all

lemma blocks_gathered: "0 \<le> j \<Longrightarrow> j \<le> n \<Longrightarrow> gathered n B 0 (nat j) = blocks B 0 j"
proof -
  assume j: "0 \<le> j" "j \<le> n"
  have up: "[0..j - 1] = map int [0..<nat j]" using upto_map_upt [of "nat j"] j(1) by simp
  have "B (int i mod n) = B (int i)" if "i < nat j" for i using that j by simp
  then have "concat (map (\<lambda>i. B (int i mod n)) [0..<nat j]) = concat (map (\<lambda>i. B (int i)) [0..<nat j])"
    by (intro arg_cong [where f = concat] map_cong) simp_all
  then show ?thesis unfolding gathered_def blocks_def up by (simp only: map_map comp_def add_0)
qed

text \<open>The block table only depends on the lengths.\<close>

definition sized :: "int \<Rightarrow> (int \<Rightarrow> nat) \<Rightarrow> (int \<Rightarrow> blob) \<Rightarrow> bool" where
  "sized n L B \<longleftrightarrow> (\<forall>j. 0 \<le> j \<and> j < n \<longrightarrow> length (B j) = L j)"

definition total :: "(int \<Rightarrow> nat) \<Rightarrow> int \<Rightarrow> int \<Rightarrow> nat" where
  "total L a b = sum_list (map L [a..b - 1])"

definition len_table :: "int \<Rightarrow> (int \<Rightarrow> nat) \<Rightarrow> int list" where
  "len_table n L = map (\<lambda>j. int (L j)) [0..n - 1]"

definition start_table :: "int \<Rightarrow> (int \<Rightarrow> nat) \<Rightarrow> int list" where
  "start_table n L = map (\<lambda>j. int (total L 0 j)) [0..n - 1]"

lemma total_split: "a \<le> b \<Longrightarrow> b \<le> c \<Longrightarrow> total L a c = total L a b + total L b c"
  unfolding total_def by (simp add: upto_halves [of a b c])

lemma total_mono: "0 \<le> a \<Longrightarrow> a \<le> b \<Longrightarrow> b \<le> c \<Longrightarrow> total L a b \<le> total L 0 c"
  using total_split [of 0 a c L] total_split [of a b c L] by simp

lemma length_blocks: "sized n L B \<Longrightarrow> 0 \<le> a \<Longrightarrow> b \<le> n \<Longrightarrow> length (blocks B a b) = total L a b"
  unfolding sized_def blocks_def total_def length_concat map_map
  by (intro arg_cong [where f = sum_list] map_cong) auto

lemma tables:
  assumes "sized n L B"
  shows "block_lens n B = len_table n L" "block_starts n B = start_table n L"
proof -
  show "block_lens n B = len_table n L" using assms by (simp add: block_lens_def len_table_def sized_def)
  have "length (gathered n B 0 (nat j)) = total L 0 j" if "j \<in> set [0..n - 1]" for j
    using that blocks_gathered [of j n B] length_blocks [OF assms, of 0 j] by simp
  then show "block_starts n B = start_table n L" by (simp add: block_starts_def start_table_def)
qed

lemma len_table_at: "0 \<le> j \<Longrightarrow> j < n \<Longrightarrow> vec_at (len_table n L) j = Inr (int (L j))"
  by (simp add: len_table_def vec_at_def in_range_def nth_upto)

lemma start_table_at: "0 \<le> j \<Longrightarrow> j < n \<Longrightarrow> vec_at (start_table n L) j = Inr (int (total L 0 j))"
  by (simp add: start_table_def vec_at_def in_range_def nth_upto)

lemma block_sum_window:
  assumes "0 \<le> a" "b \<le> n" and "total L a b < 2 ^ 31"
  shows "block_sum (len_table n L) (map (\<lambda>j. a + j) [0..(b - a) - 1]) = Inr (int (total L a b))"
proof -
  have map_up: "map (\<lambda>j. a + j) [0..(b - a) - 1] = [a..b - 1]"
    by (intro nth_equalityI) (auto simp: nth_upto)
  have "fold_res (\<lambda>s j. bind_res (vec_at (len_table n L) j) (\<lambda>l. int_result (s + l))) (int 0) [a..b - 1]
      = Inr (int (0 + sum_list (map L [a..b - 1])))"
    using assms by (intro fold_res_block_sum len_table_at) (auto simp: total_def)
  then show ?thesis unfolding map_up block_sum_def total_def by simp
qed

lemma read_window:
  assumes "sized n L B" "0 \<le> a" "a \<le> b" "b \<le> n"
  shows "buf_read (blocks B 0 n) (total L 0 a) (total L a b) = Inr (blocks B a b)"
proof -
  have "blocks B 0 n = blocks B 0 a @ blocks B a b @ blocks B b n"
    using assms blocks_split [of 0 a n B] blocks_split [of a b n B] by simp
  then show ?thesis
    using length_blocks [OF assms(1), of 0 a] length_blocks [OF assms(1), of a b] assms by (simp add: buf_read_def)
qed

lemma write_window:
  assumes B: "sized n L B" and C: "sized n L C" and ab: "0 \<le> a" "a \<le> b" "b \<le> n"
  shows "buf_write (blocks B 0 n) (total L 0 a) (blocks C a b)
    = Inr (blocks (\<lambda>j. if a \<le> j \<and> j < b then C j else B j) 0 n)"
proof -
  let ?D = "\<lambda>j. if a \<le> j \<and> j < b then C j else B j"
  have e: "blocks E 0 n = blocks E 0 a @ blocks E a b @ blocks E b n" for E
    using ab blocks_split [of 0 a n E] blocks_split [of a b n E] by simp
  have "blocks ?D 0 a = blocks B 0 a" "blocks ?D a b = blocks C a b" "blocks ?D b n = blocks B b n"
    by (rule blocks_cong; simp)+
  moreover have "length (blocks B 0 a) = total L 0 a" "length (blocks B a b) = total L a b"
    "length (blocks C a b) = total L a b"
    using length_blocks [OF B] length_blocks [OF C] ab by simp_all
  ultimately show ?thesis unfolding e [of ?D] e [of B] by (simp add: buf_write_def)
qed

text \<open>What the caller's reduce function has to be: element by element, for elements of \<open>w\<close> bytes.\<close>

definition elementwise :: "nat \<Rightarrow> (blob \<Rightarrow> blob \<Rightarrow> blob) \<Rightarrow> bool" where
  "elementwise w red \<longleftrightarrow> (\<forall>a b. length a = length b \<longrightarrow> length (red a b) = length b) \<and> red [] [] = [] \<and>
     (\<forall>a b a' b'. length a = length b \<and> length a' = length b' \<and> w dvd length a \<longrightarrow>
        red (a @ a') (b @ b') = red a b @ red a' b')"

lemma dvd_sum: "(\<And>x. x \<in> set xs \<Longrightarrow> w dvd L x) \<Longrightarrow> w dvd sum_list (map L xs)" for L :: "int \<Rightarrow> nat"
  by (induction xs) simp_all

lemma red_blocks:
  assumes "elementwise w red" "sized n L B" "sized n L C" "\<forall>j. 0 \<le> j \<and> j < n \<longrightarrow> w dvd L j"
    and "0 \<le> a" "a \<le> b" "b \<le> n"
  shows "red (blocks B a b) (blocks C a b) = blocks (\<lambda>j. red (B j) (C j)) a b"
proof -
  have "a + int m \<le> n \<Longrightarrow> red (blocks B a (a + int m)) (blocks C a (a + int m)) = blocks (\<lambda>j. red (B j) (C j)) a (a + int m)" for m
  proof (induction m)
    case 0
    then show ?case using assms(1) by (simp add: blocks_def elementwise_def)
  next
    case (Suc m)
    let ?e = "a + int m"
    have s: "blocks E a (a + int (Suc m)) = blocks E a ?e @ E ?e" for E
      using blocks_split [of a ?e "a + int (Suc m)" E] blocks_single [of E ?e] by (simp add: ac_simps)
    have len: "length (blocks B a ?e) = total L a ?e" "length (blocks C a ?e) = total L a ?e"
      using length_blocks [OF assms(2)] length_blocks [OF assms(3)] assms(5) Suc.prems by simp_all
    have "w dvd total L a ?e"
      unfolding total_def using assms(4,5) Suc.prems by (intro dvd_sum) auto
    then have "red (blocks B a ?e @ B ?e) (blocks C a ?e @ C ?e) = red (blocks B a ?e) (blocks C a ?e) @ red (B ?e) (C ?e)"
      using assms(1-3,5) Suc.prems len by (simp add: elementwise_def sized_def)
    then show ?case using Suc unfolding s by simp
  qed
  from this [of "nat (b - a)"] assms(6,7) show ?thesis by simp
qed

end
