(* ===== verification/Scatter.thy ===== *)
theory Scatter
  imports Reduce
begin

text \<open>
  \<open>ReduceScatter\<close> and \<open>Allreduce\<close> run by all machines over MPI: every run ends, and every
  machine has its block (all blocks, after \<open>Allreduce\<close>) of the data of all machines combined.
\<close>

section \<open>One round\<close>

definition reduce_ok ::
  "int \<Rightarrow> nat \<Rightarrow> (blob \<Rightarrow> blob \<Rightarrow> blob) \<Rightarrow> (int \<Rightarrow> nat) \<Rightarrow> (int \<Rightarrow> int \<Rightarrow> blob) \<Rightarrow> bool" where
  "reduce_ok n w red L X \<longleftrightarrow> 1 \<le> n \<and> elementwise w red \<and> (\<forall>j. 0 \<le> j \<and> j < n \<longrightarrow> w dvd L j) \<and>
     (\<forall>r. 0 \<le> r \<and> r < n \<longrightarrow> sized n L (X r)) \<and> 0 < total L 0 n \<and> total L 0 n < 2 ^ 31"

lemma rs_sized:
  assumes R: "reduce_ok n w red L X" and "i \<le> rounds n" "0 \<le> r" "r < n" "\<not> is_other (singles n) r"
  shows "sized n L (rs_blk n red X i r)"
  using assms(2-)
proof (induction i arbitrary: r)
  case 0
  have "leads_two n r \<Longrightarrow> r + 1 < n" using leader_has_partner(1) [of n r] R 0 by (simp add: reduce_ok_def)
  then show ?case using R 0 by (auto simp: sized_def reduce_ok_def elementwise_def)
next
  case (Suc i)
  have n: "1 \<le> n" using R by (simp add: reduce_ok_def)
  have i: "i < rounds n" "i \<le> rounds n" using Suc.prems(1) by simp_all
  note p = peer_props [OF n Suc.prems(2,3) i(1)]
  show ?case
    using Suc.IH [OF i(2) Suc.prems(2-4)] Suc.IH [OF i(2) p(1-3)] R
    by (auto simp: sized_def reduce_ok_def elementwise_def)
qed

lemma window_bounds:
  assumes "1 \<le> n" "0 \<le> r" "r < n" "i < rounds n"
  shows "0 \<le> win_from n (halving_dist n i) r" "win_from n (halving_dist n i) r < win_to n (halving_dist n i) r"
    "win_to n (halving_dist n i) r \<le> n"
proof -
  note c = group_less [OF assms(1-3)] and G = group_shape [OF assms(1)]
  note w = window_in_range [OF c assms(4)]
  have d: "halving_dist n i = 2 ^ (rounds n - 1 - i)" by (simp add: halving_dist_def)
  show "0 \<le> win_from n (halving_dist n i) r" using w(1) G(3) by (simp add: win_from_def d)
  show "win_from n (halving_dist n i) r < win_to n (halving_dist n i) r"
    unfolding win_from_def win_to_def by (rule lead_strict_mono) simp
  show "win_to n (halving_dist n i) r \<le> n"
    unfolding win_to_def d using lead_mono [OF w(2), of "singles n"] G(4) by simp
qed

definition rs_cont ::
  "int \<Rightarrow> (int \<Rightarrow> nat) \<Rightarrow> (blob \<Rightarrow> blob \<Rightarrow> blob) \<Rightarrow> blob \<Rightarrow> blob \<Rightarrow> int \<Rightarrow> int \<Rightarrow> blob \<Rightarrow> (blob \<times> blob) proc" where
  "rs_cont n L red input output a b received =
     lift (buf_write output 0 received) (\<lambda>output'.
     lift (buf_read input (total L 0 a) (total L a b)) (\<lambda>old.
     lift (buf_write input (total L 0 a) (red received old)) (\<lambda>input'.
     Done (input', output'))))"

lemma ReduceScatter_round_exchange:
  assumes E: "engine_ok E r n" and R: "reduce_ok n w red L X"
    and r: "0 \<le> r" "r < n" "\<not> is_other (singles n) r" and i: "i < rounds n"
    and out: "total L 0 n \<le> length out"
  defines "d \<equiv> halving_dist n i" and "t \<equiv> peer n i r" and "B \<equiv> rs_blk n red X i"
  shows "ReduceScatter_round E (start_table n L) (len_table n L) red (blocks (B r) 0 n, out) i =
      Send t (blocks (B r) (win_from n d t) (win_to n d t))
       (Recv t (length (blocks (B t) (win_from n d r) (win_to n d r))) []
         (\<lambda>x. WaitSent t (length (blocks (B r) (win_from n d t) (win_to n d t)))
           (rs_cont n L red (blocks (B r) 0 n) out (win_from n d r) (win_to n d r) x)))"
    and "rs_cont n L red (blocks (B r) 0 n) out (win_from n d r) (win_to n d r)
        (blocks (B t) (win_from n d r) (win_to n d r))
      = Done (blocks (rs_blk n red X (Suc i) r) 0 n,
          blocks (B t) (win_from n d r) (win_to n d r) @ drop (total L (win_from n d r) (win_to n d r)) out)"
proof -
  let ?a = "win_from n d r" and ?b = "win_to n d r" and ?a' = "win_from n d t" and ?b' = "win_to n d t"
  have n: "1 \<le> n" using R by (simp add: reduce_ok_def)
  note p = peer_props [OF n r(1,2) i, folded t_def]
  note F = halving_fields [OF n r(1,2)]
  note wr = window_bounds [OF n r(1,2) i, folded d_def] and wt = window_bounds [OF n p(1,2) i, folded d_def]
  have m: "the_halving_map E = RecursiveHalvingMap_Construct r n" "linkers E = MPI"
    using E by (simp_all add: engine_ok_def)
  have gt: "group_of (singles n) t = partner (group_of (singles n) r) d" using p(4) by (simp add: d_def)
  have f: "vec_at (ranks (the_halving_map E)) (int i) = Inr t"
    "vec_at (send_block_start (the_halving_map E)) (int i) = Inr ?a'"
    "vec_at (recv_block_start (the_halving_map E)) (int i) = Inr ?a"
    "vec_at (send_block_len (the_halving_map E)) (int i) = Inr (?b' - ?a')"
    "vec_at (recv_block_len (the_halving_map E)) (int i) = Inr (?b - ?a)"
    unfolding m win_from_def win_to_def gt using F(5-9) r(3) i
    by (simp_all add: t_def peer_def d_def)
  have B: "sized n L (B r)" "sized n L (B t)"
    using rs_sized [OF R less_imp_le [OF i]] r p by (simp_all add: B_def)
  have len: "length (blocks (B t) ?a ?b) = total L ?a ?b" using length_blocks [OF B(2)] wr by simp
  have ss: "vec_at (start_table n L) ?a' = Inr (int (total L 0 ?a'))" "vec_at (start_table n L) ?a = Inr (int (total L 0 ?a))"
    using start_table_at wr wt by simp_all
  have sums: "block_sum (len_table n L) (map ((+) ?a') [0..(?b' - ?a') - 1]) = Inr (int (total L ?a' ?b'))"
    "block_sum (len_table n L) (map ((+) ?a) [0..(?b - ?a) - 1]) = Inr (int (total L ?a ?b))"
    using block_sum_window [of ?a' ?b' n L] block_sum_window [of ?a ?b n L] wr wt
      total_mono [of ?a' ?b' n L] total_mono [of ?a ?b n L] R by (simp_all add: reduce_ok_def)
  have rd: "buf_read (blocks (B r) 0 n) (total L 0 ?a') (total L ?a' ?b') = Inr (blocks (B r) ?a' ?b')"
    using read_window [OF B(1)] wt by simp
  show "ReduceScatter_round E (start_table n L) (len_table n L) red (blocks (B r) 0 n, out) i =
      Send t (blocks (B r) ?a' ?b') (Recv t (length (blocks (B t) ?a ?b)) []
         (\<lambda>x. WaitSent t (length (blocks (B r) ?a' ?b')) (rs_cont n L red (blocks (B r) 0 n) out ?a ?b x)))"
    unfolding ReduceScatter_round_def Let_def prod.case f lift_simps sums ss nat_int rd m(2)
      net_SendRecv.simps mpi_SendRecv_def bindp.simps len rs_cont_def ..
  have old: "buf_read (blocks (B r) 0 n) (total L 0 ?a) (total L ?a ?b) = Inr (blocks (B r) ?a ?b)"
    using read_window [OF B(1)] wr by simp
  have "red (blocks (B t) ?a ?b) (blocks (B r) ?a ?b) = blocks (\<lambda>j. red (B t j) (B r j)) ?a ?b"
    using R wr by (intro red_blocks [of w, OF _ B(2,1)]) (simp_all add: reduce_ok_def)
  moreover have "sized n L (\<lambda>j. red (B t j) (B r j))"
    using B R by (simp add: sized_def reduce_ok_def elementwise_def)
  moreover have suc: "rs_blk n red X (Suc i) r = (\<lambda>j. if ?a \<le> j \<and> j < ?b then red (B t j) (B r j) else B r j)"
    by (rule ext) (simp add: B_def t_def d_def)
  ultimately have new: "buf_write (blocks (B r) 0 n) (total L 0 ?a) (red (blocks (B t) ?a ?b) (blocks (B r) ?a ?b))
      = Inr (blocks (rs_blk n red X (Suc i) r) 0 n)"
    using write_window [OF B(1)] wr unfolding suc by simp
  have "total L ?a ?b \<le> total L 0 n" using wr by (intro total_mono) simp_all
  then have "buf_write out 0 (blocks (B t) ?a ?b) = Inr (blocks (B t) ?a ?b @ drop (total L ?a ?b) out)"
    using out len by (simp add: buf_write_def)
  then show "rs_cont n L red (blocks (B r) 0 n) out ?a ?b (blocks (B t) ?a ?b)
      = Done (blocks (rs_blk n red X (Suc i) r) 0 n, blocks (B t) ?a ?b @ drop (total L ?a ?b) out)"
    unfolding rs_cont_def by (simp add: old new)
qed

section \<open>One-way transfers\<close>

lemma recv_none:
  assumes "distinct ps" and "\<And>p. p \<in> set ps \<Longrightarrow> procs c p = Recv (s p) 0 [] (k p)"
  shows "reaches kind lib c (c\<lparr>procs := (\<lambda>p. if p \<in> set ps then k p [] else procs c p)\<rparr>)"
  using assms
proof (induction ps arbitrary: c)
  case Nil
  then show ?case by simp
next
  case (Cons p ps)
  let ?c = "c\<lparr>procs := (procs c)(p := k p [])\<rparr>"
  have "run_step kind lib p 0 c = Some ?c" using Cons.prems(2) [of p] by (simp add: run_step_def)
  then have "reaches kind lib c ?c" by (rule reaches_step)
  also have "reaches kind lib ?c (?c\<lparr>procs := (\<lambda>q. if q \<in> set ps then k q [] else procs ?c q)\<rparr>)"
    using Cons.prems by (intro Cons.IH) auto
  also have "?c\<lparr>procs := (\<lambda>q. if q \<in> set ps then k q [] else procs ?c q)\<rparr> =
      c\<lparr>procs := (\<lambda>q. if q \<in> set (p # ps) then k q [] else procs c q)\<rparr>"
    using Cons.prems(1) by (auto simp: fun_eq_iff)
  finally show ?case .
qed

text \<open>The machines \<open>ps\<close> each receive what \<open>src p\<close> sends to them, if it is not empty; the senders
  wait for their sends.\<close>

definition sends_to :: "int \<Rightarrow> blob \<Rightarrow> 'a proc \<Rightarrow> 'a proc" where
  "sends_to d b rest = (if b = [] then rest else Send d b (WaitSent d (length b) rest))"

lemma sends_to_SendTo: "bindp (mpi_SendTo d b) (\<lambda>_. rest) = sends_to d b rest"
  by (simp add: sends_to_def mpi_SendTo_def)

lemma bindp_sends_to [simp]: "bindp (sends_to d b p) f = sends_to d b (bindp p f)"
  by (simp add: sends_to_def)

lemma transfer:
  assumes d: "distinct ps" and q: "quiet em c"
    and src: "\<And>p. p \<in> set ps \<Longrightarrow> src p \<notin> set ps \<and> dst (src p) = p"
    and recv: "\<And>p. p \<in> set ps \<Longrightarrow> procs c p = Recv (src p) (length (b p)) [] (k p)"
    and send: "\<And>p. p \<in> set ps \<Longrightarrow> procs c (src p) = sends_to p (b p) (rest p)"
  shows "\<exists>c'. reaches MPI lib c c' \<and> quiet em c' \<and> (\<forall>p \<in> set ps. procs c' p = k p (b p) \<and> procs c' (src p) = rest p) \<and>
    (\<forall>p. p \<notin> set ps \<and> p \<notin> src ` set ps \<longrightarrow> procs c' p = procs c p)"
proof -
  let ?full = "filter (\<lambda>p. b p \<noteq> []) ps" and ?none = "filter (\<lambda>p. b p = []) ps"
  let ?senders = "map src ?full"
  let ?w = "\<lambda>s. WaitSent (dst s) (length (b (dst s))) (rest (dst s))"
  have inj: "inj_on src (set ps)"
    by (rule inj_on_inverseI [where g = dst]) (use src in blast)
  have img: "src p \<in> src ` set qs \<longleftrightarrow> p \<in> set qs" if "p \<in> set ps" "set qs \<subseteq> set ps" for p qs
    using inj that by (simp add: inj_on_image_mem_iff)
  have ds: "distinct ?senders" using d inj by (auto simp: distinct_map intro: inj_on_subset)
  have apart: "p \<notin> src ` set ?full" if "p \<in> set ps" for p using src that by auto
  let ?c1 = "\<lparr>procs = (\<lambda>p. if p \<in> set ?senders then ?w p else procs c p),
     chan = (\<lambda>(s, d). chan c (s, d) @ (if s \<in> set ?senders \<and> d = dst s then [b (dst s)] else []))\<rparr>"
  have 1: "reaches MPI lib c ?c1"
  proof (rule send_all [OF ds])
    fix s
    assume "s \<in> set ?senders"
    then obtain p where "p \<in> set ps" "b p \<noteq> []" "s = src p" by auto
    then show "procs c s = Send (dst s) (b (dst s)) (?w s)" using send [of p] src [of p] by (simp add: sends_to_def)
  qed
  have "\<exists>c'. reaches MPI lib ?c1 c' \<and> procs c' = (\<lambda>p. if p \<in> set ?full then k p (b p) else procs ?c1 p) \<and>
    (\<forall>q p. (if p \<in> set ?full \<and> q = src p then leftover em (b p) (chan c' (q, p))
      else chan c' (q, p) = chan ?c1 (q, p)))"
  proof (intro recv_all)
    show "distinct ?full" using d by simp
    show "procs ?c1 p = Recv (src p) (length (b p)) [] (k p)" if "p \<in> set ?full" for p
      using recv [of p] apart [of p] that by simp
    show "\<exists>junk. chan ?c1 (src p, p) = junk @ [b p] \<and> (\<forall>x \<in> set junk. em \<and> x = [])" if "p \<in> set ?full" for p
      using that src [of p] q by (intro exI [of _ "chan c (src p, p)"]) (auto simp: quiet_def)
  qed simp
  then obtain c2 where c2: "reaches MPI lib ?c1 c2" "procs c2 = (\<lambda>p. if p \<in> set ?full then k p (b p) else procs ?c1 p)"
    "\<forall>q p. (if p \<in> set ?full \<and> q = src p then leftover em (b p) (chan c2 (q, p))
      else chan c2 (q, p) = chan ?c1 (q, p))"
    by (elim exE conjE)
  let ?c3 = "c2\<lparr>procs := (\<lambda>p. if p \<in> set ?none then k p [] else procs c2 p)\<rparr>"
  have 3: "reaches MPI lib c2 ?c3"
    using d recv apart by (intro recv_none [where s = src]) (auto simp: c2(2))
  let ?c4 = "?c3\<lparr>procs := (\<lambda>p. if p \<in> set ?senders then rest (dst p) else procs ?c3 p)\<rparr>"
  have 4: "reaches MPI lib ?c3 ?c4"
  proof (rule wait_all [OF ds])
    fix s
    assume s: "s \<in> set ?senders"
    then obtain p where p: "p \<in> set ?full" "s = src p" by auto
    then have "s \<notin> set ps" using src [of p] by simp
    then show "procs ?c3 s = ?w s" using s by (simp add: c2(2))
    have "dst s = p" using p src [of p] by simp
    then show "chan ?c3 (s, dst s) = [] \<or> lib (length (b (dst s)))"
      using c2(3) [rule_format, of p s] p by (simp add: leftover_def)
  qed
  have "\<forall>x \<in> set (chan c2 (q', p)). em \<and> x = []" for q' p
  proof (cases "p \<in> set ?full \<and> q' = src p")
    case True
    then have "leftover em (b p) (chan c2 (q', p))" using c2(3) [rule_format, of p q'] by (simp only: if_True simp_thms)
    then show ?thesis by (simp add: leftover_def)
  next
    case False
    then have "chan c2 (q', p) = chan ?c1 (q', p)" using c2(3) [rule_format, of p q'] by (simp only: if_False)
    moreover have "chan ?c1 (q', p) = chan c (q', p)" using False src by auto
    ultimately show ?thesis using q by (simp add: quiet_def)
  qed
  then have "quiet em ?c4" by (auto simp: quiet_def)
  moreover have "procs ?c4 p = k p (b p) \<and> procs ?c4 (src p) = rest p" if p: "p \<in> set ps" for p
  proof -
    have s: "src p \<in> set ?senders \<longleftrightarrow> b p \<noteq> []" using img [OF p, of ?full] p by simp
    have "p \<notin> set ?senders" using apart [OF p] by simp
    then show ?thesis using p src [OF p] s send [OF p] by (auto simp: c2(2) sends_to_def)
  qed
  moreover have "procs ?c4 p = procs c p" if "p \<notin> set ps" "p \<notin> src ` set ps" for p
    using that by (auto simp: c2(2))
  ultimately show ?thesis using 1 c2(1) 3 4 by (blast intro: reaches_trans)
qed

section \<open>The program of a machine\<close>

lemma not_powerof_2:
  assumes "1 \<le> n" "r < n" "singles n \<le> r"
  shows "\<not> is_powerof_2 n"
proof -
  let ?k = "rounds n"
  note k = halving_k_bounds [OF assms(1)]
  have lt: "2 ^ ?k < n" using assms(2,3) by (simp add: singles_def)
  have "n div 2 ^ ?k = 1" "(n - 1) div 2 ^ ?k = 1"
    using lt k(2) by (auto intro: int_div_pos_eq [where r = "n - 2 ^ ?k"] int_div_pos_eq [where r = "n - 1 - 2 ^ ?k"])
  then have "bit n ?k" "bit (n - 1) ?k" by (simp_all add: bit_iff_odd)
  then have "bit (n AND (n - 1)) ?k" by (simp only: bit_and_iff)
  then show ?thesis by (auto simp: is_powerof_2_def)
qed

definition rs_finish :: "(int \<Rightarrow> nat) \<Rightarrow> int \<Rightarrow> blob \<times> blob \<Rightarrow> (blob \<times> blob) proc" where
  "rs_finish L r = (\<lambda>(input, output). lift (buf_read input (total L 0 r) (L r)) (\<lambda>mine.
     lift (buf_write output 0 mine) (\<lambda>output'. Done (input, output'))))"

definition rs_send :: "(int \<Rightarrow> nat) \<Rightarrow> int \<Rightarrow> blob \<times> blob \<Rightarrow> (blob \<times> blob) proc" where
  "rs_send L r = (\<lambda>(input, output). lift (buf_read input (total L 0 (r + 1)) (L (r + 1))) (\<lambda>data.
     bindp (mpi_SendTo (r + 1) data) (\<lambda>_. rs_finish L r (input, output))))"

definition rs_loop where
  "rs_loop E n L red s = fold_proc (ReduceScatter_round E (start_table n L) (len_table n L) red) s [0..<rounds n]"

lemma ReduceScatter_program:
  fixes out :: blob and red :: "blob \<Rightarrow> blob \<Rightarrow> blob"
  assumes E: "engine_ok E r n" and n: "1 \<le> n" and r: "0 \<le> r" "r < n"
    and I: "length I = total L 0 n" "0 < total L 0 n"
  defines "RS \<equiv> ReduceScatter E I (int (total L 0 n)) (start_table n L) (len_table n L) out red"
  shows "is_other (singles n) r \<Longrightarrow> RS = sends_to (r - 1) I (Recv (r - 1) (L r) []
      (\<lambda>x. lift (buf_write out 0 x) (\<lambda>out'. Done (I, out'))))"
    and "leads_two n r \<Longrightarrow> RS = Recv (r + 1) (total L 0 n) []
      (\<lambda>x. lift (buf_write out 0 x) (\<lambda>out'. lift (buf_write I 0 (red x I)) (\<lambda>I'.
        bindp (rs_loop E n L red (I', out')) (rs_send L r))))"
    and "\<not> is_other (singles n) r \<Longrightarrow> \<not> leads_two n r \<Longrightarrow> RS = bindp (rs_loop E n L red (I, out)) (rs_finish L r)"
proof -
  note F = halving_fields [OF n r]
  have m: "the_halving_map E = RecursiveHalvingMap_Construct r n" "linkers E = MPI" "my_rank E = r" "num_of_machines E = n"
    using E by (simp_all add: engine_ok_def)
  have k: "rh_k (the_halving_map E) = rounds n" using F(1) m by simp
  have I0: "I \<noteq> []" "buf_read I 0 (total L 0 n) = Inr I" using I by (auto simp: buf_read_def)
  have fin: "(\<lambda>(input, output). lift (vec_at (start_table n L) r) (\<lambda>at. lift (vec_at (len_table n L) r) (\<lambda>l.
      lift (buf_read input (nat at) (nat l)) (\<lambda>mine. lift (buf_write output 0 mine) (\<lambda>output'. Done (input, output'))))))
      = rs_finish L r"
    using start_table_at [OF r] len_table_at [OF r] by (simp add: rs_finish_def fun_eq_iff)
  show "RS = sends_to (r - 1) I (Recv (r - 1) (L r) [] (\<lambda>x. lift (buf_write out 0 x) (\<lambda>out'. Done (I, out'))))"
    if o: "is_other (singles n) r"
  proof -
    have q: "singles n \<le> r" using o by (simp add: is_other_def)
    have t: "rh_type (the_halving_map E) = Other" "neighbor (the_halving_map E) = Some (r - 1)"
      using F(2,4) o q m by simp_all
    show ?thesis
      using not_powerof_2 [OF n r(2) q] I0 len_table_at [OF r, of L]
      by (simp add: RS_def ReduceScatter_def Let_def m(2-4) t neighbor_of_def sends_to_SendTo mpi_RecvFrom_def)
  qed
  show "RS = Recv (r + 1) (total L 0 n) [] (\<lambda>x. lift (buf_write out 0 x) (\<lambda>out'. lift (buf_write I 0 (red x I)) (\<lambda>I'.
        bindp (rs_loop E n L red (I', out')) (rs_send L r))))" if l: "leads_two n r"
  proof -
    have q: "singles n \<le> r" "\<not> is_other (singles n) r" using l by (simp_all add: leads_two_def)
    have t: "rh_type (the_halving_map E) = GroupLeader" "neighbor (the_halving_map E) = Some (r + 1)"
      using F(3,4) q m by simp_all
    have r1: "0 \<le> r + 1" "r + 1 < n" using leader_has_partner(1) [OF n r(2) l] r by simp_all
    show ?thesis
      using not_powerof_2 [OF n r(2) q(1)] I0 start_table_at [OF r1, of L] len_table_at [OF r1, of L]
      unfolding RS_def ReduceScatter_def Let_def m(2-4) fin t
      by (simp add: k t(2) neighbor_of_def mpi_RecvFrom_def rs_loop_def rs_send_def case_prod_beta cong: if_cong)
  qed
  show "RS = bindp (rs_loop E n L red (I, out)) (rs_finish L r)"
    if o: "\<not> is_other (singles n) r" "\<not> leads_two n r"
  proof -
    have t: "rh_type (the_halving_map E) = Normal"
      using F(2,3) o m by (cases "rh_type (the_halving_map E)") (simp_all add: leads_two_def)
    show ?thesis
      unfolding RS_def ReduceScatter_def Let_def m(2-4) fin t
      by (simp add: k rs_loop_def case_prod_beta cong: if_cong)
  qed
qed

section \<open>All machines\<close>

lemma total_single: "total L a (a + 1) = L a"
  by (simp add: total_def)

lemma rs_finish_state:
  assumes "sized n L B" "0 \<le> r" "r < n" "L r \<le> length o1"
  shows "rs_finish L r (blocks B 0 n, o1) = Done (blocks B 0 n, B r @ drop (L r) o1)"
proof -
  have "total L r (r + 1) = L r" by (simp add: total_def)
  then have "buf_read (blocks B 0 n) (total L 0 r) (L r) = Inr (B r)"
    using read_window [OF assms(1), of r "r + 1"] assms(2,3) blocks_single [of B r] by simp
  moreover have "length (B r) = L r" using assms(1-3) by (simp add: sized_def)
  ultimately show ?thesis using assms(4) by (simp add: rs_finish_def buf_write_def)
qed

lemma rs_send_state:
  assumes "sized n L B" "0 \<le> r" "r + 1 < n" "L r \<le> length o1"
  shows "rs_send L r (blocks B 0 n, o1) = sends_to (r + 1) (B (r + 1)) (Done (blocks B 0 n, B r @ drop (L r) o1))"
proof -
  have "total L (r + 1) (r + 1 + 1) = L (r + 1)" by (rule total_single)
  then have "buf_read (blocks B 0 n) (total L 0 (r + 1)) (L (r + 1)) = Inr (B (r + 1))"
    using read_window [OF assms(1), of "r + 1" "r + 1 + 1"] assms(2,3) blocks_single [of B "r + 1"] by simp
  then show ?thesis
    using rs_finish_state [OF assms(1,2) _ assms(4)] assms(3) by (simp add: rs_send_def sends_to_SendTo)
qed

lemma L_le_total: "0 \<le> r \<Longrightarrow> r < n \<Longrightarrow> L r \<le> total L 0 n"
  using total_mono [of r "r + 1" n L] by (simp add: total_def [of L r])

lemma other_pred:
  assumes "1 \<le> n" "0 \<le> r" "r < n" "is_other (singles n) r"
  shows "0 \<le> r - 1" "leads_two n (r - 1)" "\<not> is_other (singles n) (r - 1)"
    "lead (singles n) (group_of (singles n) r) = r - 1"
proof -
  have q: "0 \<le> singles n" by (rule group_shape(1) [OF assms(1)])
  have gen: "q \<le> x - 1 \<and> \<not> is_other q (x - 1) \<and> lead q (group_of q x) = x - 1" if "is_other q x" for q x :: int
    using that unfolding is_other_def lead_def group_of_def by presburger
  show "0 \<le> r - 1" "leads_two n (r - 1)" "\<not> is_other (singles n) (r - 1)"
    "lead (singles n) (group_of (singles n) r) = r - 1"
    using gen [OF assms(4)] q by (simp_all add: leads_two_def)
qed

text \<open>The output buffers before round \<open>i\<close>; only their lengths matter.\<close>

fun rs_out :: "int \<Rightarrow> (int \<Rightarrow> nat) \<Rightarrow> (blob \<Rightarrow> blob \<Rightarrow> blob) \<Rightarrow> (int \<Rightarrow> int \<Rightarrow> blob) \<Rightarrow> (int \<Rightarrow> blob) \<Rightarrow> nat \<Rightarrow> int \<Rightarrow> blob" where
  "rs_out n L red X out 0 r = (if leads_two n r then blocks (X (r + 1)) 0 n @ drop (total L 0 n) (out r) else out r)"
| "rs_out n L red X out (Suc i) r = (let d = halving_dist n i; a = win_from n d r; b = win_to n d r in
     blocks (rs_blk n red X i (peer n i r)) a b @ drop (total L a b) (rs_out n L red X out i r))"

lemma length_rs_out:
  assumes R: "reduce_ok n w red L X" and "i \<le> rounds n" "0 \<le> r" "r < n" "\<not> is_other (singles n) r"
    and "total L 0 n \<le> length (out r)"
  shows "length (rs_out n L red X out i r) = length (out r)"
  using assms(2-)
proof (induction i)
  case 0
  have "leads_two n r \<Longrightarrow> sized n L (X (r + 1))"
    using leader_has_partner(1) [of n r] R 0 by (simp add: reduce_ok_def)
  then show ?case using 0 length_blocks [of n L "X (r + 1)" 0 n] by simp
next
  case (Suc i)
  have n: "1 \<le> n" using R by (simp add: reduce_ok_def)
  have i: "i < rounds n" "i \<le> rounds n" using Suc.prems(1) by simp_all
  note p = peer_props [OF n Suc.prems(2,3) i(1)] and w = window_bounds [OF n Suc.prems(2,3) i(1)]
  let ?a = "win_from n (halving_dist n i) r" and ?b = "win_to n (halving_dist n i) r"
  have "length (blocks (rs_blk n red X i (peer n i r)) ?a ?b) = total L ?a ?b"
    using length_blocks [OF rs_sized [OF R i(2) p(1-3)]] w by simp
  moreover have "total L ?a ?b \<le> total L 0 n" using w by (intro total_mono) simp_all
  ultimately show ?case using Suc by (simp add: Let_def)
qed

text \<open>The block a machine ends with.\<close>

definition rs_result :: "int \<Rightarrow> (blob \<Rightarrow> blob \<Rightarrow> blob) \<Rightarrow> (int \<Rightarrow> int \<Rightarrow> blob) \<Rightarrow> int \<Rightarrow> blob" where
  "rs_result n red X r = rs_blk n red X (rounds n) (lead (singles n) (group_of (singles n) r)) r"

text \<open>First phase: in groups of two the leader adds its partner's data to its own.\<close>

definition after_first where
  "after_first n L red X E out k r =
    (if is_other (singles n) r then Recv (r - 1) (L r) []
       (\<lambda>x. bindp (lift (buf_write (out r) 0 x) (\<lambda>out'. Done (blocks (X r) 0 n, out'))) (k r))
     else bindp (rs_loop (E r) n L red (blocks (rs_blk n red X 0 r) 0 n, rs_out n L red X out 0 r))
       (\<lambda>s. bindp ((if leads_two n r then rs_send L r else rs_finish L r) s) (k r)))"

lemma machine_cases:
  obtains "0 \<le> r" "r < n" "is_other (singles n) r" | "0 \<le> r" "r < n" "leads_two n r" "\<not> is_other (singles n) r"
    | "0 \<le> r" "r < n" "\<not> leads_two n r" "\<not> is_other (singles n) r" | "\<not> (0 \<le> r \<and> r < n)"
  by (auto simp: leads_two_def)

definition take_partner where
  \<comment> \<open>what a leader does with its partner's input: add it to its own and go through the rounds\<close>
  "take_partner n L red X E out k p x = bindp (lift (buf_write (out p) 0 x)
     (\<lambda>out'. lift (buf_write (blocks (X p) 0 n) 0 (red x (blocks (X p) 0 n)))
       (\<lambda>I'. bindp (rs_loop (E p) n L red (I', out')) (rs_send L p)))) (k p)"

lemma leader_adds:
  assumes R: "reduce_ok n w red L X" and out: "total L 0 n \<le> length (out r)"
    and r: "0 \<le> r" "r < n" "leads_two n r" "\<not> is_other (singles n) r"
  shows "take_partner n L red X E out k r (blocks (X (r + 1)) 0 n) = after_first n L red X E out k r"
proof -
  let ?b = "blocks (X (r + 1)) 0 n"
  have n: "1 \<le> n" and X: "\<And>r. 0 \<le> r \<Longrightarrow> r < n \<Longrightarrow> sized n L (X r)"
    using R by (simp_all add: reduce_ok_def)
  have len: "length (blocks (X r) 0 n) = total L 0 n" if "0 \<le> r" "r < n" for r
    using length_blocks [OF X [OF that]] by simp
  have r1: "0 \<le> r + 1" "r + 1 < n" using leader_has_partner(1) [OF n r(2,3)] r(1) by simp_all
  have w: "buf_write (out r) 0 ?b = Inr (?b @ drop (total L 0 n) (out r))"
    using out len [OF r1] by (simp add: buf_write_def)
  have "rs_blk n red X 0 r = (\<lambda>j. red (X (r + 1) j) (X r j))" using r(3) by (intro ext) simp
  then have red: "red ?b (blocks (X r) 0 n) = blocks (rs_blk n red X 0 r) 0 n"
    using red_blocks [of w red n L "X (r + 1)" "X r" 0 n] R X [OF r1] X [OF r(1,2)] n
    by (simp add: reduce_ok_def)
  have "length (blocks (rs_blk n red X 0 r) 0 n) = total L 0 n"
    using length_blocks [OF rs_sized [OF R _ r(1,2,4)], of 0 0 n] by simp
  then have wi: "buf_write (blocks (X r) 0 n) 0 (blocks (rs_blk n red X 0 r) 0 n) = Inr (blocks (rs_blk n red X 0 r) 0 n)"
    using len [OF r(1,2)] by (simp add: buf_write_def)
  show ?thesis
    unfolding take_partner_def w lift_simps red wi using r by (simp add: after_first_def bindp_assoc)
qed

lemma leaders_with_partners:
  assumes n: "1 \<le> n" and p: "p \<in> set (filter (leads_two n) [0..n - 1])"
  shows "0 \<le> p \<and> p < n \<and> p + 1 < n \<and> leads_two n p \<and> \<not> is_other (singles n) p \<and> is_other (singles n) (p + 1)"
  using p leader_has_partner [OF n, of p] by (auto simp: leads_two_def)

lemma first_exchange:
  assumes R: "reduce_ok n w red L X" and q: "quiet em c"
    and E: "\<And>r. 0 \<le> r \<Longrightarrow> r < n \<Longrightarrow> engine_ok (E r) r n"
    and out: "\<And>r. 0 \<le> r \<Longrightarrow> r < n \<Longrightarrow> total L 0 n \<le> length (out r)"
    and procs: "\<And>r. 0 \<le> r \<Longrightarrow> r < n \<Longrightarrow> procs c r =
      bindp (ReduceScatter (E r) (blocks (X r) 0 n) (int (total L 0 n)) (start_table n L) (len_table n L) (out r) red) (k r)"
  shows "\<exists>c'. reaches MPI lib c c' \<and> quiet em c' \<and>
    (\<forall>p \<in> set (filter (leads_two n) [0..n - 1]).
      procs c' p = take_partner n L red X E out k p (blocks (X (p + 1)) 0 n) \<and>
      procs c' (p + 1) = after_first n L red X E out k (p + 1)) \<and>
    (\<forall>p. p \<notin> set (filter (leads_two n) [0..n - 1]) \<and> p \<notin> (\<lambda>p. p + 1) ` set (filter (leads_two n) [0..n - 1])
      \<longrightarrow> procs c' p = procs c p)"
proof -
  have n: "1 \<le> n" and T: "0 < total L 0 n" and X: "\<And>r. 0 \<le> r \<Longrightarrow> r < n \<Longrightarrow> sized n L (X r)"
    using R by (simp_all add: reduce_ok_def)
  have len: "length (blocks (X r) 0 n) = total L 0 n" if "0 \<le> r" "r < n" for r
    using length_blocks [OF X [OF that]] by simp
  let ?ps = "filter (leads_two n) [0..n - 1]"
  let ?b = "\<lambda>p. blocks (X (p + 1)) 0 n"
  let ?k = "\<lambda>p x. take_partner n L red X E out k p x"
  note lead = leaders_with_partners [OF n]
  note P = ReduceScatter_program [OF E n _ _ len T]
  show ?thesis
  proof (rule transfer [where src = "\<lambda>p. p + 1" and dst = "\<lambda>p. p - 1" and b = ?b and k = ?k
        and rest = "\<lambda>p. after_first n L red X E out k (p + 1)"])
    show "distinct ?ps" by simp
    show "quiet em c" by fact
    show "p + 1 \<notin> set ?ps \<and> p + 1 - 1 = p" if "p \<in> set ?ps" for p
      using lead [OF that] by (auto simp: leads_two_def)
    show "procs c p = Recv (p + 1) (length (?b p)) [] (?k p)" if "p \<in> set ?ps" for p
      using lead [OF that] procs [of p] P(2) [of p] len [of "p + 1"] by (simp add: take_partner_def [abs_def])
    show "procs c (p + 1) = sends_to p (?b p) (after_first n L red X E out k (p + 1))" if "p \<in> set ?ps" for p
      using lead [OF that] procs [of "p + 1"] P(1) [of "p + 1"] by (simp add: after_first_def)
  qed
qed

lemma first_phase:
  assumes R: "reduce_ok n w red L X" and q: "quiet em c"
    and E: "\<And>r. 0 \<le> r \<Longrightarrow> r < n \<Longrightarrow> engine_ok (E r) r n"
    and out: "\<And>r. 0 \<le> r \<Longrightarrow> r < n \<Longrightarrow> total L 0 n \<le> length (out r)"
    and procs: "\<And>r. 0 \<le> r \<Longrightarrow> r < n \<Longrightarrow> procs c r =
      bindp (ReduceScatter (E r) (blocks (X r) 0 n) (int (total L 0 n)) (start_table n L) (len_table n L) (out r) red) (k r)"
  shows "\<exists>c'. reaches MPI lib c c' \<and> quiet em c' \<and>
    procs c' = (\<lambda>r. if 0 \<le> r \<and> r < n then after_first n L red X E out k r else procs c r)"
proof -
  have n: "1 \<le> n" and T: "0 < total L 0 n" and X: "\<And>r. 0 \<le> r \<Longrightarrow> r < n \<Longrightarrow> sized n L (X r)"
    using R by (simp_all add: reduce_ok_def)
  have len: "length (blocks (X r) 0 n) = total L 0 n" if "0 \<le> r" "r < n" for r
    using length_blocks [OF X [OF that]] by simp
  let ?ps = "filter (leads_two n) [0..n - 1]"
  note P = ReduceScatter_program [OF E n _ _ len T]
  obtain c' where c': "reaches MPI lib c c'" "quiet em c'"
    and lead: "\<forall>p \<in> set ?ps. procs c' p = take_partner n L red X E out k p (blocks (X (p + 1)) 0 n) \<and>
      procs c' (p + 1) = after_first n L red X E out k (p + 1)"
    and rest: "\<forall>p. p \<notin> set ?ps \<and> p \<notin> (\<lambda>p. p + 1) ` set ?ps \<longrightarrow> procs c' p = procs c p"
    using first_exchange [OF R q E out procs] by blast
  have img: "0 \<le> r \<and> r < n \<and> is_other (singles n) r" if "r \<in> (\<lambda>p. p + 1) ` set ?ps" for r
    using that leaders_with_partners [OF n] by force
  have "procs c' r = (if 0 \<le> r \<and> r < n then after_first n L red X E out k r else procs c r)" for r
  proof (cases rule: machine_cases [where r = r and n = n])
    case 1
    then have "r - 1 \<in> set ?ps" using other_pred [OF n 1] by auto
    then have "procs c' (r - 1 + 1) = after_first n L red X E out k (r - 1 + 1)" using lead by blast
    then show ?thesis using 1 by simp
  next
    case 2
    then show ?thesis using lead leader_adds [where out = out, OF R out [OF 2(1,2)] 2] by simp
  next
    case 3
    have "r \<notin> (\<lambda>p. p + 1) ` set ?ps" using img [of r] 3 by blast
    moreover have "r \<notin> set ?ps" using 3 by simp
    ultimately have "procs c' r = procs c r" using rest by blast
    moreover have "rs_blk n red X 0 r = X r" using 3(3) by (intro ext) simp
    ultimately show ?thesis
      using 3 procs [OF 3(1,2)] P(3) [OF 3(1,2) 3(1,2) 3(1,2) 3(4,3)] by (simp add: after_first_def bindp_assoc)
  next
    case 4
    have "r \<notin> (\<lambda>p. p + 1) ` set ?ps" using img [of r] 4 by blast
    moreover have "r \<notin> set ?ps" using 4 by auto
    ultimately show ?thesis unfolding if_not_P [OF 4] using rest by blast
  qed
  then show ?thesis using c' by blast
qed

text \<open>Second phase: the rounds of recursive halving, by all machines but the partners.\<close>

definition after_rounds where
  "after_rounds n L red X E out k r =
    (if is_other (singles n) r then Recv (r - 1) (L r) []
       (\<lambda>x. bindp (lift (buf_write (out r) 0 x) (\<lambda>out'. Done (blocks (X r) 0 n, out'))) (k r))
     else bindp ((if leads_two n r then rs_send L r else rs_finish L r)
       (blocks (rs_blk n red X (rounds n) r) 0 n, rs_out n L red X out (rounds n) r)) (k r))"

lemma total_pos:
  assumes "\<forall>j. 0 \<le> j \<and> j < n \<longrightarrow> 0 < L j" and "0 \<le> a" "a < b" "b \<le> n"
  shows "0 < total L a b"
proof -
  have "total L a b = total L a (a + 1) + total L (a + 1) b" using assms by (intro total_split) simp_all
  then show ?thesis using assms by (simp add: total_def [of L a])
qed

lemma second_phase:
  assumes R: "reduce_ok n w red L X" and q: "quiet em c"
    and e: "em \<or> (\<forall>j. 0 \<le> j \<and> j < n \<longrightarrow> 0 < L j)" and lib: "em \<Longrightarrow> lib 0"
    and E: "\<And>r. 0 \<le> r \<Longrightarrow> r < n \<Longrightarrow> engine_ok (E r) r n"
    and out: "\<And>r. 0 \<le> r \<Longrightarrow> r < n \<Longrightarrow> total L 0 n \<le> length (out r)"
    and procs: "procs c = (\<lambda>r. if 0 \<le> r \<and> r < n then after_first n L red X E out k r else p0 r)"
  shows "\<exists>c'. reaches MPI lib c c' \<and> quiet em c' \<and>
    procs c' = (\<lambda>r. if 0 \<le> r \<and> r < n then after_rounds n L red X E out k r else p0 r)"
proof -
  have n: "1 \<le> n" using R by (simp add: reduce_ok_def)
  let ?ps = "filter (\<lambda>r. \<not> is_other (singles n) r) [0..n - 1]"
  let ?d = "halving_dist n" and ?B = "rs_blk n red X"
  let ?K = "\<lambda>r s. bindp ((if leads_two n r then rs_send L r else rs_finish L r) s) (k r)"
  let ?S = "\<lambda>i r. (blocks (?B i r) 0 n, rs_out n L red X out i r)"
  have "\<exists>c'. reaches MPI lib c c' \<and> quiet em c' \<and>
    procs c' = (\<lambda>r. if r \<in> set ?ps then ?K r (?S (rounds n) r) else procs c r)"
  proof (rule exchange_loop [where i = 0 and S = ?S
        and f = "\<lambda>r. ReduceScatter_round (E r) (start_table n L) (len_table n L) red" and out = "peer n" and inn = "peer n"
        and b = "\<lambda>i r. blocks (?B i r) (win_from n (?d i) (peer n i r)) (win_to n (?d i) (peer n i r))"
        and g = "\<lambda>i r. rs_cont n L red (blocks (?B i r) 0 n) (rs_out n L red X out i r)
          (win_from n (?d i) r) (win_to n (?d i) r)"])
    show "distinct ?ps" by simp
    show "quiet em c" by fact
    show "procs c r = bindp (fold_proc (ReduceScatter_round (E r) (start_table n L) (len_table n L) red) (?S 0 r) [0..<rounds n]) (?K r)"
      if "r \<in> set ?ps" for r
      using that by (simp add: procs after_first_def rs_loop_def)
  next
    fix i r assume i: "i < rounds n" and "r \<in> set ?ps"
    then have r: "0 \<le> r" "r < n" "\<not> is_other (singles n) r" by simp_all
    note p = peer_props [OF n r(1,2) i]
    have len: "total L 0 n \<le> length (rs_out n L red X out i r)"
      using length_rs_out [OF R less_imp_le [OF i] r] out [OF r(1,2)] by simp
    note X = ReduceScatter_round_exchange [OF E [OF r(1,2)] R r i len]
    show "peer n i r \<in> set ?ps \<and> peer n i r \<in> set ?ps \<and> peer n i (peer n i r) = r \<and> peer n i (peer n i r) = r"
      using p r(3) by simp
    have pp: "peer n i (peer n i r) = r" using p(5) r(3) by simp
    show "ReduceScatter_round (E r) (start_table n L) (len_table n L) red (?S i r) i =
      Send (peer n i r) (blocks (?B i r) (win_from n (?d i) (peer n i r)) (win_to n (?d i) (peer n i r)))
        (Recv (peer n i r) (length (blocks (?B i (peer n i r)) (win_from n (?d i) (peer n i (peer n i r)))
            (win_to n (?d i) (peer n i (peer n i r))))) []
          (\<lambda>x. WaitSent (peer n i r) (length (blocks (?B i r) (win_from n (?d i) (peer n i r)) (win_to n (?d i) (peer n i r))))
            (rs_cont n L red (blocks (?B i r) 0 n) (rs_out n L red X out i r) (win_from n (?d i) r) (win_to n (?d i) r) x)))"
      unfolding pp by (rule X(1))
    show "rs_cont n L red (blocks (?B i r) 0 n) (rs_out n L red X out i r) (win_from n (?d i) r) (win_to n (?d i) r)
        (blocks (?B i (peer n i r)) (win_from n (?d i) (peer n i (peer n i r))) (win_to n (?d i) (peer n i (peer n i r))))
      = Done (?S (Suc i) r)"
      unfolding pp X(2) rs_out.simps Let_def ..
    note W = window_bounds [OF n p(1,2) i]
    have "length (blocks (?B i r) (win_from n (?d i) (peer n i r)) (win_to n (?d i) (peer n i r))) =
        total L (win_from n (?d i) (peer n i r)) (win_to n (?d i) (peer n i r))"
      using length_blocks [OF rs_sized [OF R less_imp_le [OF i] r]] W by simp
    then show "em \<or> blocks (?B i r) (win_from n (?d i) (peer n i r)) (win_to n (?d i) (peer n i r)) \<noteq> []"
      using e total_pos [of n L, OF _ W] by auto
  qed (simp_all add: lib)
  then obtain c' where c': "reaches MPI lib c c'" "quiet em c'"
    "procs c' = (\<lambda>r. if r \<in> set ?ps then ?K r (?S (rounds n) r) else procs c r)" by blast
  have "procs c' = (\<lambda>r. if 0 \<le> r \<and> r < n then after_rounds n L red X E out k r else p0 r)"
    unfolding c'(3) procs by (rule ext) (simp add: after_rounds_def after_first_def)
  then show ?thesis using c'(1,2) by blast
qed

text \<open>Third phase: a leader sends its partner's block to it.\<close>

text \<open>The buffers of a machine at the end.\<close>

definition rs_buffers where
  "rs_buffers n L red X out r =
    (if is_other (singles n) r then (blocks (X r) 0 n, out r)
     else (blocks (rs_blk n red X (rounds n) r) 0 n, rs_out n L red X out (rounds n) r))"

definition rs_returns where
  "rs_returns n L red X out k r = k r (fst (rs_buffers n L red X out r),
    rs_result n red X r @ drop (L r) (snd (rs_buffers n L red X out r)))"

definition take_result where
  "take_result n X out k p x =
    bindp (lift (buf_write (out p) 0 x) (\<lambda>out'. Done (blocks (X p) 0 n, out'))) (k p)"

lemma length_rs_buffers:
  assumes R: "reduce_ok n w red L X" and r: "0 \<le> r" "r < n" and out: "total L 0 n \<le> length (out r)"
  shows "length (snd (rs_buffers n L red X out r)) = length (out r)"
  using length_rs_out [where out = out, OF R order_refl r] out by (simp add: rs_buffers_def)

lemma partners_with_leaders:
  assumes n: "1 \<le> n" and p: "p \<in> set (filter (is_other (singles n)) [0..n - 1])"
  shows "0 \<le> p \<and> p < n \<and> is_other (singles n) p \<and> 0 \<le> p - 1 \<and> p - 1 < n \<and> leads_two n (p - 1) \<and>
    \<not> is_other (singles n) (p - 1) \<and> rs_result n red X p = rs_blk n red X (rounds n) (p - 1) p"
  using p other_pred [OF n, of p] by (simp add: rs_result_def)

lemma third_exchange:
  assumes R: "reduce_ok n w red L X" and q: "quiet em c"
    and out: "\<And>r. 0 \<le> r \<Longrightarrow> r < n \<Longrightarrow> total L 0 n \<le> length (out r)"
    and procs: "procs c = (\<lambda>r. if 0 \<le> r \<and> r < n then after_rounds n L red X E out k r else p0 r)"
  shows "\<exists>c'. reaches MPI lib c c' \<and> quiet em c' \<and>
    (\<forall>p \<in> set (filter (is_other (singles n)) [0..n - 1]).
      procs c' p = take_result n X out k p (rs_result n red X p) \<and>
      procs c' (p - 1) = rs_returns n L red X out k (p - 1)) \<and>
    (\<forall>p. p \<notin> set (filter (is_other (singles n)) [0..n - 1]) \<and>
      p \<notin> (\<lambda>p. p - 1) ` set (filter (is_other (singles n)) [0..n - 1]) \<longrightarrow> procs c' p = procs c p)"
proof -
  have n: "1 \<le> n" using R by (simp add: reduce_ok_def)
  let ?B = "rs_blk n red X (rounds n)" and ?O = "rs_out n L red X out (rounds n)"
  let ?ps = "filter (is_other (singles n)) [0..n - 1]"
  let ?F = "\<lambda>p. rs_returns n L red X out k (p - 1)" and ?b = "rs_result n red X"
  have sB: "sized n L (?B r)" if "0 \<le> r" "r < n" "\<not> is_other (singles n) r" for r
    using rs_sized [OF R order_refl that] .
  have lO: "length (?O r) = length (out r)" if "0 \<le> r" "r < n" "\<not> is_other (singles n) r" for r
    using length_rs_out [where out = out, OF R order_refl that] out [OF that(1,2)] by simp
  have Lle: "L r \<le> length (out r)" if "0 \<le> r" "r < n" for r
    using L_le_total [OF that, of L] out [OF that] by simp
  have res: "rs_result n red X r = ?B r r" if "\<not> is_other (singles n) r" for r
    using that by (simp add: rs_result_def)
  note other = partners_with_leaders [OF n, where red = red and X = X]
  have lb: "length (?b p) = L p" if "p \<in> set ?ps" for p
    using other [OF that] sB [of "p - 1"] by (simp add: sized_def)
  show ?thesis
  proof (rule transfer [where src = "\<lambda>p. p - 1" and dst = "\<lambda>p. p + 1" and b = ?b
        and k = "take_result n X out k" and rest = ?F])
    show "distinct ?ps" by simp
    show "quiet em c" by fact
    show "p - 1 \<notin> set ?ps \<and> p - 1 + 1 = p" if "p \<in> set ?ps" for p using other [OF that] by simp
    show "procs c p = Recv (p - 1) (length (?b p)) [] (take_result n X out k p)" if "p \<in> set ?ps" for p
      using other [OF that] lb [OF that] by (simp add: procs after_rounds_def take_result_def [abs_def])
    show "procs c (p - 1) = sends_to p (?b p) (?F p)" if "p \<in> set ?ps" for p
    proof -
      note o = other [OF that]
      have s: "rs_send L (p - 1) (blocks (?B (p - 1)) 0 n, ?O (p - 1)) =
          sends_to p (?B (p - 1) p) (Done (blocks (?B (p - 1)) 0 n, ?B (p - 1) (p - 1) @ drop (L (p - 1)) (?O (p - 1))))"
        using rs_send_state [OF sB [of "p - 1"], of "p - 1" "?O (p - 1)", unfolded diff_add_cancel]
          o lO [of "p - 1"] Lle [of "p - 1"] by simp
      show ?thesis
        using o res [of "p - 1"] s unfolding procs after_rounds_def
        by (simp add: rs_returns_def rs_buffers_def)
    qed
  qed
qed

lemma third_phase:
  assumes R: "reduce_ok n w red L X" and q: "quiet em c"
    and out: "\<And>r. 0 \<le> r \<Longrightarrow> r < n \<Longrightarrow> total L 0 n \<le> length (out r)"
    and procs: "procs c = (\<lambda>r. if 0 \<le> r \<and> r < n then after_rounds n L red X E out k r else p0 r)"
  shows "\<exists>c' fi fo. reaches MPI lib c c' \<and> quiet em c' \<and>
    (\<forall>r. 0 \<le> r \<and> r < n \<longrightarrow> length (fo r) = length (out r)) \<and>
    procs c' = (\<lambda>r. if 0 \<le> r \<and> r < n then k r (fi r, rs_result n red X r @ drop (L r) (fo r)) else p0 r)"
proof -
  have n: "1 \<le> n" using R by (simp add: reduce_ok_def)
  let ?ps = "filter (is_other (singles n)) [0..n - 1]"
  note other = partners_with_leaders [OF n, where red = red and X = X]
  have Lle: "L r \<le> length (out r)" if "0 \<le> r" "r < n" for r
    using L_le_total [OF that, of L] out [OF that] by simp
  have lb: "length (rs_result n red X p) = L p" if "p \<in> set ?ps" for p
    using other [OF that] rs_sized [OF R order_refl, of "p - 1"] by (simp add: sized_def)
  obtain c' where c': "reaches MPI lib c c'" "quiet em c'"
    and got: "\<forall>p \<in> set ?ps. procs c' p = take_result n X out k p (rs_result n red X p) \<and>
      procs c' (p - 1) = rs_returns n L red X out k (p - 1)"
    and rest: "\<forall>p. p \<notin> set ?ps \<and> p \<notin> (\<lambda>p. p - 1) ` set ?ps \<longrightarrow> procs c' p = procs c p"
    using third_exchange [OF R q out procs] by blast
  have img: "0 \<le> r \<and> r < n \<and> leads_two n r" if "r \<in> (\<lambda>p. p - 1) ` set ?ps" for r
    using that other by force
  have "procs c' r = (if 0 \<le> r \<and> r < n then rs_returns n L red X out k r else p0 r)" for r
  proof (cases rule: machine_cases [where r = r and n = n])
    case 1
    then have p: "r \<in> set ?ps" by simp
    then have "procs c' r = take_result n X out k r (rs_result n red X r)" using got by blast
    moreover have "buf_write (out r) 0 (rs_result n red X r) = Inr (rs_result n red X r @ drop (L r) (out r))"
      using Lle [OF 1(1,2)] lb [OF p] by (simp add: buf_write_def)
    ultimately show ?thesis using 1 by (simp add: take_result_def rs_returns_def rs_buffers_def)
  next
    case 2
    have "r + 1 \<in> set ?ps" using leader_has_partner [OF n 2(2,3)] 2(1) by simp
    then have "procs c' (r + 1 - 1) = rs_returns n L red X out k (r + 1 - 1)" using got by blast
    then show ?thesis using 2 by simp
  next
    case 3
    have "r \<notin> (\<lambda>p. p - 1) ` set ?ps" using img [of r] 3 by blast
    moreover have "r \<notin> set ?ps" using 3 by simp
    ultimately have "procs c' r = procs c r" using rest by blast
    moreover have "sized n L (rs_blk n red X (rounds n) r)" using rs_sized [OF R order_refl 3(1,2,4)] .
    ultimately show ?thesis
      using 3 rs_finish_state [of n L _ r "rs_out n L red X out (rounds n) r"] Lle [OF 3(1,2)]
        length_rs_buffers [of n w red L X r out, OF R 3(1,2) out [OF 3(1,2)]]
      by (simp add: procs after_rounds_def rs_returns_def rs_buffers_def rs_result_def)
  next
    case 4
    have "r \<notin> (\<lambda>p. p - 1) ` set ?ps" using img [of r] 4 by blast
    moreover have "r \<notin> set ?ps" using 4 by auto
    ultimately have "procs c' r = procs c r" using rest by blast
    then show ?thesis unfolding procs if_not_P [OF 4] .
  qed
  then have "procs c' = (\<lambda>r. if 0 \<le> r \<and> r < n then rs_returns n L red X out k r else p0 r)" by (intro ext)
  moreover have "\<forall>r. 0 \<le> r \<and> r < n \<longrightarrow> length (snd (rs_buffers n L red X out r)) = length (out r)"
    using length_rs_buffers [of n w red L X _ out, OF R] out by blast
  ultimately show ?thesis
    using c' by - (rule exI [of _ c'], rule exI [of _ "\<lambda>r. fst (rs_buffers n L red X out r)"],
      rule exI [of _ "\<lambda>r. snd (rs_buffers n L red X out r)"], simp add: rs_returns_def cong: if_cong)
qed

lemma ReduceScatter_all:
  assumes R: "reduce_ok n w red L X" and q: "quiet em c"
    and e: "em \<or> (\<forall>j. 0 \<le> j \<and> j < n \<longrightarrow> 0 < L j)" and lib: "em \<Longrightarrow> lib 0"
    and E: "\<And>r. 0 \<le> r \<Longrightarrow> r < n \<Longrightarrow> engine_ok (E r) r n"
    and out: "\<And>r. 0 \<le> r \<Longrightarrow> r < n \<Longrightarrow> total L 0 n \<le> length (out r)"
    and procs: "\<And>r. 0 \<le> r \<Longrightarrow> r < n \<Longrightarrow> procs c r =
      bindp (ReduceScatter (E r) (blocks (X r) 0 n) (int (total L 0 n)) (start_table n L) (len_table n L) (out r) red) (k r)"
  shows "\<exists>c' fi fo. reaches MPI lib c c' \<and> quiet em c' \<and>
    (\<forall>r. 0 \<le> r \<and> r < n \<longrightarrow> length (fo r) = length (out r)) \<and>
    procs c' = (\<lambda>r. if 0 \<le> r \<and> r < n then k r (fi r, rs_result n red X r @ drop (L r) (fo r)) else procs c r)"
proof -
  obtain c1 where c1: "reaches MPI lib c c1" "quiet em c1"
    "procs c1 = (\<lambda>r. if 0 \<le> r \<and> r < n then after_first n L red X E out k r else procs c r)"
    using first_phase [OF R q E out procs] by blast
  obtain c2 where c2: "reaches MPI lib c1 c2" "quiet em c2"
    "procs c2 = (\<lambda>r. if 0 \<le> r \<and> r < n then after_rounds n L red X E out k r else procs c r)"
    using second_phase [where lib = lib, OF R c1(2) e lib E out c1(3)] by blast
  obtain c3 fi fo where c3: "reaches MPI lib c2 c3" "quiet em c3" "\<forall>r. 0 \<le> r \<and> r < n \<longrightarrow> length (fo r) = length (out r)"
    "procs c3 = (\<lambda>r. if 0 \<le> r \<and> r < n then k r (fi r, rs_result n red X r @ drop (L r) (fo r)) else procs c r)"
    using third_phase [where k = k, OF R c2(2) out c2(3)] by blast
  have "reaches MPI lib c c3" using c1(1) c2(1) c3(1) by (blast intro: reaches_trans)
  then show ?thesis using c3(2-4) by blast
qed

lemma rs_result_combined:
  assumes "reduce_ok n w red L X" "0 \<le> r" "r < n"
  shows "combined red (\<lambda>s. X s r) {0..<n} (rs_result n red X r)" "length (rs_result n red X r) = L r"
proof -
  have n: "1 \<le> n" using assms(1) by (simp add: reduce_ok_def)
  show "combined red (\<lambda>s. X s r) {0..<n} (rs_result n red X r)"
    using rs_blk_final [OF n assms(2,3)] by (simp add: rs_result_def)
  let ?l = "lead (singles n) (group_of (singles n) r)"
  have "0 \<le> ?l \<and> ?l < n \<and> \<not> is_other (singles n) ?l"
    using group_shape(3,5) [OF n] group_less [OF n assms(2,3)] by simp
  then have "sized n L (rs_blk n red X (rounds n) ?l)" using rs_sized [OF assms(1) order_refl] by blast
  then show "length (rs_result n red X r) = L r" using assms(2,3) by (simp add: rs_result_def sized_def)
qed

end
