(* ===== verification/Combine.thy ===== *)
theory Combine
  imports Scatter
begin

text \<open>
  \<open>Allreduce\<close>: its block tables, its two ways (all-gather and reduce, or reduce-scatter and
  all-gather), and what every machine ends with.
\<close>

section \<open>The block tables\<close>

definition same_len :: "nat \<Rightarrow> int \<Rightarrow> nat" where "same_len N j = N"

lemma total_same: "0 \<le> j \<Longrightarrow> total (same_len N) 0 j = nat j * N"
proof -
  have "sum_list (map (same_len N) xs) = length xs * N" for xs
    by (induction xs) (simp_all add: same_len_def)
  then show "0 \<le> j \<Longrightarrow> total (same_len N) 0 j = nat j * N" by (simp add: total_def)
qed

lemma table_eqI:
  assumes "length xs = nat n" "\<And>j. 0 \<le> j \<Longrightarrow> j < n \<Longrightarrow> xs ! nat j = f j"
  shows "xs = map f [0..n - 1]"
proof (rule nth_equalityI)
  show "length xs = length (map f [0..n - 1])" using assms(1) by simp
  fix i assume "i < length xs"
  then show "xs ! i = map f [0..n - 1] ! i" using assms(1) assms(2) [of "int i"] by (simp add: nth_upto)
qed

lemma equal_blocks_tables:
  assumes "1 \<le> n"
  shows "equal_blocks n (int N) = (start_table n (same_len N), len_table n (same_len N))"
proof -
  let ?f = "\<lambda>i (st, ln). (st[nat i := st ! nat (i - 1) + ln ! nat (i - 1)], ln[nat i := int N])"
  let ?s0 = "((replicate (nat n) 0)[0 := 0], (replicate (nat n) 0)[0 := int N]) :: int list \<times> int list"
  have "int m \<le> n - 1 \<Longrightarrow> \<exists>st ln. fold ?f [1..int m] ?s0 = (st, ln) \<and> length st = nat n \<and> length ln = nat n \<and>
    (\<forall>j. 0 \<le> j \<and> j \<le> int m \<longrightarrow> st ! nat j = j * int N \<and> ln ! nat j = int N)" for m
  proof (induction m)
    case 0
    then show ?case using assms by (auto simp: nth_list_update)
  next
    case (Suc m)
    then obtain st ln where s: "fold ?f [1..int m] ?s0 = (st, ln)" "length st = nat n" "length ln = nat n"
      "\<forall>j. 0 \<le> j \<and> j \<le> int m \<longrightarrow> st ! nat j = j * int N \<and> ln ! nat j = int N" by auto
    have up: "[1..int (Suc m)] = [1..int m] @ [int m + 1]" by (simp add: upto_rec2 add.commute)
    have prev: "st ! m = int m * int N" "ln ! m = int N" using s(4) [rule_format, of "int m"] by simp_all
    have idx: "nat (int m + 1) = Suc m" "Suc m < nat n" using Suc.prems by simp_all
    have st: "fold ?f [1..int (Suc m)] ?s0 = (st[Suc m := (int m + 1) * int N], ln[Suc m := int N])"
      unfolding up by (simp add: s(1) prev idx distrib_right)
    have "(st[Suc m := (int m + 1) * int N]) ! nat j = j * int N \<and> (ln[Suc m := int N]) ! nat j = int N"
      if "0 \<le> j" "j \<le> int (Suc m)" for j
    proof (cases "j = int m + 1")
      case True
      then show ?thesis using idx s(2,3) by simp
    next
      case False
      then have "j \<le> int m" "nat j \<noteq> Suc m" using that by simp_all
      then show ?thesis using s(4) that(1) by simp
    qed
    then show ?case unfolding st using s(2,3) by auto
  qed
  from this [of "nat (n - 1)"] assms obtain st ln where s: "fold ?f [1..n - 1] ?s0 = (st, ln)" "length st = nat n"
    "length ln = nat n" "\<forall>j. 0 \<le> j \<and> j \<le> n - 1 \<longrightarrow> st ! nat j = j * int N \<and> ln ! nat j = int N" by auto
  have "st = start_table n (same_len N)" "ln = len_table n (same_len N)"
    unfolding start_table_def len_table_def
    using s(2-4) by (auto intro!: table_eqI simp: total_same same_len_def)
  then show ?thesis using s(1) by (simp add: equal_blocks_def)
qed

text \<open>The blocks of \<open>Allreduce\<close>: \<open>s\<close> bytes each as long as there are some, the rest in the last one.\<close>

definition cut_at :: "nat \<Rightarrow> nat \<Rightarrow> int \<Rightarrow> int \<Rightarrow> nat" where
  "cut_at N s n j = (if j < n then min N (nat j * s) else N)"

definition cut_len :: "nat \<Rightarrow> nat \<Rightarrow> int \<Rightarrow> int \<Rightarrow> nat" where
  "cut_len N s n j = cut_at N s n (j + 1) - cut_at N s n j"

lemma cut_at_mono: "0 \<le> j \<Longrightarrow> cut_at N s n j \<le> cut_at N s n (j + 1)"
  by (auto simp: cut_at_def intro!: min.coboundedI2 mult_le_mono1)

lemma total_cut:
  assumes "1 \<le> n" "0 \<le> j" "j \<le> n"
  shows "total (cut_len N s n) 0 j = cut_at N s n j"
proof -
  have "int m \<le> n \<Longrightarrow> total (cut_len N s n) 0 (int m) = cut_at N s n (int m)" for m
  proof (induction m)
    case 0
    then show ?case using assms(1) by (simp add: total_def cut_at_def)
  next
    case (Suc m)
    have e: "int (Suc m) = int m + 1" by simp
    have "total (cut_len N s n) 0 (int m + 1) = total (cut_len N s n) 0 (int m) + cut_len N s n (int m)"
      using total_split [of 0 "int m" "int m + 1" "cut_len N s n"] total_single by simp
    moreover have "cut_len N s n (int m) = cut_at N s n (int m + 1) - cut_at N s n (int m)" by (rule cut_len_def)
    ultimately show ?case
      using Suc cut_at_mono [of "int m" N s n] unfolding e by simp
  qed
  from this [of "nat j"] show ?thesis using assms by simp
qed

lemma cut_dvd: "w dvd N \<Longrightarrow> w dvd s \<Longrightarrow> w dvd cut_len N s n j"
  by (auto simp: cut_len_def cut_at_def min_def intro!: dvd_diff_nat)

lemma cut_pos:
  assumes "n * int s = int N" "0 < N" "0 \<le> j" "j < n"
  shows "0 < cut_len N s n j"
proof -
  have "0 < s" using assms(1,2) by (cases s) auto
  have "(j + 1) * int s \<le> n * int s" using assms(4) by (intro mult_right_mono) simp_all
  then have "int ((nat j + 1) * s) \<le> int N" using assms(1,3) by (simp add: algebra_simps)
  then have le: "(nat j + 1) * s \<le> N" by (simp only: of_nat_le_iff)
  then have "cut_at N s n (j + 1) \<ge> (nat j + 1) * s" using assms(3) by (simp add: cut_at_def nat_add_distrib)
  moreover have "cut_at N s n j = nat j * s" using le assms(4) by (simp add: cut_at_def)
  ultimately show ?thesis using \<open>0 < s\<close> by (simp add: cut_len_def)
qed

lemma allreduce_blocks_tables:
  assumes n: "1 \<le> n" and w: "0 < w" "w dvd N" and large: "int (N div w) \<ge> n"
  shows "\<exists>s. w dvd s \<and> (n dvd int (N div w) \<longrightarrow> n * int s = int N) \<and> allreduce_blocks n (int N) (int w) =
    (start_table n (cut_len N s n), len_table n (cut_len N s n))"
proof -
  let ?step = "(int N div int w + n - 1) div n"
  have "1 \<le> ?step" using n large by (simp add: zdiv_int [symmetric] pos_imp_zdiv_pos_iff int_one_le_iff_zero_less)
  then have step: "(if ?step < 1 then 1 else ?step) = ?step" by simp
  define s where "s = nat ?step * w"
  have s: "?step * int w = int s" using \<open>1 \<le> ?step\<close> by (simp add: s_def)
  have even: "n * int s = int N" if ev: "n dvd int (N div w)"
  proof -
    obtain q where q: "int (N div w) = n * q" using ev by (rule dvdE)
    have "(n * q + n - 1) div n = q" using n by (intro int_div_pos_eq [where r = "n - 1"]) auto
    then have "?step = q" using q by (simp add: zdiv_int)
    then have "n * int s = int (N div w) * int w" unfolding s [symmetric] q by simp
    then show ?thesis using w(2) by (simp flip: of_nat_mult)
  qed
  let ?f = "\<lambda>i (st, ln). let l = (if int s < int N - st ! nat i then int s else int N - st ! nat i) in
    (st[nat (i + 1) := st ! nat i + l], ln[nat i := l])"
  let ?s0 = "(replicate (nat n) 0, replicate (nat n) 0) :: int list \<times> int list"
  let ?c = "\<lambda>j. int (cut_at N s n j)"
  have "int m \<le> n - 1 \<Longrightarrow> \<exists>st ln. fold ?f [0..int m - 1] ?s0 = (st, ln) \<and> length st = nat n \<and> length ln = nat n \<and>
    (\<forall>j. 0 \<le> j \<and> j \<le> int m \<longrightarrow> st ! nat j = ?c j) \<and> (\<forall>j. 0 \<le> j \<and> j < int m \<longrightarrow> ln ! nat j = int (cut_len N s n j))" for m
  proof (induction m)
    case 0
    then show ?case using n by (auto simp: cut_at_def)
  next
    case (Suc m)
    then obtain st ln where st: "fold ?f [0..int m - 1] ?s0 = (st, ln)" "length st = nat n" "length ln = nat n"
      "\<forall>j. 0 \<le> j \<and> j \<le> int m \<longrightarrow> st ! nat j = ?c j" "\<forall>j. 0 \<le> j \<and> j < int m \<longrightarrow> ln ! nat j = int (cut_len N s n j)"
      by auto
    have up: "[0..int (Suc m) - 1] = [0..int m - 1] @ [int m]" by (simp add: upto_rec2)
    have prev: "st ! m = ?c (int m)" using st(4) [rule_format, of "int m"] by simp
    have m: "int m + 1 < n" "int m < n" using Suc.prems by simp_all
    define M where "M = m * s"
    have c: "cut_at N s n (int m) = min N M" "cut_at N s n (int m + 1) = min N (M + s)"
      using m by (simp_all add: cut_at_def nat_add_distrib M_def)
    have l: "(if int s < int N - ?c (int m) then int s else int N - ?c (int m)) = int (cut_len N s n (int m))"
      "?c (int m) + int (cut_len N s n (int m)) = ?c (int m + 1)"
      unfolding cut_len_def c by (auto simp: min_def of_nat_diff)
    have idx: "nat (int m + 1) = Suc m" "Suc m < nat n" "m < nat n" using m by simp_all
    have step: "fold ?f [0..int (Suc m) - 1] ?s0 = (st[Suc m := ?c (int m + 1)], ln[m := int (cut_len N s n (int m))])"
      unfolding up fold_append comp_apply st(1)
      by (simp only: fold_simps prod.case Let_def nat_int prev l idx)
    have "(st[Suc m := ?c (int m + 1)]) ! nat j = ?c j" if "0 \<le> j" "j \<le> int (Suc m)" for j
      using st(2,4) that idx by (cases "j = int m + 1") (auto simp: nth_list_update)
    moreover have "(ln[m := int (cut_len N s n (int m))]) ! nat j = int (cut_len N s n j)" if "0 \<le> j" "j < int (Suc m)" for j
      using st(3,5) that idx by (cases "j = int m") (auto simp: nth_list_update)
    ultimately show ?case unfolding step using st(2,3) by auto
  qed
  from this [of "nat (n - 1)"] n obtain st ln where st: "fold ?f [0..n - 2] ?s0 = (st, ln)" "length st = nat n" "length ln = nat n"
      "\<forall>j. 0 \<le> j \<and> j \<le> n - 1 \<longrightarrow> st ! nat j = ?c j" "\<forall>j. 0 \<le> j \<and> j < n - 1 \<longrightarrow> ln ! nat j = int (cut_len N s n j)"
    by auto
  let ?ln = "ln[nat (n - 1) := int N - st ! nat (n - 1)]"
  have last: "int N - st ! nat (n - 1) = int (cut_len N s n (n - 1))"
    using st(4) n by (simp add: cut_len_def cut_at_def of_nat_diff)
  have 1: "st = start_table n (cut_len N s n)"
    unfolding start_table_def using st(2,4) n by (intro table_eqI) (simp_all add: total_cut)
  have 2: "?ln = len_table n (cut_len N s n)"
  proof (unfold len_table_def, rule table_eqI)
    show "length ?ln = nat n" using st(3) by simp
    show "?ln ! nat j = int (cut_len N s n j)" if "0 \<le> j" "j < n" for j
      using that st(3,5) last n by (cases "j = n - 1") (auto simp: nth_list_update)
  qed
  have A: "allreduce_blocks n (int N) (int w) = (st, ?ln)"
    unfolding allreduce_blocks_def Let_def step s st(1) [unfolded Let_def] prod.case ..
  have W: "w dvd s" unfolding s_def by (rule dvd_triv_right)
  have "n dvd int (N div w) \<longrightarrow> n * int s = int N" using even by blast
  then show ?thesis by (intro exI [of _ s] conjI W) (simp_all only: A 2 1 [symmetric])
qed

section \<open>Elements\<close>

definition elem :: "nat \<Rightarrow> nat \<Rightarrow> blob \<Rightarrow> blob" where
  "elem w i b = take w (drop (i * w) b)"

lemma elem_mid: "length p = i * w \<Longrightarrow> length e = w \<Longrightarrow> elem w i (p @ e @ t) = e"
  by (simp add: elem_def)

lemma elementwise_elem:
  assumes e: "elementwise w red" and len: "length u = N" "length v = N" and i: "(i + 1) * w \<le> N"
  shows "elem w i (red u v) = red (elem w i u) (elem w i v)"
proof -
  let ?p = "\<lambda>x. take (i * w) x" and ?t = "\<lambda>x. drop w (drop (i * w) x)"
  have split: "x = ?p x @ elem w i x @ ?t x" for x :: blob by (simp add: elem_def del: drop_drop)
  have l: "length (?p x) = i * w" "length (elem w i x) = w" "length (?t x) = N - i * w - w" if "length x = N" for x :: blob
    using that i by (simp_all add: elem_def)
  note l' = l [OF len(1)] l [OF len(2)]
  have app: "red (a @ a') (b @ b') = red a b @ red a' b'" if "length a = length b" "length a' = length b'" "w dvd length a"
    for a b a' b' using e that by (simp add: elementwise_def)
  have "red u v = red (?p u @ elem w i u @ ?t u) (?p v @ elem w i v @ ?t v)" using split [of u] split [of v] by simp
  also have "\<dots> = red (?p u) (?p v) @ red (elem w i u) (elem w i v) @ red (?t u) (?t v)"
    using l' by (simp add: app)
  finally have r: "red u v = red (?p u) (?p v) @ red (elem w i u) (elem w i v) @ red (?t u) (?t v)" .
  have "length (red (?p u) (?p v)) = i * w" "length (red (elem w i u) (elem w i v)) = w"
    using e l' by (simp_all add: elementwise_def)
  then show ?thesis unfolding r by (rule elem_mid)
qed

lemma combined_elem:
  assumes "combined red X S v" and e: "elementwise w red" and "\<forall>r \<in> S. length (X r) = N" and i: "(i + 1) * w \<le> N"
  shows "length v = N \<and> combined red (\<lambda>r. elem w i (X r)) S (elem w i v)"
  using assms(1,3)
proof (induction rule: combined.induct)
  case (combined_one r)
  then show ?case using combined.combined_one [of red "\<lambda>r. elem w i (X r)" r] by simp
next
  case (combined_two A u B v)
  then have "length u = N" "length v = N" by simp_all
  then show ?case
    using combined_two elementwise_elem [OF e _ _ i] e combined.combined_two [of red "\<lambda>r. elem w i (X r)"]
    by (simp add: elementwise_def)
qed

lemma combined_cong: "combined f X S v \<Longrightarrow> (\<And>r. r \<in> S \<Longrightarrow> X r = Y r) \<Longrightarrow> combined f Y S v"
proof (induction rule: combined.induct)
  case (combined_one r)
  then show ?case using combined.combined_one [of f Y r] by simp
next
  case (combined_two A u B v)
  then show ?case by (intro combined.combined_two) auto
qed

text \<open>Every element lies in one of the blocks.\<close>

lemma elem_in_block:
  assumes "0 < w" and "\<forall>j. 0 \<le> j \<and> j < int m \<longrightarrow> w dvd L j" and "(i + 1) * w \<le> total L 0 (int m)"
  shows "\<exists>j l. 0 \<le> j \<and> j < int m \<and> (l + 1) * w \<le> L j \<and>
    (\<forall>B. sized (int m) L B \<longrightarrow> elem w i (blocks B 0 (int m)) = elem w l (B j))"
  using assms(2,3)
proof (induction m)
  case 0
  then show ?case using assms(1) by (simp add: total_def)
next
  case (Suc m)
  have e: "int (Suc m) = int m + 1" by simp
  have tot: "total L 0 (int m + 1) = total L 0 (int m) + L (int m)"
    using total_split [of 0 "int m" "int m + 1" L] total_single by simp
  have bl: "blocks B 0 (int m + 1) = blocks B 0 (int m) @ B (int m)" for B
    using blocks_split [of 0 "int m" "int m + 1" B] blocks_single by simp
  have len: "length (blocks B 0 (int m)) = total L 0 (int m)" if "sized (int (Suc m)) L B" for B
    using that by (intro length_blocks [where n = "int m"]) (auto simp: sized_def)
  show ?case
  proof (cases "(i + 1) * w \<le> total L 0 (int m)")
    case True
    have "\<forall>j. 0 \<le> j \<and> j < int m \<longrightarrow> w dvd L j" using Suc.prems(1) by auto
    then obtain j l where jl: "0 \<le> j" "j < int m" "(l + 1) * w \<le> L j"
      "\<And>B. sized (int m) L B \<Longrightarrow> elem w i (blocks B 0 (int m)) = elem w l (B j)"
      using Suc.IH True by blast
    have "elem w i (blocks B 0 (int (Suc m))) = elem w l (B j)" if B: "sized (int (Suc m)) L B" for B
    proof -
      have "i * w + w \<le> length (blocks B 0 (int m))" using True len [OF B] by simp
      then have "elem w i (blocks B 0 (int m + 1)) = elem w i (blocks B 0 (int m))"
        unfolding bl by (simp add: elem_def)
      moreover have "sized (int m) L B" using B by (auto simp: sized_def)
      ultimately show ?thesis using jl(4) by (simp only: e)
    qed
    then show ?thesis using jl(1-3) by (intro exI [of _ j] exI [of _ l]) simp
  next
    case False
    let ?T = "total L 0 (int m)"
    have "w dvd ?T" unfolding total_def using Suc.prems(1) by (intro dvd_sum) auto
    then obtain t where t: "?T = t * w" by (metis dvd_def mult.commute)
    have "t \<le> i"
    proof (rule ccontr)
      assume "\<not> t \<le> i"
      then have "i + 1 \<le> t" by simp
      then have "(i + 1) * w \<le> t * w" by (rule mult_le_mono1)
      then show False using False unfolding t by blast
    qed
    then have it: "(i - t) * w = i * w - ?T" "?T \<le> i * w" unfolding t by (simp_all add: diff_mult_distrib)
    have "((i - t) + 1) * w \<le> L (int m)"
      using Suc.prems(2) it unfolding e tot by (simp add: add_mult_distrib)
    moreover have "elem w i (blocks B 0 (int (Suc m))) = elem w (i - t) (B (int m))" if B: "sized (int (Suc m)) L B" for B
      using len [OF B] it unfolding e bl by (simp add: elem_def)
    ultimately show ?thesis by (intro exI [of _ "int m"] exI [of _ "i - t"]) simp
  qed
qed

text \<open>A buffer is made of its slices.\<close>

definition slices :: "(int \<Rightarrow> nat) \<Rightarrow> blob \<Rightarrow> int \<Rightarrow> blob" where
  "slices L b j = take (L j) (drop (total L 0 j) b)"

lemma slices_blocks:
  assumes "0 \<le> n" "length b = total L 0 n"
  shows "blocks (slices L b) 0 n = b" "sized n L (slices L b)"
proof -
  have "int m \<le> n \<Longrightarrow> blocks (slices L b) 0 (int m) = take (total L 0 (int m)) b" for m
  proof (induction m)
    case 0
    then show ?case by (simp add: blocks_def total_def)
  next
    case (Suc m)
    have e: "int (Suc m) = int m + 1" by simp
    have "total L 0 (int m + 1) = total L 0 (int m) + L (int m)"
      using total_split [of 0 "int m" "int m + 1" L] total_single by simp
    then show ?case
      using Suc blocks_split [of 0 "int m" "int m + 1" "slices L b"] blocks_single [of "slices L b" "int m"]
        slices_def [of L b "int m"]
      unfolding e by (simp add: take_add)
  qed
  from this [of "nat n"] show "blocks (slices L b) 0 n = b" using assms by simp
  have "L j \<le> length b - total L 0 j" if "0 \<le> j" "j < n" for j
    using total_split [of 0 "j + 1" n L] total_split [of 0 j "j + 1" L] total_single [of L j] that assms(2) by simp
  then show "sized n L (slices L b)" by (simp add: sized_def slices_def)
qed

section \<open>The two ways\<close>

text \<open>The machines' inputs \<open>x r\<close>; what they reduce to in the order of the ranks.\<close>

primrec reduce_upto :: "(blob \<Rightarrow> blob \<Rightarrow> blob) \<Rightarrow> (int \<Rightarrow> blob) \<Rightarrow> nat \<Rightarrow> blob" where
  "reduce_upto red x 0 = x 0"
| "reduce_upto red x (Suc m) = red (x (int m + 1)) (reduce_upto red x m)"

lemma reduce_upto_combined: "combined red x {0..int m} (reduce_upto red x m)"
proof (induction m)
  case 0
  then show ?case using combined_one [of red x 0] by simp
next
  case (Suc m)
  have "{0..int (Suc m)} = {int m + 1} \<union> {0..int m}" by auto
  then show ?case using combined_two [OF combined_one [of red x "int m + 1"] Suc] by simp
qed

lemma length_reduce_upto:
  assumes "elementwise w red" "\<forall>r. 0 \<le> r \<and> r \<le> int m \<longrightarrow> length (x r) = N"
  shows "length (reduce_upto red x m) = N"
  using assms(2)
proof (induction m)
  case (Suc m)
  then have "length (reduce_upto red x m) = N" "length (x (int m + 1)) = N" by simp_all
  then show ?case using assms(1) unfolding elementwise_def by simp
qed simp

lemma reduce_loop:
  assumes e: "elementwise w red" and x: "\<forall>r. 0 \<le> r \<and> r < n \<longrightarrow> length (x r) = N" and m: "int m \<le> n - 1" and n: "1 \<le> n"
  shows "fold_res (\<lambda>buf i. bind_res (vec_at (start_table n (same_len N)) i) (\<lambda>at.
      bind_res (buf_read buf (nat at) (nat (int N))) (\<lambda>src.
      bind_res (vec_at (start_table n (same_len N)) 0) (\<lambda>to.
      bind_res (buf_read buf (nat to) (nat (int N))) (\<lambda>dst.
      buf_write buf (nat to) (red src dst)))))) (blocks x 0 n @ rest) [1..int m]
    = Inr (reduce_upto red x m @ blocks x 1 n @ rest)"
  using m
proof (induction m)
  case 0
  then show ?case using n blocks_split [of 0 1 n x] blocks_single [of x 0] by simp
next
  case (Suc m)
  let ?a = "reduce_upto red x m" and ?j = "int m + 1"
  have up: "[1..int (Suc m)] = [1..int m] @ [?j]" by (simp add: upto_rec2 add.commute)
  have sz: "sized n (same_len N) x" using x by (simp add: sized_def same_len_def)
  have j: "0 \<le> ?j" "?j < n" using Suc.prems by simp_all
  have la: "length ?a = N" using length_reduce_upto [OF e, of m x N] x Suc.prems by simp
  have split: "blocks x 1 n = blocks x 1 ?j @ x ?j @ blocks x (?j + 1) n"
    using blocks_split [of 1 ?j n x] blocks_split [of ?j "?j + 1" n x] blocks_single [of x ?j] j by simp
  have l1: "length (blocks x 1 ?j) = m * N"
    using length_blocks [OF sz, of 1 ?j] total_split [of 0 1 ?j "same_len N"] total_same [of 1 N] total_same [of ?j N] j
    by (simp add: nat_add_distrib)
  define K where "K = (m + 1) * N"
  have at: "vec_at (start_table n (same_len N)) ?j = Inr (int K)" "vec_at (start_table n (same_len N)) 0 = Inr 0"
    using start_table_at [OF j, of "same_len N"] start_table_at [of 0 n "same_len N"] n total_same [of ?j N] total_same [of 0 N]
    by (simp_all add: nat_add_distrib K_def)
  have "length (x ?j) = N" using x j by simp
  then have rd: "buf_read (?a @ blocks x 1 n @ rest) K N = Inr (x ?j)"
    "buf_read (?a @ blocks x 1 n @ rest) 0 N = Inr ?a" "length (red (x ?j) ?a) = N"
    using la l1 e unfolding split K_def by (simp_all add: buf_read_def elementwise_def)
  then have wr: "buf_write (?a @ blocks x 1 n @ rest) 0 (red (x ?j) ?a) = Inr (reduce_upto red x (Suc m) @ blocks x 1 n @ rest)"
    using la by (simp add: buf_write_def)
  have "int m \<le> n - 1" using Suc.prems by simp
  note IH = Suc.IH [OF this]
  show ?case
    unfolding up fold_res_append IH bind_res_simps
    using at rd wr by simp
qed

lemma by_gather_all:
  assumes n: "1 \<le> n" and q: "quiet em c" and e: "elementwise w red" and N: "0 < N"
    and small: "int N * n < 2 ^ 31" and lib: "em \<Longrightarrow> lib 0"
    and E: "\<And>r. 0 \<le> r \<Longrightarrow> r < n \<Longrightarrow> engine_ok (E r) r n"
    and x: "\<And>r. 0 \<le> r \<Longrightarrow> r < n \<Longrightarrow> length (x r) = N"
    and out: "\<And>r. 0 \<le> r \<Longrightarrow> r < n \<Longrightarrow> N \<le> length (out r)"
    and procs: "\<And>r. 0 \<le> r \<Longrightarrow> r < n \<Longrightarrow> procs c r = AllreduceByAllGather (E r) (x r) (int N) (out r) red"
  shows "\<exists>c'. reaches MPI lib c c' \<and> quiet em c' \<and> (\<forall>r. 0 \<le> r \<and> r < n \<longrightarrow>
      (\<exists>E'. procs c' r = Done (E', reduce_upto red x (nat (n - 1)) @ drop N (out r)))) \<and>
    (\<forall>r. \<not> (0 \<le> r \<and> r < n) \<longrightarrow> procs c' r = procs c r)"
proof -
  let ?L = "same_len N" and ?V = "reduce_upto red x (nat (n - 1))"
  have sz: "sized n ?L x" using x by (simp add: sized_def same_len_def)
  have all: "gathered n x 0 (nat n) = blocks x 0 n" using blocks_gathered [of n n x] n by simp
  have tot: "length (blocks x 0 n) = nat n * N" using length_blocks [OF sz, of 0 n] total_same [of n N] n by simp
  have sizes: "int N * n = int (nat n * N)" using n by simp
  have nN: "nat n * N < 2 ^ 31" using small unfolding sizes by (simp only: of_nat_less_iff [where 'a = int, symmetric]) simp
  then have fits: "fits_int (int (nat n * N))" "nat n * N < 2 ^ 31" by (simp_all only: fits_int_nat)
  have some: "no_block_empty n x" using x N by (force simp: no_block_empty_def)
  let ?buf = "\<lambda>r. if int (length (engine_buffer (E r))) < int N * n then replicate (nat (int N * n)) 0 else engine_buffer (E r)"
  have "M \<le> length (if int (length b) < int M then replicate (nat (int M)) 0 else b)" for M and b :: blob by simp
  then have len: "nat n * N \<le> length (?buf r)" for r unfolding sizes .
  let ?k = "\<lambda>r gathered. lift (fold_res (\<lambda>buf i. bind_res (vec_at (start_table n ?L) i) (\<lambda>at.
      bind_res (buf_read buf (nat at) (nat (int N))) (\<lambda>src.
      bind_res (vec_at (start_table n ?L) 0) (\<lambda>to.
      bind_res (buf_read buf (nat to) (nat (int N))) (\<lambda>dst.
      buf_write buf (nat to) (red src dst)))))) gathered [1..n - 1]) (\<lambda>buffer'.
      lift (buf_read buffer' 0 (nat (int N))) (\<lambda>result.
      lift (buf_write (out r) 0 result) (\<lambda>output'. Done ((E r)\<lparr>engine_buffer := buffer'\<rparr>, output'))))"
  have "\<exists>c'. reaches MPI lib c c' \<and> quiet em c' \<and> procs c' = (\<lambda>r. if 0 \<le> r \<and> r < n
      then ?k r (gathered n x 0 (nat n) @ drop (length (gathered n x 0 (nat n))) (?buf r)) else procs c r)"
  proof (rule Allgather_all [where input = x])
    show "1 \<le> n" "quiet em c" "em \<or> no_block_empty n x" using n q some by simp_all
    show "length (gathered n x 0 (nat n)) < 2 ^ 31" unfolding all tot by (rule fits(2))
    show "em \<Longrightarrow> lib 0" by (rule lib)
    show "engine_ok (E r) r n" if "0 \<le> r" "r < n" for r using E that .
    show "length (gathered n x 0 (nat n)) \<le> length (?buf r)" if "0 \<le> r" "r < n" for r
      unfolding all tot by (rule len)
    show "length (x r) \<le> length (x r) \<and> take (length (x r)) (x r) = x r" for r by simp
    show "procs c r = bindp (Allgather (E r) (x r) (int (length (gathered n x 0 (nat n)))) (block_starts n x) (block_lens n x) (?buf r)) (?k r)"
      if "0 \<le> r" "r < n" for r
    proof -
      have num: "num_of_machines (E r) = n" using E [OF that] by (simp add: engine_ok_def)
      show ?thesis
        unfolding procs [OF that] AllreduceByAllGather_def Let_def num equal_blocks_tables [OF n] prod.case all tot
          tables [OF sz] sizes int_result_fits [OF fits(1)] lift_simps by simp
    qed
  qed
  then obtain c' where c': "reaches MPI lib c c'" "quiet em c'" "procs c' = (\<lambda>r. if 0 \<le> r \<and> r < n
      then ?k r (gathered n x 0 (nat n) @ drop (length (gathered n x 0 (nat n))) (?buf r)) else procs c r)" by blast
  have "\<exists>E'. procs c' r = Done (E', ?V @ drop N (out r))" if r: "0 \<le> r" "r < n" for r
  proof -
    have lV: "length ?V = N" using length_reduce_upto [OF e, of "nat (n - 1)" x N] x n by simp
    have "fold_res (\<lambda>buf i. bind_res (vec_at (start_table n ?L) i) (\<lambda>at.
      bind_res (buf_read buf (nat at) (nat (int N))) (\<lambda>src.
      bind_res (vec_at (start_table n ?L) 0) (\<lambda>to.
      bind_res (buf_read buf (nat to) (nat (int N))) (\<lambda>dst.
      buf_write buf (nat to) (red src dst)))))) (blocks x 0 n @ drop (nat n * N) (?buf r)) [1..n - 1]
      = Inr (?V @ blocks x 1 n @ drop (nat n * N) (?buf r))"
      using reduce_loop [OF e, of n x N "nat (n - 1)"] x n by simp
    then show ?thesis
      using r lV out [OF r] unfolding c'(3) all tot by (simp add: buf_read_def buf_write_def)
  qed
  then show ?thesis using c' by (intro exI [of _ c']) auto
qed

lemma by_scatter_all:
  assumes R: "reduce_ok n w red L X" and q: "quiet em c" and N: "total L 0 n = N"
    and e: "em \<or> (\<forall>j. 0 \<le> j \<and> j < n \<longrightarrow> 0 < L j)" and lib: "em \<Longrightarrow> lib 0"
    and E: "\<And>r. 0 \<le> r \<Longrightarrow> r < n \<Longrightarrow> engine_ok (E r) r n"
    and out: "\<And>r. 0 \<le> r \<Longrightarrow> r < n \<Longrightarrow> N \<le> length (out r)"
    and procs: "\<And>r. 0 \<le> r \<Longrightarrow> r < n \<Longrightarrow> procs c r =
      bindp (ReduceScatter (E r) (blocks (X r) 0 n) (int N) (start_table n L) (len_table n L) (out r) red)
        (\<lambda>(input', output'). bindp (Allgather (E r) output' (int N) (start_table n L) (len_table n L) output')
          (\<lambda>result. Done (E r, result)))"
  shows "\<exists>c'. reaches MPI lib c c' \<and> quiet em c' \<and> (\<forall>r. 0 \<le> r \<and> r < n \<longrightarrow>
      (\<exists>E' rest. procs c' r = Done (E', blocks (rs_result n red X) 0 n @ rest) \<and> N + length rest = length (out r))) \<and>
    (\<forall>r. \<not> (0 \<le> r \<and> r < n) \<longrightarrow> procs c' r = procs c r)"
proof -
  have n: "1 \<le> n" using R by (simp add: reduce_ok_def)
  let ?V = "rs_result n red X"
  have sz: "sized n L ?V" using rs_result_combined(2) [OF R] by (simp add: sized_def)
  have all: "gathered n ?V 0 (nat n) = blocks ?V 0 n" "length (blocks ?V 0 n) = N"
    using blocks_gathered [of n n ?V] n length_blocks [OF sz, of 0 n] N by simp_all
  let ?k = "\<lambda>r (input' :: blob, output'). bindp (Allgather (E r) output' (int N) (start_table n L) (len_table n L) output')
          (\<lambda>result. Done (E r, result))"
  obtain c1 fi fo where c1: "reaches MPI lib c c1" "quiet em c1" "\<forall>r. 0 \<le> r \<and> r < n \<longrightarrow> length (fo r) = length (out r)"
    "procs c1 = (\<lambda>r. if 0 \<le> r \<and> r < n then ?k r (fi r, ?V r @ drop (L r) (fo r)) else procs c r)"
    using ReduceScatter_all [where lib = lib, OF R q e lib E, where out = out and k = ?k] out procs N by blast
  have some: "em \<or> no_block_empty n ?V" using e sz by (force simp: no_block_empty_def sized_def)
  let ?O = "\<lambda>r. ?V r @ drop (L r) (fo r)"
  have lO: "length (?O r) = length (out r)" if "0 \<le> r" "r < n" for r
    using that c1(3) sz out [OF that] L_le_total [OF that, of L] N by (simp add: sized_def)
  have "\<exists>c'. reaches MPI lib c1 c' \<and> quiet em c' \<and> procs c' = (\<lambda>r. if 0 \<le> r \<and> r < n
      then Done (E r, gathered n ?V 0 (nat n) @ drop (length (gathered n ?V 0 (nat n))) (?O r)) else procs c1 r)"
  proof (rule Allgather_all [where input = ?O and out = ?O and blk = ?V and E = E])
    show "1 \<le> n" "quiet em c1" "em \<or> no_block_empty n ?V" using n c1(2) some by simp_all
    show "length (gathered n ?V 0 (nat n)) < 2 ^ 31" using R N unfolding all by (simp add: reduce_ok_def)
    show "em \<Longrightarrow> lib 0" by (rule lib)
    show "engine_ok (E r) r n" if "0 \<le> r" "r < n" for r using E that .
    show "length (gathered n ?V 0 (nat n)) \<le> length (?O r)" if "0 \<le> r" "r < n" for r
      using lO [OF that] out [OF that] unfolding all by simp
    show "length (?V r) \<le> length (?O r) \<and> take (length (?V r)) (?O r) = ?V r" for r by simp
    show "procs c1 r = bindp (Allgather (E r) (?O r) (int (length (gathered n ?V 0 (nat n)))) (block_starts n ?V) (block_lens n ?V) (?O r))
        (\<lambda>result. Done (E r, result))" if "0 \<le> r" "r < n" for r
      using that by (simp add: c1(4) all tables [OF sz])
  qed
  then obtain c' where c': "reaches MPI lib c1 c'" "quiet em c'" "procs c' = (\<lambda>r. if 0 \<le> r \<and> r < n
      then Done (E r, gathered n ?V 0 (nat n) @ drop (length (gathered n ?V 0 (nat n))) (?O r)) else procs c1 r)" by blast
  have "procs c' r = Done (E r, blocks ?V 0 n @ drop N (?O r)) \<and> N + length (drop N (?O r)) = length (out r)"
    if "0 \<le> r" "r < n" for r
    using that lO [OF that] out [OF that] by (simp add: c'(3) all)
  moreover have "procs c' r = procs c r" if "\<not> (0 \<le> r \<and> r < n)" for r
    using that by (auto simp: c'(3) c1(4))
  moreover have "reaches MPI lib c c'" using c1(1) c'(1) by (rule reaches_trans)
  ultimately show ?thesis using c'(2) by (intro exI [of _ c']) blast
qed

section \<open>Allreduce\<close>

definition allreduce_start ::
  "blob list \<Rightarrow> nat \<Rightarrow> (nat \<Rightarrow> blob) \<Rightarrow> (blob \<Rightarrow> blob \<Rightarrow> blob) \<Rightarrow> (engine \<times> blob) net" where
  "allreduce_start xs w out red = start (\<lambda>r. if 0 \<le> r \<and> r < int (length xs)
     then Allreduce (engine_Init MPI r (int (length xs))) (xs ! nat r) (int (length (xs ! 0))) (int w) (out (nat r)) red
     else Done (engine_Init MPI 0 1, []))"

text \<open>What both algorithms compute, element by element.\<close>

lemma elem_fits: "(i + 1) * w \<le> N" if "i < N div w" "w dvd N" for i w N :: nat
proof -
  have "(i + 1) * w \<le> N div w * w" using that(1) by (intro mult_le_mono1) simp
  then show ?thesis using that(2) by simp
qed

lemma gathered_elements:
  assumes n: "1 \<le> n" and e: "elementwise w red" and w: "w dvd N"
    and len: "\<And>r. 0 \<le> r \<Longrightarrow> r < n \<Longrightarrow> length (x r) = N"
  shows "length (reduce_upto red x (nat (n - 1))) = N \<and> (\<forall>i < N div w.
    combined red (\<lambda>r. elem w i (x r)) {0..<n} (elem w i (reduce_upto red x (nat (n - 1)))))"
proof -
  let ?V = "reduce_upto red x (nat (n - 1))"
  have top: "int (nat (n - 1)) = n - 1" using n by simp
  have "\<forall>r. 0 \<le> r \<and> r \<le> int (nat (n - 1)) \<longrightarrow> length (x r) = N" unfolding top using len by simp
  then have lV: "length ?V = N" by (rule length_reduce_upto [OF e])
  have "{0..int (nat (n - 1))} = {0..<n}" using n by auto
  then have V: "combined red x {0..<n} ?V" using reduce_upto_combined [of red x "nat (n - 1)"] by simp
  have "combined red (\<lambda>r. elem w i (x r)) {0..<n} (elem w i ?V)" if "i < N div w" for i
    using combined_elem [OF V e _ elem_fits [OF that w]] len by simp
  then show ?thesis using lV by blast
qed

lemma scattered_elements:
  assumes R: "reduce_ok n w red L X" and w: "0 < w" "w dvd total L 0 n" and i: "i < total L 0 n div w"
  shows "combined red (\<lambda>r. elem w i (blocks (X r) 0 n)) {0..<n} (elem w i (blocks (rs_result n red X) 0 n))"
proof -
  have n: "1 \<le> n" and e: "elementwise w red" and dvd: "\<forall>j. 0 \<le> j \<and> j < n \<longrightarrow> w dvd L j"
    and X: "\<And>r. 0 \<le> r \<Longrightarrow> r < n \<Longrightarrow> sized n L (X r)"
    using R by (simp_all add: reduce_ok_def)
  have sz: "sized n L (rs_result n red X)" using rs_result_combined(2) [OF R] by (simp add: sized_def)
  have nat: "int (nat n) = n" using n by simp
  obtain j l where jl: "0 \<le> j" "j < n" "(l + 1) * w \<le> L j"
      "\<And>B. sized n L B \<Longrightarrow> elem w i (blocks B 0 n) = elem w l (B j)"
    using elem_in_block [of w "nat n" L i, unfolded nat, OF w(1) dvd elem_fits [OF i w(2)]] by blast
  have "\<forall>r \<in> {0..<n}. length (X r j) = L j" using X jl(1,2) by (simp add: sized_def)
  from combined_elem [OF rs_result_combined(1) [OF R jl(1,2)] e this jl(3)]
  have c: "combined red (\<lambda>r. elem w l (X r j)) {0..<n} (elem w l (rs_result n red X j))" by blast
  have "elem w l (X r j) = elem w i (blocks (X r) 0 n)" if "0 \<le> r" "r < n" for r
    using jl(4) [OF X [OF that]] by simp
  then show ?thesis
    using combined_cong [OF c, of "\<lambda>r. elem w i (blocks (X r) 0 n)"] jl(4) [OF sz] by simp
qed

text \<open>The sizes that can occur fit an \<open>int\<close>: in the one way \<open>input_size * num_machines\<close>, in the other
  \<open>count + num_machines\<close>.\<close>

definition sizes_fit :: "nat \<Rightarrow> nat \<Rightarrow> nat \<Rightarrow> bool" where
  "sizes_fit n N w \<longleftrightarrow> n < 2 ^ 30 \<and> N < 2 ^ 31 \<and>
    (if N div w < n \<or> N < 4096 then N * n < 2 ^ 31 else N div w + n < 2 ^ 31)"

lemma allreduce_run:
  assumes xs: "xs \<noteq> []" "\<forall>x \<in> set xs. length x = N" "0 < N" and w: "0 < w" "w dvd N" and e: "elementwise w red"
    and out: "\<forall>r < length xs. N \<le> length (out r)" and fits: "sizes_fit (length xs) N w"
    and even: "length xs dvd N div w \<or> lib 0"
  shows "\<exists>c' V. reaches MPI lib (allreduce_start xs w out red) c' \<and> length V = N \<and>
    (\<forall>r < length xs. \<exists>E' rest. procs c' (int r) = Done (E', V @ rest) \<and> N + length rest = length (out r)) \<and>
    (\<forall>r. \<not> (0 \<le> r \<and> r < int (length xs)) \<longrightarrow> (\<exists>y. procs c' r = Done y)) \<and>
    (\<forall>i < N div w. combined red (\<lambda>r. elem w i (xs ! nat r)) {0..<int (length xs)} (elem w i V))"
proof -
  let ?n = "int (length xs)" and ?c = "allreduce_start xs w out red" and ?x = "\<lambda>r. xs ! nat r"
  let ?E = "\<lambda>r. engine_Init MPI r (int (length xs))"
  have n: "1 \<le> ?n" using xs(1) by (simp add: Suc_le_eq)
  have len: "length (?x r) = N" if "0 \<le> r" "r < ?n" for r using xs(2) that by simp
  have N0: "length (xs ! 0) = N" using len [of 0] xs(1) by simp
  have start: "procs ?c r = Allreduce (?E r) (?x r) (int N) (int w) (out (nat r)) red" if "0 \<le> r" "r < ?n" for r
    using that N0 by (simp add: allreduce_start_def start_def)
  have outside: "procs ?c r = Done (engine_Init MPI 0 1, [])" if "\<not> (0 \<le> r \<and> r < ?n)" for r
    using that by (auto simp: allreduce_start_def start_def)
  let ?em = "\<not> length xs dvd N div w"
  have lib: "?em \<Longrightarrow> lib 0" using even by blast
  have q: "quiet ?em ?c" by (simp add: allreduce_start_def)
  have num: "num_of_machines (?E r) = ?n" for r by (simp add: engine_Init_def)
  have w0: "int w \<noteq> 0" using w(1) by simp
  have o: "N \<le> length (out (nat r))" if "0 \<le> r" "r < ?n" for r using out that by (simp add: nat_less_iff)
  show ?thesis
  proof (cases "int N div int w < ?n \<or> int N < 4096")
    case True
    let ?V = "reduce_upto red ?x (nat (?n - 1))"
    have "N div w < length xs \<or> N < 4096" using True by (simp flip: zdiv_int)
    then have "N * length xs < 2 ^ 31" using fits by (simp add: sizes_fit_def)
    then have small: "int N * ?n < 2 ^ 31" by (simp flip: of_nat_mult)
    have "procs ?c r = AllreduceByAllGather (?E r) (?x r) (int N) (out (nat r)) red" if "0 \<le> r" "r < ?n" for r
      using start [OF that] True w0 num by (simp add: Allreduce_def Let_def)
    from by_gather_all [where lib = lib, OF n q e xs(3) small lib engine_ok_Init len o this]
    obtain c' where c': "reaches MPI lib ?c c'" "\<forall>r. 0 \<le> r \<and> r < ?n \<longrightarrow> (\<exists>E'. procs c' r = Done (E', ?V @ drop N (out (nat r))))"
      "\<forall>r. \<not> (0 \<le> r \<and> r < ?n) \<longrightarrow> procs c' r = procs ?c r" by blast
    have V: "length ?V = N" "\<forall>i < N div w. combined red (\<lambda>r. elem w i (?x r)) {0..<?n} (elem w i ?V)"
      using gathered_elements [of ?n w red N ?x, OF n e w(2) len] by blast+
    have "\<exists>E' rest. procs c' (int r) = Done (E', ?V @ rest) \<and> N + length rest = length (out r)" if r: "r < length xs" for r
    proof -
      obtain E' where "procs c' (int r) = Done (E', ?V @ drop N (out (nat (int r))))"
        using c'(2) [rule_format, of "int r"] r by auto
      then show ?thesis using out r by (intro exI [of _ E'] exI [of _ "drop N (out r)"]) simp
    qed
    moreover have "\<exists>y. procs c' r = Done y" if "\<not> (0 \<le> r \<and> r < ?n)" for r using c'(3) outside [OF that] that by auto
    ultimately show ?thesis using c'(1) V by (intro exI [of _ c'] exI [of _ ?V]) blast
  next
    case False
    have "int (N div w) \<ge> ?n" using False by (simp add: zdiv_int)
    then obtain s where s: "w dvd s" "?n dvd int (N div w) \<longrightarrow> ?n * int s = int N" "allreduce_blocks ?n (int N) (int w) = (start_table ?n (cut_len N s ?n), len_table ?n (cut_len N s ?n))"
      using allreduce_blocks_tables [OF n w] by blast
    let ?L = "cut_len N s ?n"
    let ?X = "\<lambda>r. slices ?L (?x r)"
    have tot: "total ?L 0 ?n = N" using total_cut [OF n, of ?n N s] n by (simp add: cut_at_def)
    have X: "blocks (?X r) 0 ?n = ?x r" "sized ?n ?L (?X r)" if "0 \<le> r" "r < ?n" for r
      using slices_blocks [of ?n "?x r" ?L] len [OF that] tot by simp_all
    have dvd: "\<forall>j. 0 \<le> j \<and> j < ?n \<longrightarrow> w dvd ?L j" using cut_dvd [OF w(2) s(1)] by blast
    have R: "reduce_ok ?n w red ?L ?X" using n e dvd X(2) xs(3) tot fits by (simp add: reduce_ok_def sizes_fit_def)
    have pos: "?em \<or> (\<forall>j. 0 \<le> j \<and> j < ?n \<longrightarrow> 0 < ?L j)"
      using s(2) cut_pos [of ?n s N] xs(3) by (auto simp: int_dvd_int_iff)
    have "\<not> (N div w < length xs \<or> N < 4096)" using False by (simp flip: zdiv_int)
    then have "N div w + length xs < 2 ^ 31" using fits by (simp add: sizes_fit_def)
    then have cnt: "int_result (int N div int w + ?n) = Inr (int N div int w + ?n)"
      by (intro int_result_fits) (simp add: fits_int_nat flip: zdiv_int of_nat_add)
    let ?V = "blocks (rs_result ?n red ?X) 0 ?n"
    have sz: "sized ?n ?L (rs_result ?n red ?X)" using rs_result_combined(2) [OF R] by (simp add: sized_def)
    have lV: "length ?V = N" using length_blocks [OF sz, of 0 ?n] tot by simp
    have "procs ?c r = bindp (ReduceScatter (?E r) (blocks (?X r) 0 ?n) (int N) (start_table ?n ?L) (len_table ?n ?L) (out (nat r)) red)
        (\<lambda>(input', output'). bindp (Allgather (?E r) output' (int N) (start_table ?n ?L) (len_table ?n ?L) output')
          (\<lambda>result. Done (?E r, result)))" if "0 \<le> r" "r < ?n" for r
      unfolding start [OF that] X(1) [OF that] Allreduce_def Let_def num s(3) prod.case cnt lift_simps if_not_P [OF False] if_not_P [OF w0] ..
    from by_scatter_all [where lib = lib, OF R q tot pos lib engine_ok_Init o this]
    obtain c' where c': "reaches MPI lib ?c c'"
      "\<forall>r. 0 \<le> r \<and> r < ?n \<longrightarrow> (\<exists>E' rest. procs c' r = Done (E', ?V @ rest) \<and> N + length rest = length (out (nat r)))"
      "\<forall>r. \<not> (0 \<le> r \<and> r < ?n) \<longrightarrow> procs c' r = procs ?c r" by blast
    have "combined red (\<lambda>r. elem w i (?x r)) {0..<?n} (elem w i ?V)" if i: "i < N div w" for i
      using combined_cong [OF scattered_elements [OF R w(1)], of i "\<lambda>r. elem w i (?x r)"] X(1) tot w(2) i by simp
    moreover have "\<exists>E' rest. procs c' (int r) = Done (E', ?V @ rest) \<and> N + length rest = length (out r)" if "r < length xs" for r
      using c'(2) [rule_format, of "int r"] that by simp
    moreover have "\<exists>y. procs c' r = Done y" if "\<not> (0 \<le> r \<and> r < ?n)" for r using c'(3) outside [OF that] that by auto
    ultimately show ?thesis using c'(1) lV by (intro exI [of _ c'] exI [of _ ?V]) blast
  qed
qed

text \<open>C6. All-reduce over MPI: if every machine runs \<open>Allreduce\<close> with as many bytes of whole elements
  and a reduce function that works element by element, and the sizes fit an \<open>int\<close>, then every run
  ends after the same number of steps with no machine blocked or crashed; all machines hold the
  same result, and each of its elements combines that element of all machines, every machine's
  once, whichever of the two ways the size selects. The reduce function need be neither
  associative nor commutative. Runs take the machines' steps in whatever order, and \<open>MPI_Wait\<close> on
  a send may return before the message is received (\<open>early\<close>); but no run needs that: from every
  state the rest of it can be done with every send waiting for its receiver, except those of the
  lengths \<open>eager\<close>. These may be none at all if the elements divide evenly among the machines;
  else a block can be empty, \<open>SendRecv\<close> sends it though its receiver does not receive it, and
  MPI has to complete an empty send by itself.\<close>

theorem allreduce_combines:
  assumes "xs \<noteq> []" "\<forall>x \<in> set xs. length x = N" "0 < N" "0 < w" "w dvd N" "elementwise w red"
    and "\<forall>r < length xs. N \<le> length (out r)" and "sizes_fit (length xs) N w"
    and "length xs dvd N div w \<or> eager 0"
  shows "\<exists>K f V. (\<forall>early m c. steps MPI early (allreduce_start xs w out red) m c \<longrightarrow>
      m \<le> K \<and> steps MPI eager c (K - m) f) \<and>
    length V = N \<and>
    (\<forall>r < length xs. \<exists>E rest. procs f (int r) = Done (E, V @ rest) \<and> N + length rest = length (out r)) \<and>
    (\<forall>i < N div w. combined red (\<lambda>r. elem w i (xs ! nat r)) {0..<int (length xs)} (elem w i V))"
proof -
  obtain f V where f: "reaches MPI eager (allreduce_start xs w out red) f" "length V = N"
    "\<forall>r < length xs. \<exists>E' rest. procs f (int r) = Done (E', V @ rest) \<and> N + length rest = length (out r)"
    "\<forall>r. \<not> (0 \<le> r \<and> r < int (length xs)) \<longrightarrow> (\<exists>y. procs f r = Done y)"
    "\<forall>i < N div w. combined red (\<lambda>r. elem w i (xs ! nat r)) {0..<int (length xs)} (elem w i V)"
    using allreduce_run [where lib = eager, OF assms] by blast
  have "\<exists>y. procs f r = Done y" for r
  proof (cases "0 \<le> r \<and> r < int (length xs)")
    case True
    then obtain i where "r = int i" "i < length xs" by (metis nonneg_int_cases of_nat_less_iff)
    then show ?thesis using f(3) by blast
  next
    case False
    then show ?thesis using f(4) by blast
  qed
  then have st: "stuck MPI f" by (rule stuck_if_Done)
  obtain K where K: "steps MPI eager (allreduce_start xs w out red) K f" using f(1) by (auto simp: reaches_def)
  show ?thesis
    using steps_random_descent [OF K st] f(2,3,5) by (intro exI [of _ K] exI [of _ f] exI [of _ V]) blast
qed

text \<open>Three machines with two bytes each, and a reduce function that adds bytes.\<close>

theorem allreduce_combines_example:
  "\<exists>K f. (\<forall>early m c. steps MPI early (allreduce_start [[1, 2], [3, 4], [5, 6]] 1 (\<lambda>_. [0, 0, 7]) (map2 (+))) m c \<longrightarrow>
      m \<le> K \<and> steps MPI (\<lambda>l. l = 0) c (K - m) f) \<and>
    (\<forall>r < 3. \<exists>E rest. procs f (int r) = Done (E, [9, 12] @ rest))"
proof -
  let ?xs = "[[1, 2], [3, 4], [5, 6]] :: blob list" and ?red = "map2 (+) :: blob \<Rightarrow> blob \<Rightarrow> blob"
  have e: "elementwise 1 ?red" by (simp add: elementwise_def)
  obtain K f V where f: "\<forall>early m c. steps MPI early (allreduce_start ?xs 1 (\<lambda>_. [0, 0, 7]) ?red) m c \<longrightarrow>
      m \<le> K \<and> steps MPI (\<lambda>l. l = 0) c (K - m) f"
    "length V = 2" "\<forall>r < length ?xs. \<exists>E rest. procs f (int r) = Done (E, V @ rest) \<and> 2 + length rest = length ([0, 0, 7] :: blob)"
    "\<forall>i < 2 div 1. combined ?red (\<lambda>r. elem 1 i (?xs ! nat r)) {0..<int (length ?xs)} (elem 1 i V)"
    using allreduce_combines [of ?xs 2 1 ?red "\<lambda>_. [0, 0, 7]" "\<lambda>l. l = 0"] e by (auto simp: sizes_fit_def)
  have el: "elem 1 i b = [b ! i]" if "i < length b" for i and b :: blob
    using that by (simp add: elem_def take_Suc hd_drop_conv_nth)
  have set: "{0..<int (length ?xs)} = {0, 1, 2}" by auto
  have "V ! i = (\<Sum>r \<in> {0, 1, 2}. hd (elem 1 i (?xs ! nat r)))" if "i < 2" for i
  proof -
    have "combined ?red (\<lambda>r. elem 1 i (?xs ! nat r)) {0, 1, 2} (elem 1 i V)" using f(4) that set by auto
    moreover have "length (elem 1 i (?xs ! nat r)) = 1" if "r \<in> {0, 1, 2}" for r
      using that \<open>i < 2\<close> by (auto simp: elem_def)
    moreover have "length (?red a b) = 1 \<and> hd (?red a b) = hd a + hd b" if "length a = 1" "length b = 1" for a b
      using that by (cases a; cases b) auto
    ultimately have "hd (elem 1 i V) = (\<Sum>r \<in> {0, 1, 2}. hd (elem 1 i (?xs ! nat r)))"
      using combined_sum [of ?red _ "{0, 1, 2}" "elem 1 i V" "\<lambda>b. length b = 1" hd] by blast
    then show ?thesis using el [of i V] f(2) that by simp
  qed
  from this [of 0] this [of 1] have "V ! 0 = 9" "V ! 1 = 12" by (simp_all add: elem_def)
  then have "V = [9, 12]" using f(2) by (auto simp: less_2_cases_iff intro!: nth_equalityI)
  moreover have "length ?xs = 3" by simp
  ultimately have "\<forall>r < 3. \<exists>E rest. procs f (int r) = Done (E, [9, 12] @ rest)" using f(3) by metis
  then show ?thesis using f(1) by (intro exI [of _ K] exI [of _ f]) blast
qed

end
