(* ===== verification/Net.thy ===== *)
theory Net
  imports Msg Prelude
begin

text \<open>
  How messages cross the network: src/hpps/net/mpi_net.h (a message is one contiguous MPI
  message), zmq_net.h (a message is a multi-part ZeroMQ message), net.cc and net_util.cc.
  The transport itself is not modelled: MPI delivers the bytes of an \<open>MPI_Isend\<close>, ZeroMQ the
  frames of a multi-part message, and whether a request has completed, a probe finds
  a message or an interface is up are arguments.
\<close>

section \<open>The interface\<close>

datatype net_impl = MPINetWrapper | ZMQNetWrapper

definition NetInterface_Get :: "string \<Rightarrow> net_impl res" where
  "NetInterface_Get net_type =
     (if net_type = ''mpi'' then Inr MPINetWrapper
      else if net_type = ''zmq'' then Inr ZMQNetWrapper
      else Inl Fatal)"

definition header_bytes :: "message \<Rightarrow> blob" where
  "header_bytes m = enc_seq enc32 (header m)"

definition kHeaderSize :: nat where "kHeaderSize = 32"

section \<open>MPI: a message in one buffer\<close>

definition kover :: u64 where "kover = - 1" \<comment> \<open>\<open>std::numeric_limits<size_t>::max()\<close>\<close>

record mpi_handle =
  send_buffer :: blob \<comment> \<open>its length is \<open>send_size\<close>\<close>

definition new_handle :: mpi_handle where "new_handle = \<lparr>send_buffer = []\<rparr>"

definition realloc :: "blob \<Rightarrow> nat \<Rightarrow> blob" where
  \<comment> \<open>the fresh bytes are indeterminate in the source, zero here\<close>
  "realloc b n = take n b @ replicate (n - length b) 0"

definition serial_size :: "message \<Rightarrow> nat res" where
  \<comment> \<open>\<open>size\<close> is an \<open>int\<close>\<close>
  "serial_size m = fold_res (\<lambda>s d. if s + (8 + length d) < 2 ^ 31 then Inr (s + (8 + length d)) else Inl IntOverflow)
     (8 + kHeaderSize) (msg_data m)"

definition put_at :: "blob \<Rightarrow> blob \<times> nat \<Rightarrow> (blob \<times> nat) res" where
  \<comment> \<open>\<open>memcpy(p, &x, n); p += n\<close>\<close>
  "put_at x bp = bind_res (buf_write (fst bp) (snd bp) x) (\<lambda>b. Inr (b, snd bp + length x))"

definition SerializeAndSend :: "message \<Rightarrow> mpi_handle \<Rightarrow> (mpi_handle \<times> blob) res" where
  \<comment> \<open>the handle afterwards and the bytes given to \<open>MPI_Isend\<close>\<close>
  "SerializeAndSend m h =
     bind_res (serial_size m) (\<lambda>n.
     let buf = (if length (send_buffer h) < n then realloc (send_buffer h) n else send_buffer h) in
     bind_res (put_at (header_bytes m) (buf, 0)) (\<lambda>bp.
     bind_res (fold_res (\<lambda>bp d. bind_res (put_at (enc64 (of_nat (length d))) bp) (put_at d)) bp (msg_data m))
       (\<lambda>bp'.
     bind_res (put_at (enc64 kover) bp') (\<lambda>bp''.
     bind_res (buf_read (fst bp'') 0 n) (\<lambda>wire. Inr (h\<lparr>send_buffer := fst bp''\<rparr>, wire))))))"

record mpi_net =
  handles :: "mpi_handle list"
  recv_buffer :: blob \<comment> \<open>its length is \<open>recv_size_\<close>\<close>

definition mpi_Send :: "bool \<Rightarrow> message option \<Rightarrow> mpi_net \<Rightarrow> (mpi_net \<times> (i32 \<times> blob) option) res" where
  \<comment> \<open>\<open>done\<close>: what \<open>Test\<close> says of the oldest request; the result is what is sent and to whom\<close>
  "mpi_Send completed mo w = (case mo of
     None \<Rightarrow> Inr (w, None)
   | Some m \<Rightarrow>
       let (h, rest) = (case handles w of
           h # hs \<Rightarrow> if completed then (h, hs) else (new_handle, handles w)
         | [] \<Rightarrow> (new_handle, [])) in
       bind_res (SerializeAndSend m h) (\<lambda>(h', wire).
       Inr (w\<lparr>handles := rest @ [h']\<rparr>, Some (msg_dst m, wire))))"

function read_blobs :: "blob \<Rightarrow> nat \<Rightarrow> blob list \<Rightarrow> blob list res" where
  \<comment> \<open>the receive loop; \<open>p\<close> is where the next size is read\<close>
  "read_blobs buf p acc =
     bind_res (buf_read buf p 8) (\<lambda>bs.
     let s = dec64 bs in
     if s = kover then Inr acc
     else bind_res (blob_alloc (unat s)) (\<lambda>_.
          bind_res (buf_read buf (p + 8) (unat s)) (\<lambda>d.
          read_blobs buf (p + 8 + unat s) (acc @ [d]))))"
  by pat_completeness auto
termination
  by (relation "measure (\<lambda>(buf, p, acc). length buf - p)")
    (auto simp: buf_read_def split: if_splits)

declare read_blobs.simps [simp del]

definition RecvAndDeserialize :: "blob \<Rightarrow> message res" where
  "RecvAndDeserialize buf =
     bind_res (buf_read buf 0 kHeaderSize) (\<lambda>h.
     bind_res (read_blobs buf kHeaderSize []) (\<lambda>ds.
     Inr \<lparr>header = dec_seq 4 dec32 h, msg_data = ds\<rparr>))"

definition mpi_Recv :: "blob option \<Rightarrow> mpi_net \<Rightarrow> (mpi_net \<times> message option) res" where
  \<comment> \<open>\<open>arrived\<close>: the message \<open>MPI_Iprobe\<close> found, if any\<close>
  "mpi_Recv arrived w = (case arrived of
     None \<Rightarrow> Inr (w, None)
   | Some wire \<Rightarrow>
       let buf = (if length (recv_buffer w) < length wire
                  then realloc (recv_buffer w) (length wire) else recv_buffer w) in
       bind_res (buf_write buf 0 wire) (\<lambda>buf'.
       bind_res (RecvAndDeserialize buf') (\<lambda>m. Inr (w\<lparr>recv_buffer := buf'\<rparr>, Some m))))"

subsection \<open>Round trip\<close>

definition wire_blobs :: "blob list \<Rightarrow> blob" where
  "wire_blobs ds = concat (map (\<lambda>d. enc64 (of_nat (length d)) @ d) ds)"

definition wire_of :: "message \<Rightarrow> blob" where
  "wire_of m = header_bytes m @ wire_blobs (msg_data m) @ enc64 kover"

definition wire_len :: "message \<Rightarrow> nat" where
  "wire_len m = 8 + kHeaderSize + sum_list (map (\<lambda>d. 8 + length d) (msg_data m))"

lemma length_enc64 [simp]: "length (enc64 w) = 8"
  by (simp add: enc64_def)

lemma length_header_bytes [simp]: "wf_message m \<Longrightarrow> length (header_bytes m) = kHeaderSize"
  by (simp add: header_bytes_def wf_message_def kHeaderSize_def)

lemma wire_blobs_simps [simp]:
  "wire_blobs [] = []"
  "wire_blobs (d # ds) = enc64 (of_nat (length d)) @ d @ wire_blobs ds"
  by (simp_all add: wire_blobs_def)

lemma length_wire_blobs: "length (wire_blobs ds) = sum_list (map (\<lambda>d. 8 + length d) ds)"
  by (induction ds) simp_all

lemma length_wire_of: "wf_message m \<Longrightarrow> length (wire_of m) = wire_len m"
  by (simp add: wire_of_def wire_len_def length_wire_blobs)

lemma serial_size_ok: "wire_len m < 2 ^ 31 \<Longrightarrow> serial_size m = Inr (wire_len m)"
proof -
  have "n + sum_list (map (\<lambda>d. 8 + length d) ds) < 2 ^ 31 \<Longrightarrow>
    fold_res (\<lambda>s d. if s + (8 + length d) < 2 ^ 31 then Inr (s + (8 + length d)) else Inl IntOverflow) n ds
      = Inr (n + sum_list (map (\<lambda>d. 8 + length d) ds))" for n and ds :: "blob list"
    by (induction ds arbitrary: n) (simp_all add: add.assoc)
  then show "wire_len m < 2 ^ 31 \<Longrightarrow> serial_size m = Inr (wire_len m)"
    by (simp add: serial_size_def wire_len_def)
qed

lemma put_at_append:
  "length x \<le> length rest \<Longrightarrow>
   put_at x (pre @ rest, length pre) = Inr ((pre @ x) @ drop (length x) rest, length (pre @ x))"
  by (simp add: put_at_def buf_write_def)

lemma put_blobs:
  "length (wire_blobs ds) \<le> length rest \<Longrightarrow>
   fold_res (\<lambda>bp d. bind_res (put_at (enc64 (of_nat (length d))) bp) (put_at d)) (pre @ rest, length pre) ds
     = Inr ((pre @ wire_blobs ds) @ drop (length (wire_blobs ds)) rest, length (pre @ wire_blobs ds))"
proof (induction ds arbitrary: pre rest)
  case Nil
  then show ?case by simp
next
  case (Cons d ds)
  let ?s = "enc64 (of_nat (length d))"
  have 1: "put_at ?s (pre @ rest, length pre) = Inr ((pre @ ?s) @ drop 8 rest, length (pre @ ?s))"
    using Cons.prems put_at_append [of ?s rest pre] by simp
  have 2: "put_at d ((pre @ ?s) @ drop 8 rest, length (pre @ ?s))
      = Inr (((pre @ ?s) @ d) @ drop (length d) (drop 8 rest), length ((pre @ ?s) @ d))"
    using Cons.prems by (intro put_at_append) simp
  have 3: "fold_res (\<lambda>bp d. bind_res (put_at (enc64 (of_nat (length d))) bp) (put_at d))
      (((pre @ ?s) @ d) @ drop (length d) (drop 8 rest), length ((pre @ ?s) @ d)) ds
    = Inr ((((pre @ ?s) @ d) @ wire_blobs ds) @ drop (length (wire_blobs ds)) (drop (length d) (drop 8 rest)),
        length (((pre @ ?s) @ d) @ wire_blobs ds))"
    using Cons.prems by (intro Cons.IH) simp
  show ?case unfolding fold_res.simps 1 bind_res_simps 2 3 by (simp add: add.commute add.left_commute)
qed

lemma SerializeAndSend_ok:
  assumes "wf_message m" "wire_len m < 2 ^ 31"
  shows "\<exists>h'. SerializeAndSend m h = Inr (h', wire_of m)"
proof -
  define buf where "buf = (if length (send_buffer h) < wire_len m
    then realloc (send_buffer h) (wire_len m) else send_buffer h)"
  have buf: "wire_len m \<le> length buf" by (auto simp: buf_def realloc_def)
  let ?h = "header_bytes m" and ?w = "wire_blobs (msg_data m)"
  have len: "length ?h + length ?w + 8 = wire_len m"
    using assms(1) by (simp add: wire_len_def length_wire_blobs)
  have 1: "put_at ?h (buf, 0) = Inr (?h @ drop (length ?h) buf, length ?h)"
    using put_at_append [of ?h buf "[]"] buf len by simp
  have 2: "fold_res (\<lambda>bp d. bind_res (put_at (enc64 (of_nat (length d))) bp) (put_at d))
      (?h @ drop (length ?h) buf, length ?h) (msg_data m)
    = Inr ((?h @ ?w) @ drop (length ?w) (drop (length ?h) buf), length (?h @ ?w))"
    using buf len by (intro put_blobs) simp
  have 3: "put_at (enc64 kover) ((?h @ ?w) @ drop (length ?w) (drop (length ?h) buf), length (?h @ ?w))
    = Inr (((?h @ ?w) @ enc64 kover) @ drop (length (enc64 kover)) (drop (length ?w) (drop (length ?h) buf)),
        length ((?h @ ?w) @ enc64 kover))"
    using buf len by (intro put_at_append) simp
  have 4: "buf_read (((?h @ ?w) @ enc64 kover) @ x) 0 (wire_len m) = Inr (wire_of m)" for x
    using len by (simp add: buf_read_def wire_of_def)
  show ?thesis
    unfolding SerializeAndSend_def serial_size_ok [OF assms(2)] bind_res_simps Let_def
      buf_def [symmetric] 1 2 3 fst_conv 4 by simp
qed

lemma SerializeAndSend_wire:
  assumes "wf_message m" "wire_len m < 2 ^ 31" and "SerializeAndSend m h = Inr (h', b)"
  shows "b = wire_of m"
  using SerializeAndSend_ok [OF assms(1,2), of h] assms(3) by auto

lemma read_blobs_wire:
  assumes "\<forall>d \<in> set ds. length d < 2 ^ 31"
  shows "read_blobs (pre @ wire_blobs ds @ enc64 kover @ stale) (length pre) acc =
    (if [] \<in> set ds then Inl Check else Inr (acc @ ds))"
  using assms
proof (induction ds arbitrary: pre acc)
  case Nil
  have "buf_read (pre @ enc64 kover @ stale) (length pre) 8 = Inr (enc64 kover)"
    by (simp add: buf_read_def)
  then show ?case by (simp add: read_blobs.simps c64.dec_enc)
next
  case (Cons d ds)
  let ?s = "of_nat (length d) :: u64"
  let ?buf = "pre @ wire_blobs (d # ds) @ enc64 kover @ stale"
  have d: "unat ?s = length d" using Cons.prems by (simp add: unat_of_nat take_bit_nat_eq_self)
  have "?s \<noteq> kover"
  proof
    assume "?s = kover"
    then have "unat ?s = unat kover" by simp
    then show False using d Cons.prems by (simp add: kover_def unsigned_minus_1_eq_mask mask_eq_exp_minus_1)
  qed
  moreover have "buf_read ?buf (length pre) 8 = Inr (enc64 ?s)" by (simp add: buf_read_def)
  moreover have "buf_read ?buf (length pre + 8) (length d) = Inr d" by (simp add: buf_read_def)
  moreover have "read_blobs ?buf (length pre + 8 + length d) (acc @ [d]) =
      (if [] \<in> set ds then Inl Check else Inr ((acc @ [d]) @ ds))"
    using Cons.IH [of "pre @ enc64 ?s @ d" "acc @ [d]"] Cons.prems by (simp add: add.assoc)
  ultimately show ?case
    using d by (subst read_blobs.simps) (auto simp: c64.dec_enc Let_def blob_alloc_def)
qed

lemma wire_len_blob: "d \<in> set (msg_data m) \<Longrightarrow> length d < wire_len m"
proof -
  assume "d \<in> set (msg_data m)"
  then have "8 + length d \<le> sum_list (map (\<lambda>d. 8 + length d) (msg_data m))"
    by (intro member_le_sum_list) auto
  then show "length d < wire_len m" by (simp add: wire_len_def kHeaderSize_def)
qed

lemma RecvAndDeserialize_wire:
  assumes "wf_message m" "wire_len m < 2 ^ 31"
  shows "RecvAndDeserialize (wire_of m @ stale) = (if [] \<in> set (msg_data m) then Inl Check else Inr m)"
proof -
  have "buf_read (wire_of m @ stale) 0 kHeaderSize = Inr (header_bytes m)"
    using assms(1) by (simp add: wire_of_def buf_read_def)
  moreover have "\<forall>d \<in> set (msg_data m). length d < 2 ^ 31"
    using wire_len_blob [of _ m] assms(2) by fastforce
  then have "read_blobs (wire_of m @ stale) kHeaderSize [] =
      (if [] \<in> set (msg_data m) then Inl Check else Inr (msg_data m))"
    using read_blobs_wire [of "msg_data m" "header_bytes m" stale "[]"] assms(1)
    by (simp add: wire_of_def)
  moreover have "dec_seq 4 dec32 (header_bytes m) = header m"
    by (simp add: header_bytes_def)
  ultimately show ?thesis by (simp add: RecvAndDeserialize_def)
qed

lemma mpi_Recv_wire:
  assumes "wf_message m" "wire_len m < 2 ^ 31"
  shows "\<exists>w'. mpi_Recv (Some (wire_of m)) w = (if [] \<in> set (msg_data m) then Inl Check else Inr (w', Some m))"
proof -
  let ?w = "wire_of m"
  define buf where "buf = (if length (recv_buffer w) < length ?w
    then realloc (recv_buffer w) (length ?w) else recv_buffer w)"
  have "length ?w \<le> length buf" by (auto simp: buf_def realloc_def)
  then have "buf_write buf 0 ?w = Inr (?w @ drop (length ?w) buf)" by (simp add: buf_write_def)
  then show ?thesis
    unfolding mpi_Recv_def option.case Let_def buf_def [symmetric]
    using RecvAndDeserialize_wire [OF assms] by auto
qed

text \<open>C17. A message sent with MPI and received on the other side is the same message, whatever is
  left over in the reused send buffer and in the receive buffer, as long as its serialised
  size fits an \<open>int\<close>; if one of its blobs is empty, the receiver's process is ended by the
  check of \<open>Blob(size_t)\<close> instead.\<close>

theorem mpi_roundtrip:
  assumes "wf_message m" "wire_len m < 2 ^ 31"
    and "mpi_Send completed (Some m) w = Inr (w', sent)"
  shows "\<exists>wire. sent = Some (msg_dst m, wire) \<and>
    (if [] \<in> set (msg_data m) then mpi_Recv (Some wire) v = Inl Check
     else (\<exists>v'. mpi_Recv (Some wire) v = Inr (v', Some m)))"
proof -
  have sent: "sent = Some (msg_dst m, wire_of m)"
    using assms(3) SerializeAndSend_wire [OF assms(1,2)]
    by (auto simp: mpi_Send_def split: list.splits if_splits)
  with mpi_Recv_wire [OF assms(1,2), of v] show ?thesis by auto
qed

lemma mpi_Send_ok:
  assumes "wf_message m" "wire_len m < 2 ^ 31"
  shows "\<exists>w'. mpi_Send completed (Some m) w = Inr (w', Some (msg_dst m, wire_of m))"
proof -
  let ?h = "case handles w of h # hs \<Rightarrow> if completed then (h, hs) else (new_handle, handles w)
         | [] \<Rightarrow> (new_handle, [])"
  obtain h rest where h: "?h = (h, rest)" by (cases ?h)
  obtain h' where "SerializeAndSend m h = Inr (h', wire_of m)" using SerializeAndSend_ok [OF assms] by blast
  then show ?thesis using h by (simp add: mpi_Send_def)
qed

theorem mpi_roundtrip_example:
  "\<exists>w' wire v'. mpi_Send True (Some (push_blob [1, 2] new_message)) \<lparr>handles = [new_handle], recv_buffer = []\<rparr>
      = Inr (w', Some (0, wire)) \<and>
    mpi_Recv (Some wire) \<lparr>handles = [], recv_buffer = [9, 9]\<rparr> = Inr (v', Some (push_blob [1, 2] new_message))"
proof -
  let ?m = "push_blob [1, 2] new_message"
  have m: "wf_message ?m" "wire_len ?m < 2 ^ 31" by (simp_all add: wire_len_def kHeaderSize_def)
  have dst: "msg_dst ?m = 0" by (simp add: msg_dst_def push_blob_def new_message_def)
  obtain w' where w': "mpi_Send True (Some ?m) \<lparr>handles = [new_handle], recv_buffer = []\<rparr>
      = Inr (w', Some (msg_dst ?m, wire_of ?m))"
    using mpi_Send_ok [OF m] by blast
  show ?thesis
    using mpi_roundtrip [OF m w', of "\<lparr>handles = [], recv_buffer = [9, 9]\<rparr>"] w' dst by auto
qed

end
