(* ===== verification/ZmqNet.thy ===== *)
theory ZmqNet
  imports Net
begin

text \<open>
  \<open>ZMQNetWrapper\<close> (src/hpps/net/zmq_net.h) and \<open>GetLocalIPAddress\<close> (net_util.cc). A socket is
  named by a number, \<open>None\<close> is the null pointer. The object is static, so its members start as
  zero: not active, no context, null sockets. Whether \<open>zmq_bind\<close> and \<open>zmq_connect\<close> succeed
  for an endpoint is an argument; \<open>zmq_send\<close> is taken to succeed. A ZeroMQ message is its list
  of frames, which arrive together; \<open>ZMQ_RCVMORE\<close> says whether frames are left.
\<close>

section \<open>State\<close>

record entity =
  endpoint :: string
  socket :: "nat option"

record zmq_net =
  active :: bool
  has_context :: bool \<comment> \<open>\<open>context_\<close> is not null\<close>
  receiver :: entity
  senders :: "entity list"
  zmq_rank :: int
  zmq_size :: int
  machine_lists :: "string list"
  next_socket :: nat \<comment> \<open>the socket \<open>zmq_socket\<close> returns next\<close>

definition null_entity :: entity where "null_entity = \<lparr>endpoint = [], socket = None\<rparr>"

definition new_zmq :: zmq_net where
  "new_zmq = \<lparr>active = False, has_context = False, receiver = null_entity, senders = [], zmq_rank = 0,
     zmq_size = 0, machine_lists = [], next_socket = 1\<rparr>"

definition not_null :: "'a option \<Rightarrow> 'a res" where
  \<comment> \<open>\<open>CHECK_NOTNULL\<close>\<close>
  "not_null p = (case p of None \<Rightarrow> Inl NotNull | Some x \<Rightarrow> Inr x)"

lemma not_null_simps [simp]: "not_null None = Inl NotNull" "not_null (Some x) = Inr x"
  by (simp_all add: not_null_def)

section \<open>Which machine am I\<close>

datatype addr_family = AF_INET | AF_OTHER

record interface =
  if_addr :: "(addr_family \<times> string) option" \<comment> \<open>the family and what \<open>inet_ntop\<close> prints\<close>
  if_loopback :: bool

definition GetLocalIPAddress :: "interface list \<Rightarrow> string list" where
  "GetLocalIPAddress ifs = fold (\<lambda>i result. case if_addr i of
       None \<Rightarrow> result
     | Some (fam, ip) \<Rightarrow> if fam = AF_INET \<and> \<not> if_loopback i then List.insert ip result else result) ifs []"

definition is_space :: "char \<Rightarrow> bool" where
  "is_space c \<longleftrightarrow> c = CHR '' '' \<or> (of_char c :: nat) \<in> {9..13}"

fun scan_words :: "string \<Rightarrow> string \<Rightarrow> string list" where
  \<comment> \<open>what repeated \<open>fscanf\<close> calls with \<open>%s\<close> read\<close>
  "scan_words w [] = (if w = [] then [] else [w])"
| "scan_words w (c # cs) =
     (if is_space c then (if w = [] then scan_words [] cs else w # scan_words [] cs)
      else scan_words (w @ [c]) cs)"

definition ParseMachineFile :: "string option \<Rightarrow> string list \<Rightarrow> string list res" where
  \<comment> \<open>the content of the file if it can be opened; \<open>str\<close> has room for 31 characters\<close>
  "ParseMachineFile content result =
     bind_res (not_null content) (\<lambda>s.
     fold_res (\<lambda>r w. if length w < 32 then Inr (r @ [w]) else Inl OutOfRange) result (scan_words [] s))"

function nat_string :: "nat \<Rightarrow> string" where
  "nat_string n = (if n < 10 then [char_of (48 + n)] else nat_string (n div 10) @ [char_of (48 + n mod 10)])"
  by pat_completeness auto
termination
  by (relation "measure id") auto

declare nat_string.simps [simp del]

definition int_to_string :: "int \<Rightarrow> string" where
  "int_to_string n = (if n < 0 then ''-'' @ nat_string (nat (- n)) else nat_string (nat n))"

section \<open>Init\<close>

definition endpoint_of :: "int \<Rightarrow> string \<Rightarrow> string" where
  "endpoint_of port ip = ip @ '':'' @ int_to_string port"

definition Init_machine ::
  "string list \<Rightarrow> int \<Rightarrow> (string \<Rightarrow> bool) \<Rightarrow> (string \<Rightarrow> bool) \<Rightarrow> zmq_net \<Rightarrow> string \<Rightarrow> zmq_net res" where
  \<comment> \<open>the body of the loop over \<open>machine_lists_\<close>\<close>
  "Init_machine local_ip port bind_ok connect_ok w ip =
     (let ep = endpoint_of port ip; s = next_socket w in
      if ip \<in> set local_ip \<or> length (machine_lists w) = 1
      then bind_res (check (bind_ok ep)) (\<lambda>_.
        Inr (w\<lparr>zmq_rank := int (length (senders w)), senders := senders w @ [null_entity],
               receiver := \<lparr>endpoint = ep, socket = Some s\<rparr>, next_socket := s + 1\<rparr>))
      else bind_res (check (connect_ok ep)) (\<lambda>_.
        Inr (w\<lparr>senders := senders w @ [\<lparr>endpoint = ep, socket = Some s\<rparr>], next_socket := s + 1\<rparr>)))"

definition zmq_Init ::
  "string option \<Rightarrow> int \<Rightarrow> interface list \<Rightarrow> (string \<Rightarrow> bool) \<Rightarrow> (string \<Rightarrow> bool) \<Rightarrow> zmq_net \<Rightarrow> zmq_net res"
  where
  "zmq_Init machine_file port ifs bind_ok connect_ok w =
     (if active w then Inr w
      else bind_res (ParseMachineFile machine_file (machine_lists w)) (\<lambda>ips.
      bind_res (check (0 < length ips)) (\<lambda>_.
      bind_res (fold_res (Init_machine (GetLocalIPAddress ifs) port bind_ok connect_ok)
          (w\<lparr>machine_lists := ips, zmq_size := int (length ips), has_context := True\<rparr>) ips) (\<lambda>w'.
      bind_res (not_null (socket (receiver w'))) (\<lambda>_. Inr (w'\<lparr>active := True\<rparr>))))))"

section \<open>Bind and Connect\<close>

definition zmq_Bind :: "int \<Rightarrow> string \<Rightarrow> (string \<Rightarrow> bool) \<Rightarrow> zmq_net \<Rightarrow> zmq_net \<times> int" where
  "zmq_Bind rank ip_port bind_ok w =
     (let (s, nxt) = (case socket (receiver w) of
          None \<Rightarrow> (next_socket w, next_socket w + 1) | Some s \<Rightarrow> (s, next_socket w)) in
      (w\<lparr>zmq_rank := rank, has_context := True, receiver := \<lparr>endpoint = ip_port, socket = Some s\<rparr>,
         next_socket := nxt\<rparr>,
       if bind_ok ip_port then 0 else - 1))"

fun Connect_loop :: "(string \<Rightarrow> bool) \<Rightarrow> (int \<times> string) list \<Rightarrow> zmq_net \<Rightarrow> (zmq_net \<times> int) res" where
  "Connect_loop connect_ok [] w = Inr (w\<lparr>active := True\<rparr>, 0)"
| "Connect_loop connect_ok ((rank, ip_port) # eps) w =
     (if ip_port = endpoint (receiver w) then Connect_loop connect_ok eps (w\<lparr>zmq_rank := rank\<rparr>)
      else bind_res (vec_set (senders w) rank \<lparr>endpoint = ip_port, socket = Some (next_socket w)\<rparr>) (\<lambda>ss.
        let w' = w\<lparr>senders := ss, next_socket := next_socket w + 1\<rparr> in
        if connect_ok ip_port then Connect_loop connect_ok eps w' else Inr (w', - 1)))"

definition resize :: "nat \<Rightarrow> 'a \<Rightarrow> 'a list \<Rightarrow> 'a list" where
  "resize n x xs = take n xs @ replicate (n - length xs) x"

definition zmq_Connect ::
  "(int \<times> string) list \<Rightarrow> (string \<Rightarrow> bool) \<Rightarrow> zmq_net \<Rightarrow> (zmq_net \<times> int) res" where
  "zmq_Connect eps connect_ok w =
     bind_res (not_null (socket (receiver w))) (\<lambda>_.
     if \<not> has_context w then Inl NotNull
     else Connect_loop connect_ok eps
       (w\<lparr>zmq_size := int (length eps), senders := resize (length eps) null_entity (senders w)\<rparr>))"

section \<open>Finalize\<close>

definition close_sender :: "zmq_net \<Rightarrow> nat list \<Rightarrow> nat \<Rightarrow> nat list res" where
  \<comment> \<open>\<open>zmq_setsockopt\<close> fails on a null socket, which the check catches\<close>
  "close_sender w closed i =
     (if int i \<noteq> zmq_rank w
      then (case socket (senders w ! i) of None \<Rightarrow> Inl Check | Some s \<Rightarrow> Inr (closed @ [s]))
      else Inr closed)"

definition zmq_Finalize :: "zmq_net \<Rightarrow> (zmq_net \<times> nat list) res" where
  \<comment> \<open>also the sockets it closes, in order\<close>
  "zmq_Finalize w =
     bind_res (fold_res (close_sender w) [] [0..<length (senders w)]) (\<lambda>closed.
     case socket (receiver w) of
       None \<Rightarrow> Inl Check
     | Some s \<Rightarrow> if has_context w then Inr (w\<lparr>has_context := False\<rparr>, closed @ [s]) else Inl Check)"

section \<open>Send and Recv\<close>

text \<open>
  A blob is its bytes; for the null check \<open>Send\<close> is also given whether its data pointer is null.
  It is for a blob made by \<open>Blob()\<close> and its copies, which are empty; \<open>Blob(data, 0)\<close> is empty
  too, but has memory from the allocator.
\<close>

definition send_blob :: "blob list \<times> nat \<Rightarrow> bool \<times> blob \<Rightarrow> (blob list \<times> nat) res" where
  \<comment> \<open>the length of a frame is an \<open>int\<close>\<close>
  "send_blob fs = (\<lambda>(null, d).
     (if null then Inl NotNull
      else if 2 ^ 31 \<le> snd fs + (length d + 8) then Inl IntOverflow
      else Inr (fst fs @ [enc64 (of_nat (length d)), d], snd fs + (length d + 8))))"

definition zmq_Send :: "bool list \<Rightarrow> message \<Rightarrow> zmq_net \<Rightarrow> (nat \<times> blob list \<times> nat) res" where
  \<comment> \<open>\<open>nulls\<close>: which blobs have a null pointer; the result is the socket, the frames and the returned size\<close>
  "zmq_Send nulls m w =
     bind_res (vec_at (senders w) (sint (msg_dst m))) (\<lambda>e.
     bind_res (not_null (socket e)) (\<lambda>s.
     bind_res (fold_res send_blob ([header_bytes m], kHeaderSize) (zip nulls (msg_data m))) (\<lambda>fs. Inr (s, fs))))"

fun recv_frames :: "blob list \<Rightarrow> nat \<Rightarrow> blob list \<Rightarrow> (blob list \<times> nat) res" where
  \<comment> \<open>the loop \<open>while (more)\<close> over the frames left\<close>
  "recv_frames acc n [] = Inr (acc, n)"
| "recv_frames acc n [f] = Inl Check"
| "recv_frames acc n (f # d # fs) =
     bind_res (check (length f = 8)) (\<lambda>_.
     bind_res (blob_alloc (unat (dec64 f :: u64))) (\<lambda>_.
     bind_res (check (length d = unat (dec64 f :: u64))) (\<lambda>_.
     recv_frames (acc @ [d]) (n + 8 + length d) fs)))"

definition zmq_Recv :: "blob list list \<Rightarrow> (blob list list \<times> (message \<times> nat) option) res" where
  \<comment> \<open>\<open>None\<close>: nothing there, the result is -1\<close>
  "zmq_Recv queue = (case queue of
     [] \<Rightarrow> Inr ([], None)
   | [] # rest \<Rightarrow> Inr (rest, None) \<comment> \<open>no ZeroMQ message is without frames\<close>
   | (h # fs) # rest \<Rightarrow>
       bind_res (check (length h = kHeaderSize)) (\<lambda>_.
       bind_res (recv_frames [] kHeaderSize fs) (\<lambda>(ds, n).
       Inr (rest, Some (\<lparr>header = dec_seq 4 dec32 h, msg_data = ds\<rparr>, n)))))"

section \<open>Round trip\<close>

definition null_ok :: "bool list \<Rightarrow> blob list \<Rightarrow> bool" where
  "null_ok nulls ds \<longleftrightarrow> list_all2 (\<lambda>null d. null \<longrightarrow> d = []) nulls ds"

lemma send_blobs_ok:
  assumes "list_all2 P nulls ds" and "True \<notin> set nulls" and "n + length (wire_blobs ds) < 2 ^ 31"
  shows "fold_res send_blob (fs, n) (zip nulls ds) =
     Inr (fs @ concat (map (\<lambda>d. [enc64 (of_nat (length d)), d]) ds), n + length (wire_blobs ds))"
  using assms
  by (induction arbitrary: fs n rule: list_all2_induct) (auto simp: send_blob_def add.assoc add.left_commute add.commute)

lemma send_blobs_null:
  assumes "list_all2 P nulls ds" and "True \<in> set nulls" and "n + length (wire_blobs ds) < 2 ^ 31"
  shows "fold_res send_blob (fs, n) (zip nulls ds) = Inl NotNull"
  using assms
  by (induction arbitrary: fs n rule: list_all2_induct) (auto simp: send_blob_def add.assoc add.left_commute add.commute)

lemma recv_frames_empty:
  "[] \<in> set ds \<Longrightarrow> \<forall>d \<in> set ds. length d < 2 ^ 31 \<Longrightarrow>
   recv_frames acc n (concat (map (\<lambda>d. [enc64 (of_nat (length d)), d]) ds)) = Inl Check"
proof (induction ds arbitrary: acc n)
  case Nil
  then show ?case by simp
next
  case (Cons d ds)
  have "unat (of_nat (length d) :: u64) = length d"
    using Cons.prems(2) by (simp add: unat_of_nat take_bit_nat_eq_self)
  then show ?case using Cons by (auto simp: c64.dec_enc blob_alloc_def)
qed

lemma recv_frames_blobs:
  "[] \<notin> set ds \<Longrightarrow> \<forall>d \<in> set ds. length d < 2 ^ 31 \<Longrightarrow>
   recv_frames acc n (concat (map (\<lambda>d. [enc64 (of_nat (length d)), d]) ds)) =
     Inr (acc @ ds, n + length (wire_blobs ds))"
proof (induction ds arbitrary: acc n)
  case Nil
  then show ?case by simp
next
  case (Cons d ds)
  have "unat (of_nat (length d) :: u64) = length d"
    using Cons.prems(2) by (simp add: unat_of_nat take_bit_nat_eq_self)
  then show ?case using Cons by (auto simp: c64.dec_enc blob_alloc_def add.assoc)
qed

text \<open>C18. A message sent over ZeroMQ to a connected machine is received as the same message, with
  the size both sides return, and exactly its own frames are taken from the queue, if none of
  its blobs is empty. A blob with a null pointer ends the sender's process; an empty blob with
  memory, like \<open>Blob(data, 0)\<close>, is sent, but ends the receiver's process, which cannot make an
  empty blob.\<close>

theorem zmq_roundtrip:
  assumes "wf_message m" "wire_len m < 2 ^ 31" and "null_ok nulls (msg_data m)"
    and "vec_at (senders w) (sint (msg_dst m)) = Inr e" "socket e = Some s"
  shows "if True \<in> set nulls then zmq_Send nulls m w = Inl NotNull
    else (\<exists>frames n. zmq_Send nulls m w = Inr (s, frames, n) \<and>
      zmq_Recv (frames # queue) =
        (if [] \<in> set (msg_data m) then Inl Check else Inr (queue, Some (m, n))))"
proof -
  note nulls = assms(3) [unfolded null_ok_def]
  have len: "kHeaderSize + length (wire_blobs (msg_data m)) < 2 ^ 31"
    using assms(2) by (simp add: wire_len_def length_wire_blobs)
  have d: "\<forall>d \<in> set (msg_data m). length d < 2 ^ 31"
    using wire_len_blob [of _ m] assms(2) by fastforce
  show ?thesis
  proof (cases "True \<in> set nulls")
    case True
    then show ?thesis using assms(4,5) send_blobs_null [OF nulls True len] by (simp add: zmq_Send_def)
  next
    case False
    have "dec_seq 4 dec32 (header_bytes m) = header m" by (simp add: header_bytes_def)
    moreover have "length (header_bytes m) = kHeaderSize"
      using assms(1) by (simp add: header_bytes_def wf_message_def kHeaderSize_def)
    ultimately show ?thesis
      using assms(4,5) send_blobs_ok [OF nulls False len, of "[header_bytes m]"]
        recv_frames_blobs [OF _ d, of "[]" kHeaderSize] recv_frames_empty [OF _ d, of "[]" kHeaderSize] False
      by (simp add: zmq_Send_def zmq_Recv_def)
  qed
qed

section \<open>Ranks and sockets over the life of the object\<close>

text \<open>The senders made for the machines before index \<open>i\<close>, machine \<open>j\<close> being this one.\<close>

definition senders_upto :: "int \<Rightarrow> string list \<Rightarrow> nat \<Rightarrow> nat \<Rightarrow> entity list" where
  "senders_upto port ips j i = map (\<lambda>k. if k = j then null_entity
     else \<lparr>endpoint = endpoint_of port (ips ! k), socket = Some (k + 1)\<rparr>) [0..<i]"

definition inited_upto :: "int \<Rightarrow> string list \<Rightarrow> nat \<Rightarrow> nat \<Rightarrow> zmq_net" where
  "inited_upto port ips j i = \<lparr>active = False, has_context = True,
     receiver = (if j < i then \<lparr>endpoint = endpoint_of port (ips ! j), socket = Some (j + 1)\<rparr>
       else null_entity),
     senders = senders_upto port ips j i,
     zmq_rank = (if j < i then int j else 0), zmq_size = int (length ips), machine_lists = ips,
     next_socket = i + 1\<rparr>"

lemma Init_machine_upto:
  assumes "i < length ips" and "bind_ok (endpoint_of port (ips ! j))"
    and "connect_ok (endpoint_of port (ips ! i))"
    and "ips ! i \<in> set local_ip \<or> length ips = 1 \<longleftrightarrow> i = j"
  shows "Init_machine local_ip port bind_ok connect_ok (inited_upto port ips j i) (ips ! i)
    = Inr (inited_upto port ips j (Suc i))"
  using assms by (auto simp: Init_machine_def inited_upto_def senders_upto_def Let_def less_Suc_eq)

lemma Init_machines:
  assumes "i \<le> length ips" and "\<And>ep. bind_ok ep" and "\<And>ep. connect_ok ep"
    and "\<And>i. i < length ips \<Longrightarrow> ips ! i \<in> set local_ip \<or> length ips = 1 \<longleftrightarrow> i = j"
  shows "fold_res (Init_machine local_ip port bind_ok connect_ok) (inited_upto port ips j 0) (take i ips)
    = Inr (inited_upto port ips j i)"
  using assms(1)
proof (induction i)
  case 0
  then show ?case by simp
next
  case (Suc i)
  then have "Init_machine local_ip port bind_ok connect_ok (inited_upto port ips j i) (ips ! i)
      = Inr (inited_upto port ips j (Suc i))"
    using assms(2-4) by (intro Init_machine_upto) auto
  with Suc show ?case by (simp add: take_Suc_conv_app_nth fold_res_append)
qed

lemma ParseMachineFile_ok:
  assumes "scan_words [] s = ips" and "\<forall>ip \<in> set ips. length ip < 32"
  shows "ParseMachineFile (Some s) [] = Inr ips"
proof -
  have "\<forall>ip \<in> set ws. length ip < 32 \<Longrightarrow>
      fold_res (\<lambda>r w. if length w < 32 then Inr (r @ [w]) else Inl OutOfRange) r ws = Inr (r @ ws)"
    for r and ws :: "string list"
    by (induction ws arbitrary: r) auto
  then show ?thesis using assms by (simp add: ParseMachineFile_def)
qed

lemma close_senders:
  assumes "zmq_rank w = int j" "senders w = senders_upto port ips j n" "i \<le> n"
  shows "fold_res (close_sender w) [] [0..<i] = Inr (map Suc (filter (\<lambda>k. k \<noteq> j) [0..<i]))"
  using assms(3) by (induction i) (auto simp: fold_res_append close_sender_def assms(1,2) senders_upto_def)

text \<open>When exactly one machine of the machine file is this one, or the file lists just one, \<open>Init\<close>
  gives this machine its index in the file as rank, connects one sender to each other machine
  at its address and port, and binds the receiver to its own; \<open>Finalize\<close> then closes every
  socket that was opened, each once.\<close>

theorem zmq_Init_Finalize:
  assumes "scan_words [] file = ips" "\<forall>ip \<in> set ips. length ip < 32"
    and "j < length ips"
    and "\<And>i. i < length ips \<Longrightarrow> ips ! i \<in> set (GetLocalIPAddress ifs) \<or> length ips = 1 \<longleftrightarrow> i = j"
    and "\<And>ep. bind_ok ep" "\<And>ep. connect_ok ep"
  shows "\<exists>w. zmq_Init (Some file) port ifs bind_ok connect_ok new_zmq = Inr w \<and> active w \<and>
    zmq_rank w = int j \<and> zmq_size w = int (length ips) \<and> length (senders w) = length ips \<and>
    endpoint (receiver w) = endpoint_of port (ips ! j) \<and>
    (\<forall>i < length ips. i \<noteq> j \<longrightarrow> endpoint (senders w ! i) = endpoint_of port (ips ! i) \<and>
       socket (senders w ! i) \<noteq> None) \<and>
    (\<exists>w' closed. zmq_Finalize w = Inr (w', closed) \<and> distinct closed \<and>
       set closed = {1..<next_socket w})"
proof -
  let ?n = "length ips"
  let ?w = "inited_upto port ips j ?n\<lparr>active := True\<rparr>"
  have start: "new_zmq\<lparr>machine_lists := ips, zmq_size := int ?n, has_context := True\<rparr> = inited_upto port ips j 0"
    by (simp add: new_zmq_def inited_upto_def senders_upto_def)
  have pos: "0 < ?n" "ips \<noteq> []" using assms(3) by auto
  have "zmq_Init (Some file) port ifs bind_ok connect_ok new_zmq = Inr ?w"
    using Init_machines [of ?n ips bind_ok connect_ok "GetLocalIPAddress ifs" j port] assms(3-) start
      ParseMachineFile_ok [OF assms(1,2)] pos
    by (simp add: zmq_Init_def) (simp add: new_zmq_def inited_upto_def)
  moreover have "zmq_Finalize ?w = Inr (?w\<lparr>has_context := False\<rparr>,
      map Suc (filter (\<lambda>k. k \<noteq> j) [0..<?n]) @ [Suc j])"
    using close_senders [of ?w j port ips ?n ?n] assms(3)
    by (simp add: zmq_Finalize_def inited_upto_def senders_upto_def)
  moreover have "set (map Suc (filter (\<lambda>k. k \<noteq> j) [0..<?n]) @ [Suc j]) = {1..<?n + 1}"
    using assms(3) by (auto simp: image_iff) (metis Suc_le_D less_Suc_eq_le not_less_eq)
  moreover have "distinct (map Suc (filter (\<lambda>k. k \<noteq> j) [0..<?n]) @ [Suc j])"
    by (auto simp: distinct_map)
  ultimately show ?thesis
    using assms(3) by (intro exI [of _ ?w]) (simp add: inited_upto_def senders_upto_def)
qed

theorem zmq_roundtrip_example:
  "(\<exists>frames n. zmq_Send [False] (push_blob [1, 2, 3] new_message) (new_zmq\<lparr>senders := [\<lparr>endpoint = ''b:1'', socket = Some 7\<rparr>]\<rparr>)
      = Inr (7, frames, n) \<and>
    zmq_Recv [frames] = Inr ([], Some (push_blob [1, 2, 3] new_message, n)))
   \<and> (\<exists>frames n. zmq_Send [False] (push_blob [] new_message) (new_zmq\<lparr>senders := [\<lparr>endpoint = ''b:1'', socket = Some 7\<rparr>]\<rparr>)
      = Inr (7, frames, n) \<and> zmq_Recv [frames] = Inl Check)"
proof -
  let ?m = "\<lambda>b. push_blob b new_message"
  have "wire_len (?m [1, 2, 3]) < 2 ^ 31" "wire_len (?m []) < 2 ^ 31" by (simp_all add: wire_len_def kHeaderSize_def)
  moreover have "msg_dst (?m b) = 0" for b by (simp add: msg_dst_def push_blob_def new_message_def)
  ultimately show ?thesis
    using zmq_roundtrip [of "?m [1, 2, 3]" "[False]" "new_zmq\<lparr>senders := [\<lparr>endpoint = ''b:1'', socket = Some 7\<rparr>]\<rparr>"
        "\<lparr>endpoint = ''b:1'', socket = Some 7\<rparr>" 7 "[]"]
      zmq_roundtrip [of "?m []" "[False]" "new_zmq\<lparr>senders := [\<lparr>endpoint = ''b:1'', socket = Some 7\<rparr>]\<rparr>"
        "\<lparr>endpoint = ''b:1'', socket = Some 7\<rparr>" 7 "[]"]
    by (simp add: null_ok_def)
qed

theorem zmq_Init_Finalize_example:
  "\<exists>w. zmq_Init (Some ''10.0.0.1 10.0.0.2'') 55555 [\<lparr>if_addr = Some (AF_INET, ''10.0.0.2''), if_loopback = False\<rparr>]
      (\<lambda>_. True) (\<lambda>_. True) new_zmq = Inr w \<and> zmq_rank w = 1 \<and>
    endpoint (receiver w) = ''10.0.0.2:55555''"
proof -
  let ?ips = "[''10.0.0.1'', ''10.0.0.2'']"
  let ?ifs = "[\<lparr>if_addr = Some (AF_INET, ''10.0.0.2''), if_loopback = False\<rparr>]"
  have ips: "scan_words [] ''10.0.0.1 10.0.0.2'' = ?ips" by code_simp
  have local_ip: "set (GetLocalIPAddress ?ifs) = {''10.0.0.2''}" by (simp add: GetLocalIPAddress_def)
  have j: "?ips ! i \<in> set (GetLocalIPAddress ?ifs) \<or> length ?ips = 1 \<longleftrightarrow> i = 1" if "i < length ?ips" for i
    using that unfolding local_ip by (cases i) auto
  have ep: "endpoint_of 55555 ''10.0.0.2'' = ''10.0.0.2:55555''"
  proof -
    have "char_of (53 :: nat) = CHR ''5''" by code_simp
    then show ?thesis by (simp add: endpoint_of_def int_to_string_def nat_string.simps)
  qed
  show ?thesis
    using zmq_Init_Finalize [OF ips _ _ j, of "\<lambda>_. True" "\<lambda>_. True" 55555] ep by auto
qed

text \<open>
  A machine that owns two addresses of the file binds its receiver twice; the first entry then
  has a null sender that is not its rank, and \<open>Finalize\<close> ends the process.
\<close>

lemma two_local_addresses:
  "bind_res (zmq_Init (Some ''A B'') 9 [\<lparr>if_addr = Some (AF_INET, ''A''), if_loopback = False\<rparr>,
       \<lparr>if_addr = Some (AF_INET, ''B''), if_loopback = False\<rparr>] (\<lambda>_. True) (\<lambda>_. True) new_zmq)
    zmq_Finalize = Inl Check"
proof -
  have "scan_words [] ''A B'' = [''A'', ''B'']" by code_simp
  then show ?thesis
    by (simp add: zmq_Init_def ParseMachineFile_def new_zmq_def GetLocalIPAddress_def Init_machine_def
      Let_def zmq_Finalize_def close_sender_def null_entity_def upt_rec)
qed

end
