(* ===== verification/RecordIO.thy ===== *)
theory RecordIO
  imports FileIO Tensors
begin

text \<open>
  Record files: src/hpps/feeder/record_io.h and record_io.cc over the streams of theory FileIO
  and the tensors of theory Tensors. A sample is one tensor per column; the header
  names the columns and their configuration. An \<open>unordered_map\<close> the code iterates over is the list of
  its entries in the order of that iteration. A local variable that a read at the end of the
  file leaves unset is indeterminate, which is the error \<open>OutOfRange\<close> here.
\<close>

section \<open>Columns\<close>

record item_config =
  cfg_type :: "8 word"
  cfg_level :: i32
  cfg_aux :: "8 word"

definition ItemConfig :: "8 word \<Rightarrow> item_config" where
  "ItemConfig ty = \<lparr>cfg_type = ty, cfg_level = 0, cfg_aux = 0\<rparr>"

record record_io =
  rio_stream :: stream
  sample_count :: u64
  rio_names :: "string list"
  rio_configs :: "item_config list"
  version :: i32

definition HPPS_VERSION :: i32 where "HPPS_VERSION = 0 * 1000 + 1"

definition kTensorNameLen :: nat where "kTensorNameLen = 32"

definition new_record_io :: "string \<Rightarrow> open_mode \<Rightarrow> disk \<Rightarrow> (record_io \<times> disk) res" where
  "new_record_io uri mode d =
     bind_res (GetStream (parse_uri uri) mode d) (\<lambda>(st, d').
     case st of None \<Rightarrow> Inl NullDeref
     | Some s \<Rightarrow> Inr (\<lparr>rio_stream = s, sample_count = 0, rio_names = [], rio_configs = [], version = 0\<rparr>, d'))"

definition IsPrimary :: "record_io \<Rightarrow> int \<Rightarrow> bool res" where
  "IsPrimary r i = bind_res (vec_at (rio_configs r) i) (\<lambda>c. Inr (cfg_level c = 0 \<and> cfg_aux c = 0))"

definition write_bytes :: "byte list \<Rightarrow> record_io \<Rightarrow> record_io" where
  "write_bytes bs r = r\<lparr>rio_stream := stream_Write bs (rio_stream r)\<rparr>"

definition read_local :: "nat \<Rightarrow> record_io \<Rightarrow> (byte list \<times> record_io) res" where
  "read_local n r = (let (bs, s) = stream_Read n (rio_stream r) in
     if length bs = n then Inr (bs, r\<lparr>rio_stream := s\<rparr>) else Inl OutOfRange)"

section \<open>Writing\<close>

definition char_byte :: "char \<Rightarrow> byte" where "char_byte c = of_nat (of_char c)"
definition byte_char :: "byte \<Rightarrow> char" where "byte_char b = char_of (unat b)"

definition name_buf :: "string \<Rightarrow> byte list \<Rightarrow> byte list res" where
  \<comment> \<open>\<open>snprintf(buf, kTensorNameLen, name)\<close>: the name is the format, cut to 31 characters and ended
    by a zero; the bytes of the buffer behind it stay\<close>
  "name_buf name buf =
     (if CHR ''%'' \<in> set name then Inl OutOfRange
      else let s = take (kTensorNameLen - 1) (map char_byte name) @ [0] in Inr (s @ drop (length s) buf))"

definition config_bytes :: "item_config \<Rightarrow> byte list" where
  "config_bytes c = [cfg_type c] @ enc32 (cfg_level c) @ [cfg_aux c]"

definition write_column :: "byte list \<times> record_io \<Rightarrow> string \<times> item_config \<Rightarrow> (byte list \<times> record_io) res" where
  \<comment> \<open>the body of the loop; the state carries \<open>buf\<close>\<close>
  "write_column br nc =
     bind_res (name_buf (fst nc) (fst br)) (\<lambda>buf.
     Inr (buf, write_bytes [cfg_aux (snd nc)] (write_bytes (enc32 (cfg_level (snd nc)))
       (write_bytes [cfg_type (snd nc)] (write_bytes buf (snd br))))))"

definition enc16 :: "16 word \<Rightarrow> byte list" where "enc16 = le_bytes 2"
definition dec16 :: "byte list \<Rightarrow> 16 word" where "dec16 = le_word"

definition WriteHeader :: "byte list \<Rightarrow> (string \<times> item_config) list \<Rightarrow> record_io \<Rightarrow> record_io res" where
  \<comment> \<open>\<open>junk\<close>: what is in \<open>buf\<close> before\<close>
  "WriteHeader junk tensor_meta r =
     (let r1 = r\<lparr>rio_names := rio_names r @ map fst tensor_meta,
                 rio_configs := rio_configs r @ map snd tensor_meta, version := HPPS_VERSION\<rparr>;
          r2 = write_bytes (enc32 (version r1)) r1;
          r3 = write_bytes (enc64 (sample_count r2)) r2;
          r4 = write_bytes (enc16 (of_nat (length (rio_names r3)))) r3 in
      bind_res (fold_res write_column (junk, r4) (zip (rio_names r4) (rio_configs r4))) (\<lambda>br. Inr (snd br)))"

definition WriteHeader_types :: "byte list \<Rightarrow> (string \<times> 8 word) list \<Rightarrow> record_io \<Rightarrow> record_io res" where
  "WriteHeader_types junk tensor_meta r = WriteHeader junk (map (map_prod id ItemConfig) tensor_meta) r"

definition write_tensor :: "(string \<rightharpoonup> tensor) \<Rightarrow> record_io \<times> 32 word \<Rightarrow> nat \<Rightarrow> (record_io \<times> 32 word) res" where
  "write_tensor sample = (\<lambda>(r, batch_size) i.
     bind_res (vec_at (rio_names r) (int i)) (\<lambda>name.
     case sample name of None \<Rightarrow> Inl Check
     | Some t \<Rightarrow>
       bind_res (IsPrimary r (int i)) (\<lambda>primary.
       bind_res (if primary then vec_at (t_shape t) 0 else Inr batch_size) (\<lambda>batch_size'.
       let r1 = write_bytes [of_nat (length (t_shape t))] r;
           r2 = fold (\<lambda>dim r. write_bytes (enc32 dim) r) (t_shape t) r1 in
       bind_res (mutable_data t) (\<lambda>b. Inr (write_bytes b r2, batch_size'))))))"

definition WriteSample :: "(string \<rightharpoonup> tensor) \<Rightarrow> record_io \<Rightarrow> record_io res" where
  "WriteSample sample r =
     bind_res (fold_res (write_tensor sample)
         (write_bytes (enc16 (of_nat (length (rio_names r)))) r, 1) [0..<length (rio_names r)])
       (\<lambda>(r', batch_size). Inr (r'\<lparr>sample_count := sample_count r' + ucast batch_size\<rparr>))"

definition WriteFinalize :: "record_io \<Rightarrow> record_io" where
  "WriteFinalize r = write_bytes (enc64 (sample_count r)) (r\<lparr>rio_stream := stream_Seek 4 (rio_stream r)\<rparr>)"

section \<open>Reading\<close>

definition buf_string :: "byte list \<Rightarrow> string res" where
  \<comment> \<open>the C string in a buffer\<close>
  "buf_string bs = (if 0 \<in> set bs then Inr (map byte_char (takeWhile (\<lambda>b. b \<noteq> 0) bs)) else Inl OutOfRange)"

definition read_column :: "record_io \<Rightarrow> nat \<Rightarrow> record_io res" where
  "read_column r _ =
     bind_res (read_local kTensorNameLen r) (\<lambda>(buf, r1).
     bind_res (buf_string buf) (\<lambda>name.
     bind_res (read_local 1 r1) (\<lambda>(ty, r2).
     bind_res (read_local 4 r2) (\<lambda>(level, r3).
     bind_res (read_local 1 r3) (\<lambda>(aux, r4).
     Inr (r4\<lparr>rio_names := rio_names r4 @ [name],
             rio_configs := rio_configs r4 @
               [\<lparr>cfg_type = hd ty, cfg_level = dec32 level, cfg_aux = hd aux\<rparr>]\<rparr>))))))"

definition ReadHeader :: "record_io \<Rightarrow> record_io res" where
  "ReadHeader r =
     (let (v, s1) = read_into (enc32 (version r)) (rio_stream r);
          (n, s2) = read_into (enc64 (sample_count r)) s1 in
      bind_res (read_local 2 (r\<lparr>version := dec32 v, sample_count := dec64 n, rio_stream := s2\<rparr>)) (\<lambda>(c, r1).
      fold_res read_column (r1\<lparr>rio_names := [], rio_configs := []\<rparr>) [0..<unat (dec16 c)]))"

definition read_dim :: "record_io \<times> 32 word list \<Rightarrow> nat \<Rightarrow> (record_io \<times> 32 word list) res" where
  "read_dim = (\<lambda>(r, shape) _. bind_res (read_local 4 r) (\<lambda>(d, r'). Inr (r', shape @ [dec32 d])))"

definition read_tensor :: "record_io \<times> tensor list \<Rightarrow> nat \<Rightarrow> (record_io \<times> tensor list) res" where
  "read_tensor = (\<lambda>(r, ts) i.
     bind_res (read_local 1 r) (\<lambda>(dim_count, r1).
     bind_res (fold_res read_dim (r1, []) [0..<unat (hd dim_count)]) (\<lambda>(r2, shape).
     bind_res (vec_at (rio_configs r2) (int i)) (\<lambda>c.
     bind_res (new_tensor shape (cfg_type c)) (\<lambda>t.
     bind_res (mutable_data t) (\<lambda>b.
     let (bs, s) = read_into b (rio_stream r2) in
     Inr (r2\<lparr>rio_stream := s\<rparr>, ts @ [t\<lparr>t_blob := Some bs\<rparr>])))))))"

definition ReadSampleAsArray :: "record_io \<Rightarrow> (record_io \<times> tensor list) res" where
  "ReadSampleAsArray r =
     bind_res (read_local 2 r) (\<lambda>(c, r1).
     bind_res (check (unat (dec16 c) = length (rio_names r1))) (\<lambda>_.
     fold_res read_tensor (r1, []) [0..<unat (dec16 c)]))"

definition ReadSampleAsMap :: "record_io \<Rightarrow> (record_io \<times> (string \<rightharpoonup> tensor)) res" where
  "ReadSampleAsMap r =
     bind_res (ReadSampleAsArray r) (\<lambda>(r', ts).
     Inr (r', fold (\<lambda>(n, t) m. m(n \<mapsto> t)) (zip (rio_names r') ts) Map.empty))"

section \<open>The bytes of a record file\<close>

definition at_end :: "record_io \<Rightarrow> bool" where
  "at_end r \<longleftrightarrow> pos (rio_stream r) = length (content (rio_stream r))"

definition appended :: "record_io \<Rightarrow> byte list \<Rightarrow> record_io" where
  "appended r bs = r\<lparr>rio_stream := \<lparr>content = content (rio_stream r) @ bs,
     pos = length (content (rio_stream r) @ bs)\<rparr>\<rparr>"

definition ahead :: "record_io \<Rightarrow> byte list" where
  "ahead r = remaining (rio_stream r)"

definition advance :: "nat \<Rightarrow> record_io \<Rightarrow> record_io" where
  "advance n r = r\<lparr>rio_stream := (rio_stream r)\<lparr>pos := pos (rio_stream r) + n\<rparr>\<rparr>"

lemma appended_simps [simp]:
  "at_end (appended r bs)"
  "appended (appended r a) b = appended r (a @ b)"
  "content (rio_stream (appended r bs)) = content (rio_stream r) @ bs"
  "rio_names (appended r bs) = rio_names r" "rio_configs (appended r bs) = rio_configs r"
  "sample_count (appended r bs) = sample_count r" "version (appended r bs) = version r"
  by (simp_all add: appended_def at_end_def)

lemma appended_Nil: "at_end r \<Longrightarrow> appended r [] = r"
  by (cases r, cases "rio_stream r") (simp add: appended_def at_end_def)

lemma write_bytes_end [simp]: "at_end r \<Longrightarrow> write_bytes bs r = appended r bs"
  by (simp add: write_bytes_def appended_def at_end_def)

lemma advance_simps [simp]:
  "rio_names (advance n r) = rio_names r" "rio_configs (advance n r) = rio_configs r"
  "sample_count (advance n r) = sample_count r" "version (advance n r) = version r"
  "ahead (advance n r) = drop n (ahead r)"
  "content (rio_stream (advance n r)) = content (rio_stream r)"
  by (simp_all add: advance_def ahead_def remaining_def add.commute)

lemma read_into_advance:
  "ahead r = xs @ ys \<Longrightarrow> length buf = length xs \<Longrightarrow>
   read_into buf (rio_stream r) = (xs, rio_stream (advance (length xs) r))"
  by (simp add: read_into_def stream_Read_def ahead_def remaining_def advance_def)

lemma read_local_advance:
  "ahead r = xs @ ys \<Longrightarrow> length xs = n \<Longrightarrow> read_local n r = Inr (xs, advance n r)"
  by (simp add: read_local_def stream_Read_def ahead_def remaining_def advance_def)

subsection \<open>Header\<close>

definition good_name :: "string \<Rightarrow> bool" where
  "good_name n \<longleftrightarrow> length n < kTensorNameLen \<and> CHR ''%'' \<notin> set n \<and> (\<forall>c \<in> set n. char_byte c \<noteq> 0)"

definition column_bytes :: "byte list \<Rightarrow> string \<Rightarrow> bool" where
  "column_bytes b n \<longleftrightarrow> length b = kTensorNameLen \<and> buf_string b = Inr n"

lemma byte_char_byte [simp]: "byte_char (char_byte c) = c"
  by (simp add: byte_char_def char_byte_def unat_of_nat char_of_take_bit_eq)

lemma name_buf_good:
  assumes "good_name n" "length buf = kTensorNameLen"
  shows "\<exists>b. name_buf n buf = Inr b \<and> column_bytes b n"
proof -
  let ?s = "map char_byte n @ [0]"
  have "take (kTensorNameLen - 1) (map char_byte n) = map char_byte n"
    using assms(1) by (simp add: good_name_def kTensorNameLen_def)
  then have 1: "name_buf n buf = Inr (?s @ drop (length ?s) buf)"
    using assms(1) by (simp add: name_buf_def good_name_def Let_def)
  have "takeWhile (\<lambda>b. b \<noteq> 0) (?s @ drop (length ?s) buf) = map char_byte n"
    using assms(1) unfolding append_assoc
    by (subst takeWhile_append2) (auto simp: good_name_def)
  then have "buf_string (?s @ drop (length ?s) buf) = Inr n"
    by (simp add: buf_string_def comp_def)
  with 1 show ?thesis using assms by (auto simp: column_bytes_def good_name_def)
qed

lemma length_config_bytes [simp]: "length (config_bytes c) = 6"
  by (simp add: config_bytes_def c32.length_enc)

definition columns_bytes :: "byte list list \<Rightarrow> (string \<times> item_config) list \<Rightarrow> byte list" where
  "columns_bytes bs cols = concat (map2 (\<lambda>b nc. b @ config_bytes (snd nc)) bs cols)"

lemma write_columns:
  assumes "\<forall>(n, c) \<in> set cols. good_name n" "length buf = kTensorNameLen" "at_end r"
  shows "\<exists>bs buf'. fold_res write_column (buf, r) cols = Inr (buf', appended r (columns_bytes bs cols)) \<and>
    list_all2 (\<lambda>b nc. column_bytes b (fst nc)) bs cols"
  using assms
proof (induction cols arbitrary: buf r)
  case Nil
  then show ?case by (intro exI [of _ "[]"] exI [of _ buf]) (simp add: columns_bytes_def appended_Nil)
next
  case (Cons nc cols)
  obtain b where b: "name_buf (fst nc) buf = Inr b" "column_bytes b (fst nc)"
    using name_buf_good Cons.prems by (cases nc) fastforce
  let ?r = "appended r (b @ config_bytes (snd nc))"
  have step: "write_column (buf, r) nc = Inr (b, ?r)"
    using b Cons.prems(3) by (simp add: write_column_def config_bytes_def)
  have "length b = kTensorNameLen" using b(2) by (simp add: column_bytes_def)
  with Cons obtain bs buf' where
    IH: "fold_res write_column (b, ?r) cols = Inr (buf', appended ?r (columns_bytes bs cols))"
      "list_all2 (\<lambda>b nc. column_bytes b (fst nc)) bs cols"
    using Cons.IH [of b ?r] by auto
  show ?case
    using step IH b(2) by (intro exI [of _ "b # bs"]) (simp add: columns_bytes_def)
qed

lemma read_columns:
  assumes "list_all2 (\<lambda>b nc. column_bytes b (fst nc)) bs cols"
    and "ahead r = columns_bytes bs cols @ rest" "length is = length cols"
  shows "\<exists>r'. fold_res read_column r is = Inr r' \<and> ahead r' = rest \<and>
    rio_names r' = rio_names r @ map fst cols \<and> rio_configs r' = rio_configs r @ map snd cols \<and>
    version r' = version r \<and> sample_count r' = sample_count r"
  using assms
proof (induction bs cols arbitrary: r "is" rule: list_all2_induct)
  case Nil
  then show ?case by (simp add: columns_bytes_def)
next
  case (Cons b bs nc cols)
  obtain i js where "is": "is = i # js" "length js = length cols" using Cons.prems(2) by (cases "is") auto
  obtain n c where nc: "nc = (n, c)" by (cases nc)
  let ?tail = "columns_bytes bs cols @ rest"
  have a: "ahead r = b @ [cfg_type c] @ enc32 (cfg_level c) @ [cfg_aux c] @ ?tail"
    using Cons.prems(1) by (simp add: columns_bytes_def config_bytes_def nc)
  have b: "length b = kTensorNameLen" "buf_string b = Inr n"
    using Cons.hyps(1) by (simp_all add: column_bytes_def nc)
  let ?r1 = "advance kTensorNameLen r" and ?r2 = "advance 1 (advance kTensorNameLen r)"
  let ?r3 = "advance 4 ?r2" and ?r4 = "advance 1 (advance 4 ?r2)"
  have 1: "read_local kTensorNameLen r = Inr (b, ?r1)" using a b by (intro read_local_advance)
  have 2: "read_local 1 ?r1 = Inr ([cfg_type c], ?r2)"
    using a b(1) by (intro read_local_advance) auto
  have 3: "read_local 4 ?r2 = Inr (enc32 (cfg_level c), ?r3)"
    using a b(1) by (intro read_local_advance) (auto simp: c32.length_enc)
  have 4: "read_local 1 ?r3 = Inr ([cfg_aux c], ?r4)"
    using a b(1) by (intro read_local_advance) (auto simp: c32.length_enc)
  let ?r5 = "?r4\<lparr>rio_names := rio_names r @ [n], rio_configs := rio_configs r @ [c]\<rparr>"
  have step: "read_column r i = Inr ?r5"
    using 1 2 3 4 b(2) by (simp add: read_column_def c32.dec_enc)
  have "ahead ?r4 = ?tail" using a b(1) by (simp add: c32.length_enc)
  then have "ahead ?r5 = ?tail" by (simp add: ahead_def)
  from Cons.IH [OF this "is"(2)] step show ?case by (auto simp: "is"(1) nc)
qed

subsection \<open>Samples\<close>

text \<open>A tensor that fills its memory exactly, as a freshly made one does.\<close>

definition good_tensor :: "item_config \<Rightarrow> tensor \<Rightarrow> bool" where
  "good_tensor c t \<longleftrightarrow> t_dtype t = cfg_type c \<and> t_shape t \<noteq> [] \<and> length (t_shape t) < 256 \<and>
     0 < t_size t \<and> t_size t < 2 ^ 31 \<and> t_size t = prod_list (map unat (t_shape t)) \<and>
     t_capacity t = t_size t \<and>
     (\<exists>w b. TensorDataTypeSize (cfg_type c) = Inr w \<and> t_blob t = Some b \<and> length b = w * t_size t)"

definition tensor_bytes :: "tensor \<Rightarrow> byte list" where
  "tensor_bytes t = [of_nat (length (t_shape t))] @ enc_seq enc32 (t_shape t) @
     (case t_blob t of None \<Rightarrow> [] | Some b \<Rightarrow> b)"

definition primary :: "item_config \<Rightarrow> bool" where
  "primary c \<longleftrightarrow> cfg_level c = 0 \<and> cfg_aux c = 0"

lemma write_dims:
  "at_end r \<Longrightarrow> fold (\<lambda>dim r. write_bytes (enc32 dim) r) ds r = appended r (enc_seq enc32 ds)"
  by (induction ds arbitrary: r) (simp_all add: appended_Nil)

lemma write_tensor_good:
  assumes "at_end r" "i < length (rio_names r)" "length (rio_configs r) = length (rio_names r)"
    and "sample (rio_names r ! i) = Some t" "good_tensor (rio_configs r ! i) t"
  shows "write_tensor sample (r, bs) i = Inr (appended r (tensor_bytes t),
    if primary (rio_configs r ! i) then hd (t_shape t) else bs)"
proof -
  obtain b where b: "t_blob t = Some b" using assms(5) by (auto simp: good_tensor_def)
  have p: "IsPrimary r (int i) = Inr (primary (rio_configs r ! i))"
    using assms(2,3) by (simp add: IsPrimary_def primary_def)
  have h: "vec_at (t_shape t) 0 = Inr (hd (t_shape t))"
    using assms(5) by (cases "t_shape t") (simp_all add: good_tensor_def)
  show ?thesis
    using assms(1,2,4) b p h write_dims [of "appended r [of_nat (length (t_shape t))]"]
    by (simp add: write_tensor_def mutable_data_def tensor_bytes_def Let_def)
qed

definition cols :: "record_io \<Rightarrow> (string \<times> item_config) list" where
  "cols r = zip (rio_names r) (rio_configs r)"

definition batch_of :: "(string \<times> item_config) list \<Rightarrow> (string \<rightharpoonup> tensor) \<Rightarrow> 32 word" where
  "batch_of nc s = fold (\<lambda>(n, c) b. if primary c then hd (t_shape (the (s n))) else b) nc 1"

definition good_sample :: "(string \<times> item_config) list \<Rightarrow> (string \<rightharpoonup> tensor) \<Rightarrow> bool" where
  "good_sample nc s \<longleftrightarrow> (\<forall>(n, c) \<in> set nc. \<exists>t. s n = Some t \<and> good_tensor c t)"

definition tensors_of :: "(string \<times> item_config) list \<Rightarrow> (string \<rightharpoonup> tensor) \<Rightarrow> tensor list" where
  "tensors_of nc s = map (\<lambda>(n, c). the (s n)) nc"

definition sample_bytes :: "(string \<times> item_config) list \<Rightarrow> (string \<rightharpoonup> tensor) \<Rightarrow> byte list" where
  "sample_bytes nc s = enc16 (of_nat (length nc)) @ concat (map tensor_bytes (tensors_of nc s))"

lemma write_tensors:
  assumes "at_end r" "length (rio_configs r) = length (rio_names r)" "good_sample (cols r) s"
    and "i \<le> length (rio_names r)"
  shows "fold_res (write_tensor s) (r, 1) [0..<i] =
    Inr (appended r (concat (map tensor_bytes (tensors_of (take i (cols r)) s))), batch_of (take i (cols r)) s)"
  using assms(4)
proof (induction i)
  case 0
  then show ?case using assms(1) by (simp add: tensors_of_def batch_of_def appended_Nil)
next
  case (Suc i)
  let ?r = "appended r (concat (map tensor_bytes (tensors_of (take i (cols r)) s)))"
  have i: "i < length (cols r)" "cols r ! i = (rio_names r ! i, rio_configs r ! i)"
    using Suc.prems assms(2) by (simp_all add: cols_def)
  obtain t where t: "s (rio_names r ! i) = Some t" "good_tensor (rio_configs r ! i) t"
    using assms(3) i nth_mem [OF i(1)] by (auto simp: good_sample_def)
  have "write_tensor s (?r, batch_of (take i (cols r)) s) i = Inr (appended ?r (tensor_bytes t),
      if primary (rio_configs r ! i) then hd (t_shape t) else batch_of (take i (cols r)) s)"
    using write_tensor_good [of ?r i s t] t Suc.prems assms(2) by simp
  then show ?case
    using Suc i t by (simp add: fold_res_append take_Suc_conv_app_nth tensors_of_def batch_of_def)
qed

lemma WriteSample_good:
  assumes "at_end r" "length (rio_configs r) = length (rio_names r)" "good_sample (cols r) s"
  shows "WriteSample s r = Inr ((appended r (sample_bytes (cols r) s))
    \<lparr>sample_count := sample_count r + ucast (batch_of (cols r) s)\<rparr>)"
proof -
  let ?r = "appended r (enc16 (of_nat (length (rio_names r))))"
  have c: "cols ?r = cols r" "length (cols r) = length (rio_names r)"
    using assms(2) by (simp_all add: cols_def)
  show ?thesis
    using write_tensors [of ?r s "length (rio_names r)"] assms c
    by (simp add: WriteSample_def sample_bytes_def)
qed

lemma read_dims:
  "ahead r = enc_seq enc32 ds @ rest \<Longrightarrow> length is = length ds \<Longrightarrow>
   fold_res read_dim (r, sh) is = Inr (advance (4 * length ds) r, sh @ ds)"
proof (induction ds arbitrary: r sh "is")
  case Nil
  then show ?case by (simp add: advance_def)
next
  case (Cons d ds)
  obtain i js where "is": "is = i # js" "length js = length ds" using Cons.prems(2) by (cases "is") auto
  have 1: "read_local 4 r = Inr (enc32 d, advance 4 r)"
    using Cons.prems(1) by (intro read_local_advance) (auto simp: c32.length_enc)
  have "ahead (advance 4 r) = enc_seq enc32 ds @ rest"
    using Cons.prems(1) by (simp add: c32.length_enc)
  from Cons.IH [OF this "is"(2)] 1 show ?case
    by (simp add: "is"(1) read_dim_def c32.dec_enc) (simp add: advance_def add.assoc)
qed

lemma read_tensor_good:
  assumes "ahead r = tensor_bytes t @ rest" "i < length (rio_configs r)" "good_tensor (rio_configs r ! i) t"
  shows "read_tensor (r, ts) i = Inr (advance (length (tensor_bytes t)) r, ts @ [t])"
proof -
  let ?c = "rio_configs r ! i"
  obtain w b where w: "TensorDataTypeSize (cfg_type ?c) = Inr w" "t_blob t = Some b" "length b = w * t_size t"
    using assms(3) by (auto simp: good_tensor_def)
  have g: "t_dtype t = cfg_type ?c" "length (t_shape t) < 256" "0 < t_size t" "t_size t < 2 ^ 31"
    "t_size t = prod_list (map unat (t_shape t))" "t_capacity t = t_size t"
    using assms(3) by (simp_all add: good_tensor_def)
  let ?n = "length (t_shape t)"
  have a: "ahead r = [of_nat ?n] @ enc_seq enc32 (t_shape t) @ b @ rest"
    using assms(1) w(2) by (simp add: tensor_bytes_def)
  have n: "unat (of_nat ?n :: byte) = ?n" using g(2) by (simp add: unat_of_nat take_bit_nat_eq_self)
  have 1: "read_local 1 r = Inr ([of_nat ?n], advance 1 r)" using a by (intro read_local_advance) auto
  have a1: "ahead (advance 1 r) = enc_seq enc32 (t_shape t) @ b @ rest" using a by simp
  have 2: "fold_res read_dim (advance 1 r, []) [0..<?n] = Inr (advance (4 * ?n) (advance 1 r), t_shape t)"
    using read_dims [OF a1, of "[0..<?n]" "[]"] by simp
  let ?r2 = "advance (4 * ?n) (advance 1 r)"
  have a2: "ahead ?r2 = b @ rest" unfolding advance_simps a by (simp add: mult.commute)
  have 3: "new_tensor (t_shape t) (cfg_type ?c) = Inr \<lparr>t_blob = Some (replicate (w * t_size t) 0),
      t_shape = t_shape t, t_size = t_size t, t_capacity = t_size t, t_dtype = cfg_type ?c\<rparr>"
    using new_tensor_ok [OF w(1), of "t_shape t"] g(3-5) by simp
  have 4: "read_into (replicate (w * t_size t) 0) (rio_stream ?r2) = (b, rio_stream (advance (length b) ?r2))"
    using a2 w(3) by (intro read_into_advance) auto
  have 5: "?r2\<lparr>rio_stream := rio_stream (advance (length b) ?r2)\<rparr> = advance (length (tensor_bytes t)) r"
    using w(2) by (simp add: advance_def tensor_bytes_def add.assoc mult.commute)
  have t: "t = \<lparr>t_blob = Some b, t_shape = t_shape t, t_size = t_size t, t_capacity = t_size t,
      t_dtype = cfg_type ?c\<rparr>"
    using w(2) g(1,6) by (cases t) simp
  have "vec_at (rio_configs ?r2) (int i) = Inr ?c" using assms(2) by simp
  then show ?thesis
    using 1 2 3 4 5 n t by (simp add: read_tensor_def mutable_data_def)
qed

lemma read_tensors:
  assumes "length (rio_configs r) = length (rio_names r)" "good_sample (cols r) s"
    and "ahead r = concat (map tensor_bytes (tensors_of (cols r) s)) @ rest" "i \<le> length (rio_names r)"
  shows "fold_res read_tensor (r, []) [0..<i] =
    Inr (advance (length (concat (map tensor_bytes (tensors_of (take i (cols r)) s)))) r,
      tensors_of (take i (cols r)) s)"
  using assms(4)
proof (induction i)
  case 0
  then show ?case by (simp add: tensors_of_def advance_def)
next
  case (Suc i)
  have i: "i < length (cols r)" "cols r ! i = (rio_names r ! i, rio_configs r ! i)"
    using Suc.prems assms(1) by (simp_all add: cols_def)
  obtain t where t: "s (rio_names r ! i) = Some t" "good_tensor (rio_configs r ! i) t"
    using assms(2) i nth_mem [OF i(1)] by (auto simp: good_sample_def)
  let ?pre = "concat (map tensor_bytes (tensors_of (take i (cols r)) s))"
  have split: "cols r = take i (cols r) @ cols r ! i # drop (Suc i) (cols r)"
    using i(1) by (simp add: id_take_nth_drop)
  have "tensors_of (cols r) s = tensors_of (take i (cols r)) s @ t # tensors_of (drop (Suc i) (cols r)) s"
    by (subst split) (simp add: tensors_of_def i(2) t(1))
  then have "ahead r = ?pre @ tensor_bytes t @ concat (map tensor_bytes (tensors_of (drop (Suc i) (cols r)) s)) @ rest"
    using assms(3) by simp
  then have "ahead (advance (length ?pre) r) =
      tensor_bytes t @ concat (map tensor_bytes (tensors_of (drop (Suc i) (cols r)) s)) @ rest" by simp
  then have "read_tensor (advance (length ?pre) r, ts) i =
      Inr (advance (length (tensor_bytes t)) (advance (length ?pre) r), ts @ [t])" for ts
    using t(2) i(1) assms(1) by (intro read_tensor_good) (simp_all add: cols_def)
  then show ?case
    using Suc i t by (simp add: fold_res_append take_Suc_conv_app_nth tensors_of_def)
      (simp add: advance_def add.assoc add.commute)
qed

lemma ReadSampleAsArray_good:
  assumes "length (rio_configs r) = length (rio_names r)" "good_sample (cols r) s"
    and "ahead r = sample_bytes (cols r) s @ rest" "length (rio_names r) < 2 ^ 16"
  shows "ReadSampleAsArray r = Inr (advance (length (sample_bytes (cols r) s)) r, tensors_of (cols r) s)"
proof -
  let ?n = "length (rio_names r)"
  have c: "length (cols r) = ?n" using assms(1) by (simp add: cols_def)
  have e: "length (enc16 x) = 2" "dec16 (enc16 x) = x" for x
    by (simp_all add: enc16_def dec16_def le_word_le_bytes take_bit_word_eq_self)
  have n: "unat (of_nat ?n :: 16 word) = ?n" using assms(4) by (simp add: unat_of_nat take_bit_nat_eq_self)
  have 1: "read_local 2 r = Inr (enc16 (of_nat ?n), advance 2 r)"
    using assms(3) c by (intro read_local_advance) (auto simp: sample_bytes_def e)
  have "ahead (advance 2 r) = concat (map tensor_bytes (tensors_of (cols (advance 2 r)) s)) @ rest"
    using assms(3) c by (simp add: sample_bytes_def e cols_def)
  then show ?thesis
    using read_tensors [of "advance 2 r" s rest ?n] 1 n assms(1,2) c
    by (simp add: ReadSampleAsArray_def e cols_def sample_bytes_def) (simp add: advance_def add.assoc)
qed

section \<open>Round trip\<close>

definition file_header_bytes :: "byte list list \<Rightarrow> (string \<times> item_config) list \<Rightarrow> u64 \<Rightarrow> byte list" where
  "file_header_bytes bs meta n = enc32 HPPS_VERSION @ enc64 n @ enc16 (of_nat (length meta)) @ columns_bytes bs meta"

lemma length_enc16 [simp]: "length (enc16 x) = 2"
  by (simp add: enc16_def)

lemma dec16_enc16 [simp]: "dec16 (enc16 x) = x"
  by (simp add: enc16_def dec16_def le_word_le_bytes take_bit_word_eq_self)

lemma WriteHeader_good:
  assumes "at_end r" "rio_names r = []" "rio_configs r = []" "length junk = kTensorNameLen"
    and "\<forall>(n, c) \<in> set meta. good_name n"
  shows "\<exists>bs. WriteHeader junk meta r = Inr (appended (r\<lparr>rio_names := map fst meta,
      rio_configs := map snd meta, version := HPPS_VERSION\<rparr>) (file_header_bytes bs meta (sample_count r))) \<and>
    list_all2 (\<lambda>b nc. column_bytes b (fst nc)) bs meta"
proof -
  let ?r1 = "r\<lparr>rio_names := map fst meta, rio_configs := map snd meta, version := HPPS_VERSION\<rparr>"
  let ?pre = "enc32 HPPS_VERSION @ enc64 (sample_count r) @ enc16 (of_nat (length meta))"
  have e: "at_end ?r1" using assms(1) by (simp add: at_end_def)
  have z: "zip (map fst meta) (map snd meta) = meta" by (simp add: zip_map_fst_snd)
  obtain bs buf' where bs: "fold_res write_column (junk, appended ?r1 ?pre) meta =
      Inr (buf', appended (appended ?r1 ?pre) (columns_bytes bs meta))"
    "list_all2 (\<lambda>b nc. column_bytes b (fst nc)) bs meta"
    using write_columns [OF assms(5,4), of "appended ?r1 ?pre"] by auto
  show ?thesis
    using bs e z assms(2,3) by (intro exI [of _ bs]) (simp add: WriteHeader_def Let_def file_header_bytes_def)
qed

lemma ReadHeader_good:
  assumes "list_all2 (\<lambda>b nc. column_bytes b (fst nc)) bs meta" "length meta < 2 ^ 16"
    and "ahead r = file_header_bytes bs meta n @ rest"
  shows "\<exists>r'. ReadHeader r = Inr r' \<and> ahead r' = rest \<and> rio_names r' = map fst meta \<and>
    rio_configs r' = map snd meta \<and> version r' = HPPS_VERSION \<and> sample_count r' = n"
proof -
  let ?r1 = "advance 4 r" and ?r2 = "advance 8 (advance 4 r)"
  have a: "ahead r = enc32 HPPS_VERSION @ enc64 n @ enc16 (of_nat (length meta)) @ columns_bytes bs meta @ rest"
    using assms(3) by (simp add: file_header_bytes_def)
  have 1: "read_into (enc32 (version r)) (rio_stream r) = (enc32 HPPS_VERSION, rio_stream ?r1)"
    using read_into_advance [of r "enc32 HPPS_VERSION" _ "enc32 (version r)"] a by (simp add: c32.length_enc)
  have 2: "read_into (enc64 (sample_count r)) (rio_stream ?r1) = (enc64 n, rio_stream ?r2)"
    using read_into_advance [of ?r1 "enc64 n" _ "enc64 (sample_count r)"] a
    by (simp add: c32.length_enc c64.length_enc)
  let ?r = "r\<lparr>version := HPPS_VERSION, sample_count := n, rio_stream := rio_stream ?r2\<rparr>"
  have "ahead ?r = ahead ?r2" by (simp add: ahead_def)
  then have a2: "ahead ?r = enc16 (of_nat (length meta)) @ columns_bytes bs meta @ rest"
    using a by (simp add: c32.length_enc c64.length_enc)
  then have 3: "read_local 2 ?r = Inr (enc16 (of_nat (length meta)), advance 2 ?r)"
    by (intro read_local_advance) auto
  have "ahead ((advance 2 ?r)\<lparr>rio_names := [], rio_configs := []\<rparr>) = ahead (advance 2 ?r)"
    by (simp add: ahead_def)
  also have "\<dots> = columns_bytes bs meta @ rest" using a2 by simp
  finally have a3: "ahead ((advance 2 ?r)\<lparr>rio_names := [], rio_configs := []\<rparr>) = columns_bytes bs meta @ rest" .
  have n: "unat (of_nat (length meta) :: 16 word) = length meta"
    using assms(2) by (simp add: unat_of_nat take_bit_nat_eq_self)
  show ?thesis
    using read_columns [OF assms(1) a3, of "[0..<length meta]"] n 1 2 3
    by (simp add: ReadHeader_def c32.dec_enc c64.dec_enc)
qed

definition write_file ::
  "byte list \<Rightarrow> (string \<times> item_config) list \<Rightarrow> (string \<rightharpoonup> tensor) list \<Rightarrow> record_io \<Rightarrow> record_io res" where
  \<comment> \<open>the calls a writer makes\<close>
  "write_file junk meta samples r =
     bind_res (WriteHeader junk meta r) (\<lambda>r1.
     bind_res (fold_res (\<lambda>r s. WriteSample s r) r1 samples) (\<lambda>r2. Inr (WriteFinalize r2)))"

primrec read_samples :: "nat \<Rightarrow> record_io \<Rightarrow> tensor list list res" where
  "read_samples 0 r = Inr []"
| "read_samples (Suc n) r =
     bind_res (ReadSampleAsArray r) (\<lambda>(r', ts). bind_res (read_samples n r') (\<lambda>tss. Inr (ts # tss)))"

definition total_count :: "(string \<times> item_config) list \<Rightarrow> (string \<rightharpoonup> tensor) list \<Rightarrow> u64" where
  "total_count meta samples = sum_list (map (\<lambda>s. ucast (batch_of meta s)) samples)"

lemma WriteSamples_good:
  assumes "at_end r" "length (rio_configs r) = length (rio_names r)" "\<forall>s \<in> set samples. good_sample (cols r) s"
  shows "fold_res (\<lambda>r s. WriteSample s r) r samples =
    Inr ((appended r (concat (map (sample_bytes (cols r)) samples)))
      \<lparr>sample_count := sample_count r + total_count (cols r) samples\<rparr>)"
  using assms
proof (induction samples arbitrary: r)
  case Nil
  then show ?case by (cases r) (simp add: total_count_def appended_Nil)
next
  case (Cons s samples)
  let ?r = "(appended r (sample_bytes (cols r) s))\<lparr>sample_count := sample_count r + ucast (batch_of (cols r) s)\<rparr>"
  have "at_end ?r" "cols ?r = cols r" by (simp_all add: at_end_def cols_def appended_def)
  moreover have "appended ?r bs = (appended (appended r (sample_bytes (cols r) s)) bs)
      \<lparr>sample_count := sample_count r + ucast (batch_of (cols r) s)\<rparr>" for bs
    by (simp add: appended_def)
  ultimately show ?case
    using Cons.IH [of ?r] Cons.prems WriteSample_good [of r s]
    by (simp add: total_count_def add.assoc)
qed

lemma read_samples_good:
  assumes "length (rio_configs r) = length (rio_names r)" "\<forall>s \<in> set samples. good_sample (cols r) s"
    and "ahead r = concat (map (sample_bytes (cols r)) samples) @ rest" "length (rio_names r) < 2 ^ 16"
  shows "read_samples (length samples) r = Inr (map (tensors_of (cols r)) samples)"
  using assms
proof (induction samples arbitrary: r)
  case Nil
  then show ?case by simp
next
  case (Cons s samples)
  have 1: "ReadSampleAsArray r = Inr (advance (length (sample_bytes (cols r) s)) r, tensors_of (cols r) s)"
    using Cons.prems by (intro ReadSampleAsArray_good) auto
  have "cols (advance (length (sample_bytes (cols r) s)) r) = cols r" by (simp add: cols_def)
  then have "read_samples (length samples) (advance (length (sample_bytes (cols r) s)) r)
      = Inr (map (tensors_of (cols r)) samples)"
    using Cons.IH [of "advance (length (sample_bytes (cols r) s)) r"] Cons.prems by simp
  then show ?case using 1 by simp
qed

lemma overwrite_count:
  assumes "length a = 4" "length b = 8" "length b' = 8"
  shows "content (stream_Write b' (stream_Seek 4 \<lparr>content = a @ b @ c, pos = p\<rparr>)) = a @ b' @ c"
  using assms by (simp add: stream_Write_def stream_Seek_def Let_def)

text \<open>C16. A record file reads back as it was written: a reader of the finished file gets the column
  names and configurations, as the number of samples the sum of the first dimensions of the
  primary columns, and then the tensors of every sample, in order; for names of at most 31
  characters without a percent sign and tensors that fill their memory.\<close>

theorem record_file_roundtrip:
  assumes "\<forall>(n, c) \<in> set meta. good_name n" "length meta < 2 ^ 16" "length junk = kTensorNameLen"
    and "\<forall>s \<in> set samples. good_sample meta s"
  shows "\<exists>w r. write_file junk meta samples \<lparr>rio_stream = \<lparr>content = [], pos = 0\<rparr>, sample_count = 0,
        rio_names = [], rio_configs = [], version = v\<rparr> = Inr w \<and>
    ReadHeader (r0\<lparr>rio_stream := \<lparr>content = content (rio_stream w), pos = 0\<rparr>\<rparr>) = Inr r \<and>
    rio_names r = map fst meta \<and> rio_configs r = map snd meta \<and>
    sample_count r = total_count meta samples \<and>
    read_samples (length samples) r = Inr (map (tensors_of meta) samples)"
proof -
  let ?st = "\<lparr>rio_stream = \<lparr>content = [], pos = 0\<rparr>, sample_count = 0, rio_names = [], rio_configs = [],
      version = v\<rparr>"
  let ?w = "?st\<lparr>rio_names := map fst meta, rio_configs := map snd meta, version := HPPS_VERSION\<rparr>"
  have e0: "at_end ?st" by (simp add: at_end_def)
  obtain bs where bs: "WriteHeader junk meta ?st = Inr (appended ?w (file_header_bytes bs meta 0))"
    "list_all2 (\<lambda>b nc. column_bytes b (fst nc)) bs meta"
    using WriteHeader_good [OF e0 _ _ assms(3,1)] by auto
  let ?w1 = "appended ?w (file_header_bytes bs meta 0)"
  have cols: "cols ?w1 = meta" by (simp add: cols_def zip_map_fst_snd)
  let ?data = "concat (map (sample_bytes meta) samples)"
  let ?n = "total_count meta samples"
  let ?w2 = "(appended ?w1 ?data)\<lparr>sample_count := ?n\<rparr>"
  have 2: "fold_res (\<lambda>r s. WriteSample s r) ?w1 samples = Inr ?w2"
    using WriteSamples_good [of ?w1 samples] assms(4) cols by simp
  have written: "content (rio_stream (WriteFinalize ?w2)) = file_header_bytes bs meta ?n @ ?data"
  proof -
    let ?rest = "enc16 (of_nat (length meta)) @ columns_bytes bs meta @ ?data"
    have "\<exists>p. rio_stream ?w2 = \<lparr>content = enc32 HPPS_VERSION @ enc64 0 @ ?rest, pos = p\<rparr>"
      by (simp add: appended_def file_header_bytes_def)
    then obtain p where "rio_stream ?w2 = \<lparr>content = enc32 HPPS_VERSION @ enc64 0 @ ?rest, pos = p\<rparr>" ..
    then have "content (rio_stream (WriteFinalize ?w2)) =
        content (stream_Write (enc64 ?n) (stream_Seek 4 \<lparr>content = enc32 HPPS_VERSION @ enc64 0 @ ?rest, pos = p\<rparr>))"
      by (simp add: WriteFinalize_def write_bytes_def del: stream_Write_end)
    also have "\<dots> = enc32 HPPS_VERSION @ enc64 ?n @ ?rest"
      by (rule overwrite_count) (simp_all add: c32.length_enc c64.length_enc)
    finally show ?thesis by (simp add: file_header_bytes_def)
  qed
  let ?r0 = "r0\<lparr>rio_stream := \<lparr>content = content (rio_stream (WriteFinalize ?w2)), pos = 0\<rparr>\<rparr>"
  have "ahead ?r0 = file_header_bytes bs meta ?n @ ?data" unfolding written by (simp add: ahead_def remaining_def)
  then obtain r where r: "ReadHeader ?r0 = Inr r" "ahead r = ?data" "rio_names r = map fst meta"
    "rio_configs r = map snd meta" "sample_count r = ?n"
    using ReadHeader_good [OF bs(2) assms(2)] by blast
  have "cols r = meta" using r(3,4) by (simp add: cols_def zip_map_fst_snd)
  then have "read_samples (length samples) r = Inr (map (tensors_of meta) samples)"
    using read_samples_good [of r samples "[]"] r assms(2,4) by simp
  then show ?thesis using bs(1) 2 r by (simp add: write_file_def)
qed

definition small_tensor :: tensor where
  "small_tensor = \<lparr>t_blob = Some [1, 0, 0, 0, 2, 0, 0, 0], t_shape = [2, 1], t_size = 2, t_capacity = 2,
     t_dtype = 0\<rparr>"

theorem record_file_roundtrip_example:
  "\<exists>w r. write_file (replicate 32 7) [(''id'', ItemConfig 0)] [[''id'' \<mapsto> small_tensor]]
      \<lparr>rio_stream = \<lparr>content = [], pos = 0\<rparr>, sample_count = 0, rio_names = [], rio_configs = [], version = 0\<rparr>
      = Inr w \<and>
    ReadHeader \<lparr>rio_stream = \<lparr>content = content (rio_stream w), pos = 0\<rparr>, sample_count = 9,
        rio_names = [], rio_configs = [], version = 0\<rparr> = Inr r \<and>
    sample_count r = 2 \<and> read_samples 1 r = Inr [[small_tensor]]"
proof -
  let ?meta = "[(''id'', ItemConfig 0)]" and ?s = "[''id'' \<mapsto> small_tensor]"
  have name: "\<forall>(n, c) \<in> set ?meta. good_name n"
    by (simp add: good_name_def kTensorNameLen_def char_byte_def) 
  have ty: "TensorDataTypeSize 0 = Inr 4" by (simp add: TensorDataTypeSize_def)
  have t: "\<forall>s \<in> set [?s]. good_sample ?meta s"
    using ty by (simp add: good_sample_def good_tensor_def small_tensor_def ItemConfig_def)
  have n: "total_count ?meta [?s] = 2"
    by (simp add: total_count_def batch_of_def ItemConfig_def primary_def small_tensor_def)
  show ?thesis
    using record_file_roundtrip [OF name _ _ t, of "replicate 32 7" 0
        "\<lparr>rio_stream = \<lparr>content = [], pos = 0\<rparr>, sample_count = 9, rio_names = [], rio_configs = [], version = 0\<rparr>"] n
    by (auto simp: kTensorNameLen_def tensors_of_def simp del: read_samples.simps)
qed

end
