(* ===== verification/Batches.thy ===== *)
theory Batches
  imports RecordIO
begin

text \<open>
  Batches and what is derived from them: src/hpps/feeder/batch.h, batch.cc, utils.h, and
  \<open>RecordIO::Split\<close> of record_io.cc, which cuts a sample in two. A tensor pointer is an
  optional tensor, \<open>None\<close> being null; where the code keeps two pointers to one tensor
  (\<open>Split\<close>) the second one is an index into the list of tensors.
\<close>

section \<open>Elements of a tensor\<close>

definition blob_u32 :: "blob \<Rightarrow> nat \<Rightarrow> 32 word res" where
  \<comment> \<open>\<open>As<uint32_t>(i)\<close>\<close>
  "blob_u32 b i = elem_at 4 dec32 b i"

definition set_u32 :: "blob \<Rightarrow> nat \<Rightarrow> 32 word \<Rightarrow> blob res" where
  "set_u32 b i x = buf_write b (i * 4) (enc32 x)"

definition set_u64 :: "blob \<Rightarrow> nat \<Rightarrow> u64 \<Rightarrow> blob res" where
  "set_u64 b i x = buf_write b (i * 8) (enc64 x)"

definition with_blob :: "(blob \<Rightarrow> blob res) \<Rightarrow> tensor \<Rightarrow> tensor res" where
  "with_blob f t = bind_res (mutable_data t) (\<lambda>b. bind_res (f b) (\<lambda>b'. Inr (t\<lparr>t_blob := Some b'\<rparr>)))"

section \<open>Batch\<close>

record batch =
  b_index :: "string \<rightharpoonup> int"
  b_tensors :: "tensor option list"
  b_names :: "string list"

definition new_batch :: "string list \<Rightarrow> batch" where
  "new_batch names = \<lparr>b_index = fold (\<lambda>(n, i) m. m(n \<mapsto> int i)) (zip names [0..<length names]) Map.empty,
     b_tensors = replicate (length names) None, b_names = names\<rparr>"

definition batch_Get_index :: "batch \<Rightarrow> int \<Rightarrow> tensor option res" where
  "batch_Get_index b i = bind_res (check (in_range (b_tensors b) i)) (\<lambda>_. Inr (b_tensors b ! nat i))"

definition batch_Get :: "batch \<Rightarrow> string \<Rightarrow> tensor option res" where
  "batch_Get b key = (case b_index b key of None \<Rightarrow> Inr None | Some i \<Rightarrow> batch_Get_index b i)"

definition batch_Set :: "batch \<Rightarrow> int \<Rightarrow> tensor \<Rightarrow> batch res" where
  "batch_Set b i t = bind_res (check (in_range (b_tensors b) i))
     (\<lambda>_. Inr (b\<lparr>b_tensors := (b_tensors b)[nat i := Some t]\<rparr>))"

definition batch_Keys :: "batch \<Rightarrow> string set" where
  "batch_Keys b = dom (b_index b)"

definition batch_Insert :: "batch \<Rightarrow> string \<Rightarrow> tensor option \<Rightarrow> batch" where
  "batch_Insert b name t = \<lparr>b_index = (b_index b)(name \<mapsto> int (length (b_tensors b))),
     b_tensors = b_tensors b @ [t], b_names = b_names b @ [name]\<rparr>"

definition deref :: "'a option \<Rightarrow> 'a res" where
  "deref p = (case p of None \<Rightarrow> Inl NullDeref | Some x \<Rightarrow> Inr x)"

section \<open>Counts to indices\<close>

definition put_index :: "32 word \<Rightarrow> blob \<times> nat \<Rightarrow> nat \<Rightarrow> (blob \<times> nat) res" where
  \<comment> \<open>\<open>*int_addr++ = i\<close>\<close>
  "put_index i = (\<lambda>(b, p) _. bind_res (set_u32 b p i) (\<lambda>b'. Inr (b', p + 1)))"

definition Num2Indices :: "tensor \<Rightarrow> tensor res" where
  "Num2Indices num =
     bind_res (check (t_dtype num = type_flag KUInt32)) (\<lambda>_.
     bind_res (mutable_data num) (\<lambda>addr.
     bind_res (fold_res (\<lambda>s i. bind_res (blob_u32 addr i) (\<lambda>c. Inr (s + c))) (0 :: 32 word) [0..<t_size num]) (\<lambda>size.
     bind_res (new_tensor [size] (t_dtype num)) (\<lambda>indices.
     bind_res (mutable_data indices) (\<lambda>b.
     bind_res (fold_res (\<lambda>bp i. bind_res (blob_u32 addr i) (\<lambda>count.
         fold_res (put_index (of_nat i)) bp [0..<unat count])) (b, 0) [0..<t_size num]) (\<lambda>bp.
     Inr (indices\<lparr>t_blob := Some (fst bp)\<rparr>)))))))"

definition AddIndicesTensor :: "batch \<Rightarrow> string list \<Rightarrow> batch res" where
  "AddIndicesTensor = fold_res (\<lambda>b name.
     bind_res (batch_Get b name) (\<lambda>p.
     bind_res (deref p) (\<lambda>t.
     bind_res (Num2Indices t) (\<lambda>indices. Inr (batch_Insert b (name @ ''.indices'') (Some indices))))))"

section \<open>Identifiers to unique identifiers\<close>

record uniq_state =
  u_local :: blob
  u_ids :: "u64 list"
  u_map :: "u64 \<rightharpoonup> 32 word"

definition uniq_step :: "blob \<Rightarrow> uniq_state \<Rightarrow> nat \<Rightarrow> uniq_state res" where
  "uniq_step ids s i =
     bind_res (elem_at 8 dec64 ids i) (\<lambda>current_id.
     case u_map s current_id of
       None \<Rightarrow>
         let new_id = of_nat (length (u_ids s)) in
         bind_res (set_u32 (u_local s) i new_id) (\<lambda>b.
         Inr (s\<lparr>u_local := b, u_ids := u_ids s @ [current_id], u_map := (u_map s)(current_id \<mapsto> new_id)\<rparr>))
     | Some l \<Rightarrow> bind_res (set_u32 (u_local s) i l) (\<lambda>b. Inr (s\<lparr>u_local := b\<rparr>)))"

definition Id2UniqId :: "tensor \<Rightarrow> (tensor \<times> tensor) res" where
  \<comment> \<open>the unique identifiers and the local ones\<close>
  "Id2UniqId ids =
     bind_res (check (t_dtype ids = type_flag KUInt64)) (\<lambda>_.
     bind_res (new_tensor (t_shape ids) (type_flag KUInt32)) (\<lambda>local_t.
     bind_res (mutable_data ids) (\<lambda>b.
     bind_res (mutable_data local_t) (\<lambda>l.
     bind_res (fold_res (uniq_step b) \<lparr>u_local = l, u_ids = [], u_map = Map.empty\<rparr> [0..<elem_count 8 b]) (\<lambda>s.
     bind_res (new_tensor [of_nat (length (u_ids s))] (type_flag KUInt64)) (\<lambda>uniq_t.
     bind_res (fold_res (\<lambda>t i. bind_res (vec_at (u_ids s) (int i)) (\<lambda>x. with_blob (\<lambda>b. set_u64 b i x) t))
         uniq_t [0..<unat (of_nat (length (u_ids s)) :: 32 word)]) (\<lambda>uniq_t'.
     Inr (uniq_t', local_t\<lparr>t_blob := Some (u_local s)\<rparr>))))))))"

definition AddUniqIdTensor :: "batch \<Rightarrow> string list \<Rightarrow> batch res" where
  "AddUniqIdTensor = fold_res (\<lambda>b name.
     bind_res (batch_Get b name) (\<lambda>p.
     bind_res (deref p) (\<lambda>t.
     bind_res (Id2UniqId t) (\<lambda>(uniq_t, local_t).
     Inr (batch_Insert (batch_Insert b (name @ ''.uniqid'') (Some uniq_t)) (name @ ''.localid'') (Some local_t))))))"

section \<open>Splitting a sample\<close>

record split_state =
  sp_raw :: "tensor list"
  first_top :: "nat list"
  second_bottom :: "nat list"
  first_threshold :: nat
  second_threshold :: nat
  new_id_num :: "tensor list"

definition num_tensor :: "nat option list \<Rightarrow> split_state \<Rightarrow> nat \<Rightarrow> tensor res" where
  \<comment> \<open>\<open>id_num_tensor[i]\<close>, followed\<close>
  "num_tensor ids s i =
     bind_res (vec_at ids (int i)) (\<lambda>p. bind_res (deref p) (\<lambda>k. vec_at (sp_raw s) (int k)))"

definition num_count :: "nat option list \<Rightarrow> split_state \<Rightarrow> nat \<Rightarrow> nat res" where
  "num_count ids s i = bind_res (num_tensor ids s i) (\<lambda>t. bind_res (mutable_data t) (\<lambda>b. Inr (elem_count 4 b)))"

definition num_at :: "nat option list \<Rightarrow> split_state \<Rightarrow> nat \<Rightarrow> nat \<Rightarrow> 32 word res" where
  "num_at ids s i k = bind_res (num_tensor ids s i) (\<lambda>t. bind_res (mutable_data t) (\<lambda>b. blob_u32 b k))"

definition set_num :: "nat option list \<Rightarrow> nat \<Rightarrow> tensor \<Rightarrow> split_state \<Rightarrow> split_state res" where
  "set_num ids i t s = bind_res (vec_at ids (int i)) (\<lambda>p. bind_res (deref p) (\<lambda>k.
     bind_res (vec_set (sp_raw s) (int k) t) (\<lambda>ts. Inr (s\<lparr>sp_raw := ts\<rparr>))))"

text \<open>
  Both inner loops declare their own \<open>i\<close>, which hides the index of the outer loop: round \<open>i\<close>
  looks at element \<open>i\<close> of \<open>id_num_tensor[i]\<close>. The fuel is the number of rounds left before
  the index must have left \<open>id_num_tensor\<close>.
\<close>

fun first_loop :: "nat option list \<Rightarrow> nat \<Rightarrow> nat \<Rightarrow> nat \<Rightarrow> split_state \<Rightarrow> (nat \<times> split_state) res" where
  "first_loop ids 0 i prefix_sum0 s = Inl OutOfRange"
| "first_loop ids (Suc fuel) i prefix_sum0 s =
     bind_res (num_count ids s i) (\<lambda>n.
     if i < n then
       bind_res (num_at ids s i i) (\<lambda>x.
       let prefix_sum0' = prefix_sum0 + unat x in
       if first_threshold s \<le> prefix_sum0' then
         bind_res (vec_set (first_top s) (int i) (first_threshold s)) (\<lambda>ft.
         Inr (prefix_sum0', s\<lparr>first_top := ft, first_threshold := i + 1\<rparr>))
       else first_loop ids fuel (i + 1) prefix_sum0' s)
     else Inr (prefix_sum0, s))"

definition reset_num ::
  "nat option list \<Rightarrow> nat \<Rightarrow> nat \<Rightarrow> nat \<Rightarrow> split_state \<Rightarrow> split_state res" where
  \<comment> \<open>the block under \<open>reset id_num_tensor\<close>; \<open>sb\<close> and \<open>ft\<close> are \<open>second_bottom[i]\<close>, \<open>first_top[i]\<close>\<close>
  "reset_num ids i prefix_sum0 prefix_sum1 s =
     bind_res (num_count ids s i) (\<lambda>n.
     bind_res (new_tensor [of_nat (n - i)] (type_flag KUInt32)) (\<lambda>nt.
     bind_res (fold_res (\<lambda>nts j.
         bind_res (num_at ids s i i) (\<lambda>x.
         bind_res (vec_at nts (int i)) (\<lambda>t.
         bind_res (with_blob (\<lambda>b. set_u32 b (j - i) x) t) (\<lambda>t'. vec_set nts (int i) t'))))
         (new_id_num s @ [nt]) [i..<n]) (\<lambda>nts.
     bind_res (vec_at (second_bottom s) (int i)) (\<lambda>sb.
     bind_res (vec_at nts (int i)) (\<lambda>t.
     bind_res (with_blob (\<lambda>b. set_u32 b 0 (of_nat prefix_sum1 - of_nat sb + 1)) t) (\<lambda>t'.
     bind_res (vec_set nts (int i) t') (\<lambda>nts'.
     bind_res (num_tensor ids s i) (\<lambda>old.
     bind_res (Reshape [of_nat (i + 1)] old) (\<lambda>old1.
     bind_res (vec_at (first_top s) (int i)) (\<lambda>ft.
     bind_res (with_blob (\<lambda>b. bind_res (blob_u32 b i) (\<lambda>x.
         set_u32 b i (x - (of_nat prefix_sum0 - of_nat ft)))) old1) (\<lambda>old2.
     set_num ids i old2 (s\<lparr>new_id_num := nts'\<rparr>))))))))))))"

fun second_loop :: "nat option list \<Rightarrow> nat \<Rightarrow> nat \<Rightarrow> nat \<Rightarrow> nat \<Rightarrow> split_state \<Rightarrow> split_state res" where
  "second_loop ids 0 i prefix_sum0 prefix_sum1 s = Inl OutOfRange"
| "second_loop ids (Suc fuel) i prefix_sum0 prefix_sum1 s =
     bind_res (num_count ids s i) (\<lambda>n.
     if i < n then
       bind_res (num_at ids s i i) (\<lambda>x.
       let prefix_sum1' = prefix_sum1 + unat x in
       if second_threshold s \<le> prefix_sum1' then
         bind_res (vec_set (second_bottom s) (int i) (second_threshold s)) (\<lambda>sb.
         reset_num ids i prefix_sum0 prefix_sum1' (s\<lparr>second_bottom := sb, second_threshold := i + 1\<rparr>))
       else second_loop ids fuel (i + 1) prefix_sum0 prefix_sum1' s)
     else Inr s)"

definition find_nums :: "record_io \<Rightarrow> tensor list \<Rightarrow> nat option list res" where
  \<comment> \<open>the loop that fills \<open>id_num_tensor\<close>\<close>
  "find_nums r raw = fold_res (\<lambda>ids i.
     bind_res (vec_at (rio_configs r) (int i)) (\<lambda>c.
     if cfg_aux c \<noteq> 0 then
       bind_res (check (t_dtype (raw ! i) = type_flag KUInt32)) (\<lambda>_.
       let n = unat (scast (cfg_level c + 1) :: u64);
           ids' = take n ids @ replicate (n - length ids) None in
       vec_set ids' (sint (cfg_level c)) (Some i))
     else Inr ids)) [] [0..<length raw]"

definition split_column :: "record_io \<Rightarrow> split_state \<times> tensor list \<Rightarrow> nat \<Rightarrow> (split_state \<times> tensor list) res"
  where
  "split_column r = (\<lambda>(s, second) i.
     bind_res (vec_at (rio_configs r) (int i)) (\<lambda>c.
     if cfg_aux c \<noteq> 0 then
       bind_res (vec_at (new_id_num s) (sint (cfg_level c))) (\<lambda>t. Inr (s, second @ [t]))
     else
       bind_res (vec_at (sp_raw s) (int i)) (\<lambda>t.
       bind_res (vec_at (second_bottom s) (sint (cfg_level c))) (\<lambda>sb.
       bind_res (vec_at (first_top s) (sint (cfg_level c))) (\<lambda>ft.
       bind_res (vec_at (t_shape t) 0) (\<lambda>rows.
       let new_shape = (t_shape t)[0 := rows - of_nat sb + 1] in
       bind_res (new_tensor new_shape (t_dtype t)) (\<lambda>nt.
       bind_res (TensorDataTypeSize (t_dtype t)) (\<lambda>w.
       bind_res (mutable_data nt) (\<lambda>dst.
       bind_res (mutable_data t) (\<lambda>src.
       if rows = 0 then Inl DivByZero else
       bind_res (buf_read src (w * (unat ((of_nat sb - 1) * of_nat (t_size t) :: u64) div unat rows)) (w * t_size nt)) (\<lambda>part.
       bind_res (buf_write dst 0 part) (\<lambda>dst'.
       bind_res (Reshape ((t_shape t)[0 := of_nat ft]) t) (\<lambda>t'.
       Inr (s\<lparr>sp_raw := (sp_raw s)[i := t']\<rparr>, second @ [nt\<lparr>t_blob := Some dst'\<rparr>]))))))))))))))"

definition Split :: "record_io \<Rightarrow> tensor list \<Rightarrow> nat \<Rightarrow> (tensor list \<times> tensor list) res" where
  "Split r raw split_size =
     bind_res (find_nums r raw) (\<lambda>ids.
     let z = replicate (length ids) 0 in
     bind_res (fold_res (\<lambda>s _.
         bind_res (first_loop ids (Suc (length ids)) 0 0 s) (\<lambda>(p0, s1).
         second_loop ids (Suc (length ids)) 0 p0 0 s1))
       \<lparr>sp_raw = raw, first_top = z, second_bottom = z, first_threshold = split_size,
        second_threshold = split_size + 1, new_id_num = []\<rparr> [0..<length ids]) (\<lambda>s.
     let s' = (if first_top s = []
               then s\<lparr>first_top := [split_size], second_bottom := [split_size + 1]\<rparr>
               else s\<lparr>first_top := first_top s @ [1], second_bottom := second_bottom s @ [1]\<rparr>) in
     bind_res (fold_res (split_column r) (s', []) [0..<length raw]) (\<lambda>(s'', second).
     Inr (sp_raw s'', second))))"

section \<open>Arrays of words in a blob\<close>

lemma zeros32: "replicate (4 * n) 0 = enc_seq enc32 (replicate n 0)"
proof -
  have "enc32 0 = [0, 0, 0, 0]" by (simp add: enc32_def numeral_eq_Suc)
  then show ?thesis by (induction n) (simp_all add: numeral_eq_Suc)
qed

lemma zeros64: "replicate (8 * n) 0 = enc_seq enc64 (replicate n 0)"
proof -
  have "enc64 0 = [0, 0, 0, 0, 0, 0, 0, 0]" by (simp add: enc64_def numeral_eq_Suc)
  then show ?thesis by (induction n) (simp_all add: numeral_eq_Suc)
qed

lemma set_u32_enc: "i < length ws \<Longrightarrow> set_u32 (enc_seq enc32 ws) i x = Inr (enc_seq enc32 (ws[i := x]))"
  using c32.write_enc_seq [of i "[x]" ws] by (simp add: set_u32_def c32.length_enc upd_conv_take_nth_drop)

lemma set_u64_enc: "i < length ws \<Longrightarrow> set_u64 (enc_seq enc64 ws) i x = Inr (enc_seq enc64 (ws[i := x]))"
  using c64.write_enc_seq [of i "[x]" ws] by (simp add: set_u64_def c64.length_enc upd_conv_take_nth_drop)

lemma blob_u32_enc: "i < length ws \<Longrightarrow> blob_u32 (enc_seq enc32 ws) i = Inr (ws ! i)"
  by (simp add: blob_u32_def)

text \<open>A tensor of one type that holds exactly the given elements.\<close>

definition u32_tensor :: "32 word list \<Rightarrow> 32 word list \<Rightarrow> tensor" where
  "u32_tensor shape ws = \<lparr>t_blob = Some (enc_seq enc32 ws), t_shape = shape, t_size = length ws,
     t_capacity = length ws, t_dtype = type_flag KUInt32\<rparr>"

definition u64_tensor :: "32 word list \<Rightarrow> u64 list \<Rightarrow> tensor" where
  "u64_tensor shape ws = \<lparr>t_blob = Some (enc_seq enc64 ws), t_shape = shape, t_size = length ws,
     t_capacity = length ws, t_dtype = type_flag KUInt64\<rparr>"

lemma new_u32_tensor:
  assumes "prod_list (map unat shape) = n" "0 < n" "n < 2 ^ 31"
  shows "new_tensor shape (type_flag KUInt32) = Inr (u32_tensor shape (replicate n 0))"
  using new_tensor_ok [of "type_flag KUInt32" 4 shape] assms zeros32 [of n]
  by (simp add: u32_tensor_def TensorDataTypeSize_def)

lemma new_u64_tensor:
  assumes "prod_list (map unat shape) = n" "0 < n" "n < 2 ^ 31"
  shows "new_tensor shape (type_flag KUInt64) = Inr (u64_tensor shape (replicate n 0))"
  using new_tensor_ok [of "type_flag KUInt64" 8 shape] assms zeros64 [of n]
  by (simp add: u64_tensor_def TensorDataTypeSize_def)

section \<open>Unique identifiers\<close>

definition uniq_inv :: "u64 list \<Rightarrow> nat \<Rightarrow> nat \<Rightarrow> uniq_state \<Rightarrow> bool" where
  "uniq_inv xs n i s \<longleftrightarrow> (\<exists>ls. u_local s = enc_seq enc32 (ls @ replicate (n - i) 0) \<and> length ls = i \<and>
     map (\<lambda>l. u_ids s ! unat l) ls = take i xs \<and> (\<forall>l \<in> set ls. unat l < length (u_ids s))) \<and>
     distinct (u_ids s) \<and> set (u_ids s) = set (take i xs) \<and> length (u_ids s) \<le> i \<and>
     (\<forall>x. u_map s x = (if x \<in> set (u_ids s) then Some (of_nat (length (takeWhile (\<lambda>y. y \<noteq> x) (u_ids s)))) else None))"

lemma takeWhile_index: "x \<in> set xs \<Longrightarrow> length (takeWhile (\<lambda>y. y \<noteq> x) xs) < length xs \<and>
  xs ! length (takeWhile (\<lambda>y. y \<noteq> x) xs) = x"
  by (induction xs) auto

lemma uniq_step_inv:
  assumes inv: "uniq_inv xs n i s" and i: "i < n" "n = length xs" "n < 2 ^ 31"
  shows "\<exists>s'. uniq_step (enc_seq enc64 xs) s i = Inr s' \<and> uniq_inv xs n (Suc i) s'"
proof -
  let ?x = "xs ! i"
  from inv obtain ls where ls: "u_local s = enc_seq enc32 (ls @ replicate (n - i) 0)" "length ls = i"
    "map (\<lambda>l. u_ids s ! unat l) ls = take i xs" "\<forall>l \<in> set ls. unat l < length (u_ids s)"
    by (auto simp: uniq_inv_def)
  have I: "distinct (u_ids s)" "set (u_ids s) = set (take i xs)" "length (u_ids s) \<le> i"
    "\<And>x. u_map s x = (if x \<in> set (u_ids s) then Some (of_nat (length (takeWhile (\<lambda>y. y \<noteq> x) (u_ids s)))) else None)"
    using inv by (auto simp: uniq_inv_def)
  have rep: "replicate (n - i) 0 = (0 :: 32 word) # replicate (n - Suc i) 0"
    using i(1) by (metis Suc_diff_Suc replicate_Suc)
  have set_l: "set_u32 (u_local s) i l = Inr (enc_seq enc32 ((ls @ [l]) @ replicate (n - Suc i) 0))" for l
    using ls(1,2) i(1) unfolding rep by (simp add: set_u32_enc list_update_append del: c32.enc_seq_simps)
  have tk: "take (Suc i) xs = take i xs @ [?x]" using i by (simp add: take_Suc_conv_app_nth)
  have sm: "unat (of_nat k :: 32 word) = k" if "k \<le> i" for k
    using that i by (simp add: unat_of_nat take_bit_nat_eq_self)
  show ?thesis
  proof (cases "?x \<in> set (u_ids s)")
    case True
    let ?l = "of_nat (length (takeWhile (\<lambda>y. y \<noteq> ?x) (u_ids s))) :: 32 word"
    have l: "unat ?l < length (u_ids s)" "u_ids s ! unat ?l = ?x"
      using takeWhile_index [OF True] sm [of "length (takeWhile (\<lambda>y. y \<noteq> ?x) (u_ids s))"] I(3) by auto
    let ?s = "s\<lparr>u_local := enc_seq enc32 ((ls @ [?l]) @ replicate (n - Suc i) 0)\<rparr>"
    have "uniq_step (enc_seq enc64 xs) s i = Inr ?s"
      using i True I(4) set_l [of ?l] by (simp add: uniq_step_def del: c32.enc_seq_simps)
    moreover have "uniq_inv xs n (Suc i) ?s"
      unfolding uniq_inv_def tk using ls(2-4) l I True
      by (intro conjI exI [of _ "ls @ [?l]"]) (auto simp: le_SucI simp del: c32.enc_seq_simps)
    ultimately show ?thesis by blast
  next
    case False
    let ?l = "of_nat (length (u_ids s)) :: 32 word"
    have l: "unat ?l = length (u_ids s)" using sm I(3) by simp
    let ?s = "\<lparr>u_local = enc_seq enc32 ((ls @ [?l]) @ replicate (n - Suc i) 0),
      u_ids = u_ids s @ [?x], u_map = (u_map s)(?x \<mapsto> ?l)\<rparr>"
    have "uniq_step (enc_seq enc64 xs) s i = Inr ?s"
      using i False I(4) set_l [of ?l] by (cases s) (simp add: uniq_step_def Let_def del: c32.enc_seq_simps)
    moreover have "uniq_inv xs n (Suc i) ?s"
    proof -
      have old: "map (\<lambda>l. (u_ids s @ [?x]) ! unat l) ls = take i xs"
      proof -
        have "map (\<lambda>l. (u_ids s @ [?x]) ! unat l) ls = map (\<lambda>l. u_ids s ! unat l) ls"
          using ls(4) by (intro map_cong) (simp_all add: nth_append)
        then show ?thesis using ls(3) by simp
      qed
      have tw: "takeWhile (\<lambda>y. y \<noteq> x) (u_ids s @ [?x]) = takeWhile (\<lambda>y. y \<noteq> x) (u_ids s)"
        if "x \<in> set (u_ids s)" for x
        using that by (simp add: takeWhile_append1)
      have tw': "takeWhile (\<lambda>y. y \<noteq> ?x) (u_ids s @ [?x]) = u_ids s"
        using False by (subst takeWhile_append2) auto
      show ?thesis
        unfolding uniq_inv_def tk using ls(2,4) l I(1-3) False old
        by (intro conjI exI [of _ "ls @ [?l]"])
          (auto simp: I(4) tw tw' less_SucI simp del: c32.enc_seq_simps)
    qed
    ultimately show ?thesis by blast
  qed
qed

lemma put_ids:
  assumes "length us < 2 ^ 31" "k \<le> length us"
  shows "fold_res (\<lambda>t i. bind_res (vec_at us (int i)) (\<lambda>x. with_blob (\<lambda>b. set_u64 b i x) t))
      (u64_tensor sh (replicate (length us) 0)) [0..<k]
    = Inr (u64_tensor sh (take k us @ replicate (length us - k) 0))"
  using assms(2)
proof (induction k)
  case 0
  then show ?case by simp
next
  case (Suc k)
  have rep: "replicate (length us - k) 0 = (0 :: u64) # replicate (length us - Suc k) 0"
    using Suc.prems by (metis Suc_diff_Suc Suc_le_lessD replicate_Suc)
  have "set_u64 (enc_seq enc64 (take k us @ replicate (length us - k) 0)) k (us ! k)
      = Inr (enc_seq enc64 (take (Suc k) us @ replicate (length us - Suc k) 0))"
    using Suc.prems unfolding rep
    by (simp add: set_u64_enc list_update_append take_Suc_conv_app_nth min_def del: c64.enc_seq_simps)
  then have "with_blob (\<lambda>b. set_u64 b k (us ! k)) (u64_tensor sh (take k us @ replicate (length us - k) 0))
      = Inr (u64_tensor sh (take (Suc k) us @ replicate (length us - Suc k) 0))"
    using Suc.prems by (simp add: with_blob_def mutable_data_def u64_tensor_def min_def)
  then show ?case using Suc by (simp add: fold_res_append)
qed

text \<open>C38. \<open>Id2UniqId\<close> of a full tensor of identifiers gives each identifier that occurs exactly once,
  and for every position the index of its identifier among them, so that looking the local
  identifiers up gives the input back; the local tensor has the shape of the input.\<close>

theorem Id2UniqId_roundtrip:
  assumes "length xs = prod_list (map unat sh)" "0 < length xs" "length xs < 2 ^ 31"
  shows "\<exists>us ls. Id2UniqId (u64_tensor sh xs) = Inr (u64_tensor [of_nat (length us)] us, u32_tensor sh ls) \<and>
    distinct us \<and> set us = set xs \<and> length ls = length xs \<and> map (\<lambda>l. us ! unat l) ls = xs"
proof -
  let ?n = "length xs"
  let ?s = "\<lparr>u_local = enc_seq enc32 (replicate ?n 0), u_ids = [], u_map = Map.empty\<rparr>"
  have "k \<le> ?n \<Longrightarrow> \<exists>s. fold_res (uniq_step (enc_seq enc64 xs)) ?s [0..<k] = Inr s \<and> uniq_inv xs ?n k s" for k
  proof (induction k)
    case 0
    then show ?case by (simp add: uniq_inv_def del: c32.enc_seq_simps)
  next
    case (Suc k)
    then obtain s where "fold_res (uniq_step (enc_seq enc64 xs)) ?s [0..<k] = Inr s" "uniq_inv xs ?n k s" by auto
    with uniq_step_inv [of xs ?n k s] Suc.prems assms show ?case by (auto simp: fold_res_append)
  qed
  then obtain s where s: "fold_res (uniq_step (enc_seq enc64 xs)) ?s [0..<?n] = Inr s" "uniq_inv xs ?n ?n s"
    by blast
  from s(2) obtain ls where ls: "u_local s = enc_seq enc32 ls" "length ls = ?n"
    "map (\<lambda>l. u_ids s ! unat l) ls = xs" by (auto simp: uniq_inv_def)
  let ?us = "u_ids s"
  have us: "distinct ?us" "set ?us = set xs" "length ?us \<le> ?n" using s(2) by (auto simp: uniq_inv_def)
  have m: "0 < length ?us" using us(2) assms(2) by auto
  have mw: "unat (of_nat (length ?us) :: 32 word) = length ?us"
    using us(3) assms(3) by (simp add: unat_of_nat take_bit_nat_eq_self)
  have 1: "new_tensor sh (type_flag KUInt32) = Inr (u32_tensor sh (replicate ?n 0))"
    using assms by (intro new_u32_tensor) simp_all
  have 2: "new_tensor [of_nat (length ?us)] (type_flag KUInt64)
      = Inr (u64_tensor [of_nat (length ?us)] (replicate (length ?us) 0))"
    using mw m us(3) assms(3) by (intro new_u64_tensor) simp_all
  have 3: "fold_res (\<lambda>t i. bind_res (vec_at ?us (int i)) (\<lambda>x. with_blob (\<lambda>b. set_u64 b i x) t))
      (u64_tensor [of_nat (length ?us)] (replicate (length ?us) 0)) [0..<length ?us]
    = Inr (u64_tensor [of_nat (length ?us)] ?us)"
    using put_ids [of ?us "length ?us"] us(3) assms(3) by simp
  have "Id2UniqId (u64_tensor sh xs) = Inr (u64_tensor [of_nat (length ?us)] ?us, u32_tensor sh ls)"
    using s(1) 1 2 3 mw ls(1,2)
    by (simp add: Id2UniqId_def mutable_data_def u64_tensor_def u32_tensor_def)
  then show ?thesis using us ls by blast
qed

theorem Id2UniqId_roundtrip_example:
  "\<exists>us ls. Id2UniqId (u64_tensor [4] [12, 0, 13, 12]) = Inr (u64_tensor [of_nat (length us)] us, u32_tensor [4] ls) \<and>
    distinct us \<and> set us = {12, 0, 13} \<and> map (\<lambda>l. us ! unat l) ls = [12, 0, 13, 12]"
proof -
  obtain us ls where us: "Id2UniqId (u64_tensor [4] [12, 0, 13, 12]) =
      Inr (u64_tensor [of_nat (length us)] us, u32_tensor [4] ls)"
    "distinct us" "set us = set [12, 0, 13, 12]" "map (\<lambda>l. us ! unat l) ls = [12, 0, 13, 12]"
    using Id2UniqId_roundtrip [of "[12, 0, 13, 12]" "[4]"] by (auto simp del: list.set)
  have "set us = {12, 0, 13}" using us(3) by auto
  with us(1,2,4) show ?thesis by (intro exI [of _ us] exI [of _ ls] conjI)
qed

section \<open>Counts to indices, correct\<close>

definition indices_of :: "32 word list \<Rightarrow> 32 word list" where
  "indices_of cs = concat (map (\<lambda>i. replicate (unat (cs ! i)) (of_nat i)) [0..<length cs])"

lemma put_index_run:
  "length pre + k \<le> m \<Longrightarrow>
   fold_res (put_index x) (enc_seq enc32 (pre @ replicate (m - length pre) 0), length pre) [0..<k] =
     Inr (enc_seq enc32 ((pre @ replicate k x) @ replicate (m - (length pre + k)) 0), length pre + k)"
proof (induction k)
  case 0
  then show ?case by simp
next
  case (Suc k)
  have rep: "replicate (m - (length pre + k)) 0 = (0 :: 32 word) # replicate (m - (length pre + Suc k)) 0"
    using Suc.prems by (metis Suc_diff_Suc Suc_le_lessD add_Suc_right replicate_Suc)
  have "set_u32 (enc_seq enc32 ((pre @ replicate k x) @ replicate (m - (length pre + k)) 0)) (length pre + k) x
      = Inr (enc_seq enc32 (((pre @ replicate k x) @ replicate (m - (length pre + k)) 0)[length pre + k := x]))"
    using Suc.prems by (intro set_u32_enc) simp
  also have "((pre @ replicate k x) @ replicate (m - (length pre + k)) 0)[length pre + k := x]
      = (pre @ replicate (Suc k) x) @ replicate (m - (length pre + Suc k)) 0"
    unfolding rep by (simp add: list_update_append replicate_append_same)
  finally have step: "set_u32 (enc_seq enc32 ((pre @ replicate k x) @ replicate (m - (length pre + k)) 0))
      (length pre + k) x = Inr (enc_seq enc32 ((pre @ replicate (Suc k) x) @ replicate (m - (length pre + Suc k)) 0))" .
  have "[0..<Suc k] = [0..<k] @ [k]" by simp
  then show ?case
    using Suc step by (simp add: fold_res_append put_index_def del: c32.enc_seq_simps upt_Suc)
qed

lemma sum_take_le: "sum_list (map unat (take j cs)) \<le> sum_list (map unat cs)" for cs :: "32 word list"
  by (metis append_take_drop_id le_add1 map_append sum_list_append)

text \<open>\<open>Num2Indices\<close> of a full tensor of counts writes index i as often as count i says, in order,
  into a tensor with as many elements as the counts add up to.\<close>

theorem Num2Indices_correct:
  assumes "m = sum_list (map unat cs)" "0 < m" "m < 2 ^ 31"
  shows "Num2Indices (u32_tensor sh cs) = Inr (u32_tensor [of_nat m] (indices_of cs))"
proof -
  let ?b = "enc_seq enc32 cs" and ?n = "length cs"
  let ?out = "\<lambda>j. concat (map (\<lambda>i. replicate (unat (cs ! i)) (of_nat i :: 32 word)) [0..<j])"
  have len: "j \<le> ?n \<Longrightarrow> length (?out j) = sum_list (map unat (take j cs))" for j
    by (induction j) (simp_all add: take_Suc_conv_app_nth)
  have 1: "j \<le> ?n \<Longrightarrow> fold_res (\<lambda>s i. bind_res (blob_u32 ?b i) (\<lambda>c. Inr (s + c))) 0 [0..<j]
      = Inr (of_nat (sum_list (map unat (take j cs))))" for j
  proof (induction j)
    case 0
    then show ?case by simp
  next
    case (Suc j)
    then show ?case by (simp add: fold_res_append blob_u32_enc take_Suc_conv_app_nth)
  qed
  have mw: "unat (of_nat m :: 32 word) = m" using assms(3) by (simp add: unat_of_nat take_bit_nat_eq_self)
  have 2: "new_tensor [of_nat m] (type_flag KUInt32) = Inr (u32_tensor [of_nat m] (replicate m 0))"
    using mw assms(2,3) by (intro new_u32_tensor) simp_all
  have 3: "j \<le> ?n \<Longrightarrow> fold_res (\<lambda>bp i. bind_res (blob_u32 ?b i) (\<lambda>count.
        fold_res (put_index (of_nat i)) bp [0..<unat count])) (enc_seq enc32 (replicate m 0), 0) [0..<j]
      = Inr (enc_seq enc32 (?out j @ replicate (m - length (?out j)) 0), length (?out j))" for j
  proof (induction j)
    case 0
    then show ?case by simp
  next
    case (Suc j)
    have "length (?out j) + unat (cs ! j) = length (?out (Suc j))" using len Suc.prems by simp
    also have "\<dots> \<le> m" using len [OF Suc.prems] sum_take_le [of "Suc j" cs] assms(1) by simp
    finally have "fold_res (put_index (of_nat j)) (enc_seq enc32 (?out j @ replicate (m - length (?out j)) 0),
        length (?out j)) [0..<unat (cs ! j)]
      = Inr (enc_seq enc32 ((?out j @ replicate (unat (cs ! j)) (of_nat j)) @
          replicate (m - (length (?out j) + unat (cs ! j))) 0), length (?out j) + unat (cs ! j))"
      by (rule put_index_run)
    moreover have "[0..<Suc j] = [0..<j] @ [j]" by simp
    ultimately show ?case
      using Suc by (simp add: fold_res_append blob_u32_enc del: c32.enc_seq_simps upt_Suc)
  qed
  have "length (?out ?n) = m" using len [of ?n] assms(1) by simp
  moreover have m: "t_size (u32_tensor sh cs) = ?n" "t_dtype (u32_tensor sh cs) = type_flag KUInt32"
    "mutable_data (u32_tensor sh cs) = Inr ?b"
    "mutable_data (u32_tensor [of_nat m] (replicate m 0)) = Inr (enc_seq enc32 (replicate m 0))"
    by (simp_all add: u32_tensor_def mutable_data_def)
  ultimately show ?thesis
    using 1 [of ?n] 2 3 [of ?n] assms(1)
    by (simp add: Num2Indices_def indices_of_def del: c32.enc_seq_simps)
      (simp add: u32_tensor_def indices_of_def)
qed

lemma Num2Indices_correct_witness:
  "Num2Indices (u32_tensor [4] [2, 0, 1, 2]) = Inr (u32_tensor [5] [0, 0, 2, 3, 3])"
proof -
  have "indices_of [2, 0, 1, 2] = [0, 0, 2, 3, 3]" by code_simp
  then show ?thesis using Num2Indices_correct [of 5 "[2, 0, 1, 2]" "[4]"] by simp
qed

text \<open>A tensor of counts that are all zero has no memory to point to: the process ends.\<close>

lemma Num2Indices_zero: "Num2Indices (u32_tensor [1] [0]) = Inl NullDeref"
proof -
  have "new_tensor [0] 0 = Inr \<lparr>t_blob = None, t_shape = [0], t_size = 0, t_capacity = 0, t_dtype = 0\<rparr>"
    by (simp add: new_tensor_def Reshape_def shape_size_def)
  moreover have "blob_u32 (enc_seq enc32 [0]) 0 = Inr 0" using blob_u32_enc [of 0 "[0]"] by simp
  ultimately show ?thesis
    by (simp add: Num2Indices_def u32_tensor_def mutable_data_def del: c32.enc_seq_simps)
qed

section \<open>Splitting without counts\<close>

text \<open>A full tensor with at least one dimension, and its parts before and from row \<open>n\<close> on.\<close>

definition row_tensor :: "nat \<Rightarrow> tensor \<Rightarrow> bool" where
  "row_tensor n t \<longleftrightarrow> t_shape t \<noteq> [] \<and> n < unat (hd (t_shape t)) \<and>
     t_size t = prod_list (map unat (t_shape t)) \<and> 0 < t_size t \<and> t_size t < 2 ^ 31 \<and>
     t_capacity t = t_size t \<and>
     (\<exists>w b. TensorDataTypeSize (t_dtype t) = Inr w \<and> t_blob t = Some b \<and> length b = w * t_size t)"

definition row_size :: "tensor \<Rightarrow> nat" where
  "row_size t = prod_list (map unat (tl (t_shape t)))"

definition head_rows :: "nat \<Rightarrow> tensor \<Rightarrow> tensor" where
  "head_rows n t = t\<lparr>t_shape := of_nat n # tl (t_shape t), t_size := n * row_size t\<rparr>"

definition tail_rows :: "nat \<Rightarrow> tensor \<Rightarrow> tensor" where
  "tail_rows n t = (let k = (unat (hd (t_shape t)) - n) * row_size t in
     t\<lparr>t_shape := (hd (t_shape t) - of_nat n) # tl (t_shape t), t_size := k, t_capacity := k,
       t_blob := map_option (drop (length (the (t_blob t)) div t_size t * (n * row_size t))) (t_blob t)\<rparr>)"

lemma split_column_rows:
  assumes t: "row_tensor n t" "0 < n" and c: "i < length (rio_configs r)" "primary (rio_configs r ! i)"
    and s: "i < length (sp_raw s)" "sp_raw s ! i = t" "first_top s = [n]" "second_bottom s = [n + 1]"
  shows "split_column r (s, second) i =
    Inr (s\<lparr>sp_raw := (sp_raw s)[i := head_rows n t]\<rparr>, second @ [tail_rows n t])"
proof -
  obtain rows rest where sh: "t_shape t = rows # rest" using t(1) by (cases "t_shape t") (auto simp: row_tensor_def)
  let ?R = "unat rows" and ?k = "row_size t"
  obtain w b where w: "TensorDataTypeSize (t_dtype t) = Inr w" "t_blob t = Some b" "length b = w * t_size t"
    using t(1) by (auto simp: row_tensor_def)
  have T: "n < ?R" "t_size t = ?R * ?k" "0 < t_size t" "t_size t < 2 ^ 31" "t_capacity t = t_size t"
    using t(1) unfolding row_tensor_def sh row_size_def list.sel list.map prod_list.Cons by blast+
  have k: "0 < ?k" using T(2,3) by (cases "?k") simp_all
  have w0: "0 < w" using type_size_le [OF w(1)] by simp
  have nk: "n * ?k \<le> t_size t" using T(1,2) by simp
  have R32: "?R < 2 ^ 32" 
  proof -
    have "int (unat rows) < int (2 ^ 32)" using uint_lt2p [of rows] by simp
    then show ?thesis by (simp only: of_nat_less_iff)
  qed
  have nw: "unat (of_nat n :: 32 word) = n"
    using T(1) R32 by (simp add: unat_of_nat take_bit_nat_eq_self)
  have diff: "unat (rows - of_nat n) = ?R - n"
    using T(1) nw by (metis less_imp_le unat_sub word_le_nat_alt)
  have new_shape: "rows - of_nat (n + 1) + 1 = rows - of_nat n" by simp
  have size': "prod_list (map unat ((rows - of_nat n) # rest)) = (?R - n) * ?k"
    by (simp add: diff row_size_def sh)
  have lt: "(?R - n) * ?k < 2 ^ 31" "0 < (?R - n) * ?k"
  proof -
    have "(?R - n) * ?k \<le> ?R * ?k" by (rule mult_le_mono1) simp
    then show "(?R - n) * ?k < 2 ^ 31" using T(2,4) by linarith
    show "0 < (?R - n) * ?k" using T(1) k by simp
  qed
  have 1: "new_tensor ((rows - of_nat n) # rest) (t_dtype t) = Inr \<lparr>t_blob = Some (replicate (w * ((?R - n) * ?k)) 0),
      t_shape = (rows - of_nat n) # rest, t_size = (?R - n) * ?k, t_capacity = (?R - n) * ?k, t_dtype = t_dtype t\<rparr>"
    using new_tensor_ok [OF w(1), of "(rows - of_nat n) # rest"] lt unfolding size' by simp
  have "n * t_size t < 2 ^ 64"
  proof -
    have "n < 2 ^ 32" using T(1) R32 by (simp add: less_trans)
    then have "n * t_size t \<le> 2 ^ 32 * 2 ^ 31" using T(4) by (intro mult_le_mono) simp_all
    also have "\<dots> < (2 :: nat) ^ 64" by simp
    finally show ?thesis .
  qed
  then have off: "unat ((of_nat (n + 1) - 1) * of_nat (t_size t) :: u64) div ?R = n * ?k"
    using T(1,2) by (simp add: unat_of_nat take_bit_nat_eq_self flip: of_nat_mult)
  have len: "w * (n * ?k) + w * ((?R - n) * ?k) = length b"
  proof -
    have "n * ?k + (?R - n) * ?k = ?R * ?k" using T(1) by (simp add: add_mult_distrib [symmetric])
    then show ?thesis unfolding w(3) T(2) by (metis add_mult_distrib2)
  qed
  have 2: "buf_read b (w * (n * ?k)) (w * ((?R - n) * ?k)) = Inr (drop (w * (n * ?k)) b)"
    using len by (simp add: buf_read_def)
  have 3: "buf_write (replicate (w * ((?R - n) * ?k)) 0) 0 (drop (w * (n * ?k)) b) = Inr (drop (w * (n * ?k)) b)"
    using len by (simp add: buf_write_def)
  have size'': "prod_list (map unat (of_nat n # rest)) = n * ?k" by (simp add: nw row_size_def sh)
  have "unat (shape_size (of_nat n # rest)) = n * ?k"
    using shape_size_small [of "of_nat n # rest"] nk T(4) unfolding size'' by simp
  then have 4: "Reshape (of_nat n # rest) t = Inr (head_rows n t)"
    using nk T(5) by (simp add: Reshape_def head_rows_def sh)
  have wb: "length b div t_size t = w" using w(3) T(3) by simp
  have tl: "tail_rows n t = \<lparr>t_blob = Some (drop (w * (n * ?k)) b), t_shape = (rows - of_nat n) # rest,
      t_size = (?R - n) * ?k, t_capacity = (?R - n) * ?k, t_dtype = t_dtype t\<rparr>"
    by (rule tensor.equality) (simp_all add: tail_rows_def Let_def sh w(2) wb)
  have R: "rows \<noteq> 0" using T(1) by auto
  show ?thesis
    using c s w(1,2) R 1 2 3 4 off
    by (simp add: split_column_def sh new_shape primary_def mutable_data_def Let_def tl)
qed

lemma find_nums_none:
  assumes "length raw \<le> length (rio_configs r)" "\<forall>i < length raw. primary (rio_configs r ! i)"
  shows "find_nums r raw = Inr []"
proof -
  have "k \<le> length raw \<Longrightarrow> fold_res (\<lambda>ids i.
     bind_res (vec_at (rio_configs r) (int i)) (\<lambda>c.
     if cfg_aux c \<noteq> 0 then
       bind_res (check (t_dtype (raw ! i) = type_flag KUInt32)) (\<lambda>_.
       let n = unat (scast (cfg_level c + 1) :: u64);
           ids' = take n ids @ replicate (n - length ids) None in
       vec_set ids' (sint (cfg_level c)) (Some i))
     else Inr ids)) [] [0..<k] = Inr []" for k
    using assms by (induction k) (simp_all add: fold_res_append primary_def)
  then show ?thesis by (simp add: find_nums_def)
qed

text \<open>Splitting a sample of primary columns after n rows: the first part keeps the first n rows
  of every column in place, the second part has the remaining rows in memory of its own.\<close>

lemma Split_rows:
  assumes "length raw \<le> length (rio_configs r)" "\<forall>i < length raw. primary (rio_configs r ! i)"
    and "\<forall>t \<in> set raw. row_tensor n t" "0 < n"
  shows "Split r raw n = Inr (map (head_rows n) raw, map (tail_rows n) raw)"
proof -
  let ?s = "\<lambda>k. \<lparr>sp_raw = map (head_rows n) (take k raw) @ drop k raw, first_top = [n], second_bottom = [n + 1],
    first_threshold = n, second_threshold = n + 1, new_id_num = []\<rparr>"
  have "k \<le> length raw \<Longrightarrow> fold_res (split_column r) (?s 0, []) [0..<k]
      = Inr (?s k, map (tail_rows n) (take k raw))" for k
  proof (induction k)
    case 0
    then show ?case by simp
  next
    case (Suc k)
    have "split_column r (?s k, map (tail_rows n) (take k raw)) k =
      Inr ((?s k)\<lparr>sp_raw := (sp_raw (?s k))[k := head_rows n (raw ! k)]\<rparr>,
        map (tail_rows n) (take k raw) @ [tail_rows n (raw ! k)])"
      using Suc.prems assms by (intro split_column_rows) (auto simp: nth_append)
    moreover have "(sp_raw (?s k))[k := head_rows n (raw ! k)] = sp_raw (?s (Suc k))"
      using Suc.prems by (simp add: list_update_append take_Suc_conv_app_nth flip: Cons_nth_drop_Suc)
    ultimately show ?case
      using Suc by (simp add: fold_res_append take_Suc_conv_app_nth)
  qed
  from this [of "length raw"] find_nums_none [OF assms(1,2)] show ?thesis
    by (simp add: Split_def)
qed

section \<open>Splitting with counts\<close>

definition count_column :: record_io where
  "count_column = \<lparr>rio_stream = \<lparr>content = [], pos = 0\<rparr>, sample_count = 0, rio_names = [''num''],
     rio_configs = [\<lparr>cfg_type = 0, cfg_level = 0, cfg_aux = 1\<rparr>], version = 1\<rparr>"

text \<open>With a column of counts \<open>Split\<close> goes wrong: cutting the counts 3, 2 after one item leaves
  the counts 2, 3 for the second part instead of 2, 2, since the copy reads \<open>As(i)\<close> where it
  means \<open>As(j)\<close>; and a cut beyond the first count reads past \<open>id_num_tensor\<close>, since the inner
  loops hide the outer index.\<close>

theorem Split_counts_wrong:
  "bind_res (Split count_column [u32_tensor [2] [3, 2]] 1) (\<lambda>p. Inr (snd p)) = Inr [u32_tensor [2] [2, 3]] \<and>
   Split count_column [u32_tensor [2] [3, 2]] 4 = Inl OutOfRange"
proof
  show "bind_res (Split count_column [u32_tensor [2] [3, 2]] 1) (\<lambda>p. Inr (snd p)) = Inr [u32_tensor [2] [2, 3]]"
    by code_simp
  show "Split count_column [u32_tensor [2] [3, 2]] 4 = Inl OutOfRange"
    by code_simp
qed

end
