(* ===== verification/Feeder.thy ===== *)
theory Feeder
  imports Batches SafeQueue
begin

text \<open>
  The feeder: src/hpps/feeder/plan.h, plan.cc, blocking_queue.h, feeder.h and feeder.cc. A plan
  opens every record file once per epoch; a task reads one of them and makes batches of
  \<open>batch_size\<close> rows, keeping the rest of a split sample in its cache. Every record file belongs
  to one task, so the task carries its state. The threads of the pool run \<open>ProduceBatch\<close> one
  task at a time (a task is out of its queue while a thread works on it).
\<close>

section \<open>Plans\<close>

record plan_maker =
  pm_uri :: "string list"
  pm_epoch :: int
  pm_batch_size :: int

definition new_plan_maker :: plan_maker where
  "new_plan_maker = \<lparr>pm_uri = [], pm_epoch = 1, pm_batch_size = 128\<rparr>"

record plan =
  sample_record :: "record_io list"
  plan_count :: u64
  plan_batch_size :: int

definition open_sample :: "plan \<times> disk \<Rightarrow> string \<Rightarrow> (plan \<times> disk) res" where
  "open_sample = (\<lambda>(p, d) u.
     bind_res (new_record_io u BinaryRead d) (\<lambda>(r, d').
     bind_res (ReadHeader r) (\<lambda>r'.
     Inr (p\<lparr>plan_count := plan_count p + sample_count r', sample_record := sample_record p @ [r']\<rparr>, d'))))"

definition PlanMaker_Make :: "plan_maker \<Rightarrow> disk \<Rightarrow> (plan \<times> disk) res" where
  "PlanMaker_Make pm d =
     bind_res (check (0 < pm_batch_size pm)) (\<lambda>_.
     fold_res (\<lambda>pd _. fold_res open_sample pd (pm_uri pm))
       (\<lparr>sample_record = [], plan_count = 0, plan_batch_size = pm_batch_size pm\<rparr>, d) [0..pm_epoch pm - 1])"

section \<open>Blocking queues\<close>

record 'a blocking_queue =
  bq_queue :: "'a queue"
  max_queue_size :: nat

definition new_blocking_queue :: "nat \<Rightarrow> 'a blocking_queue" where
  "new_blocking_queue n = \<lparr>bq_queue = empty_queue, max_queue_size = n\<rparr>"

definition bq_Push :: "'a \<Rightarrow> 'a blocking_queue \<Rightarrow> 'a blocking_queue" where
  "bq_Push x q = q\<lparr>bq_queue := queue_Push x (bq_queue q)\<rparr>"

definition bq_Full :: "'a blocking_queue \<Rightarrow> bool" where
  "bq_Full q \<longleftrightarrow> max_queue_size q \<le> queue_Size (bq_queue q)"

definition iterator_Pop :: "'a blocking_queue \<Rightarrow> ('a, 'a queue) pop_result" where
  "iterator_Pop q = queue_Pop (bq_queue q)"

section \<open>Reading the tensors of a batch\<close>

record task =
  curr :: nat
  tk_io :: record_io
  tk_batch_size :: int
  tk_cache :: "tensor list list"

fun primary_rows :: "record_io \<Rightarrow> nat \<Rightarrow> tensor list \<Rightarrow> nat res" where
  \<comment> \<open>the loop over the columns of a sample, from column \<open>i\<close> on\<close>
  "primary_rows r i [] = Inr 0"
| "primary_rows r i (t # ts) =
     bind_res (IsPrimary r (int i)) (\<lambda>p.
     if p then bind_res (vec_at (t_shape t) 0) (\<lambda>d. Inr (unat d)) else primary_rows r (i + 1) ts)"

text \<open>
  The loop of \<open>ReadBatchTensor\<close>; it does not end if a sample has no rows, so it has fuel, and
  \<open>None\<close> is running out of it.
\<close>

fun read_rows ::
  "nat \<Rightarrow> record_io \<Rightarrow> tensor list list \<Rightarrow> tensor list \<Rightarrow> nat \<Rightarrow> tensor list list \<Rightarrow>
   (record_io \<times> tensor list list \<times> tensor list \<times> nat \<times> tensor list list) res option" where
  "read_rows fuel r cache item 0 acc = Some (Inr (r, cache, item, 0, acc))"
| "read_rows 0 r cache item (Suc n) acc = None"
| "read_rows (Suc fuel) r cache item (Suc n) acc =
     (case (case cache of c # cs \<Rightarrow> Inr (r, cs, c)
            | [] \<Rightarrow> bind_res (ReadSampleAsArray r) (\<lambda>(r', ts). Inr (r', [], ts))) of
        Inl e \<Rightarrow> Some (Inl e)
      | Inr (r', cache', item') \<Rightarrow>
        (case primary_rows r' 0 item' of
           Inl e \<Rightarrow> Some (Inl e)
         | Inr k \<Rightarrow>
           if Suc n < k then Some (Inr (r', cache', item', Suc n, acc))
           else read_rows fuel r' cache' item' (Suc n - k) (acc @ [item'])))"

definition ReadBatchTensor ::
  "nat \<Rightarrow> record_io \<Rightarrow> int \<Rightarrow> tensor list list \<Rightarrow>
   (record_io \<times> tensor list list \<times> tensor list list) res option" where
  "ReadBatchTensor fuel r batch_size cache =
     map_option (\<lambda>x. bind_res x (\<lambda>(r', cache', item, remaining_size, batch_tensor).
       if remaining_size = 0 then Inr (r', cache', batch_tensor)
       else bind_res (Split r' item remaining_size) (\<lambda>(a, b).
         Inr (r', cache' @ [b], batch_tensor @ [a]))))
     (read_rows fuel r cache [] (nat batch_size) [])"

section \<open>Gluing them together\<close>

definition glue_shape ::
  "nat \<Rightarrow> 32 word list \<times> nat list \<times> nat \<Rightarrow> tensor list \<Rightarrow> (32 word list \<times> nat list \<times> nat) res" where
  \<comment> \<open>one more row of \<open>batch_tensor\<close>\<close>
  "glue_shape col = (\<lambda>(shape, offsets, stride) ts.
     bind_res (vec_at ts (int col)) (\<lambda>t.
     bind_res (check (length (t_shape t) = length shape)) (\<lambda>_.
     bind_res (check (tl (t_shape t) = tl shape)) (\<lambda>_.
     bind_res (vec_at (t_shape t) 0) (\<lambda>d.
     bind_res (vec_at shape 0) (\<lambda>d0.
     Inr (shape[0 := d0 + d], offsets @ [stride], stride + t_size t)))))))"

definition glue_data :: "nat \<Rightarrow> nat \<Rightarrow> blob \<Rightarrow> tensor list \<times> nat \<Rightarrow> blob res" where
  \<comment> \<open>the \<open>memcpy\<close> of one row\<close>
  "glue_data col type_size dst = (\<lambda>(ts, offset).
     bind_res (vec_at ts (int col)) (\<lambda>src.
     bind_res (mutable_data src) (\<lambda>b.
     bind_res (buf_read b 0 (t_size src * type_size)) (\<lambda>part.
     buf_write dst (offset * type_size) part))))"

definition glue_column :: "record_io \<Rightarrow> tensor list list \<Rightarrow> nat \<Rightarrow> tensor res" where
  "glue_column r batch_tensor col =
     (case batch_tensor of
        [] \<Rightarrow> Inl OutOfRange
      | ts0 # tss \<Rightarrow>
        bind_res (vec_at ts0 (int col)) (\<lambda>t0.
        bind_res (fold_res (glue_shape col) (t_shape t0, [0], t_size t0) tss) (\<lambda>(shape, offsets, stride).
        bind_res (vec_at (rio_configs r) (int col)) (\<lambda>c.
        bind_res (new_tensor shape (cfg_type c)) (\<lambda>result.
        bind_res (mutable_data result) (\<lambda>b.
        bind_res (TensorDataTypeSize (cfg_type c)) (\<lambda>type_size.
        bind_res (fold_res (glue_data col type_size) (replicate (length b) 0) (zip batch_tensor offsets)) (\<lambda>b'.
        Inr (result\<lparr>t_blob := Some b'\<rparr>)))))))))"

definition BatchTensor2Batch :: "record_io \<Rightarrow> tensor list list \<Rightarrow> batch \<Rightarrow> batch res" where
  "BatchTensor2Batch r batch_tensor b =
     (case batch_tensor of
        [] \<Rightarrow> Inl OutOfRange
      | ts0 # _ \<Rightarrow> fold_res (\<lambda>b col. bind_res (glue_column r batch_tensor col) (\<lambda>t. batch_Set b (int col) t))
          b [0..<length ts0])"

section \<open>Producing batches\<close>

definition AssembleBatch :: "nat \<Rightarrow> task \<Rightarrow> batch \<Rightarrow> (task \<times> batch \<times> int) res option" where
  "AssembleBatch fuel t b =
     map_option (\<lambda>x. bind_res x (\<lambda>(r, cache, batch_tensor).
       bind_res (BatchTensor2Batch r batch_tensor b) (\<lambda>b'.
       Inr (t\<lparr>tk_io := r, tk_cache := cache\<rparr>, b', tk_batch_size t))))
     (ReadBatchTensor fuel (tk_io t) (tk_batch_size t) (tk_cache t))"

definition produce :: "nat \<Rightarrow> task \<Rightarrow> (batch \<times> task option) option res option" where
  \<comment> \<open>what \<open>ProduceBatch\<close> does with the task it popped: the batch and the task it puts back\<close>
  "produce fuel t =
     (if int (curr t) + tk_batch_size t \<le> int (unat (sample_count (tk_io t)))
      then map_option (\<lambda>x. bind_res x (\<lambda>(t', b, size).
          let t'' = t'\<lparr>curr := curr t' + nat size\<rparr> in
          Inr (Some (b, if curr t'' < unat (sample_count (tk_io t'')) then Some t'' else None))))
        (AssembleBatch fuel t (new_batch (rio_names (tk_io t))))
      else Some (Inr None))"

record source =
  tasks :: "task queue"
  batches :: "batch blocking_queue"

definition ProduceBatch :: "nat \<Rightarrow> source \<Rightarrow> source res option" where
  \<comment> \<open>a blocked or ended \<open>Pop\<close> changes nothing\<close>
  "ProduceBatch fuel s = (case queue_Pop (tasks s) of
       Popped t q \<Rightarrow> map_option (\<lambda>x. bind_res x (\<lambda>y. Inr (case y of
           None \<Rightarrow> s\<lparr>tasks := q\<rparr>
         | Some (b, None) \<Rightarrow> s\<lparr>tasks := q, batches := bq_Push b (batches s)\<rparr>
         | Some (b, Some t') \<Rightarrow> s\<lparr>tasks := queue_PushFront t' q, batches := bq_Push b (batches s)\<rparr>)))
         (produce fuel t)
     | _ \<Rightarrow> Some (Inr s))"

record feeder =
  sources :: "source list" \<comment> \<open>\<open>entries_\<close> and \<open>task_queues_\<close>, which grow together\<close>
  running :: bool

definition AddTask :: "plan \<Rightarrow> task queue" where
  "AddTask p = fold (\<lambda>r q. queue_Push \<lparr>curr = 0, tk_io = r, tk_batch_size = plan_batch_size p, tk_cache = []\<rparr> q)
     (sample_record p) empty_queue"

definition feeder_Schedule :: "plan \<Rightarrow> nat \<Rightarrow> feeder \<Rightarrow> feeder" where
  "feeder_Schedule p n f = f\<lparr>sources := sources f @ [\<lparr>tasks = AddTask p, batches = new_blocking_queue n\<rparr>]\<rparr>"

definition feeder_Start :: "feeder \<Rightarrow> feeder" where
  "feeder_Start f = f\<lparr>running := True\<rparr>"

definition Run_entry :: "nat \<Rightarrow> source \<Rightarrow> source res option" where
  \<comment> \<open>the body of the loop over the entries in \<open>Run\<close>\<close>
  "Run_entry fuel s = (if bq_Full (batches s) then Some (Inr s) else ProduceBatch fuel s)"

definition feeder_Stop :: "feeder \<Rightarrow> feeder" where
  \<comment> \<open>the part before the memory is freed: the threads leave their loops\<close>
  "feeder_Stop f = \<lparr>sources = map (\<lambda>s. s\<lparr>tasks := queue_Exit (tasks s)\<rparr>) (sources f), running = False\<rparr>"

section \<open>No row is lost or reordered\<close>

text \<open>The bytes of a tensor's elements (its blob may be larger), and its number of rows.\<close>

definition tensor_data :: "tensor \<Rightarrow> byte list" where
  "tensor_data t = (case TensorDataTypeSize (t_dtype t) of
     Inl _ \<Rightarrow> [] | Inr w \<Rightarrow> (case t_blob t of None \<Rightarrow> [] | Some b \<Rightarrow> take (w * t_size t) b))"

definition tensor_rows :: "tensor \<Rightarrow> nat" where
  "tensor_rows t = unat (hd (t_shape t))"

definition item_ok :: "record_io \<Rightarrow> nat \<Rightarrow> tensor list \<Rightarrow> bool" where
  \<comment> \<open>a sample of \<open>k\<close> rows\<close>
  "item_ok r k ts \<longleftrightarrow> 0 < k \<and> length ts = length (rio_configs r) \<and> ts \<noteq> [] \<and>
     (\<forall>t \<in> set ts. row_tensor 0 t \<and> tensor_rows t = k)"

definition item_rows :: "tensor list \<Rightarrow> nat" where
  "item_rows ts = tensor_rows (ts ! 0)"

definition source_ok :: "record_io \<Rightarrow> tensor list list \<Rightarrow> (string \<rightharpoonup> tensor) list \<Rightarrow> byte list \<Rightarrow> bool" where
  \<comment> \<open>the cache holds at most one sample, and the file goes on with \<open>samples\<close>\<close>
  "source_ok r cache samples rest \<longleftrightarrow> length cache \<le> 1 \<and>
     length (rio_configs r) = length (rio_names r) \<and> length (rio_names r) < 2 ^ 16 \<and>
     (\<forall>c \<in> set (rio_configs r). primary c) \<and>
     ahead r = concat (map (sample_bytes (cols r)) samples) @ rest \<and>
     (\<forall>s \<in> set samples. good_sample (cols r) s) \<and>
     (\<forall>ts \<in> set (cache @ map (tensors_of (cols r)) samples). item_ok r (item_rows ts) ts)"

definition stream_of :: "record_io \<Rightarrow> tensor list list \<Rightarrow> (string \<rightharpoonup> tensor) list \<Rightarrow> tensor list list" where
  "stream_of r cache samples = cache @ map (tensors_of (cols r)) samples"

lemma primary_rows_ok:
  assumes "item_ok r k ts" "\<forall>c \<in> set (rio_configs r). primary c"
  shows "primary_rows r 0 ts = Inr k"
proof -
  obtain t ts' where ts: "ts = t # ts'" using assms(1) by (cases ts) (auto simp: item_ok_def)
  have "rio_configs r \<noteq> []" using assms(1) ts by (auto simp: item_ok_def)
  then have "IsPrimary r (int 0) = Inr True"
    using assms(2) by (cases "rio_configs r") (simp_all add: IsPrimary_def primary_def)
  moreover have "vec_at (t_shape t) 0 = Inr (hd (t_shape t))"
    using assms(1) ts by (cases "t_shape t") (simp_all add: item_ok_def row_tensor_def)
  ultimately show ?thesis using assms(1) by (simp add: ts item_ok_def tensor_rows_def)
qed

lemma next_item:
  assumes "source_ok r cache samples rest" "stream_of r cache samples = item # others"
  shows "\<exists>r' cache' samples'. (case cache of c # cs \<Rightarrow> Inr (r, cs, c)
      | [] \<Rightarrow> bind_res (ReadSampleAsArray r) (\<lambda>(r', ts). Inr (r', [], ts))) = Inr (r', cache', item) \<and>
    source_ok r' cache' samples' rest \<and> stream_of r' cache' samples' = others \<and> cache' = [] \<and>
    rio_names r' = rio_names r \<and> rio_configs r' = rio_configs r"
proof (cases cache)
  case (Cons c cs)
  then show ?thesis
    using assms by (intro exI [of _ r] exI [of _ "[]"] exI [of _ samples]) (auto simp: source_ok_def stream_of_def)
next
  case Nil
  then obtain s samples' where s: "samples = s # samples'" "item = tensors_of (cols r) s"
    "others = map (tensors_of (cols r)) samples'"
    using assms(2) by (cases samples) (auto simp: stream_of_def)
  let ?r = "advance (length (sample_bytes (cols r) s)) r"
  have "ReadSampleAsArray r = Inr (?r, item)"
    unfolding s(2) using assms(1) s(1) by (intro ReadSampleAsArray_good) (auto simp: source_ok_def)
  moreover have "cols ?r = cols r" by (simp add: cols_def)
  ultimately show ?thesis
    using Nil s assms(1)
    by (intro exI [of _ ?r] exI [of _ "[]"] exI [of _ samples']) (auto simp: source_ok_def stream_of_def item_ok_def)
qed

lemma source_item:
  assumes "source_ok r cache samples rest" "item \<in> set (stream_of r cache samples)"
  shows "item_ok r (item_rows item) item" "0 < item_rows item"
  using assms by (auto simp: source_ok_def stream_of_def item_ok_def)

lemma read_rows_ok:
  assumes "source_ok r cache samples rest" "n \<le> fuel"
    and "n \<le> sum_list (map item_rows (stream_of r cache samples))"
  shows "\<exists>r' cache' samples' item' n' used. read_rows fuel r cache item n acc =
      Some (Inr (r', cache', item', n', acc @ used)) \<and>
    source_ok r' cache' samples' rest \<and> rio_names r' = rio_names r \<and> rio_configs r' = rio_configs r \<and>
    sum_list (map item_rows used) + n' = n \<and>
    (if n' = 0 then stream_of r cache samples = used @ stream_of r' cache' samples'
     else cache' = [] \<and> stream_of r cache samples = used @ item' # stream_of r' cache' samples' \<and>
       n' < item_rows item' \<and> item_ok r' (item_rows item') item')"
  using assms
proof (induction n arbitrary: fuel r cache samples item acc rule: less_induct)
  case (less n)
  show ?case
  proof (cases n)
    case 0
    then show ?thesis
      using less.prems(1)
      by (intro exI [of _ r] exI [of _ cache] exI [of _ samples] exI [of _ item] exI [of _ 0] exI [of _ "[]"]) simp
  next
    case (Suc m)
    then obtain f where f: "fuel = Suc f" using less.prems(2) by (cases fuel) auto
    obtain it others where st: "stream_of r cache samples = it # others"
      using less.prems(3) Suc by (cases "stream_of r cache samples") auto
    let ?k = "item_rows it"
    have it: "item_ok r ?k it" "0 < ?k" using source_item [OF less.prems(1), of it] st by auto
    obtain r1 cache1 samples1 where
      nx: "(case cache of c # cs \<Rightarrow> Inr (r, cs, c)
        | [] \<Rightarrow> bind_res (ReadSampleAsArray r) (\<lambda>(r', ts). Inr (r', [], ts))) = Inr (r1, cache1, it)"
      "source_ok r1 cache1 samples1 rest" "stream_of r1 cache1 samples1 = others" "cache1 = []"
      "rio_names r1 = rio_names r" "rio_configs r1 = rio_configs r"
      using next_item [OF less.prems(1) st] by blast
    have it1: "item_ok r1 ?k it" using it(1) nx(6) by (simp add: item_ok_def)
    have k: "primary_rows r1 0 it = Inr ?k"
      using it1 nx(2) by (intro primary_rows_ok) (simp_all add: source_ok_def)
    show ?thesis
    proof (cases "n < ?k")
      case True
      then have "read_rows fuel r cache item n acc = Some (Inr (r1, cache1, it, n, acc @ []))"
        using nx(1) k unfolding Suc f by simp
      then show ?thesis
        using nx st it1 True Suc
        by (intro exI [of _ r1] exI [of _ cache1] exI [of _ samples1] exI [of _ it] exI [of _ n] exI [of _ "[]"]) simp
    next
      case False
      have "n - ?k < n" using it(2) Suc by simp
      moreover have "n - ?k \<le> f" using less.prems(2) it(2) f Suc by simp
      moreover have "n - ?k \<le> sum_list (map item_rows (stream_of r1 cache1 samples1))"
        using less.prems(3) st nx(3) by simp
      ultimately obtain r' cache' samples' item' n' used where IH:
        "read_rows f r1 cache1 it (n - ?k) (acc @ [it]) = Some (Inr (r', cache', item', n', (acc @ [it]) @ used))"
        "source_ok r' cache' samples' rest" "rio_names r' = rio_names r1" "rio_configs r' = rio_configs r1"
        "sum_list (map item_rows used) + n' = n - ?k"
        "if n' = 0 then stream_of r1 cache1 samples1 = used @ stream_of r' cache' samples'
         else cache' = [] \<and> stream_of r1 cache1 samples1 = used @ item' # stream_of r' cache' samples' \<and>
           n' < item_rows item' \<and> item_ok r' (item_rows item') item'"
        using less.IH [OF _ nx(2)] by blast
      have "read_rows fuel r cache item n acc = Some (Inr (r', cache', item', n', acc @ it # used))"
        using nx(1) k False IH(1) unfolding Suc f by simp
      moreover have "sum_list (map item_rows (it # used)) + n' = n" using IH(5) False by simp
      ultimately show ?thesis
        using IH(2-4,6) nx(3,5,6) st
        by - (rule exI [of _ r'], rule exI [of _ cache'], rule exI [of _ samples'], rule exI [of _ item'],
          rule exI [of _ n'], rule exI [of _ "it # used"], cases "n' = 0", simp_all)
    qed
  qed
qed

end
