(* ===== verification/BatchRows.thy ===== *)
theory BatchRows
  imports Feeder
begin

text \<open>
  What \<open>Feeder::AssembleBatch\<close> delivers: a batch is made of the next \<open>batch_size\<close> rows of
  every column, and the rows that are left, in the cache and in the file, are the rows after them.
\<close>

section \<open>Splitting keeps the data\<close>

text \<open>A tensor whose blob has room for its elements; the head of a split tensor is one.\<close>

definition data_tensor :: "nat \<Rightarrow> tensor \<Rightarrow> bool" where
  "data_tensor w t \<longleftrightarrow> TensorDataTypeSize (t_dtype t) = Inr w \<and> t_shape t \<noteq> [] \<and>
     t_size t = tensor_rows t * row_size t \<and> 0 < t_size t \<and>
     (\<exists>b. t_blob t = Some b \<and> w * t_size t \<le> length b)"

lemma row_tensor_data:
  assumes "row_tensor n t" "TensorDataTypeSize (t_dtype t) = Inr w"
  shows "data_tensor w t"
  using assms by (cases "t_shape t") (auto simp: row_tensor_def data_tensor_def tensor_rows_def row_size_def)

lemma length_tensor_data: "data_tensor w t \<Longrightarrow> length (tensor_data t) = w * t_size t"
  by (auto simp: data_tensor_def tensor_data_def)

lemma split_rows:
  assumes t: "row_tensor n t" "0 < n" and w: "TensorDataTypeSize (t_dtype t) = Inr w"
  shows "data_tensor w (head_rows n t)" "tensor_rows (head_rows n t) = n"
    "row_tensor 0 (tail_rows n t)" "tensor_rows (tail_rows n t) = tensor_rows t - n"
    "tensor_data (head_rows n t) @ tensor_data (tail_rows n t) = tensor_data t"
proof -
  obtain rows rest where sh: "t_shape t = rows # rest" using t(1) by (cases "t_shape t") (auto simp: row_tensor_def)
  let ?R = "unat rows" and ?k = "row_size t"
  obtain b where b: "t_blob t = Some b" "length b = w * t_size t" using t(1) w by (auto simp: row_tensor_def)
  have T: "n < ?R" "t_size t = ?R * ?k" "0 < t_size t" "t_size t < 2 ^ 31" "t_capacity t = t_size t"
    using t(1) unfolding row_tensor_def sh row_size_def list.sel list.map prod_list.Cons by blast+
  have k: "0 < ?k" using T(2,3) by (cases "?k") simp_all
  have nw: "unat (of_nat n :: 32 word) = n" using less_trans [OF T(1) unsigned_less] by (simp add: unat_of_nat take_bit_nat_eq_self)
  have diff: "unat (rows - of_nat n) = ?R - n"
    using T(1) nw by (metis less_imp_le unat_sub word_le_nat_alt)
  have le: "n * ?k \<le> ?R * ?k" "(?R - n) * ?k \<le> ?R * ?k" using T(1) by simp_all
  have len: "w * (n * ?k) + w * ((?R - n) * ?k) = length b"
  proof -
    have "n * ?k + (?R - n) * ?k = ?R * ?k" using T(1) by (simp add: add_mult_distrib [symmetric])
    then show ?thesis unfolding b(2) T(2) by (metis add_mult_distrib2)
  qed
  have wb: "length b div t_size t = w" using b(2) T(3) by simp
  have tl: "tail_rows n t = \<lparr>t_blob = Some (drop (w * (n * ?k)) b), t_shape = (rows - of_nat n) # rest,
      t_size = (?R - n) * ?k, t_capacity = (?R - n) * ?k, t_dtype = t_dtype t\<rparr>"
    by (rule tensor.equality) (simp_all add: tail_rows_def Let_def sh b(1) wb)
  have rs: "row_size (head_rows n t) = ?k" by (simp add: row_size_def head_rows_def sh)
  show "tensor_rows (head_rows n t) = n" by (simp add: tensor_rows_def head_rows_def nw)
  then show "data_tensor w (head_rows n t)"
    using w b T(2) le(1) k t(2) rs by (simp add: data_tensor_def head_rows_def)
  show "tensor_rows (tail_rows n t) = tensor_rows t - n" by (simp add: tensor_rows_def tl sh diff)
  have lt: "(?R - n) * ?k < 2 ^ 31" using le(2) T(2,4) by linarith
  show "row_tensor 0 (tail_rows n t)"
    using T(1) k w len lt by (simp add: row_tensor_def tl diff row_size_def sh)
  have "take (w * ((?R - n) * ?k)) (drop (w * (n * ?k)) b) = drop (w * (n * ?k)) b" using len by simp
  moreover have "take (w * t_size t) b = b" using b(2) by simp
  ultimately show "tensor_data (head_rows n t) @ tensor_data (tail_rows n t) = tensor_data t"
    using w b(1) by (simp add: tensor_data_def tl head_rows_def)
qed

section \<open>The rows of a batch\<close>

text \<open>The samples of a record file: they agree in the types of the columns and in the shape of a row.\<close>

definition same_cols :: "record_io \<Rightarrow> 32 word list list \<Rightarrow> tensor list \<Rightarrow> bool" where
  "same_cols r dims ts \<longleftrightarrow> length ts = length (rio_configs r) \<and>
     (\<forall>j < length (rio_configs r). tl (t_shape (ts ! j)) = dims ! j \<and> t_dtype (ts ! j) = cfg_type (rio_configs r ! j))"

definition column_data :: "tensor list list \<Rightarrow> nat \<Rightarrow> byte list" where
  "column_data tss j = concat (map (\<lambda>ts. tensor_data (ts ! j)) tss)"

lemma column_data_simps [simp]:
  "column_data [] j = []" "column_data (ts # tss) j = tensor_data (ts ! j) @ column_data tss j"
  "column_data (xs @ ys) j = column_data xs j @ column_data ys j"
  by (simp_all add: column_data_def)

text \<open>A piece of a batch: its columns have the same number of rows, and their memory is there.\<close>

definition piece_ok :: "record_io \<Rightarrow> 32 word list list \<Rightarrow> tensor list \<Rightarrow> bool" where
  "piece_ok r dims ts \<longleftrightarrow> same_cols r dims ts \<and> ts \<noteq> [] \<and>
     (\<forall>t \<in> set ts. tensor_rows t = item_rows ts \<and> (\<exists>w. data_tensor w t))"

lemma item_piece:
  assumes "item_ok r k ts" "same_cols r dims ts"
  shows "piece_ok r dims ts" "item_rows ts = k"
proof -
  have 1: "ts ! 0 \<in> set ts" using assms(1) by (cases ts) (simp_all add: item_ok_def)
  then show k: "item_rows ts = k" using assms(1) by (simp add: item_ok_def item_rows_def)
  show "piece_ok r dims ts"
    using assms k row_tensor_data by (fastforce simp: piece_ok_def item_ok_def row_tensor_def)
qed

lemma split_item:
  assumes it: "item_ok r k ts" "same_cols r dims ts" and n: "0 < n" "n < k"
  shows "piece_ok r dims (map (head_rows n) ts)" "item_rows (map (head_rows n) ts) = n"
    "item_ok r (k - n) (map (tail_rows n) ts)" "same_cols r dims (map (tail_rows n) ts)"
    "item_rows (map (tail_rows n) ts) = k - n"
    "j < length ts \<Longrightarrow> tensor_data (map (head_rows n) ts ! j) @ tensor_data (map (tail_rows n) ts ! j) = tensor_data (ts ! j)"
proof -
  have R: "row_tensor n t \<and> tensor_rows t = k \<and> (\<exists>w. TensorDataTypeSize (t_dtype t) = Inr w)" if "t \<in> set ts" for t
    using it(1) that n(2) by (auto simp: item_ok_def row_tensor_def tensor_rows_def)
  have len: "ts \<noteq> []" "length ts = length (rio_configs r)" using it(1) by (simp_all add: item_ok_def)
  have h: "tensor_rows (head_rows n t) = n \<and> (\<exists>w. data_tensor w (head_rows n t))"
    and t: "row_tensor 0 (tail_rows n t) \<and> tensor_rows (tail_rows n t) = k - n" if "t \<in> set ts" for t
    using R [OF that] split_rows [OF _ n(1)] by blast+
  have 0: "ts ! 0 \<in> set ts" using len(1) by (cases ts) simp_all
  show hr: "item_rows (map (head_rows n) ts) = n" using h [OF 0] len(1) by (simp add: item_rows_def)
  show "item_rows (map (tail_rows n) ts) = k - n" using t [OF 0] len(1) by (simp add: item_rows_def)
  show "item_ok r (k - n) (map (tail_rows n) ts)" using n len t by (auto simp: item_ok_def)
  show "same_cols r dims (map (tail_rows n) ts)"
    using it(2) by (simp add: same_cols_def tail_rows_def Let_def)
  show "piece_ok r dims (map (head_rows n) ts)"
    using it(2) h len hr by (auto simp: piece_ok_def same_cols_def head_rows_def)
  show "tensor_data (map (head_rows n) ts ! j) @ tensor_data (map (tail_rows n) ts ! j) = tensor_data (ts ! j)"
    if "j < length ts"
    using R [OF nth_mem [OF that]] split_rows(5) [OF _ n(1)] that by auto
qed

lemma ReadBatchTensor_rows:
  assumes ok: "source_ok r cache samples rest" and cols: "\<forall>ts \<in> set (stream_of r cache samples). same_cols r dims ts"
    and n: "0 < n" "n \<le> fuel" "n \<le> sum_list (map item_rows (stream_of r cache samples))"
  shows "\<exists>r' cache' samples' batch. ReadBatchTensor fuel r (int n) cache = Some (Inr (r', cache', batch)) \<and>
    source_ok r' cache' samples' rest \<and> rio_names r' = rio_names r \<and> rio_configs r' = rio_configs r \<and>
    (\<forall>ts \<in> set (stream_of r' cache' samples'). same_cols r dims ts) \<and>
    batch \<noteq> [] \<and> (\<forall>ts \<in> set batch. piece_ok r dims ts) \<and> sum_list (map item_rows batch) = n \<and>
    (\<forall>j < length (rio_configs r). column_data batch j @ column_data (stream_of r' cache' samples') j =
       column_data (stream_of r cache samples) j)"
proof -
  obtain r' cache' samples' item' n' used where R:
    "read_rows fuel r cache [] n [] = Some (Inr (r', cache', item', n', used))"
    "source_ok r' cache' samples' rest" "rio_names r' = rio_names r" "rio_configs r' = rio_configs r"
    "sum_list (map item_rows used) + n' = n"
    "if n' = 0 then stream_of r cache samples = used @ stream_of r' cache' samples'
     else cache' = [] \<and> stream_of r cache samples = used @ item' # stream_of r' cache' samples' \<and>
       n' < item_rows item' \<and> item_ok r' (item_rows item') item'"
    using read_rows_ok [OF ok n(2,3), of "[]" "[]"] by auto
  have used: "piece_ok r dims ts" if "ts \<in> set used" for ts
  proof -
    have "ts \<in> set (stream_of r cache samples)" using R(6) that by (auto split: if_splits)
    then show ?thesis using source_item(1) [OF ok] item_piece(1) cols by blast
  qed
  show ?thesis
  proof (cases "n' = 0")
    case True
    have "ReadBatchTensor fuel r (int n) cache = Some (Inr (r', cache', used))"
      using R(1) True by (simp add: ReadBatchTensor_def)
    moreover have "used \<noteq> []" using R(5) True n(1) by auto
    ultimately show ?thesis
      using R(2-6) True cols used by (intro exI [of _ r'] exI [of _ cache'] exI [of _ samples'] exI [of _ used]) auto
  next
    case False
    let ?k = "item_rows item'" and ?h = "map (head_rows n') item'" and ?t = "map (tail_rows n') item'"
    have st: "cache' = []" "stream_of r cache samples = used @ item' # stream_of r' cache' samples'"
      "n' < ?k" "item_ok r' ?k item'" using R(6) False by auto
    have it: "item_ok r ?k item'" "same_cols r dims item'"
      using st(2,4) R(4) cols by (simp_all add: item_ok_def)
    have n': "0 < n'" using False by simp
    note sp = split_item [OF it n' st(3)]
    have "\<forall>c \<in> set (rio_configs r'). primary c" using R(2) by (simp add: source_ok_def)
    moreover have "length item' = length (rio_configs r')" using st(4) by (simp add: item_ok_def)
    moreover have "\<forall>t \<in> set item'. row_tensor n' t"
      using st(3,4) by (auto simp: item_ok_def row_tensor_def tensor_rows_def)
    ultimately have "Split r' item' n' = Inr (?h, ?t)" using n' by (intro Split_rows) simp_all
    then have "ReadBatchTensor fuel r (int n) cache = Some (Inr (r', [?t], used @ [?h]))"
      using R(1) False st(1) by (simp add: ReadBatchTensor_def)
    moreover have "stream_of r' [?t] samples' = ?t # stream_of r' cache' samples'" using st(1) by (simp add: stream_of_def)
    moreover have "source_ok r' [?t] samples' rest"
      using R(2) st(1) sp(3,5) R(4) by (simp add: source_ok_def item_ok_def)
    moreover have "sum_list (map item_rows (used @ [?h])) = n" using R(5) sp(2) by simp
    moreover have "length item' = length (rio_configs r)" using it by (simp add: item_ok_def)
    ultimately show ?thesis
      using R(3,4) used sp(1,4,6) st(2) cols
      by (intro exI [of _ r'] exI [of _ "[?t]"] exI [of _ samples'] exI [of _ "used @ [?h]"]) auto
  qed
qed

section \<open>Gluing\<close>

fun offsets_from :: "nat \<Rightarrow> tensor list \<Rightarrow> nat list" where
  "offsets_from s [] = []"
| "offsets_from s (t # ts) = s # offsets_from (s + t_size t) ts"

lemma offsets_from_append:
  "offsets_from s (xs @ ys) = offsets_from s xs @ offsets_from (s + sum_list (map t_size xs)) ys"
  by (induction xs arbitrary: s) (simp_all add: add.assoc)

lemma length_offsets_from [simp]: "length (offsets_from s ts) = length ts"
  by (induction ts arbitrary: s) simp_all

lemma glue_shape_run:
  assumes "\<forall>ts \<in> set tss. col < length ts \<and> t_shape (ts ! col) \<noteq> [] \<and> tl (t_shape (ts ! col)) = dims"
  shows "fold_res (glue_shape col) (d # dims, os, stride) tss =
    Inr ((d + sum_list (map (\<lambda>ts. hd (t_shape (ts ! col))) tss)) # dims,
      os @ offsets_from stride (map (\<lambda>ts. ts ! col) tss), stride + sum_list (map (\<lambda>ts. t_size (ts ! col)) tss))"
  using assms
proof (induction tss arbitrary: d os stride)
  case (Cons ts tss)
  obtain x where x: "t_shape (ts ! col) = x # dims" using Cons.prems by (cases "t_shape (ts ! col)") auto
  have "glue_shape col (d # dims, os, stride) ts = Inr ((d + x) # dims, os @ [stride], stride + t_size (ts ! col))"
    using Cons.prems x by (simp add: glue_shape_def)
  then show ?case using Cons x by (simp add: add.assoc)
qed simp

lemma glue_data_run:
  assumes "\<forall>ts \<in> set tss. col < length ts \<and> data_tensor w (ts ! col)" "length pre = s * w"
  shows "fold_res (glue_data col w) (pre @ replicate (w * sum_list (map (\<lambda>ts. t_size (ts ! col)) tss)) 0)
      (zip tss (offsets_from s (map (\<lambda>ts. ts ! col) tss))) = Inr (pre @ column_data tss col)"
  using assms
proof (induction tss arbitrary: pre s)
  case (Cons ts tss)
  let ?t = "ts ! col" and ?z = "sum_list (map (\<lambda>ts. t_size (ts ! col)) tss)"
  obtain b where b: "data_tensor w ?t" "t_blob ?t = Some b" "w * t_size ?t \<le> length b" "tensor_data ?t = take (w * t_size ?t) b"
    using Cons.prems(1) by (auto simp: data_tensor_def tensor_data_def)
  have len: "length (tensor_data ?t) = t_size ?t * w" using length_tensor_data [OF b(1)] by (simp add: mult.commute)
  have "buf_read b 0 (t_size ?t * w) = Inr (tensor_data ?t)" using b by (simp add: buf_read_def mult.commute)
  moreover have "buf_write (pre @ replicate (w * (t_size ?t + ?z)) 0) (s * w) (tensor_data ?t)
      = Inr ((pre @ tensor_data ?t) @ replicate (w * ?z) 0)"
    using Cons.prems(2) len by (simp add: buf_write_def add_mult_distrib2 mult.commute replicate_add)
  ultimately have step: "glue_data col w (pre @ replicate (w * (t_size ?t + ?z)) 0) (ts, s)
      = Inr ((pre @ tensor_data ?t) @ replicate (w * ?z) 0)"
    using Cons.prems(1) b(2) by (simp add: glue_data_def mutable_data_def)
  have "length (pre @ tensor_data ?t) = (s + t_size ?t) * w" using Cons.prems(2) len by (simp add: add_mult_distrib)
  then have "fold_res (glue_data col w) ((pre @ tensor_data ?t) @ replicate (w * ?z) 0)
      (zip tss (offsets_from (s + t_size ?t) (map (\<lambda>ts. ts ! col) tss))) = Inr ((pre @ tensor_data ?t) @ column_data tss col)"
    using Cons.prems(1) by (intro Cons.IH) auto
  then show ?case using step by simp
qed simp

lemma piece_cols:
  assumes "piece_ok r dims ts" "j < length (rio_configs r)" "TensorDataTypeSize (cfg_type (rio_configs r ! j)) = Inr w"
  shows "j < length ts" "data_tensor w (ts ! j)" "tl (t_shape (ts ! j)) = dims ! j"
    "tensor_rows (ts ! j) = item_rows ts" "t_shape (ts ! j) \<noteq> []"
    "t_size (ts ! j) = item_rows ts * prod_list (map unat (dims ! j))"
proof -
  show j: "j < length ts" using assms by (simp add: piece_ok_def same_cols_def)
  then have m: "ts ! j \<in> set ts" by simp
  show tl: "tl (t_shape (ts ! j)) = dims ! j" using assms by (simp add: piece_ok_def same_cols_def)
  obtain w' where w': "data_tensor w' (ts ! j)" using assms(1) m by (auto simp: piece_ok_def)
  have "t_dtype (ts ! j) = cfg_type (rio_configs r ! j)" using assms(1,2) by (simp add: piece_ok_def same_cols_def)
  then have "w' = w" using w' assms(3) by (simp add: data_tensor_def)
  then show d: "data_tensor w (ts ! j)" using w' by simp
  show rows: "tensor_rows (ts ! j) = item_rows ts" using assms(1) m by (simp add: piece_ok_def)
  show "t_shape (ts ! j) \<noteq> []" "t_size (ts ! j) = item_rows ts * prod_list (map unat (dims ! j))"
    using d rows tl by (simp_all add: data_tensor_def row_size_def)
qed

lemma sum_rows_word: "sum_list (map (\<lambda>ts. hd (t_shape (ts ! j))) tss) =
  of_nat (sum_list (map (\<lambda>ts. tensor_rows (ts ! j)) tss))"
  by (induction tss) (simp_all add: tensor_rows_def)

lemma glue_column_ok:
  assumes p: "\<forall>ts \<in> set batch. piece_ok r dims ts" "batch \<noteq> []" "sum_list (map item_rows batch) = n"
    and j: "j < length (rio_configs r)" and small: "n * prod_list (map unat (dims ! j)) < 2 ^ 31"
    and w: "TensorDataTypeSize (cfg_type (rio_configs r ! j)) = Inr w"
  shows "\<exists>x. glue_column r batch j = Inr x \<and> t_shape x = of_nat n # dims ! j \<and>
    t_dtype x = cfg_type (rio_configs r ! j) \<and> t_blob x = Some (column_data batch j) \<and> tensor_wf x \<and>
    t_size x = n * prod_list (map unat (dims ! j))"
proof -
  let ?k = "prod_list (map unat (dims ! j))"
  obtain ts0 tss where b: "batch = ts0 # tss" using p(2) by (cases batch) auto
  note pc = piece_cols [OF _ j w]
  have P: "piece_ok r dims ts0" "\<And>ts. ts \<in> set tss \<Longrightarrow> piece_ok r dims ts" using p(1) b by auto
  let ?z = "\<lambda>xs. sum_list (map (\<lambda>ts. t_size (ts ! j)) xs)"
  obtain d0 where sh0: "t_shape (ts0 ! j) = d0 # dims ! j" using pc(3,5) [OF P(1)] by (cases "t_shape (ts0 ! j)") simp_all
  have rows: "sum_list (map (\<lambda>ts. tensor_rows (ts ! j)) batch) = n"
  proof -
    have "map (\<lambda>ts. tensor_rows (ts ! j)) batch = map item_rows batch"
      by (rule map_cong) (use pc(4) p(1) in auto)
    then show ?thesis using p(3) by (simp only:)
  qed
  have size: "?z batch = n * ?k"
  proof -
    have "map (\<lambda>ts. t_size (ts ! j)) batch = map (\<lambda>ts. item_rows ts * ?k) batch"
      by (rule map_cong) (use pc(6) p(1) in auto)
    then show ?thesis using p(3) by (simp only: sum_list_mult_const)
  qed
  have d: "d0 + sum_list (map (\<lambda>ts. hd (t_shape (ts ! j))) tss) = of_nat n"
    unfolding rows [symmetric] sum_rows_word [symmetric] by (simp add: b sh0)
  have os: "[0] @ offsets_from (t_size (ts0 ! j)) (map (\<lambda>ts. ts ! j) tss) = offsets_from 0 (map (\<lambda>ts. ts ! j) batch)"
    by (simp add: b)
  have shape: "fold_res (glue_shape j) (t_shape (ts0 ! j), [0], t_size (ts0 ! j)) tss =
      Inr (of_nat n # dims ! j, offsets_from 0 (map (\<lambda>ts. ts ! j) batch), t_size (ts0 ! j) + ?z tss)"
    unfolding sh0 d [symmetric] os [symmetric] using pc(1,3,5) P(2) by (intro glue_shape_run) blast
  have pos: "0 < n * ?k"
  proof -
    have "0 < t_size (ts0 ! j)" using pc(2) [OF P(1)] unfolding data_tensor_def by blast
    then have "0 < ?z batch" by (simp add: b)
    then show ?thesis unfolding size .
  qed
  have "n * 1 \<le> n * ?k" using pos by (intro mult_le_mono2) (simp add: Suc_le_eq)
  then have "n < 2 ^ 31" using small unfolding mult_1_right by (rule le_less_trans)
  then have "unat (of_nat n :: 32 word) = n" by (simp add: unat_of_nat take_bit_nat_eq_self)
  then have prod: "prod_list (map unat (of_nat n # dims ! j)) = n * ?k" by simp
  have new: "new_tensor (of_nat n # dims ! j) (cfg_type (rio_configs r ! j)) =
      Inr \<lparr>t_blob = Some (replicate (w * (n * ?k)) 0), t_shape = of_nat n # dims ! j, t_size = n * ?k,
        t_capacity = n * ?k, t_dtype = cfg_type (rio_configs r ! j)\<rparr>"
    using new_tensor_ok [OF w, of "of_nat n # dims ! j"] small pos unfolding prod by simp
  have "\<forall>ts \<in> set batch. j < length ts \<and> data_tensor w (ts ! j)" using pc(1,2) p(1) by blast
  then have data: "fold_res (glue_data j w) (replicate (w * (n * ?k)) 0) (zip batch (offsets_from 0 (map (\<lambda>ts. ts ! j) batch)))
      = Inr (column_data batch j)"
    using glue_data_run [of batch j w "[]" 0] size by simp
  have "length (column_data batch j) = w * (n * ?k)"
  proof -
    have "length (column_data tss' j) = w * ?z tss'" if "\<forall>ts \<in> set tss'. data_tensor w (ts ! j)" for tss'
      using that by (induction tss') (simp_all add: length_tensor_data add_mult_distrib2)
    from this [of batch] have "length (column_data batch j) = w * ?z batch" using pc(2) p(1) by blast
    then show ?thesis using size by simp
  qed
  moreover have "(case batch of [] \<Rightarrow> e | x # xs \<Rightarrow> f x xs) = f ts0 tss" for e :: "tensor res" and f by (simp add: b)
  ultimately show ?thesis
    using pc(1) [OF P(1)] shape new data w j
    by (simp add: glue_column_def mutable_data_def tensor_wf_def)
qed

section \<open>The batch\<close>

lemma BatchTensor2Batch_ok:
  assumes p: "\<forall>ts \<in> set batch. piece_ok r dims ts" "batch \<noteq> []" "sum_list (map item_rows batch) = n"
    and small: "\<forall>j < length (rio_configs r). n * prod_list (map unat (dims ! j)) < 2 ^ 31"
    and b: "length (b_tensors b) = length (rio_configs r)"
  shows "\<exists>b'. BatchTensor2Batch r batch b = Inr b' \<and> b_index b' = b_index b \<and> b_names b' = b_names b \<and>
    length (b_tensors b') = length (rio_configs r) \<and>
    (\<forall>j < length (rio_configs r). \<exists>x. b_tensors b' ! j = Some x \<and> t_shape x = of_nat n # dims ! j \<and>
      t_dtype x = cfg_type (rio_configs r ! j) \<and> t_blob x = Some (column_data batch j) \<and> tensor_wf x)"
proof -
  obtain ts0 tss where bt: "batch = ts0 # tss" using p(2) by (cases batch) auto
  have len: "length ts0 = length (rio_configs r)" using p(1) bt by (simp add: piece_ok_def same_cols_def)
  let ?good = "\<lambda>j x. t_shape x = of_nat n # dims ! j \<and> t_dtype x = cfg_type (rio_configs r ! j) \<and>
    t_blob x = Some (column_data batch j) \<and> tensor_wf x"
  let ?f = "\<lambda>b col. bind_res (glue_column r batch col) (\<lambda>t. batch_Set b (int col) t)"
  have "k \<le> length (rio_configs r) \<Longrightarrow> \<exists>b'. fold_res ?f b [0..<k] = Inr b' \<and> b_index b' = b_index b \<and>
    b_names b' = b_names b \<and> length (b_tensors b') = length (rio_configs r) \<and>
    (\<forall>j < k. \<exists>x. b_tensors b' ! j = Some x \<and> ?good j x)" for k
  proof (induction k)
    case 0
    then show ?case using b by simp
  next
    case (Suc k)
    then obtain b' where b': "fold_res ?f b [0..<k] = Inr b'" "b_index b' = b_index b" "b_names b' = b_names b"
      "length (b_tensors b') = length (rio_configs r)" "\<forall>j < k. \<exists>x. b_tensors b' ! j = Some x \<and> ?good j x"
      by auto
    have k: "k < length (rio_configs r)" using Suc.prems by simp
    have "ts0 ! k \<in> set ts0" using k len by simp
    moreover have "piece_ok r dims ts0" using p(1) bt by simp
    ultimately obtain w where "data_tensor w (ts0 ! k)" by (auto simp: piece_ok_def)
    moreover have "t_dtype (ts0 ! k) = cfg_type (rio_configs r ! k)"
      using \<open>piece_ok r dims ts0\<close> k by (simp add: piece_ok_def same_cols_def)
    ultimately have "TensorDataTypeSize (cfg_type (rio_configs r ! k)) = Inr w" by (simp add: data_tensor_def)
    then obtain x where x: "glue_column r batch k = Inr x" "?good k x"
      using glue_column_ok [OF p k] small k by blast
    have "fold_res ?f b [0..<Suc k] = Inr (b'\<lparr>b_tensors := (b_tensors b')[k := Some x]\<rparr>)"
      using b'(1,4) x(1) k by (simp add: fold_res_append batch_Set_def in_range_def)
    then show ?case
      using b' x(2) k by (auto simp: nth_list_update less_Suc_eq intro!: exI [of _ "b'\<lparr>b_tensors := (b_tensors b')[k := Some x]\<rparr>"])
  qed
  from this [of "length (rio_configs r)"] show ?thesis by (simp add: BatchTensor2Batch_def bt len)
qed

text \<open>C15. For record files whose columns are all primary, that is of level 0 and without a count of
  auxiliary items, and whose samples are well formed, with the same number of rows in every
  column and rows of the same shape in all samples, a batch is the next \<open>batch_size\<close> rows: if that
  many are left and each column of the batch has fewer than 2^31 elements, \<open>AssembleBatch\<close> ends, with
  no failing check, and every column of the batch is a tensor of \<open>batch_size\<close> rows whose data,
  followed by the data of the rows that are still in the cache and in the file, is the data that was
  there before. At most one sample is in the cache. (With a column of counts the cut of a sample
  is wrong: \<open>Split_counts_wrong\<close>.)\<close>

theorem AssembleBatch_rows:
  assumes "source_ok (tk_io t) (tk_cache t) samples rest"
    and "\<forall>ts \<in> set (stream_of (tk_io t) (tk_cache t) samples). same_cols (tk_io t) dims ts"
    and "tk_batch_size t = int n" "0 < n" "n \<le> fuel"
    and "n \<le> sum_list (map item_rows (stream_of (tk_io t) (tk_cache t) samples))"
    and "\<forall>j < length (rio_configs (tk_io t)). n * prod_list (map unat (dims ! j)) < 2 ^ 31"
  shows "\<exists>t' samples' b. AssembleBatch fuel t (new_batch (rio_names (tk_io t))) = Some (Inr (t', b, int n)) \<and>
    source_ok (tk_io t') (tk_cache t') samples' rest \<and> length (tk_cache t') \<le> 1 \<and>
    curr t' = curr t \<and> tk_batch_size t' = int n \<and>
    (\<forall>ts \<in> set (stream_of (tk_io t') (tk_cache t') samples'). same_cols (tk_io t') dims ts) \<and>
    (\<forall>j < length (rio_configs (tk_io t)). \<exists>x. batch_Get_index b (int j) = Inr (Some x) \<and>
       tensor_wf x \<and> t_shape x = of_nat n # dims ! j \<and>
       (\<exists>bytes. t_blob x = Some bytes \<and> bytes @ column_data (stream_of (tk_io t') (tk_cache t') samples') j =
          column_data (stream_of (tk_io t) (tk_cache t) samples) j))"
proof -
  let ?r = "tk_io t" and ?b = "new_batch (rio_names (tk_io t))"
  obtain r' cache' samples' batch where R:
    "ReadBatchTensor fuel ?r (int n) (tk_cache t) = Some (Inr (r', cache', batch))"
    "source_ok r' cache' samples' rest" "rio_names r' = rio_names ?r" "rio_configs r' = rio_configs ?r"
    "\<forall>ts \<in> set (stream_of r' cache' samples'). same_cols ?r dims ts"
    "batch \<noteq> []" "\<forall>ts \<in> set batch. piece_ok ?r dims ts" "sum_list (map item_rows batch) = n"
    "\<forall>j < length (rio_configs ?r). column_data batch j @ column_data (stream_of r' cache' samples') j =
       column_data (stream_of ?r (tk_cache t) samples) j"
    using ReadBatchTensor_rows [OF assms(1,2,4,5,6)] by blast
  have same: "same_cols r' dims ts \<longleftrightarrow> same_cols ?r dims ts" "piece_ok r' dims ts \<longleftrightarrow> piece_ok ?r dims ts" for ts
    using R(4) by (simp_all add: same_cols_def piece_ok_def)
  have "length (b_tensors ?b) = length (rio_configs r')"
    using assms(1) R(4) by (simp add: new_batch_def source_ok_def)
  then obtain b where b: "BatchTensor2Batch r' batch ?b = Inr b" "length (b_tensors b) = length (rio_configs r')"
    "\<forall>j < length (rio_configs r'). \<exists>x. b_tensors b ! j = Some x \<and> t_shape x = of_nat n # dims ! j \<and>
      t_dtype x = cfg_type (rio_configs r' ! j) \<and> t_blob x = Some (column_data batch j) \<and> tensor_wf x"
    using BatchTensor2Batch_ok [of batch r' dims n ?b] R(6-8) assms(7) same(2) R(4) by auto
  have get: "batch_Get_index b (int j) = Inr (b_tensors b ! j)" if "j < length (rio_configs ?r)" for j
    using that b(2) R(4) by (simp add: batch_Get_index_def in_range_def)
  have "AssembleBatch fuel t ?b = Some (Inr (t\<lparr>tk_io := r', tk_cache := cache'\<rparr>, b, int n))"
    using R(1) b(1) assms(3) by (simp add: AssembleBatch_def)
  moreover have "length cache' \<le> 1" using R(2) by (simp add: source_ok_def)
  ultimately show ?thesis
    using R(2,5,9) b(3) R(4) get same(1) assms(3)
    by (intro exI [of _ "t\<lparr>tk_io := r', tk_cache := cache'\<rparr>"] exI [of _ samples'] exI [of _ b]) fastforce
qed

text \<open>Three rows in the cache and a sample of two rows in the file: a batch of four rows.\<close>

definition demo_sample :: "string \<rightharpoonup> tensor" where
  "demo_sample = [''x'' \<mapsto> u32_tensor [2] [13, 14]]"

definition demo_io :: record_io where
  "demo_io = \<lparr>rio_stream = \<lparr>content = sample_bytes [(''x'', ItemConfig 0)] demo_sample, pos = 0\<rparr>, sample_count = 5,
     rio_names = [''x''], rio_configs = [ItemConfig 0], version = 1\<rparr>"

definition demo_task :: task where
  "demo_task = \<lparr>curr = 0, tk_io = demo_io, tk_batch_size = 4, tk_cache = [[u32_tensor [3] [10, 11, 12]]]\<rparr>"

theorem AssembleBatch_rows_example:
  "\<exists>t' b x rest. AssembleBatch 4 demo_task (new_batch [''x'']) = Some (Inr (t', b, 4)) \<and>
     batch_Get_index b 0 = Inr (Some x) \<and> t_shape x = [4] \<and>
     (\<exists>bytes. t_blob x = Some bytes \<and> bytes @ rest = enc_seq enc32 [10, 11, 12, 13, 14])"
proof -
  have cols: "cols demo_io = [(''x'', ItemConfig 0)]" by (simp add: cols_def demo_io_def)
  have t: "tensors_of (cols demo_io) demo_sample = [u32_tensor [2] [13, 14]]"
    by (simp add: tensors_of_def cols demo_sample_def)
  have st: "stream_of (tk_io demo_task) (tk_cache demo_task) [demo_sample] = [[u32_tensor [3] [10, 11, 12]], [u32_tensor [2] [13, 14]]]"
    by (simp add: stream_of_def demo_task_def t)
  have good: "good_sample (cols demo_io) demo_sample"
    unfolding good_sample_def cols
    by (simp add: good_tensor_def ItemConfig_def demo_sample_def u32_tensor_def TensorDataTypeSize_def c32.length_enc)
  have ok: "source_ok (tk_io demo_task) (tk_cache demo_task) [demo_sample] []"
    using good t
    by (simp add: source_ok_def demo_task_def item_ok_def item_rows_def tensor_rows_def row_tensor_def u32_tensor_def
        TensorDataTypeSize_def c32.length_enc ahead_def cols)
       (simp add: demo_io_def primary_def ItemConfig_def remaining_def)
  have same: "\<forall>ts \<in> set (stream_of (tk_io demo_task) (tk_cache demo_task) [demo_sample]). same_cols (tk_io demo_task) [[]] ts"
    unfolding st by (simp add: same_cols_def demo_task_def demo_io_def u32_tensor_def ItemConfig_def)
  have data: "column_data (stream_of (tk_io demo_task) (tk_cache demo_task) [demo_sample]) 0 = enc_seq enc32 [10, 11, 12, 13, 14]"
    unfolding st by (simp add: tensor_data_def u32_tensor_def TensorDataTypeSize_def c32.length_enc)
  have cf: "rio_configs (tk_io demo_task) = [ItemConfig 0]" "rio_names (tk_io demo_task) = [''x'']"
    by (simp_all add: demo_task_def demo_io_def)
  obtain t' samples' b where r: "AssembleBatch 4 demo_task (new_batch [''x'']) = Some (Inr (t', b, int 4))"
    "\<forall>j < length [ItemConfig 0]. \<exists>x. batch_Get_index b (int j) = Inr (Some x) \<and>
       tensor_wf x \<and> t_shape x = of_nat 4 # [[]] ! j \<and>
       (\<exists>bytes. t_blob x = Some bytes \<and> bytes @ column_data (stream_of (tk_io t') (tk_cache t') samples') j =
          column_data (stream_of (tk_io demo_task) (tk_cache demo_task) [demo_sample]) j)"
    using AssembleBatch_rows [OF ok same, of 4 4] unfolding st cf
    by (auto simp: demo_task_def item_rows_def tensor_rows_def u32_tensor_def)
  then obtain x bytes where x: "batch_Get_index b 0 = Inr (Some x)" "t_shape x = [4]" "t_blob x = Some bytes"
    "bytes @ column_data (stream_of (tk_io t') (tk_cache t') samples') 0 =
       column_data (stream_of (tk_io demo_task) (tk_cache demo_task) [demo_sample]) 0"
    by auto
  show ?thesis
    by (rule exI [of _ t'], rule exI [of _ b], rule exI [of _ x],
      rule exI [of _ "column_data (stream_of (tk_io t') (tk_cache t') samples') 0"])
      (use r(1) x data in simp)
qed

end
