(* ===== verification/Blobs.thy ===== *)
theory Blobs
  imports Memory
begin

text \<open>
  Programs that use \<open>Blob\<close> (src/hpps/common/blob.cc): any sequence of constructions, copies,
  assignments, destructions and writes through \<open>data()\<close> on a set of variables, over either
  allocator. A constructor runs on a variable that is not alive, every other operation on live
  ones, as the scoping rules of C++ guarantee. What holds for such a program is proved from the
  contract of the allocators alone.
\<close>

datatype blob_op =
    OEmpty nat
  | OSized nat u64
  | OFrom nat blob
  | OCopy nat nat
  | OAssign nat nat
  | ODestroy nat
  | OWrite nat nat blob

type_synonym blob_env = "nat \<Rightarrow> blob_obj option"

definition live :: "blob_env \<Rightarrow> nat \<Rightarrow> blob_obj res" where
  "live e v = (case e v of None \<Rightarrow> Inl NullDeref | Some b \<Rightarrow> Inr b)"

fun blob_step :: "allocator \<Rightarrow> blob_env \<times> heap \<Rightarrow> blob_op \<Rightarrow> (blob_env \<times> heap) res" where
  "blob_step A (e, h) (OEmpty v) =
     bind_res (check (e v = None)) (\<lambda>_. Inr (e(v \<mapsto> Blob_empty), h))"
| "blob_step A (e, h) (OSized v n) =
     bind_res (check (e v = None)) (\<lambda>_.
     bind_res (Blob_sized A n h) (\<lambda>(b, h1). Inr (e(v \<mapsto> b), h1)))"
| "blob_step A (e, h) (OFrom v xs) =
     bind_res (check (e v = None)) (\<lambda>_.
     bind_res (Blob_from A xs h) (\<lambda>(b, h1). Inr (e(v \<mapsto> b), h1)))"
| "blob_step A (e, h) (OCopy v w) =
     bind_res (check (e v = None)) (\<lambda>_.
     bind_res (live e w) (\<lambda>rhs.
     bind_res (Blob_copy A rhs h) (\<lambda>(b, h1). Inr (e(v \<mapsto> b), h1))))"
| "blob_step A (e, h) (OAssign v w) =
     bind_res (live e v) (\<lambda>lhs.
     bind_res (live e w) (\<lambda>rhs.
     bind_res (Blob_assign A lhs rhs h) (\<lambda>(b, h1). Inr (e(v \<mapsto> b), h1))))"
| "blob_step A (e, h) (ODestroy v) =
     bind_res (live e v) (\<lambda>b.
     bind_res (Blob_destroy A b h) (\<lambda>h1. Inr (e(v := None), h1)))"
| "blob_step A (e, h) (OWrite v off xs) =
     bind_res (live e v) (\<lambda>b.
     bind_res (Blob_write A b off xs h) (\<lambda>h1. Inr (e, h1)))"

definition blob_run :: "allocator \<Rightarrow> blob_op list \<Rightarrow> (blob_env \<times> heap) res" where
  "blob_run A ops = fold_res (blob_step A) (Map.empty, new_heap) ops"

text \<open>No blob of size 0 is made from memory, and no object exceeds half the address space.\<close>

fun op_ok :: "blob_op \<Rightarrow> bool" where
  "op_ok (OSized v n) \<longleftrightarrow> unat n \<le> 2 ^ 63"
| "op_ok (OFrom v xs) \<longleftrightarrow> xs \<noteq> [] \<and> length xs \<le> 2 ^ 63"
| "op_ok _ \<longleftrightarrow> True"

fun is_assign :: "blob_op \<Rightarrow> bool" where
  "is_assign (OAssign v w) \<longleftrightarrow> True"
| "is_assign _ \<longleftrightarrow> False"

text \<open>The operations that may change what the variable \<open>v\<close> holds.\<close>

fun touches :: "blob_env \<Rightarrow> nat \<Rightarrow> blob_op \<Rightarrow> bool" where
  "touches e v (OAssign w u) \<longleftrightarrow> w = v"
| "touches e v (ODestroy w) \<longleftrightarrow> w = v"
| "touches e v (OWrite w off xs) \<longleftrightarrow> map_option b_data (e w) = map_option b_data (e v)"
| "touches e v _ \<longleftrightarrow> False"

lemma live_Inr: "live e v = Inr b \<longleftrightarrow> e v = Some b"
  by (simp add: live_def split: option.splits)

section \<open>Holders and counters\<close>

definition holders :: "blob_env \<Rightarrow> nat \<Rightarrow> nat set" where
  "holders e p = {v. \<exists>b. e v = Some b \<and> b_data b = Some p}"

lemma holders_simps [simp]:
  "holders (e(v \<mapsto> b)) p = (if b_data b = Some p then insert v (holders e p) else holders e p - {v})"
  "holders (e(v := None)) p = holders e p - {v}"
  "holders Map.empty p = {}"
  by (auto simp: holders_def)

lemma finite_holders: "finite (dom e) \<Longrightarrow> finite (holders e p)"
  by (rule finite_subset [of _ "dom e"]) (auto simp: holders_def)

lemma in_holders: "v \<in> holders e p \<longleftrightarrow> (\<exists>b. e v = Some b \<and> b_data b = Some p)"
  by (simp add: holders_def)

definition counted :: "bool \<Rightarrow> nat \<Rightarrow> int \<Rightarrow> bool" where
  \<comment> \<open>the counter is the number of holders, or at least that when references may leak\<close>
  "counted leaky n r \<longleftrightarrow> int n \<le> r \<and> (leaky \<or> int n = r)"

definition blob_ok :: "allocator \<Rightarrow> heap \<Rightarrow> blob_obj \<Rightarrow> bool" where
  "blob_ok A h b \<longleftrightarrow> (case b_data b of
       None \<Rightarrow> b_size b = 0
     | Some p \<Rightarrow> b_size b \<noteq> 0 \<and> (\<exists>mem. a_load A p h = Inr mem \<and> unat (b_size b) \<le> length mem))"

context alloc_contract
begin

definition env_ok :: "bool \<Rightarrow> blob_env \<times> heap \<Rightarrow> bool" where
  "env_ok leaky = (\<lambda>(e, h). inv h \<and> finite (dom e) \<and>
     (\<forall>p. counted leaky (card (holders e p)) (refs p h)) \<and> (\<forall>v b. e v = Some b \<longrightarrow> blob_ok A h b))"

lemma env_okI:
  assumes "inv h" "finite (dom e)" "\<And>p. counted leaky (card (holders e p)) (refs p h)"
    "\<And>v b. e v = Some b \<Longrightarrow> blob_ok A h b"
  shows "env_ok leaky (e, h)"
  using assms by (auto simp: env_ok_def)

lemma env_ok_held:
  assumes "env_ok leaky (e, h)" "e v = Some b" "b_data b = Some p"
  shows "0 < refs p h" "v \<in> holders e p" "0 < card (holders e p)"
proof -
  show v: "v \<in> holders e p" using assms(2,3) by (simp add: in_holders)
  then show c: "0 < card (holders e p)"
    using assms(1) finite_holders [of e p] by (auto simp: env_ok_def card_gt_0_iff)
  have "int (card (holders e p)) \<le> refs p h" using assms(1) by (simp add: env_ok_def counted_def)
  with c show "0 < refs p h" by simp
qed

lemma blob_ok_same:
  assumes ok: "blob_ok A h b" and held: "same_held A refs h h'"
    and p: "\<And>p. b_data b = Some p \<Longrightarrow> 0 < refs p h \<and> 0 < refs p h'"
  shows "blob_ok A h' b" "Blob_bytes A b h' = Blob_bytes A b h"
proof -
  have "a_load A p h' = a_load A p h" if "b_data b = Some p" for p
    using held p [OF that] by (simp add: same_held_def)
  then show "blob_ok A h' b" "Blob_bytes A b h' = Blob_bytes A b h"
    using ok by (auto simp: blob_ok_def Blob_bytes_def split: option.splits)
qed

lemma env_ok_init: "env_ok leaky (Map.empty, new_heap)"
  using init by (auto intro!: env_okI simp: counted_def)

text \<open>
  The common part of all steps but a write: the counters still match, memory that stays
  referenced is unchanged, and what is new in the environment is a blob that was there
  before, or fresh.
\<close>

lemma env_ok_transfer:
  assumes ok: "env_ok leaky (e, h)" and held: "same_held A refs h h'"
    and e': "inv h'" "finite (dom e')" "\<And>p. counted leaky (card (holders e' p)) (refs p h')"
    and new: "\<And>v b. e' v = Some b \<Longrightarrow> blob_ok A h' b \<or> (\<exists>w. e w = Some b)"
  shows "env_ok leaky (e', h')"
    "e v = Some b \<Longrightarrow> e' v = Some b \<Longrightarrow> Blob_bytes A b h' = Blob_bytes A b h"
proof -
  have pos: "0 < refs p h'" if "e' v = Some b" "b_data b = Some p" for v b p
  proof -
    have "v \<in> holders e' p" using that by (simp add: in_holders)
    then have "0 < card (holders e' p)"
      using finite_holders [OF e'(2), of p] by (auto simp: card_gt_0_iff)
    then show ?thesis using e'(3) [of p] by (simp add: counted_def)
  qed
  have keep: "blob_ok A h' b \<and> Blob_bytes A b h' = Blob_bytes A b h"
    if "e' v = Some b" "e w = Some b" for v w b
  proof -
    have "blob_ok A h b" using ok that(2) by (auto simp: env_ok_def)
    then show ?thesis
      using blob_ok_same [OF _ held] env_ok_held(1) [OF ok that(2)] pos [OF that(1)] by blast
  qed
  show "env_ok leaky (e', h')"
    using e' new keep by (intro env_okI) blast+
  show "e v = Some b \<Longrightarrow> e' v = Some b \<Longrightarrow> Blob_bytes A b h' = Blob_bytes A b h"
    using keep by blast
qed

section \<open>The steps\<close>

lemma holders_fresh:
  assumes "env_ok leaky (e, h)" "refs p h = 0"
  shows "holders e p = {}"
  using env_ok_held(1) [OF assms(1)] assms(2) by (fastforce simp: holders_def)

text \<open>A new blob in fresh memory.\<close>

lemma fresh_env_ok:
  assumes ok: "env_ok leaky (e, h)" and v: "e v = None" and held: "same_held A refs h h'"
    and h': "inv h'" "refs p h = 0" "\<And>q. refs q h' = (if q = p then 1 else refs q h)"
    and b: "blob_ok A h' b" "b_data b = Some p"
  shows "env_ok leaky (e(v \<mapsto> b), h')"
    "e w = Some c \<Longrightarrow> Blob_bytes A c h' = Blob_bytes A c h"
proof -
  have fin: "finite (dom e)" using ok by (simp add: env_ok_def)
  have v': "v \<notin> holders e q" for q using v by (simp add: in_holders)
  have c: "counted leaky (card (holders (e(v \<mapsto> b)) q)) (refs q h')" for q
  proof (cases "q = p")
    case True
    then show ?thesis using holders_fresh [OF ok h'(2)] b h'(3) by (simp add: counted_def)
  next
    case False
    then show ?thesis using ok v' b h'(3) by (simp add: env_ok_def)
  qed
  note t = env_ok_transfer [OF ok held h'(1) _ c]
  show "env_ok leaky (e(v \<mapsto> b), h')"
    using fin b by (intro t(1)) (auto split: if_splits)
  show "e w = Some c \<Longrightarrow> Blob_bytes A c h' = Blob_bytes A c h"
    using fin b v by (intro t(2)) (auto split: if_splits)
qed

lemma sized_ok:
  assumes ok: "env_ok leaky (e, h)" and n: "unat n \<le> 2 ^ 63"
    and step: "blob_step A (e, h) (OSized v n) = Inr (e', h')"
  shows "env_ok leaky (e', h')" "e w = Some c \<Longrightarrow> e' w = Some c \<and> Blob_bytes A c h' = Blob_bytes A c h"
proof -
  from step obtain p where v: "e v = None" and pos: "0 < n" and a: "a_Alloc A n h = Inr (p, h')"
    and e': "e' = e(v \<mapsto> \<lparr>b_data = Some p, b_size = n\<rparr>)"
    by (auto simp: Blob_sized_def)
  have "inv h" using ok by (simp add: env_ok_def)
  note p = alloc [OF this n a]
  have b: "blob_ok A h' \<lparr>b_data = Some p, b_size = n\<rparr>"
    using p pos by (auto simp: blob_ok_def)
  note f = fresh_env_ok [OF ok v _ _ _ _ b, of p]
  show "env_ok leaky (e', h')" unfolding e' using p by (intro f(1)) simp_all
  show "e' w = Some c \<and> Blob_bytes A c h' = Blob_bytes A c h" if "e w = Some c"
    using that v p f(2) [of w c] by (auto simp: e')
qed

lemma from_ok:
  assumes ok: "env_ok leaky (e, h)" and xs: "xs \<noteq> []" "length xs \<le> 2 ^ 63"
    and step: "blob_step A (e, h) (OFrom v xs) = Inr (e', h')"
  shows "env_ok leaky (e', h')" "e w = Some c \<Longrightarrow> e' w = Some c \<and> Blob_bytes A c h' = Blob_bytes A c h"
    "\<exists>b. e' v = Some b \<and> Blob_bytes A b h' = Inr xs"
proof -
  let ?n = "of_nat (length xs) :: u64"
  have n: "unat ?n = length xs" using xs(2) by (simp add: unsigned_of_nat take_bit_nat_eq_self)
  from step obtain p h1 mem mem1 where v: "e v = None" and a: "a_Alloc A ?n h = Inr (p, h1)"
    and mem: "a_load A p h1 = Inr mem" "buf_write mem 0 xs = Inr mem1" "a_store A p mem1 h1 = Inr h'"
    and e': "e' = e(v \<mapsto> \<lparr>b_data = Some p, b_size = ?n\<rparr>)"
    by (auto simp: Blob_from_def Let_def)
  have h: "inv h" using ok by (simp add: env_ok_def)
  have "unat ?n \<le> 2 ^ 63" using n xs(2) by simp
  note p = alloc [OF h this a]
  have "0 < refs p h1" using p by simp
  with store [of h1 p mem mem1] p mem length_buf_write [OF mem(2)]
  have s: "inv h'" "refs q h' = refs q h1" "a_load A p h' = Inr mem1"
    "q \<noteq> p \<Longrightarrow> 0 < refs q h1 \<Longrightarrow> a_load A q h' = a_load A q h1" for q
    by auto
  have held: "same_held A refs h h'"
    unfolding same_held_def
  proof (intro allI impI)
    fix q assume q: "0 < refs q h" "0 < refs q h'"
    then have "q \<noteq> p" using p by auto
    with q s p show "a_load A q h' = a_load A q h" by (simp add: same_held_def)
  qed
  have ne: "?n \<noteq> 0" using n xs(1) by (metis length_0_conv unsigned_0)
  have mem1: "take (length xs) mem1 = xs" "length xs \<le> length mem1"
    using mem(2) by (auto simp: buf_write_def split: if_splits)
  have b: "blob_ok A h' \<lparr>b_data = Some p, b_size = ?n\<rparr>"
    using n ne s(3) mem1(2) by (simp add: blob_ok_def)
  note f = fresh_env_ok [OF ok v held s(1) _ _ b, of p]
  show "env_ok leaky (e', h')" unfolding e' using p s(2) by (intro f(1)) simp_all
  show "e' w = Some c \<and> Blob_bytes A c h' = Blob_bytes A c h" if "e w = Some c"
    using that v p s(2) f(2) [of w c] by (auto simp: e')
  show "\<exists>b. e' v = Some b \<and> Blob_bytes A b h' = Inr xs"
    using s(3) n mem1 by (simp add: e' Blob_bytes_def buf_read_def)
qed

text \<open>Taking one more reference, as the copy constructor and the assignment do.\<close>

lemma refer_rhs:
  assumes ok: "env_ok leaky (e, h)" and w: "e w = Some rhs"
  shows "\<exists>h1. (if b_size rhs \<noteq> 0
       then (case b_data rhs of None \<Rightarrow> Inl NullDeref | Some p \<Rightarrow> a_Refer A p h)
       else Inr h) = Inr h1 \<and> inv h1 \<and> same_held A refs h h1 \<and>
    (\<forall>q. refs q h1 = refs q h + (if b_data rhs = Some q then 1 else 0))"
proof -
  have rhs: "blob_ok A h rhs" and h: "inv h" using ok w by (auto simp: env_ok_def)
  show ?thesis
  proof (cases "b_data rhs")
    case None
    then show ?thesis using rhs h by (simp add: blob_ok_def same_held_def)
  next
    case (Some p)
    with refer [OF h env_ok_held(1) [OF ok w Some]] rhs show ?thesis
      by (auto simp: blob_ok_def)
  qed
qed

lemma counted_cong:
  "counted leaky n r \<Longrightarrow> int m - int n = r' - r \<Longrightarrow> counted leaky m r'"
  by (auto simp: counted_def)

lemma counted_leak: "counted True n r \<Longrightarrow> int m - int n \<le> r' - r \<Longrightarrow> counted True m r'"
  by (auto simp: counted_def)

lemma copy_ok:
  assumes ok: "env_ok leaky (e, h)" and step: "blob_step A (e, h) (OCopy v w) = Inr (e', h')"
  shows "env_ok leaky (e', h')" "e u = Some c \<Longrightarrow> e' u = Some c \<and> Blob_bytes A c h' = Blob_bytes A c h"
    "e' v = e w"
proof -
  from step obtain rhs where v: "e v = None" and w: "e w = Some rhs" by (auto simp: live_Inr)
  have fin: "finite (dom e)" using ok by (simp add: env_ok_def)
  from refer_rhs [OF ok w] step v w
  have h': "inv h'" "same_held A refs h h'" "e' = e(v \<mapsto> rhs)"
    "refs q h' = refs q h + (if b_data rhs = Some q then 1 else 0)" for q
    by (auto simp: Blob_copy_def live_def)
  have c: "counted leaky (card (holders (e(v \<mapsto> rhs)) q)) (refs q h')" for q
  proof -
    have "v \<notin> holders e q" using v by (simp add: in_holders)
    moreover have "counted leaky (card (holders e q)) (refs q h)" using ok by (simp add: env_ok_def)
    ultimately show ?thesis
      using h'(4) [of q] finite_holders [OF fin, of q] by (auto elim!: counted_cong)
  qed
  have fin': "finite (dom (e(v \<mapsto> rhs)))" using fin by simp
  have new: "(e(v \<mapsto> rhs)) x = Some b \<Longrightarrow> blob_ok A h' b \<or> (\<exists>w. e w = Some b)" for x b
    using w by (auto split: if_splits)
  note t = env_ok_transfer [OF ok h'(2,1) fin' c new]
  show "env_ok leaky (e', h')"
    unfolding h'(3) by (rule t(1))
  show "e u = Some c \<Longrightarrow> e' u = Some c \<and> Blob_bytes A c h' = Blob_bytes A c h"
    unfolding h'(3) using v t(2) [where v = u and b = c] by auto
  show "e' v = e w" using h'(3) v w by auto
qed

lemma assign_ok:
  assumes ok: "env_ok True (e, h)" and step: "blob_step A (e, h) (OAssign v w) = Inr (e', h')"
  shows "env_ok True (e', h')"
    "u \<noteq> v \<Longrightarrow> e u = Some c \<Longrightarrow> e' u = Some c \<and> Blob_bytes A c h' = Blob_bytes A c h"
    "e' v = e w"
proof -
  from step obtain lhs rhs where v: "e v = Some lhs" and w: "e w = Some rhs" by (auto simp: live_Inr)
  have fin: "finite (dom e)" using ok by (simp add: env_ok_def)
  have "lhs\<lparr>b_data := b_data rhs, b_size := b_size rhs\<rparr> = rhs" by simp
  with refer_rhs [OF ok w] step v w
  have h': "inv h'" "same_held A refs h h'" "e' = e(v \<mapsto> rhs)"
    "refs q h' = refs q h + (if b_data rhs = Some q then 1 else 0)" for q
    by (auto simp: Blob_assign_def live_def)
  have c: "counted True (card (holders (e(v \<mapsto> rhs)) q)) (refs q h')" for q
  proof -
    have "card (holders e q - {v}) \<le> card (holders e q)"
      by (intro card_mono finite_holders [OF fin]) auto
    moreover have "card (insert v (holders e q)) \<le> Suc (card (holders e q))"
      by (rule card_insert_le_m1) (auto simp: finite_holders [OF fin])
    moreover have "counted True (card (holders e q)) (refs q h)" using ok by (simp add: env_ok_def)
    ultimately show ?thesis using h'(4) [of q] by (auto simp: counted_def)
  qed
  have fin': "finite (dom (e(v \<mapsto> rhs)))" using fin by simp
  have new: "(e(v \<mapsto> rhs)) x = Some b \<Longrightarrow> blob_ok A h' b \<or> (\<exists>w. e w = Some b)" for x b
    using w by (auto split: if_splits)
  note t = env_ok_transfer [OF ok h'(2,1) fin' c new]
  show "env_ok True (e', h')"
    unfolding h'(3) by (rule t(1))
  show "u \<noteq> v \<Longrightarrow> e u = Some c \<Longrightarrow> e' u = Some c \<and> Blob_bytes A c h' = Blob_bytes A c h"
    unfolding h'(3) using t(2) [where v = u and b = c] by auto
  show "e' v = e w" using h'(3) w by auto
qed

lemma destroy_ok:
  assumes ok: "env_ok leaky (e, h)" and step: "blob_step A (e, h) (ODestroy v) = Inr (e', h')"
  shows "env_ok leaky (e', h')"
    "u \<noteq> v \<Longrightarrow> e u = Some c \<Longrightarrow> e' u = Some c \<and> Blob_bytes A c h' = Blob_bytes A c h"
proof -
  from step obtain b where v: "e v = Some b" by (auto simp: live_Inr)
  have fin: "finite (dom e)" and h: "inv h" using ok by (auto simp: env_ok_def)
  have h': "inv h' \<and> same_held A refs h h' \<and> e' = e(v := None) \<and>
    (\<forall>q. refs q h' = refs q h - (if b_data b = Some q then 1 else 0))"
  proof (cases "b_data b")
    case None
    then show ?thesis using step v h by (auto simp: live_def Blob_destroy_def same_held_def)
  next
    case (Some p)
    with free [OF h env_ok_held(1) [OF ok v Some]] step v show ?thesis
      by (auto simp: live_def Blob_destroy_def)
  qed
  have c: "counted leaky (card (holders (e(v := None)) q)) (refs q h')" for q
  proof (cases "b_data b = Some q")
    case True
    then have "v \<in> holders e q" using v by (simp add: in_holders)
    then have "card (holders e q) = Suc (card (holders e q - {v}))"
      by (intro card.remove finite_holders [OF fin])
    moreover have "counted leaky (card (holders e q)) (refs q h)" using ok by (simp add: env_ok_def)
    moreover have "refs q h' = refs q h - 1" using True h' by simp
    ultimately show ?thesis by (auto simp: counted_def)
  next
    case False
    then have "v \<notin> holders e q" using v by (simp add: in_holders)
    then show ?thesis using False ok h' by (simp add: env_ok_def)
  qed
  have fin': "finite (dom (e(v := None)))" using fin by simp
  have new: "(e(v := None)) x = Some b \<Longrightarrow> blob_ok A h' b \<or> (\<exists>w. e w = Some b)" for x b
    by (auto split: if_splits)
  from h' have e': "e' = e(v := None)" and "inv h'" "same_held A refs h h'" by simp_all
  note t = env_ok_transfer [OF ok this(3,2) fin' c new]
  show "env_ok leaky (e', h')" unfolding e' by (rule t(1))
  show "u \<noteq> v \<Longrightarrow> e u = Some c \<Longrightarrow> e' u = Some c \<and> Blob_bytes A c h' = Blob_bytes A c h"
    unfolding e' using t(2) [where v = u and b = c] by auto
qed

text \<open>A write keeps the length of the memory, and changes no other.\<close>

lemma write_ok:
  assumes ok: "env_ok leaky (e, h)" and step: "blob_step A (e, h) (OWrite v off xs) = Inr (e', h')"
  shows "env_ok leaky (e', h')" "e' = e"
    "map_option b_data (e v) \<noteq> map_option b_data (e u) \<Longrightarrow> e u = Some c \<Longrightarrow>
       Blob_bytes A c h' = Blob_bytes A c h"
    "\<exists>ys. e v = Some c \<longrightarrow> Blob_bytes A c h = Inr ys \<and> Blob_bytes A c h' = buf_write ys off xs"
proof -
  from step obtain b p mem mem1 where v: "e v = Some b" and p: "b_data b = Some p" and e': "e' = e"
    and len: "off + length xs \<le> unat (b_size b)"
    and mem: "a_load A p h = Inr mem" "buf_write mem off xs = Inr mem1" "a_store A p mem1 h = Inr h'"
    by (auto simp: live_Inr Blob_write_def split: option.splits if_splits)
  show "e' = e" by (rule e')
  have h: "inv h" using ok by (simp add: env_ok_def)
  note len1 = length_buf_write [OF mem(2)]
  from store [OF h env_ok_held(1) [OF ok v p] mem(1) len1] mem(3) len1
  have s: "inv h'" "refs q h' = refs q h" "a_load A p h' = Inr mem1" "length mem1 = length mem"
    "q \<noteq> p \<Longrightarrow> 0 < refs q h \<Longrightarrow> a_load A q h' = a_load A q h" for q
    by auto
  have blob: "blob_ok A h' c" if "e u = Some c" for u c
  proof -
    have "blob_ok A h c" using ok that by (simp add: env_ok_def)
    moreover have "a_load A q h' = (if q = p then Inr mem1 else a_load A q h)"
      if "b_data c = Some q" for q
      using s env_ok_held(1) [OF ok \<open>e u = Some c\<close> that] by simp
    ultimately show ?thesis
      using s(4) mem(1) by (auto simp: blob_ok_def split: option.splits if_splits)
  qed
  show "env_ok leaky (e', h')"
    using ok s(1,2) blob by (auto simp: e' env_ok_def)
  show "Blob_bytes A c h' = Blob_bytes A c h"
    if "map_option b_data (e v) \<noteq> map_option b_data (e u)" "e u = Some c"
    using that s(5) v p env_ok_held(1) [OF ok that(2)] by (auto simp: Blob_bytes_def split: option.splits)
  show "\<exists>ys. e v = Some c \<longrightarrow> Blob_bytes A c h = Inr ys \<and> Blob_bytes A c h' = buf_write ys off xs"
  proof (intro exI [of _ "take (unat (b_size b)) mem"] impI)
    assume "e v = Some c"
    then have c: "c = b" using v by simp
    have "unat (b_size b) \<le> length mem"
      using ok v p mem(1) by (fastforce simp: env_ok_def blob_ok_def)
    then show "Blob_bytes A c h = Inr (take (unat (b_size b)) mem) \<and>
        Blob_bytes A c h' = buf_write (take (unat (b_size b)) mem) off xs"
      using mem p s(3,4) len
      by (auto simp: c Blob_bytes_def buf_read_def buf_write_def drop_take split: if_splits)
  qed
qed

section \<open>Programs\<close>

lemma step_ok:
  assumes "env_ok leaky (e, h)" "op_ok op" "leaky \<or> \<not> is_assign op" "blob_step A (e, h) op = Inr (e', h')"
  shows "env_ok leaky (e', h')"
  using assms
proof (cases op)
  case (OEmpty v)
  have "e v = None" "e' = e(v \<mapsto> Blob_empty)" "h' = h" using assms(4) OEmpty by auto
  moreover from this have "v \<notin> holders e q" for q by (simp add: in_holders)
  ultimately show ?thesis
    using assms(1) by (auto simp: env_ok_def Blob_empty_def blob_ok_def)
next
  case (OSized v n)
  show ?thesis
    using assms(2) by (intro sized_ok(1) [OF assms(1) _ assms(4) [unfolded OSized]]) (simp add: OSized)
next
  case (OFrom v xs)
  show ?thesis
    using assms(2) by (intro from_ok(1) [OF assms(1) _ _ assms(4) [unfolded OFrom]]) (simp_all add: OFrom)
next
  case (OCopy v w)
  show ?thesis by (rule copy_ok(1) [OF assms(1) assms(4) [unfolded OCopy]])
next
  case (OAssign v w)
  with assms(3) have leaky by simp
  then show ?thesis using assign_ok(1) [OF _ assms(4) [unfolded OAssign]] assms(1) by simp
next
  case (ODestroy v)
  show ?thesis by (rule destroy_ok(1) [OF assms(1) assms(4) [unfolded ODestroy]])
next
  case (OWrite v off xs)
  show ?thesis by (rule write_ok(1) [OF assms(1) assms(4) [unfolded OWrite]])
qed

lemma step_frame:
  assumes "env_ok leaky (e, h)" "op_ok op" "leaky \<or> \<not> is_assign op" "blob_step A (e, h) op = Inr (e', h')"
    and "e u = Some c" "\<not> touches e u op"
  shows "e' u = Some c \<and> Blob_bytes A c h' = Blob_bytes A c h"
proof (cases op)
  case (OEmpty v)
  then have "e v = None" "e' = e(v \<mapsto> Blob_empty)" "h' = h" using assms(4) by auto
  with assms(5) show ?thesis by auto
next
  case (OSized v n)
  show ?thesis
    using assms(2) by (intro sized_ok(2) [OF assms(1) _ assms(4) [unfolded OSized] assms(5)]) (simp add: OSized)
next
  case (OFrom v xs)
  show ?thesis
    using assms(2)
    by (intro from_ok(2) [OF assms(1) _ _ assms(4) [unfolded OFrom] assms(5)]) (simp_all add: OFrom)
next
  case (OCopy v w)
  show ?thesis by (rule copy_ok(2) [OF assms(1) assms(4) [unfolded OCopy] assms(5)])
next
  case (OAssign v w)
  with assms(3,6) have leaky "u \<noteq> v" by auto
  then show ?thesis using assign_ok(2) [OF _ assms(4) [unfolded OAssign] _ assms(5)] assms(1) by simp
next
  case (ODestroy v)
  show ?thesis
    using assms(6) by (intro destroy_ok(2) [OF assms(1) assms(4) [unfolded ODestroy] _ assms(5)]) (simp add: ODestroy)
next
  case (OWrite v off xs)
  note w = write_ok [OF assms(1) assms(4) [unfolded OWrite]]
  show ?thesis using assms(5,6) w(2) w(3) [OF _ assms(5)] by (simp add: OWrite)
qed

lemma run_ok:
  assumes "blob_run A ops = Inr (e, h)" "\<forall>op\<in>set ops. op_ok op" "leaky \<or> (\<forall>op\<in>set ops. \<not> is_assign op)"
  shows "env_ok leaky (e, h)"
proof (rule fold_res_invariant [where I = "env_ok leaky"])
  show "fold_res (blob_step A) (Map.empty, new_heap) ops = Inr (e, h)"
    using assms(1) by (simp add: blob_run_def)
  show "env_ok leaky (Map.empty, new_heap)" by (rule env_ok_init)
  show "env_ok leaky s'" if "op \<in> set ops" "env_ok leaky s" "blob_step A s op = Inr s'" for s op s'
    using that assms(2,3) step_ok [of leaky "fst s" "snd s" op "fst s'" "snd s'"] by auto
qed

lemma bytes_defined:
  assumes "env_ok leaky (e, h)" "e v = Some b"
  shows "\<exists>xs. Blob_bytes A b h = Inr xs \<and> length xs = unat (b_size b)"
proof -
  have "blob_ok A h b" using assms by (simp add: env_ok_def)
  then show ?thesis
    by (auto simp: blob_ok_def Blob_bytes_def buf_read_def split: option.splits)
qed

text \<open>Copies, assignments and destructions of live blobs never fail.\<close>

lemma release_succeeds:
  assumes "env_ok leaky (e, h)" "e w = Some b"
  shows "e v = None \<Longrightarrow> \<exists>s. blob_step A (e, h) (OCopy v w) = Inr s"
    "e v \<noteq> None \<Longrightarrow> \<exists>s. blob_step A (e, h) (OAssign v w) = Inr s"
    "\<exists>s. blob_step A (e, h) (ODestroy w) = Inr s"
proof -
  have h: "inv h" using assms by (simp add: env_ok_def)
  show "e v = None \<Longrightarrow> \<exists>s. blob_step A (e, h) (OCopy v w) = Inr s"
    "e v \<noteq> None \<Longrightarrow> \<exists>s. blob_step A (e, h) (OAssign v w) = Inr s"
    using refer_rhs [OF assms] assms(2) by (auto simp: live_def Blob_copy_def Blob_assign_def)
  show "\<exists>s. blob_step A (e, h) (ODestroy w) = Inr s"
    using assms free [OF h env_ok_held(1) [OF assms]]
    by (cases "b_data b") (auto simp: live_def Blob_destroy_def)
qed

lemma none_left:
  assumes "env_ok False (e, h)" "e = Map.empty"
  shows "refs p h = 0"
  using assms by (simp add: env_ok_def counted_def)

end

lemma Allocator_contract:
  assumes "malloc_ok malloc"
  obtains inv refs where "alloc_contract (Allocator_Get malloc ty) inv refs"
proof (cases "ty = ''smart''")
  case True
  with smart_contract [OF assms] show thesis by (intro that) (simp add: Allocator_Get_def)
next
  case False
  with plain_contract [OF assms] show thesis by (intro that) (simp add: Allocator_Get_def)
qed

text \<open>C21. Whatever a program does with its other blobs, a blob keeps its bytes: in any run, over
  either allocator, an operation that neither assigns nor destroys the variable nor writes
  through a blob sharing its memory leaves its blob and its bytes as they were, and the bytes are
  as many as its size says. The run must make no blob of size 0 from memory.\<close>

theorem blobs_keep_their_bytes:
  assumes "malloc_ok malloc" "blob_run (Allocator_Get malloc ty) ops = Inr (e, h)"
    and "\<forall>x\<in>set (ops @ [op]). op_ok x" "blob_step (Allocator_Get malloc ty) (e, h) op = Inr (e', h')"
    and "e v = Some b" "\<not> touches e v op"
  shows "e' v = Some b \<and> (\<exists>xs. length xs = unat (b_size b) \<and>
    Blob_bytes (Allocator_Get malloc ty) b h = Inr xs \<and> Blob_bytes (Allocator_Get malloc ty) b h' = Inr xs)"
proof -
  obtain inv refs where c: "alloc_contract (Allocator_Get malloc ty) inv refs"
    using Allocator_contract [OF assms(1)] .
  from assms(3) have "\<forall>x\<in>set ops. op_ok x" "op_ok op" by simp_all
  with alloc_contract.run_ok [OF c assms(2), of True]
  have ok: "alloc_contract.env_ok (Allocator_Get malloc ty) inv refs True (e, h)" "op_ok op" by simp_all
  with alloc_contract.step_frame [OF c ok _ assms(4-6)] alloc_contract.bytes_defined [OF c ok(1) assms(5)]
  show ?thesis by auto
qed

definition example_ops :: "blob_op list" where
  "example_ops = [OFrom 0 [1, 2, 3], OCopy 1 0, OFrom 2 [9], OSized 3 40, ODestroy 0]"

definition example_end :: "blob_env \<times> heap" where
  "example_end = projr (blob_run (Allocator_Get zero_malloc ''smart'') example_ops)"

lemma example_run:
  "blob_run (Allocator_Get zero_malloc ''smart'') example_ops = Inr (fst example_end, snd example_end)"
  "fst example_end 1 = Some \<lparr>b_data = Some 0, b_size = 3\<rparr>"
  "map_option b_data (fst example_end 2) = Some (Some 1)"
proof -
  have "\<not> isl (blob_run (Allocator_Get zero_malloc ''smart'') example_ops)" by code_simp
  then show "blob_run (Allocator_Get zero_malloc ''smart'') example_ops = Inr (fst example_end, snd example_end)"
    by (simp add: example_end_def)
  show "fst example_end 1 = Some \<lparr>b_data = Some 0, b_size = 3\<rparr>" by code_simp
  show "map_option b_data (fst example_end 2) = Some (Some 1)" by code_simp
qed

lemma write_env: "blob_step A (e, h) (OWrite v off xs) = Inr (e', h') \<Longrightarrow> e' = e"
  by auto

theorem blobs_keep_their_bytes_example:
  "\<exists>h'. blob_step (Allocator_Get zero_malloc ''smart'') example_end (OWrite 2 0 [7]) = Inr (fst example_end, h') \<and>
     Blob_bytes (Allocator_Get zero_malloc ''smart'') \<lparr>b_data = Some 0, b_size = 3\<rparr> h' = Inr [1, 2, 3]"
proof -
  let ?A = "Allocator_Get zero_malloc ''smart''"
  let ?s = "blob_step ?A (fst example_end, snd example_end) (OWrite 2 0 [7])"
  have ok: "\<forall>x\<in>set (example_ops @ [OWrite 2 0 [7]]). op_ok x" by (simp add: example_ops_def)
  have "\<not> isl ?s" by code_simp
  then obtain e' h' where s: "?s = Inr (e', h')" by (cases ?s) auto
  have "Blob_bytes ?A \<lparr>b_data = Some 0, b_size = 3\<rparr> (snd example_end) = Inr [1, 2, 3]" by code_simp
  moreover have "e' = fst example_end" by (rule write_env [OF s])
  moreover note blobs_keep_their_bytes [OF zero_malloc_ok example_run(1) ok s example_run(2)] example_run(2,3)
  ultimately show ?thesis using s by auto
qed

text \<open>C22. Without assignments, and without blobs of size 0 made from memory, nothing leaks: when all variables of a program are destroyed, every
  block of the smart allocator is on the free list it came from, and the plain allocator has
  freed everything.\<close>

theorem blobs_all_returned:
  assumes "malloc_ok malloc" "blob_run (Allocator_Get malloc ty) ops = Inr (Map.empty, h)"
    and "\<forall>x\<in>set ops. op_ok x \<and> \<not> is_assign x"
  shows "if ty = ''smart''
    then \<forall>p<length (mblocks h). \<exists>first ps. pools h (home_list (mblocks h ! p)) = Some first \<and>
      chain (mblocks h) first ps \<and> p \<in> set ps
    else \<forall>p<length (plain_cells h). plain_cells h ! p = None"
proof (cases "ty = ''smart''")
  case True
  note c = smart_contract [OF assms(1)]
  have ok: "alloc_contract.env_ok (smart_allocator malloc) smart_inv smart_refs False (Map.empty, h)"
    using assms True by (intro alloc_contract.run_ok [OF c]) (auto simp: Allocator_Get_def)
  then have h: "smart_inv h" by (simp add: alloc_contract.env_ok_def [OF c])
  show ?thesis unfolding if_P [OF True]
  proof (intro allI impI)
    fix p assume p: "p < length (mblocks h)"
    let ?n = "home_list (mblocks h ! p)"
    have "smart_refs p h = 0" by (rule alloc_contract.none_left [OF c ok refl])
    then have "p \<in> free_blocks h ?n" using p by (simp add: smart_refs_def free_blocks_def)
    moreover have "list_ok h ?n" "pools h ?n \<noteq> None"
      using h smart_inv_block [OF h p] by (simp_all add: smart_inv_def block_ok_def)
    ultimately show "\<exists>first ps. pools h ?n = Some first \<and> chain (mblocks h) first ps \<and> p \<in> set ps"
      by (auto elim!: list_okE)
  qed
next
  case False
  note c = plain_contract [OF assms(1)]
  have ok: "alloc_contract.env_ok (plain_allocator malloc) plain_inv plain_refs False (Map.empty, h)"
    using assms False by (intro alloc_contract.run_ok [OF c]) (auto simp: Allocator_Get_def)
  then have h: "plain_inv h" by (simp add: alloc_contract.env_ok_def [OF c])
  show ?thesis unfolding if_not_P [OF False]
  proof (intro allI impI)
    fix p assume p: "p < length (plain_cells h)"
    have "plain_refs p h = 0" by (rule alloc_contract.none_left [OF c ok refl])
    moreover have "0 < r" if "plain_cells h ! p = Some (r, b)" for r b
      using h p that by (auto simp: plain_inv_def in_set_conv_nth)
    ultimately show "plain_cells h ! p = None"
      using p by (cases "plain_cells h ! p") (auto simp: plain_refs_def cell_at_def)
  qed
qed

lemma example_plain_run:
  "\<exists>h. blob_run (Allocator_Get zero_malloc ''plain'') [OFrom 0 [1], OCopy 1 0, ODestroy 0, ODestroy 1] =
     Inr (Map.empty, h) \<and> length (plain_cells h) = 1"
  by (simp add: blob_run_def Allocator_Get_def plain_allocator_def Blob_from_def Blob_copy_def Blob_destroy_def
      live_def plain_Alloc_def AlignMalloc_def zero_malloc_def new_heap_def plain_header_size_def plain_load_def
      plain_store_def plain_Free_def plain_Refer_def cell_at_def set_cell_def vec_at_def in_range_def buf_write_def
      fun_upd_twist)

theorem blobs_all_returned_example:
  "\<exists>h. blob_run (Allocator_Get zero_malloc ''plain'') [OFrom 0 [1], OCopy 1 0, ODestroy 0, ODestroy 1] =
     Inr (Map.empty, h) \<and> plain_cells h = [None]"
proof -
  let ?ops = "[OFrom 0 [1], OCopy 1 0, ODestroy 0, ODestroy 1]"
  obtain h where h: "blob_run (Allocator_Get zero_malloc ''plain'') ?ops = Inr (Map.empty, h)" "length (plain_cells h) = 1"
    using example_plain_run by blast
  have "\<forall>x\<in>set ?ops. op_ok x \<and> \<not> is_assign x" by simp
  from blobs_all_returned [OF zero_malloc_ok h(1) this] h(2) have "plain_cells h ! 0 = None" by simp
  with h show ?thesis by (cases "plain_cells h") auto
qed

text \<open>A blob of size 0 made from memory breaks this: its copy takes no reference, so destroying
  the two counts one reference twice. In between the block can have a new owner; the second
  destruction puts it back on the free list under that owner's hands, the next blob gets the same
  memory, and a write to it changes the bytes of the other.\<close>

theorem empty_blob_freed_twice:
  "case blob_run (Allocator_Get zero_malloc ''smart'')
      [OFrom 0 [], OCopy 1 0, ODestroy 0, OFrom 2 [5, 6], ODestroy 1, OFrom 3 [7, 8]] of
    Inl _ \<Rightarrow> False
  | Inr (e, h) \<Rightarrow> e 2 = e 3 \<and>
      map_option (\<lambda>b. Blob_bytes (Allocator_Get zero_malloc ''smart'') b h) (e 2) = Some (Inr [7, 8])"
  by code_simp

text \<open>The assignment leaks: the block the left side had keeps its count.\<close>

lemma assignment_leaks:
  "case blob_run (Allocator_Get zero_malloc ''smart'')
      [OFrom 0 [1], OFrom 1 [2], OAssign 0 1, ODestroy 0, ODestroy 1] of
    Inl _ \<Rightarrow> False
  | Inr (e, h) \<Rightarrow> map ref_count (mblocks h) = [1, 0] \<and> pools h 32 = Some (Some 1)"
  by code_simp

end
