(* ===== verification/Hash.thy ===== *)
theory Hash
  imports Bytes
begin

text \<open>
  \<open>MurmurHash64B\<close> of src/hpps/common/hash.h: the key is its bytes, read four at a time as
  little-endian \<open>unsigned int\<close>s. The lemmas show that each mixing step can be undone, so that
  keys of up to eight bytes of the same length never collide.
\<close>

definition murmur_m :: "32 word" where "murmur_m = 0x5bd1e995"

definition murmur_mix :: "32 word \<Rightarrow> 32 word \<Rightarrow> 32 word" where
  \<comment> \<open>the hash \<open>h\<close> after the block \<open>k\<close>\<close>
  "murmur_mix h k =
     (let k1 = k * murmur_m; k2 = k1 XOR drop_bit 24 k1; k3 = k2 * murmur_m in (h * murmur_m) XOR k3)"

fun murmur_loop :: "blob \<Rightarrow> 32 word \<Rightarrow> 32 word \<Rightarrow> blob \<times> 32 word \<times> 32 word" where
  \<comment> \<open>the loop \<open>while (len >= 8)\<close>\<close>
  "murmur_loop (b0 # b1 # b2 # b3 # b4 # b5 # b6 # b7 # rest) h1 h2 =
     murmur_loop rest (murmur_mix h1 (le_word [b0, b1, b2, b3])) (murmur_mix h2 (le_word [b4, b5, b6, b7]))"
| "murmur_loop rest h1 h2 = (rest, h1, h2)"

fun murmur_tail :: "blob \<Rightarrow> 32 word \<Rightarrow> 32 word" where
  \<comment> \<open>the \<open>switch\<close> on the last bytes, which falls through\<close>
  "murmur_tail [b0, b1, b2] h2 =
     (h2 XOR push_bit 16 (ucast b2) XOR push_bit 8 (ucast b1) XOR ucast b0) * murmur_m"
| "murmur_tail [b0, b1] h2 = (h2 XOR push_bit 8 (ucast b1) XOR ucast b0) * murmur_m"
| "murmur_tail [b0] h2 = (h2 XOR ucast b0) * murmur_m"
| "murmur_tail _ h2 = h2"

definition murmur_final :: "32 word \<Rightarrow> 32 word \<Rightarrow> u64" where
  "murmur_final h1 h2 =
     (let a1 = (h1 XOR drop_bit 18 h2) * murmur_m;
          a2 = (h2 XOR drop_bit 22 a1) * murmur_m;
          b1 = (a1 XOR drop_bit 17 a2) * murmur_m;
          b2 = (a2 XOR drop_bit 19 b1) * murmur_m
      in push_bit 32 (ucast b1) OR ucast b2)"

definition MurmurHash64B :: "blob \<Rightarrow> 32 word \<Rightarrow> u64" where
  "MurmurHash64B key seed =
     (let (rest, h1, h2) = murmur_loop key (seed XOR of_nat (length key)) 0;
          (rest', h1') = (if 4 \<le> length rest then (drop 4 rest, murmur_mix h1 (le_word (take 4 rest)))
                          else (rest, h1))
      in murmur_final h1' (murmur_tail rest' h2))"

section \<open>Steps that can be undone\<close>

lemma mult_m_inj: "x * murmur_m = y * murmur_m \<longleftrightarrow> x = y"
proof
  have inv: "murmur_m * 0xe59b19bd = 1" by (simp add: murmur_m_def)
  assume "x * murmur_m = y * murmur_m"
  then have "x * (murmur_m * 0xe59b19bd) = y * (murmur_m * 0xe59b19bd)"
    by (simp add: mult.assoc [symmetric])
  then show "x = y" by (simp add: inv)
qed simp

lemma xor_shift_inj:
  assumes "16 \<le> s" "x XOR drop_bit s x = y XOR drop_bit s y"
  shows "x = (y :: 32 word)"
proof -
  have "(z XOR drop_bit s z) XOR drop_bit s (z XOR drop_bit s z) = z" for z :: "32 word"
    using assms(1) by (intro bit_word_eqI) (auto simp: bit_simps dest: bit_imp_le_length)
  then show ?thesis using assms(2) by metis
qed

lemma xor_same_inj: "x XOR a = y XOR a \<longleftrightarrow> x = (y :: 'a::len word)"
proof
  assume "x XOR a = y XOR a"
  then have "(x XOR a) XOR a = (y XOR a) XOR a" by (rule arg_cong)
  then show "x = y" by (simp only: xor.assoc xor_self_eq xor.right_neutral)
qed simp

lemma xor_same_inj_left: "a XOR x = a XOR y \<longleftrightarrow> x = (y :: 'a::len word)"
  by (simp only: xor.commute [of a] xor_same_inj)

lemma murmur_mix_inj: "murmur_mix h k = murmur_mix h k' \<longleftrightarrow> k = k'"
  using xor_shift_inj [of 24 "k * murmur_m" "k' * murmur_m"]
  by (auto simp: murmur_mix_def Let_def xor_same_inj_left mult_m_inj)

lemma halves_inj:
  assumes "push_bit 32 (ucast a) OR ucast b = (push_bit 32 (ucast c) OR ucast d :: u64)"
  shows "a = (c :: 32 word) \<and> b = (d :: 32 word)"
proof
  have bits: "bit (push_bit 32 (ucast a) OR ucast b :: u64) i =
      bit (push_bit 32 (ucast c) OR ucast d :: u64) i" for i
    using assms by simp
  show "a = c"
  proof (rule bit_word_eqI)
    fix i assume "i < LENGTH(32)"
    with bits [of "i + 32"] show "bit a i = bit c i"
      by (auto simp: bit_simps dest: bit_imp_le_length)
  qed
  show "b = d"
  proof (rule bit_word_eqI)
    fix i assume "i < LENGTH(32)"
    with bits [of i] show "bit b i = bit d i" by (auto simp: bit_simps)
  qed
qed

lemma murmur_final_inj:
  assumes "murmur_final h1 h2 = murmur_final g1 g2"
  shows "h1 = g1 \<and> h2 = g2"
proof -
  define a where "a x y = (x XOR drop_bit 18 y) * murmur_m" for x y
  define b where "b x y = (y XOR drop_bit 22 (a x y)) * murmur_m" for x y
  define c where "c x y = (a x y XOR drop_bit 17 (b x y)) * murmur_m" for x y
  have fin: "murmur_final x y =
      (push_bit 32 (ucast (c x y)) OR ucast ((b x y XOR drop_bit 19 (c x y)) * murmur_m))" for x y
    by (simp add: murmur_final_def a_def b_def c_def Let_def)
  from halves_inj [OF assms [unfolded fin]] have c: "c h1 h2 = c g1 g2"
    "(b h1 h2 XOR drop_bit 19 (c h1 h2)) * murmur_m = (b g1 g2 XOR drop_bit 19 (c g1 g2)) * murmur_m"
    by blast+
  then have b: "b h1 h2 = b g1 g2" by (simp only: mult_m_inj xor_same_inj)
  then have a: "a h1 h2 = a g1 g2" using c(1) by (simp only: c_def mult_m_inj xor_same_inj)
  then have "h2 = g2" using b by (simp only: b_def mult_m_inj xor_same_inj)
  with a show ?thesis by (simp only: a_def mult_m_inj xor_same_inj simp_thms)
qed

text \<open>The last bytes, as a little-endian number.\<close>

lemma murmur_tail_le_word:
  "length bs < 4 \<Longrightarrow> murmur_tail bs h = (if bs = [] then h else (h XOR le_word bs) * murmur_m)"
proof -
  assume "length bs < 4"
  then consider "bs = []" | b0 where "bs = [b0]" | b0 b1 where "bs = [b0, b1]"
    | b0 b1 b2 where "bs = [b0, b1, b2]"
    by (cases "(bs, h)" rule: murmur_tail.cases) auto
  then show ?thesis
  proof cases
    case (3 b0 b1)
    have "push_bit 8 (ucast b1) XOR ucast b0 = (le_word bs :: 32 word)"
      unfolding 3 by (rule bit_word_eqI) (auto simp: bit_simps dest: bit_imp_le_length)
    then show ?thesis using 3 by (simp add: xor.assoc)
  next
    case (4 b0 b1 b2)
    have "push_bit 16 (ucast b2) XOR (push_bit 8 (ucast b1) XOR ucast b0) = (le_word bs :: 32 word)"
      unfolding 4 by (rule bit_word_eqI) (auto simp: bit_simps dest: bit_imp_le_length)
    then show ?thesis using 4 by (simp add: xor.assoc)
  qed simp_all
qed

lemma le_word_inj32:
  assumes "length bs = length cs" "length bs \<le> 4" "le_word bs = (le_word cs :: 32 word)"
  shows "bs = cs"
proof -
  have "bs = le_bytes (length bs) (le_word bs :: 32 word)"
    using assms(2) by (intro le_bytes_le_word [symmetric]) simp
  also have "\<dots> = le_bytes (length cs) (le_word cs :: 32 word)" using assms(1,3) by simp
  also have "\<dots> = cs" using assms(1,2) by (intro le_bytes_le_word) simp
  finally show ?thesis .
qed

lemma murmur_tail_inj:
  assumes "length bs = length cs" "length bs < 4" "murmur_tail bs h = murmur_tail cs h"
  shows "bs = cs"
  using assms le_word_inj32 [OF assms(1)]
  by (auto simp: murmur_tail_le_word mult_m_inj xor_same_inj_left split: if_splits)

lemma murmur_short:
  assumes "length key < 8"
  shows "MurmurHash64B key seed =
    (let h1 = seed XOR of_nat (length key) in
     if 4 \<le> length key then murmur_final (murmur_mix h1 (le_word (take 4 key))) (murmur_tail (drop 4 key) 0)
     else murmur_final h1 (murmur_tail key 0))"
proof -
  have "murmur_loop key h1 h2 = (key, h1, h2)" for h1 h2
    using assms by (cases "(key, h1, h2)" rule: murmur_loop.cases) auto
  then show ?thesis by (simp add: MurmurHash64B_def Let_def)
qed

lemma murmur_eight:
  assumes "length key = 8"
  shows "MurmurHash64B key seed =
    murmur_final (murmur_mix (seed XOR 8) (le_word (take 4 key))) (murmur_mix 0 (le_word (drop 4 key)))"
proof -
  from assms obtain b0 b1 b2 b3 b4 b5 b6 b7 where "key = [b0, b1, b2, b3, b4, b5, b6, b7]"
    by (auto simp: length_Suc_conv eval_nat_numeral)
  then show ?thesis by (simp add: MurmurHash64B_def)
qed

text \<open>\<open>MurmurHash64B\<close> separates short keys: two different keys of the same length of at
  most eight bytes, for instance two different 64-bit identifiers, never have the same hash,
  whatever the seed.\<close>

theorem murmur_short_keys_differ:
  assumes "length key = length key'" "length key \<le> 8" "key \<noteq> key'"
  shows "MurmurHash64B key seed \<noteq> MurmurHash64B key' seed"
proof
  assume eq: "MurmurHash64B key seed = MurmurHash64B key' seed"
  have take_drop: "take 4 key = take 4 key' \<Longrightarrow> drop 4 key = drop 4 key' \<Longrightarrow> key = key'"
    by (metis append_take_drop_id)
  consider "length key = 8" | "4 \<le> length key" "length key < 8" | "length key < 4"
    using assms(2) by linarith
  then have "key = key'"
  proof cases
    case 1
    with eq assms(1) have "le_word (take 4 key) = (le_word (take 4 key') :: 32 word)"
      "le_word (drop 4 key) = (le_word (drop 4 key') :: 32 word)"
      by (auto simp: murmur_eight murmur_mix_inj dest!: murmur_final_inj)
    with 1 assms(1) show ?thesis by (intro take_drop le_word_inj32) simp_all
  next
    case 2
    with eq assms(1) have "le_word (take 4 key) = (le_word (take 4 key') :: 32 word)"
      "murmur_tail (drop 4 key) 0 = murmur_tail (drop 4 key') 0"
      by (auto simp: murmur_short murmur_mix_inj Let_def dest!: murmur_final_inj)
    with 2 assms(1) show ?thesis
      by (intro take_drop le_word_inj32 murmur_tail_inj [of _ _ 0]) simp_all
  next
    case 3
    with eq assms(1) have "murmur_tail key 0 = murmur_tail key' 0"
      by (auto simp: murmur_short Let_def dest!: murmur_final_inj)
    with 3 assms(1) show ?thesis by (intro murmur_tail_inj [of _ _ 0]) simp_all
  qed
  with assms(3) show False by simp
qed

theorem murmur_short_keys_differ_example:
  "MurmurHash64B (enc64 1) 0xEE6B27EB \<noteq> MurmurHash64B (enc64 2) 0xEE6B27EB"
  by (rule murmur_short_keys_differ) (simp_all add: c64.length_enc, code_simp)

end
