(* ===== verification/Flags.thy ===== *)
theory Flags
  imports FileIO ZmqNet "HOL-Library.Multiset"
begin

text \<open>
  The command line: src/hpps/common/configure.h and configure.cc. A \<open>FlagRegister\<T>\<close> is a map
  from names to values and descriptions; the four registers of the program are one record. The
  type \<open>'d\<close> is \<open>double\<close> and \<open>strtod\<close> the library's parser for it. \<open>atoi\<close> follows the C
  library; a number outside of \<open>int\<close> is undefined there and the error \<open>IntOverflow\<close> here.
\<close>

section \<open>Registers\<close>

type_synonym 'a register = "string \<Rightarrow> ('a \<times> string) option"

definition RegisterFlag :: "string \<Rightarrow> 'a \<Rightarrow> string \<Rightarrow> 'a register \<Rightarrow> 'a register" where
  "RegisterFlag name val descr r = r(name \<mapsto> (val, descr))"

definition SetFlagIfFound :: "string \<Rightarrow> 'a \<Rightarrow> 'a register \<Rightarrow> bool \<times> 'a register" where
  "SetFlagIfFound key val r =
     (case r key of None \<Rightarrow> (False, r) | Some (_, descr) \<Rightarrow> (True, r(key \<mapsto> (val, descr))))"

definition GetValue :: "'a \<Rightarrow> string \<Rightarrow> 'a register \<Rightarrow> 'a \<times> 'a register" where
  \<comment> \<open>\<open>commands[name]\<close> makes an entry with the value \<open>zero\<close> of a new \<open>T\<close> when there is none\<close>
  "GetValue zero name r =
     (case r name of None \<Rightarrow> (zero, r(name \<mapsto> (zero, ''''))) | Some (val, _) \<Rightarrow> (val, r))"

definition GetInfo :: "'a \<Rightarrow> string \<Rightarrow> 'a register \<Rightarrow> string \<times> 'a register" where
  "GetInfo zero name r =
     (case r name of None \<Rightarrow> ('''', r(name \<mapsto> (zero, ''''))) | Some (_, descr) \<Rightarrow> (descr, r))"

definition SetCMDFlag :: "string \<Rightarrow> 'a \<Rightarrow> 'a register \<Rightarrow> 'a register res" where
  "SetCMDFlag name val r =
     (let (found, r1) = SetFlagIfFound name val r in bind_res (check found) (\<lambda>_. Inr r1))"

record 'd flags =
  string_flags :: "string register"
  int_flags :: "i32 register"
  double_flags :: "'d register"
  bool_flags :: "bool register"

section \<open>Parsing\<close>

definition digit_value :: "char \<Rightarrow> int option" where
  "digit_value c = (let n = of_char c :: nat in if 48 \<le> n \<and> n \<le> 57 then Some (int (n - 48)) else None)"

fun digits_value :: "int \<Rightarrow> string \<Rightarrow> int" where
  "digits_value acc [] = acc"
| "digits_value acc (c # cs) =
     (case digit_value c of None \<Rightarrow> acc | Some d \<Rightarrow> digits_value (10 * acc + d) cs)"

definition atoi :: "string \<Rightarrow> i32 res" where
  "atoi s =
     (let s1 = dropWhile is_space s;
          n = (case s1 of [] \<Rightarrow> 0
               | c # cs \<Rightarrow> if c = CHR ''-'' then - digits_value 0 cs
                          else if c = CHR ''+'' then digits_value 0 cs else digits_value 0 s1)
      in if - (2 ^ 31) \<le> n \<and> n < 2 ^ 31 then Inr (word_of_int n) else Inl IntOverflow)"

definition char_tolower :: "char \<Rightarrow> char" where
  "char_tolower c = (let n = of_char c :: nat in if 65 \<le> n \<and> n \<le> 90 then char_of (n + 32) else c)"

definition key_of :: "string \<Rightarrow> string" where
  \<comment> \<open>\<open>line.substr(1, pos - 1)\<close>; for \<open>pos = 0\<close> the length wraps around to the rest of the line\<close>
  "key_of line = (let pos = length (takeWhile (\<lambda>c. c \<noteq> CHR ''='') line) in
     if pos = 0 then drop 1 line else take (pos - 1) (drop 1 line))"

definition value_of :: "string \<Rightarrow> string" where
  "value_of line = drop (length (takeWhile (\<lambda>c. c \<noteq> CHR ''='') line) + 1) line"

definition parse_flag :: "(string \<Rightarrow> 'd) \<Rightarrow> string \<Rightarrow> 'd flags \<Rightarrow> (bool \<times> 'd flags) res" where
  \<comment> \<open>the body of the loop up to \<open>continue\<close>: whether the argument was used, and the registers\<close>
  "parse_flag strtod line fl =
     (if CHR ''-'' \<notin> set line then Inr (False, fl)
      else bind_res (check (CHR ''='' \<in> set line)) (\<lambda>_.
        let key = key_of line; val = value_of line;
            (found, r) = SetFlagIfFound key val (string_flags fl) in
        if found then Inr (True, fl\<lparr>string_flags := r\<rparr>)
        else bind_res (atoi val) (\<lambda>intval.
          let (found, r) = SetFlagIfFound key intval (int_flags fl) in
          if found then Inr (True, fl\<lparr>int_flags := r\<rparr>)
          else let (found, r) = SetFlagIfFound key (strtod line) (double_flags fl) in
          if found then Inr (True, fl\<lparr>double_flags := r\<rparr>)
          else let boolval = (map char_tolower val = ''true'');
                   (found, r) = SetFlagIfFound key boolval (bool_flags fl) in
          if found then Inr (True, fl\<lparr>bool_flags := r\<rparr>)
          else Inr (False, fl))))"

definition parse_step ::
    "(string \<Rightarrow> 'd) \<Rightarrow> string list \<times> nat \<times> 'd flags \<Rightarrow> nat \<Rightarrow> (string list \<times> nat \<times> 'd flags) res" where
  "parse_step strtod = (\<lambda>(argv, unused, fl) i.
     bind_res (vec_at argv (int i)) (\<lambda>line.
     bind_res (parse_flag strtod line fl) (\<lambda>(used, fl1).
     if used then Inr (argv, unused, fl1)
     else bind_res (vec_at argv (int unused)) (\<lambda>other.
       Inr (argv[unused := line, i := other], unused + 1, fl1)))))"

definition ParseCMDFlags ::
    "(string \<Rightarrow> 'd) \<Rightarrow> string list \<Rightarrow> 'd flags \<Rightarrow> (string list \<times> nat \<times> 'd flags) res" where
  \<comment> \<open>the reordered arguments, the new \<open>argc\<close> and the registers\<close>
  "ParseCMDFlags strtod argv fl = fold_res (parse_step strtod) (argv, 0, fl) [0..<length argv]"

definition HPPS_ZooStart_args :: "(string \<Rightarrow> 'd) \<Rightarrow> string \<Rightarrow> 'd flags \<Rightarrow> (string list \<times> nat \<times> 'd flags) res" where
  \<comment> \<open>\<open>HPPS_ZooStart\<close> splits its argument and hands it to \<open>Zoo::Start\<close>, which parses it first\<close>
  "HPPS_ZooStart_args strtod args fl = ParseCMDFlags strtod (StrSplit args CHR '' '') fl"

section \<open>What parsing does\<close>

definition sets_key :: "string \<Rightarrow> string \<Rightarrow> bool" where
  "sets_key k line \<longleftrightarrow> CHR ''-'' \<in> set line \<and> key_of line = k"

definition known_key :: "'d flags \<Rightarrow> string \<Rightarrow> bool" where
  "known_key fl k \<longleftrightarrow> string_flags fl k \<noteq> None \<or> int_flags fl k \<noteq> None \<or>
     double_flags fl k \<noteq> None \<or> bool_flags fl k \<noteq> None"

definition is_used :: "'d flags \<Rightarrow> string \<Rightarrow> bool" where
  "is_used fl line \<longleftrightarrow> CHR ''-'' \<in> set line \<and> known_key fl (key_of line)"

definition good_line :: "string \<Rightarrow> bool" where
  "good_line line \<longleftrightarrow> (CHR ''-'' \<in> set line \<longrightarrow>
     CHR ''='' \<in> set line \<and> \<not> isl (atoi (value_of line)))"

definition apply_flag :: "(string \<Rightarrow> 'd) \<Rightarrow> string \<Rightarrow> 'd flags \<Rightarrow> 'd flags" where
  "apply_flag strtod line fl = snd (projr (parse_flag strtod line fl))"

definition set_value :: "'a \<Rightarrow> ('a \<times> string) option \<Rightarrow> ('a \<times> string) option" where
  "set_value val = map_option (\<lambda>(_, descr). (val, descr))"

lemma set_value_simps [simp]:
  "set_value v None = None" "set_value v (Some (w, d)) = Some (v, d)"
  "set_value v x = None \<longleftrightarrow> x = None"
  by (simp_all add: set_value_def)

lemma parse_flag_cases:
  assumes "CHR ''-'' \<in> set line" "CHR ''='' \<in> set line" "atoi (value_of line) = Inr n"
  shows "parse_flag strtod line fl = Inr
    (let k = key_of line in
     if string_flags fl k \<noteq> None
       then (True, fl\<lparr>string_flags := (string_flags fl)(k := set_value (value_of line) (string_flags fl k))\<rparr>)
     else if int_flags fl k \<noteq> None
       then (True, fl\<lparr>int_flags := (int_flags fl)(k := set_value n (int_flags fl k))\<rparr>)
     else if double_flags fl k \<noteq> None
       then (True, fl\<lparr>double_flags := (double_flags fl)(k := set_value (strtod line) (double_flags fl k))\<rparr>)
     else if bool_flags fl k \<noteq> None
       then (True, fl\<lparr>bool_flags := (bool_flags fl)
         (k := set_value (map char_tolower (value_of line) = ''true'') (bool_flags fl k))\<rparr>)
     else (False, fl))"
  using assms by (auto simp: parse_flag_def SetFlagIfFound_def Let_def split: option.splits)

lemma parse_flag_plain: "CHR ''-'' \<notin> set line \<Longrightarrow> parse_flag strtod line fl = Inr (False, fl)"
  by (simp add: parse_flag_def)

lemma good_line_cases:
  assumes "good_line line"
  obtains "CHR ''-'' \<notin> set line"
  | n where "CHR ''-'' \<in> set line" "CHR ''='' \<in> set line" "atoi (value_of line) = Inr n"
  using assms by (cases "atoi (value_of line)") (auto simp: good_line_def)

lemma parse_flag_good:
  assumes "good_line line"
  shows "parse_flag strtod line fl = Inr (is_used fl line, apply_flag strtod line fl)"
  using assms
proof (cases rule: good_line_cases)
  case 1
  then show ?thesis by (simp add: parse_flag_def apply_flag_def is_used_def)
next
  case (2 n)
  then show ?thesis
    by (simp add: apply_flag_def parse_flag_cases Let_def is_used_def known_key_def)
qed

lemma apply_flag_lookup:
  assumes "good_line line"
  shows "string_flags (apply_flag strtod line fl) k =
      (if sets_key k line then set_value (value_of line) (string_flags fl k) else string_flags fl k)"
    "string_flags fl k = None \<Longrightarrow> int_flags (apply_flag strtod line fl) k =
      (if sets_key k line then set_value (projr (atoi (value_of line))) (int_flags fl k) else int_flags fl k)"
    "string_flags fl k = None \<Longrightarrow> int_flags fl k = None \<Longrightarrow> double_flags fl k = None \<Longrightarrow>
      bool_flags (apply_flag strtod line fl) k =
      (if sets_key k line then set_value (map char_tolower (value_of line) = ''true'') (bool_flags fl k)
       else bool_flags fl k)"
    "known_key (apply_flag strtod line fl) j = known_key fl j"
    "double_flags (apply_flag strtod line fl) k = None \<longleftrightarrow> double_flags fl k = None"
    "int_flags (apply_flag strtod line fl) k = None \<longleftrightarrow> int_flags fl k = None"
  using assms
  by (elim good_line_cases;
      cases "string_flags fl (key_of line)"; cases "int_flags fl (key_of line)";
      cases "double_flags fl (key_of line)"; cases "bool_flags fl (key_of line)";
      auto simp: apply_flag_def parse_flag_cases sets_key_def known_key_def parse_flag_plain)+

text \<open>The state of the loop after the first \<open>n\<close> arguments.\<close>

definition parsed :: "(string \<Rightarrow> 'd) \<Rightarrow> string list \<Rightarrow> 'd flags \<Rightarrow> nat \<Rightarrow> string list \<times> nat \<times> 'd flags \<Rightarrow> bool" where
  "parsed strtod args fl n = (\<lambda>(argv, unused, fl').
     take unused argv = filter (\<lambda>l. \<not> is_used fl l) (take n args) \<and> unused \<le> n \<and>
     drop n argv = drop n args \<and> mset argv = mset args \<and>
     fl' = fold (apply_flag strtod) (take n args) fl \<and> known_key fl' = known_key fl)"

lemma swap_take:
  assumes "u \<le> i" "i < length xs"
  shows "take (Suc u) (xs[u := xs ! i, i := xs ! u]) = take u xs @ [xs ! i]"
  using assms by (cases "u = i") (auto simp: take_Suc_conv_app_nth)

lemma parse_step_parsed:
  assumes inv: "parsed strtod args fl n s" and n: "n < length args" and good: "good_line (args ! n)"
  shows "\<exists>s'. parse_step strtod s n = Inr s' \<and> parsed strtod args fl (Suc n) s'"
proof -
  obtain argv u fl' where s: "s = (argv, u, fl')" by (cases s) auto
  have i: "take u argv = filter (\<lambda>l. \<not> is_used fl l) (take n args)" "u \<le> n"
    "drop n argv = drop n args" "mset argv = mset args"
    "fl' = fold (apply_flag strtod) (take n args) fl" "known_key fl' = known_key fl"
    using inv unfolding parsed_def s prod.case by blast+
  have len: "length argv = length args" using i(4) by (metis size_mset)
  have line: "argv ! n = args ! n" using i(3) n len by (metis hd_drop_conv_nth)
  have drop: "drop (Suc n) argv = drop (Suc n) args" using i(3) by (metis drop_Suc tl_drop)
  have used: "is_used fl' l = is_used fl l" for l using i(6) by (simp add: is_used_def)
  have known: "known_key (apply_flag strtod (args ! n) fl') = known_key fl"
    using apply_flag_lookup(4) [OF good, of strtod fl'] i(6) by (simp add: fun_eq_iff)
  have fold: "apply_flag strtod (args ! n) fl' = fold (apply_flag strtod) (take (Suc n) args) fl"
    using i(5) n by (simp add: take_Suc_conv_app_nth)
  let ?fl = "fold (apply_flag strtod) (take (Suc n) args) fl"
  have pf: "parse_flag strtod (argv ! n) fl' = Inr (is_used fl (args ! n), ?fl)"
    using parse_flag_good [OF good, of strtod fl'] used by (simp only: line fold)
  have known: "known_key ?fl = known_key fl" using known by (simp only: fold)
  show ?thesis
  proof (cases "is_used fl (args ! n)")
    case True
    then have "filter (\<lambda>l. \<not> is_used fl l) (take (Suc n) args) = take u argv"
      using i(1) n by (simp add: take_Suc_conv_app_nth)
    with True show ?thesis
      using i(2,4) drop known n len by (simp add: s parse_step_def pf parsed_def del: take_Suc)
  next
    case False
    let ?argv = "argv[u := args ! n, n := argv ! u]"
    have "take (Suc u) ?argv = filter (\<lambda>l. \<not> is_used fl l) (take (Suc n) args)"
      using swap_take [of u n argv] i(1,2) n len False
      by (simp add: line take_Suc_conv_app_nth)
    moreover have "mset ?argv = mset args"
      using mset_swap [of n argv u] i(2,4) n len line by simp
    moreover have "drop (Suc n) ?argv = drop (Suc n) args" using drop i(2) by simp
    ultimately show ?thesis
      using known i(2) n len False pf by (simp add: s parse_step_def line parsed_def)
  qed
qed

lemma parse_loop:
  assumes "\<forall>l\<in>set args. good_line l" "n \<le> length args"
  shows "\<exists>s. fold_res (parse_step strtod) (args, 0, fl) [0..<n] = Inr s \<and> parsed strtod args fl n s"
  using assms(2)
proof (induction n)
  case 0
  then show ?case by (simp add: parsed_def)
next
  case (Suc n)
  then obtain s where s: "fold_res (parse_step strtod) (args, 0, fl) [0..<n] = Inr s"
    "parsed strtod args fl n s" by auto
  have "good_line (args ! n)" using assms(1) Suc.prems by simp
  with parse_step_parsed [OF s(2)] Suc.prems s(1) show ?case
    by (auto simp: fold_res_append)
qed

lemma string_flag_last:
  assumes "\<forall>l\<in>set ls. good_line l" "string_flags fl k = Some (v, d)"
  shows "string_flags (fold (apply_flag strtod) ls fl) k =
    Some (last (v # map value_of (filter (sets_key k) ls)), d)"
  using assms by (induction ls arbitrary: fl v) (auto simp: apply_flag_lookup(1))

lemma int_flag_last:
  assumes "\<forall>l\<in>set ls. good_line l" "string_flags fl k = None" "int_flags fl k = Some (v, d)"
  shows "int_flags (fold (apply_flag strtod) ls fl) k =
    Some (last (v # map (\<lambda>l. projr (atoi (value_of l))) (filter (sets_key k) ls)), d)"
  using assms by (induction ls arbitrary: fl v) (auto simp: apply_flag_lookup(1,2))

lemma bool_flag_last:
  assumes "\<forall>l\<in>set ls. good_line l" "string_flags fl k = None" "int_flags fl k = None"
    "double_flags fl k = None" "bool_flags fl k = Some (v, d)"
  shows "bool_flags (fold (apply_flag strtod) ls fl) k =
    Some (last (v # map (\<lambda>l. map char_tolower (value_of l) = ''true'') (filter (sets_key k) ls)), d)"
  using assms by (induction ls arbitrary: fl v) (auto simp: apply_flag_lookup)

text \<open>A double flag gets what \<open>strtod\<close> makes of the whole argument, not of its value.\<close>

lemma double_flag_reads_line:
  assumes "good_line line" "CHR ''-'' \<in> set line" "string_flags fl (key_of line) = None"
    "int_flags fl (key_of line) = None" "double_flags fl (key_of line) = Some (v, d)"
  shows "double_flags (apply_flag strtod line fl) (key_of line) = Some (strtod line, d)"
  using assms(1)
proof (cases rule: good_line_cases)
  case (2 n)
  then show ?thesis using assms(2-) by (simp add: apply_flag_def parse_flag_cases Let_def)
qed (use assms in simp)

text \<open>C23. Parsing a command line whose arguments with a dash all have the form \<open>-key=value\<close>, with values
  that \<open>atoi\<close> can read without overflow where they are numbers:
  the arguments that set no flag come first, in their order and counted by the new \<open>argc\<close>, and
  no argument is lost; every string, int and bool flag has the value of the last argument that
  sets it, or keeps its own, and its description.\<close>

theorem ParseCMDFlags_correct:
  assumes "\<forall>l\<in>set args. good_line l"
  shows "case ParseCMDFlags strtod args fl of Inl e \<Rightarrow> False
    | Inr (argv, argc, fl') \<Rightarrow>
        take argc argv = filter (\<lambda>l. \<not> is_used fl l) args \<and> mset argv = mset args \<and>
        (\<forall>k v d. string_flags fl k = Some (v, d) \<longrightarrow>
          string_flags fl' k = Some (last (v # map value_of (filter (sets_key k) args)), d)) \<and>
        (\<forall>k v d. string_flags fl k = None \<and> int_flags fl k = Some (v, d) \<longrightarrow>
          int_flags fl' k = Some (last (v # map (\<lambda>l. projr (atoi (value_of l))) (filter (sets_key k) args)), d)) \<and>
        (\<forall>k v d. string_flags fl k = None \<and> int_flags fl k = None \<and> double_flags fl k = None \<and>
            bool_flags fl k = Some (v, d) \<longrightarrow>
          bool_flags fl' k = Some (last (v # map (\<lambda>l. map char_tolower (value_of l) = ''true'')
            (filter (sets_key k) args)), d))"
proof -
  obtain argv argc where "ParseCMDFlags strtod args fl = Inr (argv, argc, fold (apply_flag strtod) args fl)"
    "take argc argv = filter (\<lambda>l. \<not> is_used fl l) args" "mset argv = mset args"
    using parse_loop [OF assms order.refl, of strtod fl] by (auto simp: ParseCMDFlags_def parsed_def)
  then show ?thesis
    using assms by (simp add: string_flag_last int_flag_last bool_flag_last)
qed

definition example_flags :: "nat flags" where
  "example_flags = \<lparr>string_flags = [''net_type'' \<mapsto> (''zmq'', ''use zmq by default'')],
     int_flags = [''port'' \<mapsto> (55555, ''port'')], double_flags = Map.empty,
     bool_flags = [''ma'' \<mapsto> (False, ''model average'')]\<rparr>"

theorem ParseCMDFlags_correct_example:
  "case ParseCMDFlags length [''run'', ''-port=80'', ''x'', ''-ma=True'', ''-port=-7''] example_flags of Inl e \<Rightarrow> False
    | Inr (argv, argc, fl') \<Rightarrow> take argc argv = [''run'', ''x''] \<and> int_flags fl' ''port'' = Some (-7, ''port'') \<and>
        bool_flags fl' ''ma'' = Some (True, ''model average'')"
proof -
  let ?args = "[''run'', ''-port=80'', ''x'', ''-ma=True'', ''-port=-7'']"
  have good: "\<forall>l\<in>set ?args. good_line l" by code_simp
  have "filter (\<lambda>l. \<not> is_used example_flags l) ?args = [''run'', ''x'']"
    "map (\<lambda>l. projr (atoi (value_of l))) (filter (sets_key ''port'') ?args) = [80, -7]"
    "map (\<lambda>l. map char_tolower (value_of l) = ''true'') (filter (sets_key ''ma'') ?args) = [True]"
    by code_simp+
  note spec = this
  have "string_flags example_flags ''port'' = None" "string_flags example_flags ''ma'' = None"
    "int_flags example_flags ''ma'' = None" "double_flags example_flags ''ma'' = None"
    "int_flags example_flags ''port'' = Some (55555, ''port'')"
    "bool_flags example_flags ''ma'' = Some (False, ''model average'')"
    by (simp_all add: example_flags_def)
  note dflt = this
  note P = ParseCMDFlags_correct [OF good, where strtod = length and fl = example_flags]
  show ?thesis
  proof (cases "ParseCMDFlags length ?args example_flags")
    case (Inl e)
    with P show ?thesis by (simp del: filter.simps)
  next
    case (Inr r)
    obtain argv argc fl' where r: "r = (argv, argc, fl')" by (cases r) auto
    note P' = P [unfolded Inr r sum.case prod.case]
    have "take argc argv = [''run'', ''x'']" using P' spec(1) by simp
    moreover have "int_flags fl' ''port'' = Some (last (55555 # [80, -7]), ''port'')"
      using P' dflt unfolding spec(2) [symmetric] by blast
    moreover have "bool_flags fl' ''ma'' = Some (last (False # [True]), ''model average'')"
      using P' dflt unfolding spec(3) [symmetric] by blast
    ultimately show ?thesis by (simp add: Inr r)
  qed
qed

text \<open>A dash anywhere makes an argument a flag: a file name with one, and no \<open>=\<close>, ends the
  process.\<close>

lemma dash_ends_process: "ParseCMDFlags strtod [''run'', ''my-data.txt''] fl = Inl Check"
  by (simp add: ParseCMDFlags_def parse_step_def parse_flag_def upt_rec vec_at_def in_range_def)

end
