(* ===== verification/Logging.thy ===== *)
theory Logging
  imports Bytes
begin

text \<open>
  The log: src/hpps/common/log.h, log.cc, and the two calls of src/hpps/api/c_api_zoo.cc that set
  it up. A message is its text after \<open>vprintf\<close> formatted it; \<open>now\<close> is the formatted time and
  \<open>can_create\<close> says for which names \<open>fopen\<close> can create a file. A level is an \<open>int\<close>, since
  \<open>HPPS_ZooSetLogLevel\<close> casts any number to one. Every operation returns the new state and
  whether it ended the process with \<open>exit(1)\<close>.

  This is where the errors \<open>Check\<close>, \<open>NotNull\<close> and \<open>Fatal\<close> of the other theories come from: they
  end the process as long as \<open>ResetKillFatal(false)\<close> was not called and the level is at most
  \<open>Fatal\<close>.
\<close>

section \<open>State\<close>

datatype log_level = Level_Debug | Level_Info | Level_Error | Level_Fatal

fun level_code :: "log_level \<Rightarrow> i32" where
  "level_code Level_Debug = 0"
| "level_code Level_Info = 1"
| "level_code Level_Error = 2"
| "level_code Level_Fatal = 3"

record logger =
  lg_file :: "string option"
  lg_level :: i32
  is_kill_fatal :: bool

record log_io =
  std_out :: "string list"
  std_err :: "string list"
  log_files :: "string \<Rightarrow> string list option"

type_synonym log_state = "logger \<times> log_io"

definition Logger_new :: "i32 \<Rightarrow> logger" where
  "Logger_new level = \<lparr>lg_file = None, lg_level = level, is_kill_fatal = True\<rparr>"

definition GetLevelStr :: "i32 \<Rightarrow> string" where
  "GetLevelStr level =
     (if level = level_code Level_Debug then ''DEBUG''
      else if level = level_code Level_Info then ''INFO''
      else if level = level_code Level_Error then ''ERROR''
      else if level = level_code Level_Fatal then ''FATAL'' else ''UNKNOW'')"

definition log_line :: "string \<Rightarrow> i32 \<Rightarrow> string \<Rightarrow> string" where
  "log_line now level msg = ''['' @ GetLevelStr level @ ''] ['' @ now @ ''] '' @ msg"

definition CloseLogFile :: "logger \<Rightarrow> logger" where
  "CloseLogFile lg = lg\<lparr>lg_file := None\<rparr>"

definition put_std :: "bool \<Rightarrow> string \<Rightarrow> log_io \<Rightarrow> log_io" where
  \<comment> \<open>to the stream that the flag \<open>logtostderr\<close> selects\<close>
  "put_std to_stderr line io =
     (if to_stderr then io\<lparr>std_err := std_err io @ [line]\<rparr> else io\<lparr>std_out := std_out io @ [line]\<rparr>)"

definition put_file :: "string option \<Rightarrow> string \<Rightarrow> log_io \<Rightarrow> log_io" where
  "put_file f line io =
     (case f of None \<Rightarrow> io
      | Some name \<Rightarrow> io\<lparr>log_files := (log_files io)
          (name := map_option (\<lambda>ls. ls @ [line]) (log_files io name))\<rparr>)"

definition WriteImpl :: "bool \<Rightarrow> string \<Rightarrow> i32 \<Rightarrow> string \<Rightarrow> log_state \<Rightarrow> log_state \<times> bool" where
  "WriteImpl to_stderr now level msg = (\<lambda>(lg, io).
     if sint level \<ge> sint (lg_level lg) then
       (let line = log_line now level msg;
            io1 = put_file (lg_file lg) line (put_std to_stderr line io)
        in if is_kill_fatal lg \<and> level = level_code Level_Fatal
           then ((CloseLogFile lg, io1), True) else ((lg, io1), False))
     else ((lg, io), False))"

definition ResetLogFile :: "(string \<Rightarrow> bool) \<Rightarrow> bool \<Rightarrow> string \<Rightarrow> string \<Rightarrow> log_state \<Rightarrow> log_state \<times> bool \<times> int" where
  \<comment> \<open>the last component is the returned value\<close>
  "ResetLogFile can_create to_stderr now name = (\<lambda>(lg, io).
     let lg1 = CloseLogFile lg in
     if name = '''' then ((lg1, io), False, 0)
     else if can_create name
       then ((lg1\<lparr>lg_file := Some name\<rparr>, io\<lparr>log_files := (log_files io)(name \<mapsto> [])\<rparr>), False, 0)
     else (let (s, exited) = WriteImpl to_stderr now (level_code Level_Error)
             (''Cannot create log file '' @ name @ [char_of (10 :: nat)]) (lg1, io)
           in (s, exited, -1)))"

definition Logger_new_file ::
    "(string \<Rightarrow> bool) \<Rightarrow> bool \<Rightarrow> string \<Rightarrow> bool \<Rightarrow> string \<Rightarrow> i32 \<Rightarrow> log_io \<Rightarrow> log_state \<times> bool" where
  \<comment> \<open>the constructor with a file name leaves \<open>is_kill_fatal_\<close> as the memory was, \<open>junk\<close>\<close>
  "Logger_new_file can_create to_stderr now junk name level io =
     (let (s, exited, _) = ResetLogFile can_create to_stderr now name
        (\<lparr>lg_file = None, lg_level = level, is_kill_fatal = junk\<rparr>, io) in (s, exited))"

definition ResetLogLevel :: "i32 \<Rightarrow> log_state \<Rightarrow> log_state" where
  "ResetLogLevel level = (\<lambda>(lg, io). (lg\<lparr>lg_level := level\<rparr>, io))"

definition ResetKillFatal :: "bool \<Rightarrow> log_state \<Rightarrow> log_state" where
  "ResetKillFatal b = (\<lambda>(lg, io). (lg\<lparr>is_kill_fatal := b\<rparr>, io))"

definition log_Debug :: "bool \<Rightarrow> string \<Rightarrow> string \<Rightarrow> log_state \<Rightarrow> log_state \<times> bool" where
  "log_Debug to_stderr now msg s = WriteImpl to_stderr now (level_code Level_Debug) msg s"

definition log_Info :: "bool \<Rightarrow> string \<Rightarrow> string \<Rightarrow> log_state \<Rightarrow> log_state \<times> bool" where
  "log_Info to_stderr now msg s = WriteImpl to_stderr now (level_code Level_Info) msg s"

definition log_Error :: "bool \<Rightarrow> string \<Rightarrow> string \<Rightarrow> log_state \<Rightarrow> log_state \<times> bool" where
  "log_Error to_stderr now msg s = WriteImpl to_stderr now (level_code Level_Error) msg s"

definition log_Fatal :: "bool \<Rightarrow> string \<Rightarrow> string \<Rightarrow> log_state \<Rightarrow> log_state \<times> bool" where
  "log_Fatal to_stderr now msg s = WriteImpl to_stderr now (level_code Level_Fatal) msg s"

definition macro_CHECK :: "bool \<Rightarrow> string \<Rightarrow> string \<Rightarrow> bool \<Rightarrow> log_state \<Rightarrow> log_state \<times> bool" where
  \<comment> \<open>\<open>loc\<close>: the text of the condition, the file and the line\<close>
  "macro_CHECK to_stderr now loc c s =
     (if c then (s, False) else log_Fatal to_stderr now (''Check failed: '' @ loc) s)"

definition macro_CHECK_NOTNULL :: "bool \<Rightarrow> string \<Rightarrow> string \<Rightarrow> 'a option \<Rightarrow> log_state \<Rightarrow> log_state \<times> bool" where
  "macro_CHECK_NOTNULL to_stderr now name p s =
     (if p = None then log_Fatal to_stderr now (name @ '' Can't be NULL'') s else (s, False))"

definition HPPS_ZooSetLogLevel :: "i32 \<Rightarrow> log_state \<Rightarrow> log_state" where
  "HPPS_ZooSetLogLevel level s = ResetLogLevel level s"

definition HPPS_ZooSetLogFile :: "(string \<Rightarrow> bool) \<Rightarrow> bool \<Rightarrow> string \<Rightarrow> string \<Rightarrow> log_state \<Rightarrow> log_state \<times> bool" where
  \<comment> \<open>the result of \<open>ResetLogFile\<close> is ignored\<close>
  "HPPS_ZooSetLogFile can_create to_stderr now path s =
     (let (s1, exited, _) = ResetLogFile can_create to_stderr now path s in (s1, exited))"

section \<open>A sequence of messages\<close>

fun log_all :: "bool \<Rightarrow> (string \<times> i32 \<times> string) list \<Rightarrow> log_state \<Rightarrow> log_state \<times> bool" where
  \<comment> \<open>messages with their times, one after the other as long as the process runs\<close>
  "log_all to_stderr [] s = (s, False)"
| "log_all to_stderr ((now, level, msg) # ms) s =
     (let (s1, exited) = WriteImpl to_stderr now level msg s in
      if exited then (s1, True) else log_all to_stderr ms s1)"

definition shown :: "logger \<Rightarrow> string \<times> i32 \<times> string \<Rightarrow> bool" where
  "shown lg = (\<lambda>(now, level, msg). sint level \<ge> sint (lg_level lg))"

definition deadly :: "logger \<Rightarrow> string \<times> i32 \<times> string \<Rightarrow> bool" where
  "deadly lg m \<longleftrightarrow> shown lg m \<and> is_kill_fatal lg \<and> fst (snd m) = level_code Level_Fatal"

fun until_deadly :: "logger \<Rightarrow> (string \<times> i32 \<times> string) list \<Rightarrow> (string \<times> i32 \<times> string) list" where
  "until_deadly lg [] = []"
| "until_deadly lg (m # ms) = (if deadly lg m then [m] else m # until_deadly lg ms)"

definition lines_of :: "logger \<Rightarrow> (string \<times> i32 \<times> string) list \<Rightarrow> string list" where
  "lines_of lg ms = map (\<lambda>(now, level, msg). log_line now level msg) (filter (shown lg) (until_deadly lg ms))"

lemma log_all_lines:
  assumes "lg_file lg = Some f" "log_files io f = Some ls"
  shows "\<exists>lg' io'. log_all to_stderr ms (lg, io) = ((lg', io'), \<exists>m\<in>set ms. deadly lg m) \<and>
    log_files io' f = Some (ls @ lines_of lg ms) \<and> (\<forall>g. g \<noteq> f \<longrightarrow> log_files io' g = log_files io g) \<and>
    std_out io' = std_out io @ (if to_stderr then [] else lines_of lg ms) \<and>
    std_err io' = std_err io @ (if to_stderr then lines_of lg ms else [])"
  using assms
proof (induction ms arbitrary: io ls)
  case Nil
  then show ?case by (simp add: lines_of_def)
next
  case (Cons m ms)
  obtain now level msg where m: "m = (now, level, msg)" by (cases m) auto
  let ?line = "log_line now level msg"
  let ?io = "put_file (Some f) ?line (put_std to_stderr ?line io)"
  have io: "log_files ?io f = Some (ls @ [?line])" "g \<noteq> f \<Longrightarrow> log_files ?io g = log_files io g"
    "std_out ?io = std_out io @ (if to_stderr then [] else [?line])"
    "std_err ?io = std_err io @ (if to_stderr then [?line] else [])" for g
    using Cons.prems by (auto simp: put_file_def put_std_def)
  show ?case
  proof (cases "shown lg m")
    case True
    show ?thesis
    proof (cases "deadly lg m")
      case d: True
      then show ?thesis
        using True io Cons.prems
        by (auto simp: m WriteImpl_def shown_def deadly_def lines_of_def Let_def)
    next
      case False
      have step: "WriteImpl to_stderr now level msg (lg, io) = ((lg, ?io), False)"
        using True False Cons.prems by (auto simp: m WriteImpl_def shown_def deadly_def Let_def)
      show ?thesis
        using Cons.IH [OF Cons.prems(1) io(1)] True False io
        by (fastforce simp: m step lines_of_def)
    qed
  next
    case False
    then have step: "WriteImpl to_stderr now level msg (lg, io) = ((lg, io), False)" "\<not> deadly lg m"
      by (auto simp: m WriteImpl_def shown_def deadly_def)
    then show ?thesis
      using Cons.IH [OF Cons.prems] False by (auto simp: m lines_of_def)
  qed
qed

text \<open>After \<open>ResetLogFile\<close> opened a file, a sequence of messages puts exactly the lines of the
  messages at or above the level, in order, into the file and into standard output (or standard
  error, with the flag), and touches no other file; the process ends at the first fatal message
  that is shown while \<open>is_kill_fatal_\<close> is set, with that message written, and only then.\<close>

theorem log_lines_written:
  assumes "can_create f" "f \<noteq> ''''"
    and "ResetLogFile can_create to_stderr now f (lg, io) = ((lg1, io1), exited, rc)"
    and "log_all to_stderr ms (lg1, io1) = ((lg', io'), ended)"
  shows "\<not> exited \<and> rc = 0 \<and> log_files io' f = Some (lines_of lg ms) \<and>
    (\<forall>g. g \<noteq> f \<longrightarrow> log_files io' g = log_files io g) \<and>
    std_out io' = std_out io @ (if to_stderr then [] else lines_of lg ms) \<and>
    std_err io' = std_err io @ (if to_stderr then lines_of lg ms else []) \<and>
    (ended \<longleftrightarrow> (\<exists>m\<in>set ms. deadly lg m))"
proof -
  have s: "lg1 = lg\<lparr>lg_file := Some f\<rparr>" "io1 = io\<lparr>log_files := (log_files io)(f \<mapsto> [])\<rparr>" "\<not> exited" "rc = 0"
    using assms(1-3) by (auto simp: ResetLogFile_def CloseLogFile_def Let_def)
  have shown: "shown lg1 m = shown lg m" "deadly lg1 m = deadly lg m" for m
    by (simp_all add: s shown_def deadly_def)
  have until: "until_deadly lg1 ms = until_deadly lg ms" for ms
    by (induction ms) (simp_all add: shown)
  have "lines_of lg1 ms = lines_of lg ms"
    unfolding lines_of_def until using shown(1) by presburger
  then show ?thesis
    using log_all_lines [of lg1 f io1 "[]" to_stderr ms] assms(4) s shown by auto
qed

definition example_io :: log_io where
  "example_io = \<lparr>std_out = [], std_err = [], log_files = Map.empty\<rparr>"

theorem log_lines_written_example:
  "\<exists>lg' io'. log_all False [(''t0'', 0, ''a''), (''t1'', 1, ''b''), (''t2'', 3, ''c''), (''t3'', 1, ''d'')]
      (fst (ResetLogFile (\<lambda>_. True) False ''t'' ''log'' (Logger_new 1, example_io))) = ((lg', io'), True) \<and>
    log_files io' ''log'' = Some [''[INFO] [t1] b'', ''[FATAL] [t2] c'']"
proof -
  let ?ms = "[(''t0'', 0, ''a''), (''t1'', 1, ''b''), (''t2'', 3, ''c''), (''t3'', 1, ''d'')] :: (string \<times> i32 \<times> string) list"
  let ?R = "ResetLogFile (\<lambda>_. True) False ''t'' ''log'' (Logger_new 1, example_io)"
  obtain lg1 io1 exited rc where R: "?R = ((lg1, io1), exited, rc)" by (metis prod.exhaust)
  obtain lg' io' ended where L: "log_all False ?ms (lg1, io1) = ((lg', io'), ended)" by (metis prod.exhaust)
  have "lines_of (Logger_new 1) ?ms = [''[INFO] [t1] b'', ''[FATAL] [t2] c'']"
    "\<exists>m\<in>set ?ms. deadly (Logger_new 1) m"
    by code_simp+
  with log_lines_written [OF _ _ R L] L R show ?thesis by (auto simp del: log_all.simps)
qed

text \<open>A failing \<open>CHECK\<close> with the initial settings ends the process; after
  \<open>HPPS_ZooSetLogLevel(4)\<close> it prints nothing and execution goes on.\<close>

lemma check_ends_process:
  "snd (macro_CHECK to_stderr now loc c (lg, io)) \<longleftrightarrow>
    \<not> c \<and> is_kill_fatal lg \<and> sint (lg_level lg) \<le> 3"
  by (auto simp: macro_CHECK_def log_Fatal_def WriteImpl_def Let_def)

lemma check_disarmed:
  "macro_CHECK to_stderr now loc False (HPPS_ZooSetLogLevel 4 s) = (HPPS_ZooSetLogLevel 4 s, False)"
  by (auto simp: macro_CHECK_def log_Fatal_def WriteImpl_def HPPS_ZooSetLogLevel_def ResetLogLevel_def
      split: prod.splits)

end
