(* ===== verification/ActorThreads.thy ===== *)
theory ActorThreads
  imports Actors
begin

text \<open>
  The threads of an actor, from \<open>Start\<close> to \<open>Stop\<close>: src/hpps/frame/actor.cc. \<open>Start\<close> creates
  the threads that run \<open>Main\<close> and waits until one of them has set \<open>is_working_\<close>; \<open>Stop\<close> waits
  until the mailbox is empty, clears the flag, makes the mailbox exit and joins the threads.
  A state is the actor, the place each of its threads has reached and the place of the thread
  that starts and stops it; a step is what one thread does between two points where another
  can interfere. The mailbox is the queue of SafeQueue, so a step on it is one of its operations.
  A handler is one step to begin and one to end, and is assumed to return.
\<close>

section \<open>States and steps\<close>

datatype thread =
    Created                      \<comment> \<open>\<open>Main\<close> has not run yet\<close>
  | Waiting                      \<comment> \<open>at \<open>mailbox_->Pop(msg)\<close>\<close>
  | Handling handler message
  | Returned                     \<comment> \<open>\<open>Pop\<close> was false\<close>

datatype phase =
    Constructed
  | Starting                     \<comment> \<open>in \<open>Start\<close>, at \<open>while (!is_working_)\<close>\<close>
  | Running                      \<comment> \<open>\<open>Start\<close> returned\<close>
  | Draining                     \<comment> \<open>in \<open>Stop\<close>, at \<open>while (!mailbox_->Empty())\<close>\<close>
  | Cleared                      \<comment> \<open>behind \<open>is_working_ = false\<close>\<close>
  | Joining                      \<comment> \<open>behind \<open>mailbox_->Exit()\<close>\<close>
  | Stopped                      \<comment> \<open>\<open>Stop\<close> returned\<close>
  | Killed                       \<comment> \<open>\<open>LOG_FATAL\<close> ended the process\<close>

record actor =
  handlers_of :: handlers
  thread_num :: nat
  mail :: "message queue"
  is_working :: bool
  threads :: "thread list"
  phase :: phase
  received :: "message list"               \<comment> \<open>everything that was pushed, in order\<close>
  handled :: "(handler \<times> message) list"    \<comment> \<open>the calls of handlers that have returned\<close>

definition new_actor :: "handlers \<Rightarrow> nat \<Rightarrow> actor" where
  "new_actor hs n = \<lparr>handlers_of = hs, thread_num = n, mail = empty_queue, is_working = False,
     threads = [], phase = Constructed, received = [], handled = []\<rparr>"

definition actor_Receive :: "message \<Rightarrow> actor \<Rightarrow> actor" where
  "actor_Receive m a = a\<lparr>mail := queue_Push m (mail a), received := received a @ [m]\<rparr>"

definition actor_Start :: "actor \<Rightarrow> actor" where
  \<comment> \<open>up to the loop that waits for \<open>is_working_\<close>\<close>
  "actor_Start a = a\<lparr>threads := replicate (thread_num a) Created, phase := Starting\<rparr>"

definition stop_step :: "actor \<Rightarrow> actor option" where
  \<comment> \<open>the thread that called \<open>Start\<close> or \<open>Stop\<close>; \<open>None\<close> when it has to wait or is outside\<close>
  "stop_step a = (case phase a of
       Starting \<Rightarrow> if is_working a then Some (a\<lparr>phase := Running\<rparr>) else None
     | Draining \<Rightarrow> if queue_Empty (mail a) then Some (a\<lparr>is_working := False, phase := Cleared\<rparr>) else None
     | Cleared \<Rightarrow> Some (a\<lparr>mail := queue_Exit (mail a), phase := Joining\<rparr>)
     | Joining \<Rightarrow> if list_all (\<lambda>t. t = Returned) (threads a) then Some (a\<lparr>phase := Stopped\<rparr>) else None
     | _ \<Rightarrow> None)"

definition actor_Stop :: "actor \<Rightarrow> actor" where
  "actor_Stop a = a\<lparr>phase := Draining\<rparr>"

definition set_thread :: "nat \<Rightarrow> thread \<Rightarrow> actor \<Rightarrow> actor" where
  "set_thread i t a = a\<lparr>threads := (threads a)[i := t]\<rparr>"

definition main_step :: "nat \<Rightarrow> actor \<Rightarrow> actor option" where
  \<comment> \<open>the \<open>i\<close>-th thread in \<open>Actor::Main\<close>\<close>
  "main_step i a = (if i \<ge> length (threads a) then None else case threads a ! i of
       Created \<Rightarrow> Some (set_thread i Waiting a\<lparr>is_working := True\<rparr>)
     | Waiting \<Rightarrow> (case queue_Pop (mail a) of
           Blocks \<Rightarrow> None
         | PopFalse \<Rightarrow> Some (set_thread i Returned a)
         | Popped m q \<Rightarrow> (case actor_dispatch (handlers_of a) m of
               Inl _ \<Rightarrow> Some (a\<lparr>mail := q, phase := Killed\<rparr>)
             | Inr h \<Rightarrow> Some (set_thread i (Handling h m) a\<lparr>mail := q\<rparr>)))
     | Handling h m \<Rightarrow> Some (set_thread i Waiting a\<lparr>handled := handled a @ [(h, m)]\<rparr>)
     | Returned \<Rightarrow> None)"

inductive own_step :: "actor \<Rightarrow> actor \<Rightarrow> bool" where
  caller: "stop_step a = Some a' \<Longrightarrow> own_step a a'"
| thread: "phase a \<noteq> Killed \<Longrightarrow> main_step i a = Some a' \<Longrightarrow> own_step a a'"

text \<open>The life of an actor: what others do to it, and its own steps.\<close>

inductive life :: "handlers \<Rightarrow> nat \<Rightarrow> actor \<Rightarrow> bool" for hs n where
  construct: "life hs n (new_actor hs n)"
| start: "life hs n a \<Longrightarrow> phase a = Constructed \<Longrightarrow> life hs n (actor_Start a)"
| receive: "life hs n a \<Longrightarrow> life hs n (actor_Receive m a)"
| stop: "life hs n a \<Longrightarrow> phase a = Running \<Longrightarrow> life hs n (actor_Stop a)"
| own: "life hs n a \<Longrightarrow> own_step a a' \<Longrightarrow> life hs n a'"

inductive_cases own_stepE: "own_step a a'"

section \<open>Nothing is lost before the actor stops\<close>

fun busy_of :: "thread \<Rightarrow> message list" where
  "busy_of (Handling h m) = [m]"
| "busy_of _ = []"

definition busy :: "thread list \<Rightarrow> message multiset" where
  "busy ts = sum_list (map (\<lambda>t. mset (busy_of t)) ts)"

fun handles_rightly :: "handlers \<Rightarrow> thread \<Rightarrow> bool" where
  "handles_rightly hs (Handling h m) \<longleftrightarrow> actor_dispatch hs m = Inr h"
| "handles_rightly hs _ \<longleftrightarrow> True"

lemma sum_list_set_thread:
  fixes f :: "thread \<Rightarrow> 'a::ab_semigroup_add"
  assumes "i < length ts"
  shows "sum_list (map g (ts[i := t])) + g (ts ! i) = sum_list (map g ts) + (g t :: 'b::comm_monoid_add)"
  using assms
proof (induction ts arbitrary: i)
  case Nil
  then show ?case by simp
next
  case (Cons x ts)
  show ?case
  proof (cases i)
    case 0
    then show ?thesis by (simp add: ac_simps)
  next
    case (Suc j)
    then have "sum_list (map g (ts[j := t])) + g (ts ! j) = sum_list (map g ts) + g t"
      using Cons by simp
    with Suc show ?thesis by (simp add: add.assoc)
  qed
qed

lemma busy_set_thread:
  "i < length ts \<Longrightarrow> busy (ts[i := t]) + mset (busy_of (ts ! i)) = busy ts + mset (busy_of t)"
  unfolding busy_def by (rule sum_list_set_thread)

lemma busy_Created [simp]: "busy (replicate k Created) = {#}" "busy [] = {#}"
  by (induction k) (simp_all add: busy_def)

lemma multiset_shuffle:
  fixes x :: "'a multiset"
  assumes "x + t + b = y + s + c" and "u + s = v + t"
  shows "x + u + b = y + v + c"
proof -
  have "(x + u + b) + s = (x + t + b) + v" using assms(2) by (metis add.assoc add.commute)
  also have "\<dots> = (y + v + c) + s" using assms(1) by (metis add.assoc add.commute)
  finally show ?thesis by simp
qed

text \<open>What holds at every moment of an actor's life, except behind a fatal message.\<close>

definition life_inv :: "handlers \<Rightarrow> nat \<Rightarrow> actor \<Rightarrow> bool" where
  "life_inv hs n a \<longleftrightarrow> handlers_of a = hs \<and> thread_num a = n
     \<and> (if phase a = Constructed then threads a = [] else length (threads a) = n)
     \<and> (is_working a \<or> phase a \<in> {Running, Draining, Cleared, Joining, Stopped} \<longrightarrow> 0 < n)
     \<and> (exited (mail a) \<longleftrightarrow> phase a \<in> {Joining, Stopped})
     \<and> (Returned \<in> set (threads a) \<longrightarrow> exited (mail a))
     \<and> (phase a = Stopped \<longrightarrow> set (threads a) \<subseteq> {Returned})
     \<and> mset (received a) = mset (map snd (handled a)) + busy (threads a) + mset (buffer (mail a))
     \<and> (n = 1 \<longrightarrow> received a = map snd (handled a) @ concat (map busy_of (threads a)) @ buffer (mail a))
     \<and> (\<forall>t \<in> set (threads a). handles_rightly hs t)
     \<and> (\<forall>(h, m) \<in> set (handled a). actor_dispatch hs m = Inr h)"

lemma life_invD:
  assumes "life_inv hs n a"
  shows "handlers_of a = hs"
    and "phase a \<noteq> Constructed \<Longrightarrow> length (threads a) = n"
    and "phase a \<in> {Running, Draining, Cleared, Joining, Stopped} \<Longrightarrow> 0 < n"
    and "exited (mail a) \<longleftrightarrow> phase a \<in> {Joining, Stopped}"
    and "phase a = Stopped \<Longrightarrow> set (threads a) \<subseteq> {Returned}"
    and "mset (received a) = mset (map snd (handled a)) + busy (threads a) + mset (buffer (mail a))"
    and "n = 1 \<Longrightarrow> received a = map snd (handled a) @ concat (map busy_of (threads a)) @ buffer (mail a)"
    and "\<forall>(h, m) \<in> set (handled a). actor_dispatch hs m = Inr h"
  using assms [unfolded life_inv_def] by (elim conjE; simp)+

lemma life_inv_new: "life_inv hs n (new_actor hs n)"
  by (simp add: life_inv_def new_actor_def busy_def)

lemma life_inv_start: "life_inv hs n a \<Longrightarrow> phase a = Constructed \<Longrightarrow> life_inv hs n (actor_Start a)"
  by (auto simp: life_inv_def actor_Start_def)

lemma life_inv_receive: "life_inv hs n a \<Longrightarrow> life_inv hs n (actor_Receive m a)"
  by (auto simp: life_inv_def actor_Receive_def)

lemma life_inv_stop: "life_inv hs n a \<Longrightarrow> phase a = Running \<Longrightarrow> life_inv hs n (actor_Stop a)"
  by (auto simp: life_inv_def actor_Stop_def)

lemma stop_step_Some:
  "stop_step a = Some a' \<longleftrightarrow>
     (phase a = Starting \<and> is_working a \<and> a' = a\<lparr>phase := Running\<rparr>)
   \<or> (phase a = Draining \<and> buffer (mail a) = [] \<and> a' = a\<lparr>is_working := False, phase := Cleared\<rparr>)
   \<or> (phase a = Cleared \<and> a' = a\<lparr>mail := queue_Exit (mail a), phase := Joining\<rparr>)
   \<or> (phase a = Joining \<and> set (threads a) \<subseteq> {Returned} \<and> a' = a\<lparr>phase := Stopped\<rparr>)"
  by (cases "phase a") (auto simp: stop_step_def list_all_iff)

lemma life_inv_stop_step: "life_inv hs n a \<Longrightarrow> stop_step a = Some a' \<Longrightarrow> life_inv hs n a'"
  unfolding stop_step_Some by (elim disjE conjE) (simp_all add: life_inv_def, blast+)

lemma Pop_simps:
  "queue_Pop q = PopFalse \<longleftrightarrow> buffer q = [] \<and> exited q"
  "queue_Pop q = Blocks \<longleftrightarrow> buffer q = [] \<and> \<not> exited q"
  by (cases "buffer q"; simp add: queue_Pop_def)+

lemma Pop_Popped: "queue_Pop q = Popped m q' \<Longrightarrow> buffer q = m # buffer q' \<and> exited q' = exited q"
  by (cases "buffer q") (auto simp: queue_Pop_def split: if_splits)

lemma main_stepE:
  assumes "main_step i a = Some a'"
  obtains (start) "i < length (threads a)" "threads a ! i = Created" "a' = set_thread i Waiting a\<lparr>is_working := True\<rparr>"
  | (return) "i < length (threads a)" "threads a ! i = Waiting" "buffer (mail a) = []" "exited (mail a)"
      "a' = set_thread i Returned a"
  | (fatal) m q e where "i < length (threads a)" "threads a ! i = Waiting" "buffer (mail a) = m # buffer q"
      "actor_dispatch (handlers_of a) m = Inl e" "a' = a\<lparr>mail := q, phase := Killed\<rparr>"
  | (pop) m q h where "i < length (threads a)" "threads a ! i = Waiting" "buffer (mail a) = m # buffer q"
      "exited q = exited (mail a)" "actor_dispatch (handlers_of a) m = Inr h"
      "a' = set_thread i (Handling h m) a\<lparr>mail := q\<rparr>"
  | (finish) h m where "i < length (threads a)" "threads a ! i = Handling h m"
      "a' = set_thread i Waiting a\<lparr>handled := handled a @ [(h, m)]\<rparr>"
proof (cases "i < length (threads a)")
  case False
  with assms show ?thesis by (simp add: main_step_def)
next
  case i: True
  show ?thesis
  proof (cases "threads a ! i")
    case Created
    with i assms show ?thesis by (intro start) (simp_all add: main_step_def)
  next
    case Waiting
    show ?thesis
    proof (cases "queue_Pop (mail a)")
      case Blocks
      with i Waiting assms show ?thesis by (simp add: main_step_def)
    next
      case PopFalse
      with i Waiting assms show ?thesis by (intro return) (simp_all add: main_step_def Pop_simps)
    next
      case (Popped m q)
      show ?thesis
      proof (cases "actor_dispatch (handlers_of a) m")
        case (Inl e)
        with i Waiting Popped assms show ?thesis
          by (intro fatal [of m q e]) (simp_all add: main_step_def Pop_Popped)
      next
        case (Inr h)
        with i Waiting Popped assms show ?thesis
          by (intro pop [of m q h]) (simp_all add: main_step_def Pop_Popped)
      qed
    qed
  next
    case (Handling h m)
    with i assms show ?thesis by (intro finish [of h m]) (simp_all add: main_step_def)
  next
    case Returned
    with i assms show ?thesis by (simp add: main_step_def)
  qed
qed

text \<open>A step of one thread, seen from the rest of the actor.\<close>

lemma life_inv_set_thread:
  assumes inv: "life_inv hs n a" and i: "i < length (threads a)"
    and ph: "phase a' = phase a" and t: "threads a' = (threads a)[i := t]" "handles_rightly hs t"
    and eq: "handlers_of a' = handlers_of a" "thread_num a' = thread_num a" "received a' = received a"
    and q: "exited (mail a') = exited (mail a)" "t = Returned \<Longrightarrow> exited (mail a)"
    and st: "phase a = Stopped \<Longrightarrow> t = Returned"
    and out: "\<forall>(h, m) \<in> set (handled a'). actor_dispatch hs m = Inr h"
    and ms: "map snd (handled a') @ busy_of t @ buffer (mail a') =
      map snd (handled a) @ busy_of (threads a ! i) @ buffer (mail a)"
  shows "life_inv hs n a'"
proof -
  note inv' = inv [unfolded life_inv_def]
  have len: "length (threads a) = n" "phase a \<noteq> Constructed"
    using inv' i by (cases "phase a = Constructed"; simp)+
  have sub: "set (threads a') \<subseteq> insert t (set (threads a))"
    unfolding t(1) by (rule set_update_subset_insert)
  have "mset (map snd (handled a')) + mset (busy_of t) + mset (buffer (mail a')) =
      mset (map snd (handled a)) + mset (busy_of (threads a ! i)) + mset (buffer (mail a))"
    using arg_cong [OF ms, of mset] by (simp add: add.assoc)
  moreover have "busy (threads a') + mset (busy_of (threads a ! i)) = busy (threads a) + mset (busy_of t)"
    using busy_set_thread [OF i, of t] t(1) by simp
  ultimately have sum_eq: "mset (map snd (handled a')) + busy (threads a') + mset (buffer (mail a')) =
      mset (map snd (handled a)) + busy (threads a) + mset (buffer (mail a))"
    by (rule multiset_shuffle)
  have "n = 1 \<longrightarrow> received a = map snd (handled a') @ concat (map busy_of (threads a')) @ buffer (mail a')"
  proof
    assume that: "n = 1"
    with len i obtain s where s: "threads a = [s]" "i = 0" by (cases "threads a") auto
    have "received a = map snd (handled a) @ busy_of (threads a ! i) @ buffer (mail a)"
      using inv' that s by simp
    with ms s show "received a = map snd (handled a') @ concat (map busy_of (threads a')) @ buffer (mail a')"
      by (simp add: t(1))
  qed
  have "phase a = Stopped \<longrightarrow> set (threads a') \<subseteq> {Returned}"
    using sub inv' st by blast
  have "Returned \<in> set (threads a') \<longrightarrow> exited (mail a')"
    using sub inv' q by blast
  have "\<forall>t \<in> set (threads a'). handles_rightly hs t"
    using sub inv' t(2) by blast
  have "0 < n" using i len by simp
  have "length (threads a') = n" using len by (simp add: t(1))
  have "exited (mail a') \<longleftrightarrow> phase a \<in> {Joining, Stopped}" unfolding q(1) using inv' by (elim conjE) assumption
  have "handlers_of a = hs" "thread_num a = n" using inv' by simp_all
  have "mset (received a) = mset (map snd (handled a')) + busy (threads a') + mset (buffer (mail a'))"
    unfolding sum_eq using inv' by (elim conjE) assumption
  show ?thesis
    unfolding life_inv_def ph eq if_not_P [OF len(2)]
    by (intro conjI; (fact | simp only: \<open>0 < n\<close> simp_thms))
qed

lemma life_inv_main_step:
  assumes inv: "life_inv hs n a" and step: "main_step i a = Some a'" and alive: "phase a' \<noteq> Killed"
  shows "life_inv hs n a'"
proof -
  note inv' = inv [unfolded life_inv_def]
  have out: "\<forall>(h, m) \<in> set (handled a). actor_dispatch hs m = Inr h" and hs: "handlers_of a = hs"
    using inv' by blast+
  have here: "handles_rightly hs (threads a ! i)" "phase a = Stopped \<longrightarrow> threads a ! i = Returned"
    if "i < length (threads a)"
    using inv' nth_mem [OF that] by blast+
  from step show ?thesis
  proof (cases rule: main_stepE)
    case start
    show ?thesis
      by (rule life_inv_set_thread [OF inv start(1), of _ Waiting]) (use start here out in \<open>simp_all add: set_thread_def\<close>)
  next
    case return
    show ?thesis
      by (rule life_inv_set_thread [OF inv return(1), of _ Returned]) (use return here out in \<open>simp_all add: set_thread_def\<close>)
  next
    case (fatal m q e)
    with alive show ?thesis by simp
  next
    case (pop m q h)
    show ?thesis
      by (rule life_inv_set_thread [OF inv pop(1), of _ "Handling h m"])
        (use pop here out hs in \<open>simp_all add: set_thread_def\<close>)
  next
    case (finish h m)
    show ?thesis
      by (rule life_inv_set_thread [OF inv finish(1), of _ Waiting])
        (use finish here out in \<open>simp_all add: set_thread_def\<close>)
  qed
qed

lemma life_inv_own_step: "life_inv hs n a \<Longrightarrow> own_step a a' \<Longrightarrow> phase a' = Killed \<or> life_inv hs n a'"
  by (auto elim!: own_stepE intro: life_inv_stop_step life_inv_main_step)

lemma no_own_step_Killed: "own_step a a' \<Longrightarrow> phase a \<noteq> Killed"
  by (auto elim!: own_stepE simp: stop_step_Some)

lemma life_invariant: "life hs n a \<Longrightarrow> phase a = Killed \<or> life_inv hs n a"
proof (induction rule: life.induct)
  case (receive a m)
  then show ?case using life_inv_receive [of hs n a m] by (auto simp: actor_Receive_def)
next
  case (own a a')
  then show ?case using no_own_step_Killed [OF own(2)] life_inv_own_step by auto
qed (auto simp: life_inv_new life_inv_start life_inv_stop)

section \<open>Stopping takes finitely many steps\<close>

fun thread_work :: "thread \<Rightarrow> nat" where
  "thread_work Created = 2"
| "thread_work Waiting = 1"
| "thread_work (Handling h m) = 2"
| "thread_work Returned = 0"

fun phase_work :: "phase \<Rightarrow> nat" where
  "phase_work Draining = 3"
| "phase_work Cleared = 2"
| "phase_work Joining = 1"
| "phase_work _ = 0"

definition stop_work :: "actor \<Rightarrow> nat" where
  "stop_work a = 2 * length (buffer (mail a)) + sum_list (map thread_work (threads a)) + phase_work (phase a)"

definition stopping :: "handlers \<Rightarrow> nat \<Rightarrow> actor \<Rightarrow> bool" where
  "stopping hs n a \<longleftrightarrow> life_inv hs n a \<and> (\<forall>m \<in> set (buffer (mail a)). \<exists>h. actor_dispatch hs m = Inr h)
     \<and> (phase a = Draining \<or> phase a \<in> {Cleared, Joining, Stopped} \<and> buffer (mail a) = [])"

lemma work_set_thread:
  "i < length ts \<Longrightarrow> sum_list (map thread_work (ts[i := t])) + thread_work (ts ! i) =
    sum_list (map thread_work ts) + thread_work t"
  by (rule sum_list_set_thread)

lemma stop_step_work:
  assumes "stopping hs n a" and "stop_step a = Some a'"
  shows "stopping hs n a' \<and> Suc (stop_work a') = stop_work a \<and> received a' = received a"
  using assms life_inv_stop_step [of hs n a a']
  by (auto simp: stop_step_Some stopping_def stop_work_def)

lemma main_step_work:
  assumes st: "stopping hs n a" and step: "main_step i a = Some a'"
  shows "stopping hs n a' \<and> Suc (stop_work a') = stop_work a \<and> received a' = received a"
proof -
  note st' = st [unfolded stopping_def]
  have hs: "handlers_of a = hs" using st' by (simp add: life_inv_def)
  from step have *: "phase a' = phase a \<and> set (buffer (mail a')) \<subseteq> set (buffer (mail a))
      \<and> received a' = received a \<and> Suc (stop_work a') = stop_work a"
  proof (cases rule: main_stepE)
    case start
    then show ?thesis using work_set_thread [of i "threads a" Waiting] by (simp add: set_thread_def stop_work_def)
  next
    case return
    then show ?thesis using work_set_thread [of i "threads a" Returned] by (simp add: set_thread_def stop_work_def)
  next
    case (fatal m q e)
    with st' hs show ?thesis by auto
  next
    case (pop m q h)
    then show ?thesis
      using work_set_thread [of i "threads a" "Handling h m"] by (simp add: set_thread_def stop_work_def subset_insertI)
  next
    case (finish h m)
    then show ?thesis using work_set_thread [of i "threads a" Waiting] by (simp add: set_thread_def stop_work_def)
  qed
  moreover have "life_inv hs n a'"
    using life_inv_main_step [OF _ step] st' * by auto
  ultimately show ?thesis using st' by (auto simp: stopping_def)
qed

lemma own_step_work:
  "stopping hs n a \<Longrightarrow> own_step a a' \<Longrightarrow>
    stopping hs n a' \<and> Suc (stop_work a') = stop_work a \<and> received a' = received a"
  by (erule own_stepE) (blast dest: stop_step_work main_step_work)+

lemma own_steps_work:
  "(own_step ^^ k) a a' \<Longrightarrow> stopping hs n a \<Longrightarrow>
    stopping hs n a' \<and> k + stop_work a' = stop_work a \<and> received a' = received a"
proof (induction k arbitrary: a')
  case 0
  then show ?case by simp
next
  case (Suc k)
  then obtain b where "(own_step ^^ k) a b" "own_step b a'" by auto
  with Suc.IH [of b] Suc.prems(2) own_step_work [of hs n b a'] show ?case by fastforce
qed

lemma stopping_proceeds:
  assumes st: "stopping hs n a" and stuck: "\<And>a'. \<not> own_step a a'"
  shows "phase a = Stopped"
proof (rule ccontr)
  assume no: "phase a \<noteq> Stopped"
  have inv: "life_inv hs n a" using st by (simp add: stopping_def)
  have ph: "phase a \<in> {Draining, Cleared, Joining}" using st no by (auto simp: stopping_def)
  have hs: "handlers_of a = hs" using inv life_invD by simp
  have n: "length (threads a) = n" "0 < n" using inv life_invD ph by auto
  have idle: "main_step i a = None" for i
  proof -
    have "phase a \<noteq> Killed" using st by (auto simp: stopping_def)
    then show ?thesis using own_step.thread [of a i] stuck by (cases "main_step i a") simp_all
  qed
  have still: "stop_step a = None" using stuck own_step.caller [of a] by (cases "stop_step a") simp_all
  have waits: "threads a ! i = Returned \<or> threads a ! i = Waiting \<and> buffer (mail a) = [] \<and> \<not> exited (mail a)"
    if "i < n" for i
  proof (cases "threads a ! i")
    case Waiting
    then show ?thesis
      using idle [of i] that n hs st
      by (cases "queue_Pop (mail a)") (auto simp: main_step_def Pop_simps stopping_def split: sum.splits)
  qed (use idle [of i] that n in \<open>auto simp: main_step_def\<close>)
  from st no consider "phase a = Draining" | "phase a = Cleared" | "phase a = Joining" by (auto simp: stopping_def)
  then show False
  proof cases
    case 1
    then have "Returned \<notin> set (threads a)" using inv by (auto simp: life_inv_def)
    then have "buffer (mail a) = []" using waits [of 0] n by (metis nth_mem)
    with 1 still show False by (simp add: stop_step_def)
  next
    case 2
    with still show False by (simp add: stop_step_def)
  next
    case 3
    then have "exited (mail a)" using inv by (simp add: life_inv_def)
    then have "set (threads a) \<subseteq> {Returned}" using waits n(1) by (auto simp: in_set_conv_nth)
    with 3 still show False by (simp add: stop_step_def list_all_iff subset_iff)
  qed
qed

section \<open>Properties\<close>

text \<open>C13. \<open>Stop\<close> returns, and nothing that was sent before is lost: once \<open>Stop\<close> is called on an
  actor that was started, and no further message comes, its threads and the caller take exactly
  \<open>stop_work\<close> steps together, in whatever order, and cannot all be waiting before. Then \<open>Stop\<close>
  has returned, and every message the actor ever received has been handled by the handler of its
  type; with one thread, in the order of arrival.\<close>

theorem stop_handles_everything:
  assumes life: "life hs n a" and stop: "phase a = Draining"
    and known: "\<forall>m \<in> set (buffer (mail a)). \<exists>h. actor_dispatch hs m = Inr h"
    and run: "(own_step ^^ k) a a'"
  shows "k + stop_work a' = stop_work a
    \<and> ((\<exists>a''. own_step a' a'')
      \<or> phase a' = Stopped \<and> k = stop_work a
        \<and> mset (map snd (handled a')) = mset (received a)
        \<and> (n = 1 \<longrightarrow> map snd (handled a') = received a)
        \<and> (\<forall>(h, m) \<in> set (handled a'). actor_dispatch hs m = Inr h))"
proof -
  have "stopping hs n a"
    using life_invariant [OF life] stop known by (auto simp: stopping_def)
  note steps = own_steps_work [OF run this]
  then have st: "stopping hs n a'" and inv: "life_inv hs n a'" and recv: "received a' = received a"
    by (simp_all add: stopping_def)
  have "phase a' = Stopped" if "\<nexists>a''. own_step a' a''" using stopping_proceeds [OF st] that by blast
  moreover have "stop_work a' = 0 \<and> mset (map snd (handled a')) = mset (received a)
        \<and> (n = 1 \<longrightarrow> map snd (handled a') = received a)
        \<and> (\<forall>(h, m) \<in> set (handled a'). actor_dispatch hs m = Inr h)" if stopped: "phase a' = Stopped"
  proof -
    have empty: "buffer (mail a') = []" using st stopped by (simp add: stopping_def)
    obtain j where idle: "threads a' = replicate j Returned"
      using life_invD(5) [OF inv stopped] by (metis replicate_eqI singletonD subset_iff)
    have "thread_work Returned = 0" "busy (replicate j Returned) = {#}"
        "concat (map busy_of (replicate j Returned)) = []"
      by (induction j) (simp_all add: busy_def)
    then show ?thesis
      using life_invD(6-8) [OF inv] empty recv stopped idle by (simp add: stop_work_def sum_list_replicate)
  qed
  ultimately show ?thesis using steps by auto
qed

text \<open>A schedule, run: \<open>None\<close> lets the caller of \<open>Start\<close> or \<open>Stop\<close> move, \<open>Some i\<close> the \<open>i\<close>-th thread.\<close>

fun run_choices :: "nat option list \<Rightarrow> actor \<Rightarrow> actor option" where
  "run_choices [] a = Some a"
| "run_choices (c # cs) a = (if phase a = Killed then None else
     case (case c of None \<Rightarrow> stop_step a | Some i \<Rightarrow> main_step i a) of
       None \<Rightarrow> None
     | Some b \<Rightarrow> run_choices cs b)"

lemma run_choices_steps: "run_choices cs a = Some a' \<Longrightarrow> (own_step ^^ length cs) a a'"
proof (induction cs arbitrary: a)
  case Nil
  then show ?case by simp
next
  case (Cons c cs)
  then obtain b where b: "own_step a b" "run_choices cs b = Some a'"
    by (auto split: option.splits if_splits intro: own_step.intros)
  from relpowp_Suc_I2 [OF b(1) Cons.IH [OF b(2)]] show ?case by simp
qed

lemma run_choices_life: "run_choices cs a = Some a' \<Longrightarrow> life hs n a \<Longrightarrow> life hs n a'"
proof (induction cs arbitrary: a)
  case Nil
  then show ?case by simp
next
  case (Cons c cs)
  then obtain b where b: "own_step a b" "run_choices cs b = Some a'"
    by (auto split: option.splits if_splits intro: own_step.intros)
  from Cons.IH [OF b(2) life.own [OF Cons.prems(2) b(1)]] show ?case .
qed

definition demo_request :: message where
  "demo_request = set_type (type_code Request_Get) new_message"

text \<open>A server with two threads that is stopped with one request in its mailbox and one in hand.\<close>

definition demo_running :: "actor option" where
  "demo_running = map_option (actor_Receive (set_msg_id 7 demo_request)) (run_choices [Some 1, None, Some 1]
     (actor_Start (actor_Receive demo_request (new_actor server_handlers 2))))"

definition demo_draining :: actor where
  "demo_draining = (case demo_running of Some a \<Rightarrow> actor_Stop a | None \<Rightarrow> new_actor [] 0)"

lemma demo_draining_life: "life server_handlers 2 demo_draining"
proof -
  have start: "life server_handlers 2 (actor_Start (actor_Receive demo_request (new_actor server_handlers 2)))"
    by (intro life.start life.receive life.construct) (simp add: actor_Receive_def new_actor_def)
  obtain a where a: "run_choices [Some 1, None, Some 1]
      (actor_Start (actor_Receive demo_request (new_actor server_handlers 2))) = Some a \<and> phase a = Running"
    by (rule that [of "the (run_choices [Some 1, None, Some 1]
      (actor_Start (actor_Receive demo_request (new_actor server_handlers 2))))"]) code_simp
  then have "life server_handlers 2 (actor_Receive (set_msg_id 7 demo_request) a)"
    using run_choices_life [OF _ start] life.receive by blast
  then have "life server_handlers 2 (actor_Stop (actor_Receive (set_msg_id 7 demo_request) a))"
    using a by (intro life.stop) (simp_all add: actor_Receive_def)
  then show ?thesis using a by (simp add: demo_draining_def demo_running_def)
qed

lemma stop_handles_everything_witness:
  "\<exists>a'. run_choices [Some 1, Some 0, Some 0, None, Some 0, None, Some 0, Some 1, None] demo_draining = Some a'
    \<and> phase a' = Stopped \<and> mset (map snd (handled a')) = {#demo_request, set_msg_id 7 demo_request#}"
proof -
  let ?cs = "[Some 1, Some 0, Some 0, None, Some 0, None, Some 0, Some 1, None] :: nat option list"
  obtain a' where a': "run_choices ?cs demo_draining = Some a' \<and> stop_work a' = 0 \<and> phase a' = Stopped"
    by (rule that [of "the (run_choices ?cs demo_draining)"]) code_simp
  have known: "\<forall>m \<in> set (buffer (mail demo_draining)). \<exists>h. actor_dispatch server_handlers m = Inr h"
  proof -
    have "buffer (mail demo_draining) = [set_msg_id 7 demo_request]"
      "actor_dispatch server_handlers (set_msg_id 7 demo_request) = Inr ServerProcessGet" by code_simp+
    then show ?thesis by simp
  qed
  have recv: "received demo_draining = [demo_request, set_msg_id 7 demo_request]" "phase demo_draining = Draining"
    by code_simp+
  have "\<not> own_step a' b" for b
  proof
    assume "own_step a' b"
    then have "(own_step ^^ Suc (length ?cs)) demo_draining b"
      using run_choices_steps a' relpowp_Suc_I by metis
    from stop_handles_everything [OF demo_draining_life recv(2) known this]
      stop_handles_everything [OF demo_draining_life recv(2) known run_choices_steps, of ?cs a'] a'
    show False by simp
  qed
  then show ?thesis
    using stop_handles_everything [OF demo_draining_life recv(2) known run_choices_steps, of ?cs a'] a' recv(1)
    by auto
qed

text \<open>With the flag \<open>server_thread_num\<close> at 0 there is no thread to set \<open>is_working_\<close>: \<open>Start\<close> waits
  for ever and the actor never runs.\<close>

lemma start_without_threads_hangs: "life hs 0 a \<Longrightarrow> phase a \<in> {Constructed, Starting, Killed}"
  using life_invariant [of hs 0 a] life_invD(3) [of hs 0 a] by (cases "phase a") auto

text \<open>\<open>Zoo::StopPS\<close> stops the actors one after the other, in the order of an \<open>unordered_map\<close>. A
  message that another actor sends to one that has stopped is accepted and never handled.\<close>

lemma stopped_actor_drops:
  assumes life: "life hs n a" and stop: "phase a = Stopped"
  shows "handled (actor_Receive m a) = handled a \<and> m \<in> set (buffer (mail (actor_Receive m a)))
    \<and> \<not> own_step (actor_Receive m a) b"
proof -
  have "set (threads a) \<subseteq> {Returned}" using life_invariant [OF life] life_invD(5) [of hs n a] stop by auto
  then have idle: "threads a ! i = Returned" if "i < length (threads a)" for i using that nth_mem by blast
  have "stop_step (actor_Receive m a) = None" using stop by (simp add: stop_step_def actor_Receive_def)
  moreover have "main_step i (actor_Receive m a) = None" for i
    using idle [of i] by (simp add: main_step_def actor_Receive_def)
  ultimately have "\<not> own_step (actor_Receive m a) b" by (auto elim!: own_stepE)
  then show ?thesis by (simp add: actor_Receive_def)
qed

text \<open>The worker runs \<open>kWorkerThreadNum\<close> threads on one mailbox, so a request it received later can be
  handled first: an Add may overtake the Get that was sent before it.\<close>

definition kWorkerThreadNum :: nat where "kWorkerThreadNum = 2"

definition new_worker_actor :: actor where
  "new_worker_actor = new_actor worker_handlers kWorkerThreadNum"

definition new_server_actor :: "nat \<Rightarrow> actor" where
  "new_server_actor server_thread_num = new_actor server_handlers server_thread_num"

definition new_controller_actor :: actor where
  "new_controller_actor = new_actor controller_handlers 1"

lemma worker_reorders:
  "\<exists>a. life worker_handlers kWorkerThreadNum a
    \<and> received a = [set_type (type_code Request_Get) new_message, set_type (type_code Request_Add) new_message]
    \<and> map snd (handled a) = [set_type (type_code Request_Add) new_message, set_type (type_code Request_Get) new_message]"
proof -
  define g where "g = set_type (type_code Request_Get) new_message"
  define u where "u = set_type (type_code Request_Add) new_message"
  let ?start = "actor_Start (actor_Receive u (actor_Receive g new_worker_actor))"
  have hs: "actor_dispatch worker_handlers g = Inr WorkerProcessGet" "actor_dispatch worker_handlers u = Inr WorkerProcessAdd"
    by (simp_all add: g_def u_def handler_tables)
  have start: "life worker_handlers kWorkerThreadNum ?start"
    unfolding new_worker_actor_def by (intro life.start life.receive life.construct) (simp add: actor_Receive_def new_actor_def)
  define st where "st w ts q d = \<lparr>handlers_of = worker_handlers, thread_num = 2, mail = \<lparr>buffer = q, exited = False\<rparr>,
    is_working = w, threads = ts, phase = Starting, received = [g, u], handled = d\<rparr>" for w ts q d
  have alive: "phase (st w ts q d) \<noteq> Killed" for w ts q d by (simp add: st_def)
  have start_st: "?start = st False [Created, Created] [g, u] []"
    by (simp add: st_def actor_Start_def actor_Receive_def new_worker_actor_def new_actor_def kWorkerThreadNum_def
        queue_Push_def empty_queue_def numeral_2_eq_2)
  have steps:
    "main_step 0 (st False [Created, Created] [g, u] []) = Some (st True [Waiting, Created] [g, u] [])"
    "main_step 1 (st True [Waiting, Created] [g, u] []) = Some (st True [Waiting, Waiting] [g, u] [])"
    "main_step 0 (st True [Waiting, Waiting] [g, u] []) = Some (st True [Handling WorkerProcessGet g, Waiting] [u] [])"
    "main_step 1 (st True [Handling WorkerProcessGet g, Waiting] [u] []) =
      Some (st True [Handling WorkerProcessGet g, Handling WorkerProcessAdd u] [] [])"
    "main_step 1 (st True [Handling WorkerProcessGet g, Handling WorkerProcessAdd u] [] []) =
      Some (st True [Handling WorkerProcessGet g, Waiting] [] [(WorkerProcessAdd, u)])"
    "main_step 0 (st True [Handling WorkerProcessGet g, Waiting] [] [(WorkerProcessAdd, u)]) =
      Some (st True [Waiting, Waiting] [] [(WorkerProcessAdd, u), (WorkerProcessGet, g)])"
    by (simp_all add: st_def main_step_def set_thread_def queue_Pop_def hs)
  have run: "run_choices [Some 0, Some 1, Some 0, Some 1, Some 1, Some 0] ?start =
      Some (st True [Waiting, Waiting] [] [(WorkerProcessAdd, u), (WorkerProcessGet, g)])"
    by (simp only: start_st run_choices.simps alive if_False option.case steps)
  from run_choices_life [OF run start] show ?thesis
    by (intro exI conjI, assumption) (simp_all add: st_def g_def u_def)
qed

end
