(* ===== verification/CApi.thy ===== *)
theory CApi
  imports Requests Feeder
begin

text \<open>
  The C interface of src/hpps/api that the Python binding calls, and the factory of tables
  (src/hpps/frame/table_factory.h, table_factory.cc). A handle is a pointer to an object: the
  functions here take the object, an optional one where they test for null, and return its new
  value, the returned code, and the thread's last error string. A worker table's handle is a
  \<open>WorkerTable*\<close>, cast to the class of the table by \<open>dynamic_cast\<close>; the tables modelled are
  those of floats with 64-bit keys. An asynchronous request returns its id and its message; the
  synchronous one then waits for that id (\<open>table_Wait\<close>).
\<close>

section \<open>The last error\<close>

definition kErrorBufSize :: nat where "kErrorBufSize = 4 * 1024 * 1024"

definition HPPS_SetLastErrorString :: "string \<Rightarrow> string res" where
  \<comment> \<open>the new contents of the buffer; \<open>snprintf\<close> gets a \<open>va_list\<close> where it expects the arguments\<close>
  "HPPS_SetLastErrorString format =
     (if CHR ''%'' \<in> set format then Inl OutOfRange else Inr (take (kErrorBufSize - 1) format))"

type_synonym 'a api = "('a \<times> int \<times> string) res"

definition api_ok :: "'a \<Rightarrow> string \<Rightarrow> 'a api" where
  "api_ok x err = Inr (x, 0, err)"

definition api_fail :: "'a \<Rightarrow> string \<Rightarrow> 'a api" where
  "api_fail x msg = bind_res (HPPS_SetLastErrorString msg) (\<lambda>err. Inr (x, -1, err))"

section \<open>Tensors\<close>

definition HPPS_TensorCreate :: "32 word \<Rightarrow> 32 word list \<Rightarrow> 32 word \<Rightarrow> string \<Rightarrow> tensor api" where
  "HPPS_TensorCreate dim shape ty err =
     bind_res (buf_read shape 0 (unat dim)) (\<lambda>shp.
     bind_res (new_tensor shp (ucast ty)) (\<lambda>t. api_ok t err))"

definition HPPS_TensorReshape :: "tensor \<Rightarrow> i32 \<Rightarrow> i32 list \<Rightarrow> string \<Rightarrow> tensor api" where
  "HPPS_TensorReshape t dim dims err =
     bind_res (buf_read dims 0 (nat (sint dim))) (\<lambda>shp.
     bind_res (Reshape shp t) (\<lambda>t'. api_ok t' err))"

definition HPPS_TensorShape :: "tensor \<Rightarrow> string \<Rightarrow> (32 word \<times> 32 word list) api" where
  "HPPS_TensorShape t err = api_ok (of_nat (length (t_shape t)), t_shape t) err"

definition HPPS_TensorType :: "tensor \<Rightarrow> string \<Rightarrow> 8 word api" where
  "HPPS_TensorType t err = api_ok (t_dtype t) err"

definition HPPS_TensorData :: "tensor \<Rightarrow> string \<Rightarrow> blob api" where
  "HPPS_TensorData t err = bind_res (mutable_data t) (\<lambda>b. api_ok b err)"

definition HPPS_TensorLoadData :: "tensor \<Rightarrow> u64 \<Rightarrow> blob \<Rightarrow> u64 \<Rightarrow> string \<Rightarrow> tensor api" where
  \<comment> \<open>\<open>data\<close>: the caller's memory\<close>
  "HPPS_TensorLoadData t offset data sz err =
     bind_res (TensorDataTypeSize (t_dtype t)) (\<lambda>w.
     bind_res (mutable_data t) (\<lambda>b.
     bind_res (buf_read data 0 (unat (sz * of_nat w))) (\<lambda>xs.
     bind_res (buf_write b (unat (of_nat w * offset)) xs) (\<lambda>b'.
       api_ok (t\<lparr>t_blob := Some b'\<rparr>) err))))"

definition HPPS_TensorExportData :: "tensor \<Rightarrow> blob \<Rightarrow> string \<Rightarrow> blob api" where
  \<comment> \<open>the caller's memory afterwards\<close>
  "HPPS_TensorExportData t data err =
     bind_res (mutable_data t) (\<lambda>b. bind_res (buf_write data 0 b) (\<lambda>data'. api_ok data' err))"

section \<open>Record files and the feeder\<close>

definition open_mode_of :: "i32 \<Rightarrow> open_mode option" where
  \<comment> \<open>\<open>static_cast<FileOpenMode>\<close>; for any other number \<open>fopen\<close> gets an empty mode and fails\<close>
  "open_mode_of n = (if n = 0 then Some Write else if n = 1 then Some Read else if n = 2 then Some Append
     else if n = 3 then Some BinaryWrite else if n = 4 then Some BinaryRead
     else if n = 5 then Some BinaryAppend else None)"

definition HPPS_RecordIOCreate :: "string \<Rightarrow> i32 \<Rightarrow> disk \<Rightarrow> string \<Rightarrow> (record_io \<times> disk) api" where
  "HPPS_RecordIOCreate uri mode d err =
     (case open_mode_of mode of
        None \<Rightarrow> Inl (if uri_scheme (parse_uri uri) = ''file'' then NullDeref else Fatal)
      | Some md \<Rightarrow> bind_res (new_record_io uri md d) (\<lambda>rd. api_ok rd err))"

definition put_entry :: "string \<Rightarrow> 'a \<Rightarrow> (string \<times> 'a) list \<Rightarrow> (string \<times> 'a) list" where
  \<comment> \<open>\<open>map[key] = x\<close> on the entries of an \<open>unordered_map\<close>\<close>
  "put_entry k x es = (if k \<in> fst ` set es then map (\<lambda>(j, y). (j, if j = k then x else y)) es else es @ [(k, x)])"

definition item_config_of :: "i32 \<Rightarrow> i32 \<Rightarrow> i32 \<Rightarrow> item_config" where
  \<comment> \<open>the conversions of the type and the aux number to \<open>uint8_t\<close>\<close>
  "item_config_of ty level aux = (ItemConfig (ucast ty))\<lparr>cfg_level := level, cfg_aux := ucast aux\<rparr>"

definition HPPS_RecordIOWriteHeader ::
    "((string \<times> item_config) list \<Rightarrow> (string \<times> item_config) list) \<Rightarrow> byte list \<Rightarrow> record_io \<Rightarrow> i32 \<Rightarrow>
     string list \<Rightarrow> i32 list \<Rightarrow> i32 list \<Rightarrow> i32 list \<Rightarrow> string \<Rightarrow> record_io api" where
  \<comment> \<open>\<open>order\<close>: the order in which the map is iterated\<close>
  "HPPS_RecordIOWriteHeader order junk r num names types levels auxs err =
     bind_res (fold_res (\<lambda>meta i.
         bind_res (vec_at types (int i)) (\<lambda>ty.
         bind_res (vec_at levels (int i)) (\<lambda>level.
         bind_res (vec_at auxs (int i)) (\<lambda>aux.
         bind_res (vec_at names (int i)) (\<lambda>name.
           Inr (put_entry name (item_config_of ty level aux) meta)))))) [] [0..<nat (sint num)]) (\<lambda>meta.
     bind_res (WriteHeader junk (order meta) r) (\<lambda>r'. api_ok r' err))"

definition HPPS_RecordIOWriteSample ::
    "record_io \<Rightarrow> i32 \<Rightarrow> string list \<Rightarrow> tensor list \<Rightarrow> string \<Rightarrow> record_io api" where
  "HPPS_RecordIOWriteSample r num names ts err =
     bind_res (fold_res (\<lambda>sample i.
         bind_res (vec_at names (int i)) (\<lambda>name.
         bind_res (vec_at ts (int i)) (\<lambda>t. Inr (sample(name \<mapsto> t))))) Map.empty [0..<nat (sint num)]) (\<lambda>sample.
     bind_res (WriteSample sample r) (\<lambda>r'. api_ok r' err))"

definition HPPS_RecordIOWriteFinalize :: "record_io \<Rightarrow> string \<Rightarrow> record_io api" where
  "HPPS_RecordIOWriteFinalize r err = api_ok (WriteFinalize r) err"

definition HPPS_FeederStart :: "feeder \<Rightarrow> string \<Rightarrow> feeder api" where
  "HPPS_FeederStart f err = api_ok (feeder_Start f) err"

definition HPPS_FeederSchedule :: "plan \<Rightarrow> i32 \<Rightarrow> feeder \<Rightarrow> string \<Rightarrow> feeder api" where
  \<comment> \<open>the bound of the queue is a \<open>uint32_t\<close>\<close>
  "HPPS_FeederSchedule p n f err = api_ok (feeder_Schedule p (unat n) f) err"

definition HPPS_FeederStop :: "feeder \<Rightarrow> string \<Rightarrow> feeder api" where
  "HPPS_FeederStop f err = api_ok (feeder_Stop f) err"

definition HPPS_PlanMakerCreate :: "string \<Rightarrow> plan_maker api" where
  "HPPS_PlanMakerCreate err = api_ok new_plan_maker err"

definition HPPS_PlanMakerSetURI :: "plan_maker \<Rightarrow> i32 \<Rightarrow> string list \<Rightarrow> string \<Rightarrow> plan_maker api" where
  "HPPS_PlanMakerSetURI pm num uri err =
     bind_res (buf_read uri 0 (nat (sint num))) (\<lambda>source. api_ok (pm\<lparr>pm_uri := source\<rparr>) err)"

definition HPPS_PlanMakerSetEpoch :: "plan_maker \<Rightarrow> i32 \<Rightarrow> string \<Rightarrow> plan_maker api" where
  "HPPS_PlanMakerSetEpoch pm epoch err = api_ok (pm\<lparr>pm_epoch := sint epoch\<rparr>) err"

definition HPPS_PlanMakerSetBatchSize :: "plan_maker \<Rightarrow> i32 \<Rightarrow> string \<Rightarrow> plan_maker api" where
  "HPPS_PlanMakerSetBatchSize pm batch_size err = api_ok (pm\<lparr>pm_batch_size := sint batch_size\<rparr>) err"

definition HPPS_PlanMakerMake :: "plan_maker \<Rightarrow> disk \<Rightarrow> string \<Rightarrow> (plan \<times> disk) api" where
  "HPPS_PlanMakerMake pm d err = bind_res (PlanMaker_Make pm d) (\<lambda>pd. api_ok pd err)"

section \<open>Batches\<close>

definition HPPS_BatchIteratorPop ::
    "'a blocking_queue \<Rightarrow> string \<Rightarrow> ('a option \<times> 'a blocking_queue) api option" where
  \<comment> \<open>\<open>None\<close>: the thread waits; a null pointer when the queue is empty and exited\<close>
  "HPPS_BatchIteratorPop q err = (case iterator_Pop q of
     Blocks \<Rightarrow> None
   | PopFalse \<Rightarrow> Some (api_ok (None, q) err)
   | Popped b q' \<Rightarrow> Some (api_ok (Some b, q\<lparr>bq_queue := q'\<rparr>) err))"

definition kMaxBufSize :: nat where "kMaxBufSize = 8192"

definition HPPS_BatchGetKeys :: "batch option \<Rightarrow> string \<Rightarrow> string list api" where
  \<comment> \<open>the names go through a buffer of \<open>kMaxBufSize\<close> pointers\<close>
  "HPPS_BatchGetKeys b err = (case b of
     None \<Rightarrow> api_fail [] ''Batch is null''
   | Some b' \<Rightarrow> if kMaxBufSize < length (b_names b') then Inl OutOfRange else api_ok (b_names b') err)"

definition tensor_or_fail :: "string \<Rightarrow> tensor option \<Rightarrow> string \<Rightarrow> tensor option api" where
  "tensor_or_fail msg t err = (if t = None then api_fail None msg else api_ok t err)"

definition HPPS_BatchGetTensorFromKey :: "batch option \<Rightarrow> string \<Rightarrow> string \<Rightarrow> tensor option api" where
  "HPPS_BatchGetTensorFromKey b key err =
     bind_res (deref b) (\<lambda>b'. bind_res (batch_Get b' key) (\<lambda>t.
       tensor_or_fail ''Get tensor from key failed'' t err))"

definition HPPS_BatchGetTensorFromIndex :: "batch option \<Rightarrow> i32 \<Rightarrow> string \<Rightarrow> tensor option api" where
  "HPPS_BatchGetTensorFromIndex b index err =
     bind_res (deref b) (\<lambda>b'. bind_res (batch_Get_index b' (sint index)) (\<lambda>t.
       tensor_or_fail ''Get tensor from index failed'' t err))"

definition HPPS_Num2Indices :: "tensor \<Rightarrow> string \<Rightarrow> tensor api" where
  "HPPS_Num2Indices num err = bind_res (Num2Indices num) (\<lambda>t. api_ok t err)"

definition HPPS_Id2UniqId :: "tensor \<Rightarrow> string \<Rightarrow> (tensor \<times> tensor) api" where
  \<comment> \<open>the local identifiers and the unique ones\<close>
  "HPPS_Id2UniqId ids err = bind_res (Id2UniqId ids) (\<lambda>(uniq_t, local_t). api_ok (local_t, uniq_t) err)"

definition HPPS_AddIndicesTensor :: "batch option \<Rightarrow> i32 \<Rightarrow> string list \<Rightarrow> string \<Rightarrow> batch option api" where
  "HPPS_AddIndicesTensor b num names err = (case b of
     None \<Rightarrow> api_fail None ''Batch is null''
   | Some b' \<Rightarrow> bind_res (buf_read names 0 (nat (sint num))) (\<lambda>ns.
       bind_res (AddIndicesTensor b' ns) (\<lambda>b''. api_ok (Some b'') err)))"

definition HPPS_AddUniqIdTensor :: "batch option \<Rightarrow> i32 \<Rightarrow> string list \<Rightarrow> string \<Rightarrow> batch option api" where
  "HPPS_AddUniqIdTensor b num names err = (case b of
     None \<Rightarrow> api_fail None ''Batch is null''
   | Some b' \<Rightarrow> bind_res (buf_read names 0 (nat (sint num))) (\<lambda>ns.
       bind_res (AddUniqIdTensor b' ns) (\<lambda>b''. api_ok (Some b'') err)))"

section \<open>Tables\<close>

datatype any_worker = ArrayTable "array_worker worker_table" | KvTable "kv_worker worker_table"

definition value_type_switch :: "int \<Rightarrow> 'a res \<Rightarrow> 'a res" where
  "value_type_switch ty body = (if ty = uint (type_flag KFloat32) then body else Inl Fatal)"

definition id_type_switch :: "int \<Rightarrow> 'a res \<Rightarrow> 'a res \<Rightarrow> 'a res" where
  "id_type_switch ty body32 body64 =
     (if ty = uint (type_flag KUInt32) then body32
      else if ty = uint (type_flag KUInt64) then body64 else Inl Fatal)"

fun as_array :: "any_worker \<Rightarrow> array_worker worker_table res" where
  \<comment> \<open>\<open>dynamic_cast<ArrayWorker<float>*>\<close> and the use of the pointer\<close>
  "as_array (ArrayTable t) = Inr t"
| "as_array (KvTable t) = Inl NullDeref"

fun as_kv :: "any_worker \<Rightarrow> kv_worker worker_table res" where
  "as_kv (KvTable t) = Inr t"
| "as_kv (ArrayTable t) = Inl NullDeref"

definition on_key_type :: "tensor \<Rightarrow> any_worker \<Rightarrow> (kv_worker worker_table \<Rightarrow> 'a res) \<Rightarrow> 'a res" where
  \<comment> \<open>\<open>ID_TYPE_SWITCH\<close> with the cast to \<open>KVWorkerTable<ID_TYPE, float>*\<close>: a table of 64-bit keys is
    no table of 32-bit keys\<close>
  "on_key_type k w f = id_type_switch (uint (t_dtype k)) (Inl NullDeref) (bind_res (as_kv w) f)"

type_synonym request = "i32 \<times> message"

definition ArrayTableGetAsync ::
    "zoo \<Rightarrow> any_worker option \<Rightarrow> tensor \<Rightarrow> string \<Rightarrow> (any_worker option \<times> request option) api" where
  "ArrayTableGetAsync z h tensor err = (case h of
     None \<Rightarrow> api_fail (None, None) ''Is not a worker node, should not call table get''
   | Some w \<Rightarrow>
       value_type_switch (uint (t_dtype tensor)) (
       bind_res (as_array w) (\<lambda>t.
       bind_res (mutable_data tensor) (\<lambda>b.
       bind_res (array_Get b (elem_count 4 b) (wt_state t)) (\<lambda>(kv, aw).
       bind_res (vec_at kv 0) (\<lambda>keys.
       let (i, m, t') = table_GetAsync z keys None (t\<lparr>wt_state := aw\<rparr>) in
         api_ok (Some (ArrayTable t'), Some (i, m)) err))))))"

definition ArrayTableGet ::
    "zoo \<Rightarrow> any_worker option \<Rightarrow> tensor \<Rightarrow> string \<Rightarrow> (any_worker option \<times> request option) api" where
  \<comment> \<open>up to the wait for the request\<close>
  "ArrayTableGet z h tensor err = ArrayTableGetAsync z h tensor err"

definition string_map :: "i32 \<Rightarrow> string list \<Rightarrow> string list \<Rightarrow> (string \<rightharpoonup> string) res" where
  "string_map num key val =
     fold_res (\<lambda>kwargs i.
       bind_res (vec_at key (int i)) (\<lambda>k.
       bind_res (vec_at val (int i)) (\<lambda>v. Inr (kwargs(k \<mapsto> v))))) Map.empty [0..<nat (sint num)]"

definition create_add_option :: "int \<Rightarrow> (string \<Rightarrow> f32) \<Rightarrow> i32 \<Rightarrow> string list \<Rightarrow> string list \<Rightarrow> add_option res" where
  "create_add_option w stof num key val =
     bind_res (string_map num key val) (\<lambda>kwargs. Inr (CreateAddOption w stof kwargs))"

definition ArrayTableAddAsync ::
    "zoo \<Rightarrow> int \<Rightarrow> (string \<Rightarrow> f32) \<Rightarrow> any_worker option \<Rightarrow> tensor \<Rightarrow> i32 \<Rightarrow> string list \<Rightarrow> string list \<Rightarrow> string \<Rightarrow>
     (any_worker option \<times> request option) api" where
  "ArrayTableAddAsync z w stof h grad num key val err =
     bind_res (create_add_option w stof num key val) (\<lambda>opt.
     case h of
       None \<Rightarrow> api_fail (None, None) ''Is not a worker node, should not call table add''
     | Some wk \<Rightarrow>
         value_type_switch (uint (t_dtype grad)) (
         bind_res (as_array wk) (\<lambda>t.
         bind_res (mutable_data grad) (\<lambda>b.
         bind_res (array_Add (dec_seq 4 dec32 b) (elem_count 4 b) (Some opt) (wt_state t)) (\<lambda>kv.
         bind_res (vec_at kv 0) (\<lambda>keys.
         bind_res (vec_at kv 1) (\<lambda>vals.
         let (i, m, t') = table_AddAsync z keys vals (Some opt) t in
           api_ok (Some (ArrayTable t'), Some (i, m)) err)))))))"

definition ArrayTableAdd ::
    "zoo \<Rightarrow> int \<Rightarrow> (string \<Rightarrow> f32) \<Rightarrow> any_worker option \<Rightarrow> tensor \<Rightarrow> i32 \<Rightarrow> string list \<Rightarrow> string list \<Rightarrow> string \<Rightarrow>
     (any_worker option \<times> request option) api" where
  \<comment> \<open>up to the wait for the request\<close>
  "ArrayTableAdd z w stof h grad num key val err = ArrayTableAddAsync z w stof h grad num key val err"

definition KVTableGetAsync ::
    "zoo \<Rightarrow> any_worker option \<Rightarrow> tensor \<Rightarrow> tensor \<Rightarrow> string \<Rightarrow> (any_worker option \<times> request option) api" where
  "KVTableGetAsync z h k v err = (case h of
     None \<Rightarrow> api_fail (None, None) ''Is not a worker node, should not call table get''
   | Some w \<Rightarrow>
       on_key_type k w (\<lambda>t.
       value_type_switch (uint (t_dtype v)) (
       bind_res (mutable_data k) (\<lambda>b.
       bind_res (kv_worker_Get (keys_of b) (t_size k)) (\<lambda>kv.
       bind_res (vec_at kv 0) (\<lambda>keys.
       let (i, m, t') = table_GetAsync z keys None t in
         api_ok (Some (KvTable t'), Some (i, m)) err))))))"

definition KVTableGetFromLocal ::
    "any_worker option \<Rightarrow> tensor \<Rightarrow> tensor \<Rightarrow> string \<Rightarrow> (any_worker option \<times> tensor) api" where
  "KVTableGetFromLocal h k v err = (case h of
     None \<Rightarrow> api_fail (None, v) ''Is not a worker node, should not call table get''
   | Some w \<Rightarrow>
       on_key_type k w (\<lambda>t.
       value_type_switch (uint (t_dtype v)) (
       bind_res (mutable_data k) (\<lambda>b.
       bind_res (kv_GetFromLocal (keys_of b) (t_size k) v (wt_state t)) (\<lambda>(v', s).
         api_ok (Some (KvTable (t\<lparr>wt_state := s\<rparr>)), v') err)))))"

definition KVTableGet_finish ::
    "any_worker option \<Rightarrow> i32 \<Rightarrow> tensor \<Rightarrow> tensor \<Rightarrow> string \<Rightarrow> (any_worker option \<times> tensor) api option" where
  \<comment> \<open>\<open>KVTableGet\<close> sends the request of \<open>KVTableGetAsync\<close>, and this follows: \<open>None\<close> while it waits\<close>
  "KVTableGet_finish h i k v err = (case h of
     Some (KvTable t) \<Rightarrow> (case table_Wait i t of
         Inl e \<Rightarrow> Some (Inl e)
       | Inr None \<Rightarrow> None
       | Inr (Some t') \<Rightarrow> Some (KVTableGetFromLocal (Some (KvTable t')) k v err))
   | _ \<Rightarrow> Some (Inl NullDeref))"

definition KVTableAddAsync ::
    "zoo \<Rightarrow> int \<Rightarrow> (string \<Rightarrow> f32) \<Rightarrow> any_worker option \<Rightarrow> tensor \<Rightarrow> tensor \<Rightarrow> i32 \<Rightarrow> string list \<Rightarrow> string list \<Rightarrow>
     string \<Rightarrow> (any_worker option \<times> request option) api" where
  "KVTableAddAsync z w stof h k v num key val err =
     bind_res (create_add_option w stof num key val) (\<lambda>opt.
     case h of
       None \<Rightarrow> api_fail (None, None) ''Is not a worker node, should not call table add''
     | Some wk \<Rightarrow>
         on_key_type k wk (\<lambda>t.
         value_type_switch (uint (t_dtype v)) (
         bind_res (mutable_data k) (\<lambda>kb.
         bind_res (mutable_data v) (\<lambda>vb.
         bind_res (kv_worker_Add (value_len (wt_state t)) (keys_of kb) (t_size k) (dec_seq 4 dec32 vb) (t_size v)
             (Some opt)) (\<lambda>kv.
         bind_res (vec_at kv 0) (\<lambda>keys.
         bind_res (vec_at kv 1) (\<lambda>vals.
         let (i, m, t') = table_AddAsync z keys vals (Some opt) t in
           api_ok (Some (KvTable t'), Some (i, m)) err))))))))"

definition KVTableAdd ::
    "zoo \<Rightarrow> int \<Rightarrow> (string \<Rightarrow> f32) \<Rightarrow> any_worker option \<Rightarrow> tensor \<Rightarrow> tensor \<Rightarrow> i32 \<Rightarrow> string list \<Rightarrow> string list \<Rightarrow>
     string \<Rightarrow> (any_worker option \<times> request option) api" where
  \<comment> \<open>up to the wait for the request\<close>
  "KVTableAdd z w stof h k v num key val err = KVTableAddAsync z w stof h k v num key val err"

fun any_Wait :: "i32 \<Rightarrow> any_worker \<Rightarrow> any_worker option res" where
  "any_Wait i (ArrayTable t) = bind_res (table_Wait i t) (\<lambda>r. Inr (map_option ArrayTable r))"
| "any_Wait i (KvTable t) = bind_res (table_Wait i t) (\<lambda>r. Inr (map_option KvTable r))"

fun any_Load :: "zoo \<Rightarrow> string \<Rightarrow> any_worker \<Rightarrow> request \<times> any_worker" where
  "any_Load z uri (ArrayTable t) = (let (i, m, t') = table_Load z uri t in ((i, m), ArrayTable t'))"
| "any_Load z uri (KvTable t) = (let (i, m, t') = table_Load z uri t in ((i, m), KvTable t'))"

fun any_Store :: "zoo \<Rightarrow> string \<Rightarrow> any_worker \<Rightarrow> request \<times> any_worker" where
  "any_Store z uri (ArrayTable t) = (let (i, m, t') = table_Store z uri t in ((i, m), ArrayTable t'))"
| "any_Store z uri (KvTable t) = (let (i, m, t') = table_Store z uri t in ((i, m), KvTable t'))"

definition TableWait :: "any_worker option \<Rightarrow> i32 \<Rightarrow> string \<Rightarrow> any_worker option api option" where
  \<comment> \<open>\<open>None\<close>: the thread waits\<close>
  "TableWait h i err = (case h of
     None \<Rightarrow> Some (api_fail None ''Is not a worker node, should not call table wait'')
   | Some w \<Rightarrow> (case any_Wait i w of
       Inl e \<Rightarrow> Some (Inl e)
     | Inr None \<Rightarrow> None
     | Inr (Some w') \<Rightarrow> Some (api_ok (Some w') err)))"

definition TableLoad :: "zoo \<Rightarrow> any_worker option \<Rightarrow> string \<Rightarrow> string \<Rightarrow> (any_worker option \<times> request option) api" where
  \<comment> \<open>up to the wait for the request, as in \<open>TableStore\<close>\<close>
  "TableLoad z h uri err = (case h of
     None \<Rightarrow> api_fail (None, None) ''Is not a worker node, should not call table load''
   | Some w \<Rightarrow> (let (r, w') = any_Load z uri w in api_ok (Some w', Some r) err))"

definition TableStore :: "zoo \<Rightarrow> any_worker option \<Rightarrow> string \<Rightarrow> string \<Rightarrow> (any_worker option \<times> request option) api" where
  "TableStore z h uri err = (case h of
     None \<Rightarrow> api_fail (None, None) ''Is not a worker node, should not call table store''
   | Some w \<Rightarrow> (let (r, w') = any_Store z uri w in api_ok (Some w', Some r) err))"

section \<open>Making tables\<close>

definition bind_ro :: "'a res option \<Rightarrow> ('a \<Rightarrow> 'b res option) \<Rightarrow> 'b res option" where
  "bind_ro r f = (case r of None \<Rightarrow> None | Some (Inl e) \<Rightarrow> Some (Inl e) | Some (Inr x) \<Rightarrow> f x)"

definition PushServerTable :: "'s \<Rightarrow> 's list \<Rightarrow> 's list" where
  "PushServerTable t ts = ts @ [t]"

definition FreeServerTables :: "'s list \<Rightarrow> 's list" where
  "FreeServerTables ts = []"

definition CreateTable ::
    "zoo \<Rightarrow> ('o \<Rightarrow> 's res option) \<Rightarrow> ('o \<Rightarrow> 'w res option) \<Rightarrow> 'o \<Rightarrow> 's list \<Rightarrow> ('w option \<times> 's list) res option" where
  \<comment> \<open>\<open>new_server\<close> and \<open>new_worker\<close>: the constructors of the table's two classes; the global list
    \<open>server_tables\<close> is passed along\<close>
  "CreateTable z new_server new_worker opt servers =
     bind_ro (Some (server_rank z)) (\<lambda>s.
     bind_ro (if s \<ge> 0 then bind_ro (new_server opt) (\<lambda>t. Some (Inr (PushServerTable t servers)))
              else Some (Inr servers)) (\<lambda>servers'.
     bind_ro (Some (worker_rank z)) (\<lambda>w.
     if w \<ge> 0 then bind_ro (new_worker opt) (\<lambda>t. Some (Inr (Some t, servers')))
     else Some (Inr (None, servers')))))"

record table_option =
  to_size_arg :: u64 \<comment> \<open>\<open>size\<close> or \<open>init_capacity\<close>\<close>
  to_value_len :: nat
  to_solver :: string
  to_ps_mode :: string
  to_random :: random_option

definition CreateArrayTable ::
    "zoo \<Rightarrow> 'g rng \<Rightarrow> 'g \<Rightarrow> bool \<Rightarrow> string \<Rightarrow> (string \<Rightarrow> f32) \<Rightarrow> (string \<Rightarrow> i32) \<Rightarrow>
     string \<Rightarrow> string \<Rightarrow> u64 \<Rightarrow> i32 \<Rightarrow> i32 \<Rightarrow> string list \<Rightarrow> string list \<Rightarrow> array_server list \<Rightarrow> string \<Rightarrow>
     (array_worker option \<times> array_server list) api option" where
  "CreateArrayTable z G g0 dcasgd updater_type to_float to_int solver ps_mode sz ty num key val servers err =
     bind_ro (Some (string_map num key val)) (\<lambda>kwargs.
     bind_ro (Some (value_type_switch (sint ty) (Inr ()))) (\<lambda>_.
     bind_ro (CreateTable z
         (\<lambda>o'. Some (new_array_server G g0 dcasgd updater_type z (unat (to_size_arg o')) (to_solver o') (to_random o')))
         (\<lambda>o'. Some (new_array_worker z (unat (to_size_arg o'))))
         \<lparr>to_size_arg = sz, to_value_len = 0, to_solver = solver, to_ps_mode = ps_mode,
          to_random = CreateRandomOption to_float to_int kwargs\<rparr> servers) (\<lambda>out.
       Some (api_ok out err))))"

definition CreateKVTable ::
    "zoo \<Rightarrow> (nat \<Rightarrow> f32) \<Rightarrow> 'g rng \<Rightarrow> 'g \<Rightarrow> bool \<Rightarrow> string \<Rightarrow> (string \<Rightarrow> f32) \<Rightarrow> (string \<Rightarrow> i32) \<Rightarrow>
     string \<Rightarrow> string \<Rightarrow> u64 \<Rightarrow> i32 \<Rightarrow> i32 \<Rightarrow> i32 \<Rightarrow> string list \<Rightarrow> string list \<Rightarrow> 'g kv_server list \<Rightarrow> string \<Rightarrow>
     (kv_worker option \<times> 'g kv_server list) api option" where
  \<comment> \<open>for the key type \<open>kUInt64\<close>\<close>
  "CreateKVTable z mem G g0 dcasgd updater_type to_float to_int solver ps_mode capacity vlen vty num key val servers err =
     bind_ro (Some (string_map num key val)) (\<lambda>kwargs.
     bind_ro (Some (value_type_switch (sint vty) (Inr ()))) (\<lambda>_.
     bind_ro (CreateTable z
         (\<lambda>o'. new_kv_server mem G g0 dcasgd updater_type z (to_size_arg o') (to_value_len o') (to_solver o') (to_random o'))
         (\<lambda>o'. new_kv_worker mem z (to_size_arg o') (to_value_len o'))
         \<lparr>to_size_arg = capacity, to_value_len = unat vlen, to_solver = solver, to_ps_mode = ps_mode,
          to_random = CreateRandomOption to_float to_int kwargs\<rparr> servers) (\<lambda>out.
       Some (api_ok out err))))"

section \<open>The system\<close>

definition HPPS_ZooRank :: "zoo \<Rightarrow> string \<Rightarrow> int api" where
  "HPPS_ZooRank z err = api_ok (zoo_rank z) err"

definition HPPS_ZooSize :: "zoo \<Rightarrow> string \<Rightarrow> int api" where
  "HPPS_ZooSize z err = api_ok (zoo_size z) err"

definition HPPS_ZooNumWorkers :: "zoo \<Rightarrow> string \<Rightarrow> int api" where
  "HPPS_ZooNumWorkers z err = api_ok (num_workers z) err"

definition HPPS_ZooNumServers :: "zoo \<Rightarrow> string \<Rightarrow> int api" where
  "HPPS_ZooNumServers z err = api_ok (num_servers z) err"

definition HPPS_ZooIsWorker :: "zoo \<Rightarrow> string \<Rightarrow> int api" where
  "HPPS_ZooIsWorker z err = bind_res (zoo_is_worker z) (\<lambda>b. api_ok (if b then 1 else 0) err)"

definition HPPS_ZooIsServer :: "zoo \<Rightarrow> string \<Rightarrow> int api" where
  "HPPS_ZooIsServer z err = bind_res (zoo_is_server z) (\<lambda>b. api_ok (if b then 1 else 0) err)"

definition HPPS_ZooIsController :: "zoo \<Rightarrow> string \<Rightarrow> int api" where
  "HPPS_ZooIsController z err = api_ok (if zoo_rank z = 0 then 1 else 0) err"

definition HPPS_ZooWorkerId :: "zoo \<Rightarrow> string \<Rightarrow> int api" where
  "HPPS_ZooWorkerId z err = bind_res (rank_to_worker_id z (zoo_rank z)) (\<lambda>i. api_ok i err)"

definition HPPS_ZooServerId :: "zoo \<Rightarrow> string \<Rightarrow> int api" where
  "HPPS_ZooServerId z err = bind_res (rank_to_server_id z (zoo_rank z)) (\<lambda>i. api_ok i err)"

section \<open>What the interface promises\<close>

lemma api_ok_simps [simp]: "api_ok x err = Inr (x, 0, err)"
  by (simp add: api_ok_def)

text \<open>On a node that is no worker the handle of a table is null: every call returns -1 with a
  message, and does nothing else.\<close>

lemma api_without_worker:
  "ArrayTableGetAsync z None tensor err = Inr ((None, None), -1, ''Is not a worker node, should not call table get'')"
  "KVTableGetAsync z None k v err = Inr ((None, None), -1, ''Is not a worker node, should not call table get'')"
  "KVTableGetFromLocal None k v err = Inr ((None, v), -1, ''Is not a worker node, should not call table get'')"
  "TableWait None i err = Some (Inr (None, -1, ''Is not a worker node, should not call table wait''))"
  "TableLoad z None uri err = Inr ((None, None), -1, ''Is not a worker node, should not call table load'')"
  "TableStore z None uri err = Inr ((None, None), -1, ''Is not a worker node, should not call table store'')"
  by (simp_all add: ArrayTableGetAsync_def KVTableGetAsync_def KVTableGetFromLocal_def TableWait_def
      TableLoad_def TableStore_def api_fail_def HPPS_SetLastErrorString_def kErrorBufSize_def)

lemma ArrayTableGetAsync_worker:
  assumes "t_dtype tensor = type_flag KFloat32" "t_blob tensor = Some b"
  shows "ArrayTableGetAsync z (Some (ArrayTable t)) tensor err =
    (if elem_count 4 b = aw_size (wt_state t)
     then let (i, m, t') = table_GetAsync z all_key None (t\<lparr>wt_state := (wt_state t)\<lparr>aw_data := b\<rparr>\<rparr>) in
       Inr ((Some (ArrayTable t'), Some (i, m)), 0, err)
     else Inl Check)"
  using assms by (simp add: ArrayTableGetAsync_def value_type_switch_def mutable_data_def array_Get_def
      Let_def split: prod.splits)

text \<open>The array calls pass the size of the tensor's memory, not of the tensor: a tensor that was
  reshaped to the size of the table from a larger one ends the process.\<close>

lemma array_get_needs_capacity:
  assumes "tensor_wf tensor" "t_dtype tensor = type_flag KFloat32" "t_capacity tensor \<noteq> 0"
    and "t_capacity tensor \<noteq> aw_size (wt_state t)"
  shows "ArrayTableGetAsync z (Some (ArrayTable t)) tensor err = Inl Check"
proof -
  obtain b where b: "t_blob tensor = Some b" "length b = 4 * t_capacity tensor"
    using assms(1-3) by (auto simp: tensor_wf_def TensorDataTypeSize_def split: option.splits)
  then show ?thesis
    using assms(2,4) by (simp add: ArrayTableGetAsync_worker elem_count_def)
qed

lemma load_data_at:
  assumes "TensorDataTypeSize (t_dtype t) = Inr w" "t_blob t = Some (pre @ old @ post)"
    and "length pre = w * i" "length xs = w * n" "length old = length xs"
    and "w * i < 2 ^ 64" "w * n < 2 ^ 64"
  shows "HPPS_TensorLoadData t (of_nat i) xs (of_nat n) err =
    Inr (t\<lparr>t_blob := Some (pre @ xs @ post)\<rparr>, 0, err)"
proof -
  have "unat (of_nat n * of_nat w :: u64) = w * n" "unat (of_nat w * of_nat i :: u64) = w * i"
    using assms(6,7) by (simp_all add: unsigned_of_nat take_bit_nat_eq_self mult.commute flip: of_nat_mult)
  then show ?thesis
    using assms(1-5)
    by (simp add: HPPS_TensorLoadData_def mutable_data_def buf_read_def buf_write_def)
qed

definition load_piece :: "nat \<Rightarrow> string \<Rightarrow> tensor \<times> nat \<Rightarrow> blob \<Rightarrow> (tensor \<times> nat) res" where
  "load_piece w err = (\<lambda>(t, i) xs.
     bind_res (HPPS_TensorLoadData t (of_nat i) xs (of_nat (length xs div w)) err) (\<lambda>(t', _, _).
       Inr (t', i + length xs div w)))"

definition load_pieces :: "nat \<Rightarrow> tensor \<Rightarrow> blob list \<Rightarrow> string \<Rightarrow> (tensor \<times> nat) res" where
  \<comment> \<open>a caller that loads the pieces one behind the other; \<open>w\<close> bytes are an element\<close>
  "load_pieces w t ps err = fold_res (load_piece w err) (t, 0) ps"

lemma load_pieces_gen:
  assumes "TensorDataTypeSize (t_dtype t) = Inr w" "t_blob t = Some (pre @ old)"
    and "length pre = w * i" "length old = length (concat ps)" "\<forall>xs\<in>set ps. w dvd length xs"
    and "w * i + length old < 2 ^ 64"
  shows "\<exists>j. fold_res (load_piece w err) (t, i) ps = Inr (t\<lparr>t_blob := Some (pre @ concat ps)\<rparr>, j)"
  using assms
proof (induction ps arbitrary: t pre old i)
  case Nil
  then show ?case by simp
next
  case (Cons xs ps)
  let ?n = "length xs div w" and ?old = "take (length xs) old" and ?rest = "drop (length xs) old"
  have n: "length xs = w * ?n" using Cons.prems(5) by simp
  have len: "length xs \<le> length old" using Cons.prems(4) by simp
  have "HPPS_TensorLoadData t (of_nat i) xs (of_nat ?n) err =
      Inr (t\<lparr>t_blob := Some (pre @ xs @ ?rest)\<rparr>, 0, err)"
    using Cons.prems n len by (intro load_data_at [where old = ?old and w = w]) simp_all
  then have "load_piece w err (t, i) xs = Inr (t\<lparr>t_blob := Some (pre @ xs @ ?rest)\<rparr>, i + ?n)"
    by (simp add: load_piece_def)
  moreover have "\<exists>j. fold_res (load_piece w err) (t\<lparr>t_blob := Some (pre @ xs @ ?rest)\<rparr>, i + ?n) ps =
      Inr (t\<lparr>t_blob := Some (pre @ xs @ ?rest), t_blob := Some ((pre @ xs) @ concat ps)\<rparr>, j)"
    using Cons.prems n len by (intro Cons.IH [where old = ?rest]) (simp_all add: algebra_simps)
  ultimately show ?case by simp
qed

text \<open>What a program loads into a new tensor through the interface is what it reads back: for
  any data of the size of the tensor, loaded in any number of pieces one behind the other, the
  export is the concatenation of the pieces.\<close>

theorem tensor_load_export:
  assumes "TensorDataTypeSize (ucast ty) = Inr w" "length shape < 2 ^ 32"
    and "0 < prod_list (map unat shape)" "prod_list (map unat shape) < 2 ^ 31"
    and "\<forall>xs\<in>set ps. w dvd length xs" "length (concat ps) = w * prod_list (map unat shape)"
    and "length out = length (concat ps)"
  shows "\<exists>t t' n. HPPS_TensorCreate (of_nat (length shape)) shape ty err = Inr (t, 0, err) \<and>
    load_pieces w t ps err = Inr (t', n) \<and> HPPS_TensorExportData t' out err = Inr (concat ps, 0, err)"
proof -
  let ?N = "prod_list (map unat shape)"
  define t where "t = \<lparr>t_blob = Some (replicate (w * ?N) 0), t_shape = shape, t_size = ?N, t_capacity = ?N,
    t_dtype = ucast ty\<rparr>"
  have "unat (of_nat (length shape) :: 32 word) = length shape"
    using assms(2) by (simp add: unsigned_of_nat take_bit_nat_eq_self)
  then have create: "HPPS_TensorCreate (of_nat (length shape)) shape ty err = Inr (t, 0, err)"
    using new_tensor_ok [OF assms(1,4,3)] by (simp add: HPPS_TensorCreate_def buf_read_def t_def)
  have "w * ?N < 2 ^ 64"
  proof -
    have "w * ?N \<le> 8 * 2 ^ 31" using type_size_le [OF assms(1)] assms(4) by (intro mult_le_mono) simp_all
    then show ?thesis by simp
  qed
  then have "\<exists>j. load_pieces w t ps err = Inr (t\<lparr>t_blob := Some ([] @ concat ps)\<rparr>, j)"
    unfolding load_pieces_def using assms(1,5,6)
    by (intro load_pieces_gen [where old = "replicate (w * ?N) 0"]) (simp_all add: t_def)
  then obtain n where "load_pieces w t ps err = Inr (t\<lparr>t_blob := Some (concat ps)\<rparr>, n)" by auto
  with create show ?thesis
    using assms(7) by (auto simp: HPPS_TensorExportData_def mutable_data_def buf_write_def)
qed

theorem tensor_load_export_example:
  "\<exists>t t' n. HPPS_TensorCreate 2 [1, 2] 2 '''' = Inr (t, 0, '''') \<and>
    load_pieces 4 t [[1, 2, 3, 4], [5, 6, 7, 8]] '''' = Inr (t', n) \<and>
    HPPS_TensorExportData t' (replicate 8 0) '''' = Inr ([1, 2, 3, 4, 5, 6, 7, 8], 0, '''')"
proof -
  let ?ps = "[[1, 2, 3, 4], [5, 6, 7, 8]] :: blob list"
  have "(4 :: nat) dvd Suc (Suc (Suc (Suc 0)))" by (rule dvdI [of _ _ 1]) simp
  then have "\<forall>xs\<in>set ?ps. 4 dvd length xs" by simp
  then show ?thesis
    using tensor_load_export [of 2 4 "[1, 2]" ?ps "replicate 8 0"] by (simp add: TensorDataTypeSize_def)
qed

text \<open>The export copies the whole memory of the tensor: after a reshape to a smaller shape it
  writes past the end of a buffer made for that shape.\<close>

lemma export_after_shrink:
  assumes "tensor_wf t" "TensorDataTypeSize (t_dtype t) = Inr w" "length out = w * t_size t"
    and "t_size t < t_capacity t"
  shows "HPPS_TensorExportData t out err = Inl OutOfRange"
proof -
  obtain b where b: "t_blob t = Some b" "length b = w * t_capacity t"
    using assms by (auto simp: tensor_wf_def split: option.splits)
  have "length out < length b"
    using assms(3,4) b(2) type_size_le [OF assms(2)] by simp
  then show ?thesis using b(1) by (simp add: HPPS_TensorExportData_def mutable_data_def buf_write_def)
qed

end
