(* ===== verification/Lifecycle.thy ===== *)
theory Lifecycle
  imports ActorThreads Registry Net CApi Flags
begin

text \<open>
  Starting and stopping a process: \<open>Zoo::Start\<close>, \<open>StartPS\<close>, \<open>StopPS\<close> and \<open>Stop\<close> of
  src/hpps/frame/zoo.cc, the loops of the communicator in its two thread modes
  (src/hpps/frame/communicator.cc, \<open>Main\<close> and \<open>Communicate\<close>), and \<open>Init\<close> and \<open>Finalize\<close> of the MPI
  wrapper (src/hpps/net/mpi_net.h). The functions here are the calls of the thread that starts
  and stops the system; what the actors' threads do meanwhile is the theory ActorThreads, and
  the messages \<open>Zoo\<close> waits for are arguments.
\<close>

section \<open>MPI\<close>

text \<open>The levels of thread support, ordered as MPI promises.\<close>

datatype mpi_level = MPI_THREAD_SINGLE | MPI_THREAD_FUNNELED | MPI_THREAD_SERIALIZED | MPI_THREAD_MULTIPLE

fun level_number :: "mpi_level \<Rightarrow> nat" where
  "level_number MPI_THREAD_SINGLE = 0"
| "level_number MPI_THREAD_FUNNELED = 1"
| "level_number MPI_THREAD_SERIALIZED = 2"
| "level_number MPI_THREAD_MULTIPLE = 3"

instantiation mpi_level :: linorder
begin

definition less_eq_mpi_level :: "mpi_level \<Rightarrow> mpi_level \<Rightarrow> bool" where
  "less_eq_mpi_level a b \<longleftrightarrow> level_number a \<le> level_number b"

definition less_mpi_level :: "mpi_level \<Rightarrow> mpi_level \<Rightarrow> bool" where
  "less_mpi_level a b \<longleftrightarrow> level_number a < level_number b"

instance
proof
  fix a b c :: mpi_level
  show "a \<le> b \<Longrightarrow> b \<le> a \<Longrightarrow> a = b"
    by (cases a; cases b) (simp_all add: less_eq_mpi_level_def)
qed (auto simp: less_eq_mpi_level_def less_mpi_level_def)

end

record mpi_env =                 \<comment> \<open>the MPI library, as the calls below find it\<close>
  env_initialized :: bool        \<comment> \<open>what \<open>MPI_Initialized\<close> says: also true behind \<open>MPI_Finalize\<close>\<close>
  env_finalized :: bool
  env_level :: mpi_level         \<comment> \<open>what it provides\<close>
  env_rank :: int
  env_size :: int

record mpi_wrapper =
  mpi_inited :: bool
  thread_provided :: mpi_level
  mpi_rank :: int
  mpi_size :: int

definition mpi_Init :: "mpi_env \<Rightarrow> mpi_wrapper \<Rightarrow> (mpi_env \<times> mpi_wrapper) res" where
  \<comment> \<open>\<open>MPI_Init_thread\<close> if nobody has called it, then \<open>MPI_Query_thread\<close>, which is an
    error behind \<open>MPI_Finalize\<close>, rank and size\<close>
  "mpi_Init e w =
     (let e' = e\<lparr>env_initialized := True\<rparr> in
      if env_finalized e then Inl Check
      else if env_level e' < MPI_THREAD_SERIALIZED then Inl Fatal
      else Inr (e', w\<lparr>mpi_inited := True, thread_provided := env_level e',
                     mpi_rank := env_rank e', mpi_size := env_size e'\<rparr>))"

definition mpi_Finalize :: "mpi_env \<Rightarrow> mpi_wrapper \<Rightarrow> mpi_env \<times> mpi_wrapper" where
  "mpi_Finalize e w = (e\<lparr>env_finalized := True\<rparr>, w\<lparr>mpi_inited := False\<rparr>)"

definition mpi_Bind :: "int \<Rightarrow> string \<Rightarrow> int res" where "mpi_Bind r addr = Inl Fatal"

definition mpi_Connect :: "int list \<Rightarrow> string list \<Rightarrow> int res" where "mpi_Connect rs addrs = Inl Fatal"

definition mpi_active :: "mpi_wrapper \<Rightarrow> bool" where "mpi_active w \<longleftrightarrow> mpi_inited w"

datatype NetThreadLevel = THREAD_SERIALIZED | THREAD_MULTIPLE

definition mpi_thread_level_support :: "mpi_wrapper \<Rightarrow> NetThreadLevel" where
  "mpi_thread_level_support w =
     (if thread_provided w = MPI_THREAD_MULTIPLE then THREAD_MULTIPLE else THREAD_SERIALIZED)"

definition zmq_thread_level_support :: NetThreadLevel where
  "zmq_thread_level_support = THREAD_MULTIPLE"

section \<open>The loops of the communicator\<close>

definition comm_TryPop :: "process \<Rightarrow> (message option \<times> process) res" where
  "comm_TryPop p = (case p_actors p kCommunicator of
       None \<Rightarrow> Inl NullDeref
     | Some q \<Rightarrow> (case queue_TryPop q of
           None \<Rightarrow> Inr (None, p)
         | Some (m, q') \<Rightarrow> Inr (Some m, p\<lparr>p_actors := (p_actors p)(kCommunicator \<mapsto> q')\<rparr>)))"

definition comm_main_step :: "process \<Rightarrow> process res" where
  \<comment> \<open>\<open>THREAD_MULTIPLE\<close>: one turn of \<open>Actor::Main\<close>, or none when the mailbox is empty\<close>
  "comm_main_step p = bind_res (comm_TryPop p) (\<lambda>(mo, p1). case mo of
       None \<Rightarrow> Inr p1
     | Some m \<Rightarrow> bind_res (actor_dispatch communicator_handlers m) (\<lambda>h.
         case h of CommunicatorProcessMessage \<Rightarrow> comm_ProcessMessage m p1 | _ \<Rightarrow> Inl Fatal))"

definition mpi_received :: "blob option \<Rightarrow> i32" where
  \<comment> \<open>the result of \<open>MPINetWrapper::Recv\<close>\<close>
  "mpi_received arrived = (case arrived of None \<Rightarrow> 0 | Some wire \<Rightarrow> of_nat (length wire))"

definition serial_iteration :: "blob option \<Rightarrow> process \<times> mpi_net \<Rightarrow> (process \<times> mpi_net) res" where
  \<comment> \<open>\<open>THREAD_SERIALIZED\<close>: one turn of the loop; \<open>msg\<close> is null again behind \<open>ProcessMessage\<close> and
    \<open>LocalForward\<close>, which move the message out of it\<close>
  "serial_iteration arrived = (\<lambda>(p, w).
     bind_res (comm_TryPop p) (\<lambda>(mo, p1).
     bind_res (case mo of None \<Rightarrow> Inr p1 | Some m \<Rightarrow> comm_ProcessMessage m p1) (\<lambda>p2.
     bind_res (mpi_Recv arrived w) (\<lambda>(w', msg).
     let size = scast (mpi_received arrived) :: u64 in
     bind_res (if size > 0 then (case msg of None \<Rightarrow> Inl NullDeref
                                  | Some m \<Rightarrow> bind_res (LocalForward m p2) (\<lambda>p3. Inr (None, p3)))
               else Inr (msg, p2)) (\<lambda>(msg', p3).
     bind_res (check (msg' = None)) (\<lambda>_.
     bind_res (mpi_Send False msg' w') (\<lambda>(w'', _). Inr (p3, w''))))))))"

definition mailbox_alive :: "process \<Rightarrow> bool" where
  "mailbox_alive p = (case p_actors p kCommunicator of None \<Rightarrow> False | Some q \<Rightarrow> queue_Alive q)"

fun serial_loop :: "blob option list \<Rightarrow> process \<times> mpi_net \<Rightarrow> (process \<times> mpi_net) res" where
  \<comment> \<open>as long as the list of what the probes find lasts\<close>
  "serial_loop [] s = Inr s"
| "serial_loop (a # as) s =
     (if mailbox_alive (fst s) then bind_res (serial_iteration a s) (serial_loop as) else Inr s)"

section \<open>The Zoo\<close>

definition zoo_StartPS :: "string \<Rightarrow> int \<Rightarrow> int \<Rightarrow> message \<Rightarrow> message \<Rightarrow> process \<Rightarrow> (zoo \<times> process) res" where
  \<comment> \<open>\<open>reg\<close> and \<open>bar\<close>: what \<open>RegisterNode\<close> and \<open>Barrier\<close> pop from the mailbox of the \<open>Zoo\<close>\<close>
  "zoo_StartPS ps_role r sz reg bar p =
     (let role = ParsePSRole ps_role in
     bind_res (StartPS_nodes r sz ps_role) (\<lambda>z0.
     let p1 = p\<lparr>p_mailbox := empty_queue\<rparr> in
     bind_res (if r = kController then RegisterActor kControllerName p1 else Inr p1) (\<lambda>p2.
     bind_res (RegisterActor kCommunicator p2) (\<lambda>p3.
     bind_res (register_request z0) (\<lambda>m.
     bind_res (zoo_SendTo kCommunicator m p3) (\<lambda>p4.
     bind_res (RegisterNode_reply z0 reg) (\<lambda>z1.
     bind_res (if is_server role then RegisterActor kServer p4 else Inr p4) (\<lambda>p5.
     bind_res (if is_worker role then RegisterActor kWorker p5 else Inr p5) (\<lambda>p6.
     bind_res (zoo_SendTo kCommunicator (barrier_request z1) p6) (\<lambda>p7.
     bind_res (Barrier_reply bar) (\<lambda>_. Inr (z1, p7))))))))))))"

definition zoo_StopPS :: "zoo \<Rightarrow> message \<Rightarrow> process \<Rightarrow> process res" where
  \<comment> \<open>\<open>Stop\<close> of an actor waits until its mailbox is empty and makes it exit\<close>
  "zoo_StopPS z bar p =
     bind_res (zoo_SendTo kCommunicator (barrier_request z) p) (\<lambda>p1.
     bind_res (Barrier_reply bar) (\<lambda>_.
       Inr (p1\<lparr>p_actors := \<lambda>name. map_option (\<lambda>q. queue_Exit (q\<lparr>buffer := []\<rparr>)) (p_actors p1 name)\<rparr>)))"

record 't zoo_state =
  inited :: bool
  sys :: zoo
  proc :: process
  net_active :: bool
  server_tables :: "'t list"

definition new_zoo_state :: "'t zoo_state" where
  "new_zoo_state = \<lparr>inited = False,
     sys = \<lparr>zoo_rank = 0, zoo_size = 0, nodes = [], server_ranks = [], worker_ranks = [], num_workers = 0, num_servers = 0\<rparr>,
     proc = \<lparr>p_rank = 0, p_actors = Map.empty, p_mailbox = empty_queue, p_sent = []\<rparr>,
     net_active = False, server_tables = []\<rparr>"

definition zoo_Start :: "bool \<Rightarrow> string \<Rightarrow> int \<Rightarrow> int \<Rightarrow> message \<Rightarrow> message \<Rightarrow> 't zoo_state \<Rightarrow> 't zoo_state res" where
  \<comment> \<open>\<open>ma\<close> and \<open>ps_role\<close>: the flags behind \<open>ParseCMDFlags\<close>; \<open>r\<close> and \<open>sz\<close>: what the network finds\<close>
  "zoo_Start ma ps_role r sz reg bar s =
     (if inited s then Inr s else
      let p = (proc s)\<lparr>p_rank := r\<rparr> in
      bind_res (if ma then Inr (sys s, p) else zoo_StartPS ps_role r sz reg bar p) (\<lambda>(z, p').
        Inr (s\<lparr>inited := True, sys := z, proc := p', net_active := True\<rparr>)))"

definition zoo_Stop :: "bool \<Rightarrow> bool \<Rightarrow> message \<Rightarrow> 't zoo_state \<Rightarrow> 't zoo_state res" where
  \<comment> \<open>\<open>inited_\<close> stays as it is\<close>
  "zoo_Stop ma finalize_net bar s =
     bind_res (if ma then Inr (proc s) else zoo_StopPS (sys s) bar (proc s)) (\<lambda>p.
       Inr (s\<lparr>proc := p\<lparr>p_actors := Map.empty\<rparr>, net_active := net_active s \<and> \<not> finalize_net,
              server_tables := FreeServerTables (server_tables s)\<rparr>))"

definition zoo_RegisterTable :: "string \<Rightarrow> process \<Rightarrow> unit res" where
  \<comment> \<open>both overloads: \<open>zoo_[name]\<close> of an actor that does not exist is null\<close>
  "zoo_RegisterTable name p = (case p_actors p name of None \<Rightarrow> Inl NullDeref | Some _ \<Rightarrow> Inr ())"

section \<open>Properties\<close>

lemma mpi_Init_level:
  assumes "mpi_Init e w = Inr (e', w')"
  shows "mpi_active w' \<and> (mpi_thread_level_support w' = THREAD_MULTIPLE \<longleftrightarrow> env_level e = MPI_THREAD_MULTIPLE)
    \<and> thread_provided w' \<in> {MPI_THREAD_SERIALIZED, MPI_THREAD_MULTIPLE}"
  using assms by (cases "env_level e")
    (auto simp: mpi_Init_def mpi_active_def mpi_thread_level_support_def less_mpi_level_def Let_def split: if_splits)

lemma mpi_Init_once: "mpi_Init (fst (mpi_Finalize e w)) (snd (mpi_Finalize e w)) = Inl Check"
  by (simp add: mpi_Init_def mpi_Finalize_def)

text \<open>A code in the loop of \<open>THREAD_SERIALIZED\<close>: \<open>Recv\<close> may return -1 by its interface, and the loop
  converts the result to \<open>size_t\<close> before it asks whether it is positive.\<close>

lemma serial_size_of_error: "(scast (-1 :: i32) :: u64) > 0"
  by (simp add: word_gt_0)

lemma communicator_dispatches: "actor_dispatch communicator_handlers m = Inr CommunicatorProcessMessage"
  by (simp add: handler_tables)

lemma comm_main_step_eq:
  "comm_main_step p = bind_res (comm_TryPop p) (\<lambda>(mo, p1). case mo of
     None \<Rightarrow> Inr p1 | Some m \<Rightarrow> comm_ProcessMessage m p1)"
  unfolding comm_main_step_def communicator_dispatches by (simp cong: option.case_cong)

lemma scast_pos: "0 < n \<Longrightarrow> n < 2 ^ 31 \<Longrightarrow> (scast (of_nat n :: i32) :: u64) > 0"
proof -
  assume n: "0 < n" "n < 2 ^ 31"
  have "(scast (of_nat n :: i32) :: u64) = word_of_int (int n)"
    using n(2) by (simp add: scast_eq sint_i32_of_nat)
  moreover have "uint (word_of_int (int n) :: u64) = int n"
    using n(2) by (simp add: unsigned_of_nat take_bit_nat_eq_self_iff)
  ultimately have "uint (scast (of_nat n :: i32) :: u64) = int n" by simp
  with n(1) show ?thesis by (simp add: word_less_alt)
qed

text \<open>C19. The two thread modes of the communicator do the same work: a turn of the serialised loop is
  a turn of the mailbox loop followed by a turn of the receiving thread, one of the
  interleavings the two threads of the other mode have. A message taken from the mailbox or from
  MPI is handed on exactly once, and the \<open>CHECK\<close> that the message pointer is null again holds.\<close>

theorem serialized_is_interleaving:
  assumes m: "\<forall>m \<in> set_option mo. wf_message m \<and> wire_len m < 2 ^ 31 \<and> [] \<notin> set (msg_data m)"
  shows "\<exists>w'. serial_iteration (map_option wire_of mo) (p, w) =
    bind_res (comm_main_step p) (\<lambda>p1.
    bind_res (Communicate_step (case mo of None \<Rightarrow> (0, new_message) | Some m \<Rightarrow> (int (wire_len m), m)) p1) (\<lambda>p2.
      Inr (p2, w')))"
proof (cases mo)
  case None
  then show ?thesis
    by (intro exI [of _ w])
      (simp add: serial_iteration_def comm_main_step_eq mpi_Recv_def mpi_received_def mpi_Send_def
        Communicate_step_def bind_res_assoc split_def)
next
  case (Some m)
  with m have m: "wf_message m" "wire_len m < 2 ^ 31" "[] \<notin> set (msg_data m)" by simp_all
  obtain w' where recv: "mpi_Recv (Some (wire_of m)) w = Inr (w', Some m)"
    using mpi_Recv_wire [OF m(1,2), of w] m(3) by auto
  have len: "length (wire_of m) = wire_len m" "0 < wire_len m"
    using length_wire_of [OF m(1)] by (simp_all add: wire_len_def)
  have size: "(scast (mpi_received (Some (wire_of m))) :: u64) > 0"
    unfolding mpi_received_def option.case len(1) by (rule scast_pos [OF len(2) m(2)])
  have step: "Communicate_step (int (wire_len m), m) p1 = LocalForward m p1" for p1
    using len(2) by (cases "sint (msg_dst m) = p_rank p1") (simp_all add: Communicate_step_def LocalForward_def)
  show ?thesis
    using Some recv size len step
    by (intro exI [of _ w']) (simp add: serial_iteration_def comm_main_step_eq mpi_Send_def bind_res_assoc split_def)
qed

section \<open>Starting a system\<close>

lemma actor_names [simp]:
  "kCommunicator \<noteq> kControllerName" "kCommunicator \<noteq> kServer" "kCommunicator \<noteq> kWorker"
  "kControllerName \<noteq> kCommunicator" "kControllerName \<noteq> kServer" "kControllerName \<noteq> kWorker"
  "kServer \<noteq> kCommunicator" "kServer \<noteq> kControllerName" "kServer \<noteq> kWorker"
  "kWorker \<noteq> kCommunicator" "kWorker \<noteq> kControllerName" "kWorker \<noteq> kServer"
  by (simp_all add: kCommunicator_def kControllerName_def kServer_def kWorker_def)

definition actors_of :: "int \<Rightarrow> i32 \<Rightarrow> string list" where
  \<comment> \<open>the actors a process of this rank and role has\<close>
  "actors_of r role = kCommunicator # (if r = kController then [kControllerName] else [])
     @ (if is_server role then [kServer] else []) @ (if is_worker role then [kWorker] else [])"

lemma zoo_StartPS_ok:
  assumes nodes: "StartPS_nodes r sz flag = Inr z0" "register_request z0 = Inr m"
    and replies: "RegisterNode_reply z0 reg = Inr z1" "Barrier_reply bar = Inr ()"
    and fresh: "p_actors p = Map.empty"
  shows "\<exists>p'. zoo_StartPS flag r sz reg bar p = Inr (z1, p') \<and> p_rank p' = p_rank p
    \<and> dom (p_actors p') = set (actors_of r (ParsePSRole flag))
    \<and> map_option buffer (p_actors p' kCommunicator) = Some [m, barrier_request z1]"
proof -
  define p1 where "p1 = p\<lparr>p_mailbox := empty_queue\<rparr>"
  define p2 where "p2 = (if r = kController then p1\<lparr>p_actors := [kControllerName \<mapsto> empty_queue]\<rparr> else p1)"
  define p4 where "p4 = p2\<lparr>p_actors := (p_actors p2)(kCommunicator \<mapsto> queue_Push m empty_queue)\<rparr>"
  define p5 where "p5 = (if is_server (ParsePSRole flag) then p4\<lparr>p_actors := (p_actors p4)(kServer \<mapsto> empty_queue)\<rparr> else p4)"
  define p6 where "p6 = (if is_worker (ParsePSRole flag) then p5\<lparr>p_actors := (p_actors p5)(kWorker \<mapsto> empty_queue)\<rparr> else p5)"
  define p7 where "p7 = p6\<lparr>p_actors := (p_actors p6)(kCommunicator \<mapsto> queue_Push (barrier_request z1) (queue_Push m empty_queue))\<rparr>"
  have 1: "(if r = kController then RegisterActor kControllerName p1 else Inr p1) = Inr p2"
    using fresh by (simp add: RegisterActor_def p1_def p2_def)
  have a2: "p_actors p2 kCommunicator = None" "p_actors p2 kServer = None" "p_actors p2 kWorker = None"
    using fresh by (simp_all add: p1_def p2_def)
  have 2: "bind_res (RegisterActor kCommunicator p2) (\<lambda>p3. bind_res (zoo_SendTo kCommunicator m p3) f) = f p4"
    for f :: "process \<Rightarrow> (zoo \<times> process) res"
    using a2 by (simp add: RegisterActor_def zoo_SendTo_def p4_def)
  have 3: "(if is_server (ParsePSRole flag) then RegisterActor kServer p4 else Inr p4) = Inr p5"
    using a2 by (simp add: RegisterActor_def p4_def p5_def)
  have 4: "(if is_worker (ParsePSRole flag) then RegisterActor kWorker p5 else Inr p5) = Inr p6"
    using a2 by (simp add: RegisterActor_def p4_def p5_def p6_def)
  have a6: "p_actors p6 kCommunicator = Some (queue_Push m empty_queue)"
    by (simp add: p6_def p5_def p4_def)
  then have 5: "zoo_SendTo kCommunicator (barrier_request z1) p6 = Inr p7" by (simp add: zoo_SendTo_def p7_def)
  have "zoo_StartPS flag r sz reg bar p = Inr (z1, p7)"
    unfolding zoo_StartPS_def Let_def nodes bind_res_simps p1_def [symmetric] 1 2 replies 3 4 5 ..
  moreover have "p_rank p7 = p_rank p" by (simp add: p7_def p6_def p5_def p4_def p2_def p1_def)
  moreover have "dom (p_actors p7) = set (actors_of r (ParsePSRole flag))"
    using fresh by (auto simp: p7_def p6_def p5_def p4_def p2_def p1_def actors_of_def)
  ultimately show ?thesis by (simp add: p7_def)
qed

text \<open>C14. A whole system starts: whatever roles the flags give the \<open>n\<close> processes and in whatever
  order their registrations reach the controller, \<open>StartPS\<close> succeeds on every rank with the reply the
  controller sends it. The tables of the rank agree, it has sent its registration and then its
  barrier request through the communicator, it has exactly the actors of its rank and role, and
  the communicator can deliver every message of the protocol that is for one of them or for
  the \<open>Zoo\<close>.\<close>

theorem system_starts:
  assumes n: "n < 2 ^ 31" and flags: "\<forall>i < n. ParsePSRole (flags i) \<noteq> -1"
    and arrival: "distinct is" "set is = {..<n}" and i: "i < n"
    and p: "p_actors p = Map.empty" "p_rank p = int i"
  shows "\<exists>z0 out c z p'. StartPS_nodes 0 (int n) (flags 0) = Inr z0
    \<and> registration z0 (map (request_of (\<lambda>i. ParsePSRole (flags i))) is) (new_controller z0) = Inr (out, c)
    \<and> zoo_StartPS (flags i) (int i) (int n) (out ! (n - 1 - i)) (CreateReplyMessage (from_rank i)) p = Inr (z, p')
    \<and> zoo_ok z \<and> zoo_rank z = int i
    \<and> dom (p_actors p') = set (actors_of (int i) (ParsePSRole (flags i)))
    \<and> map_option buffer (p_actors p' kCommunicator) = Some [request_of (\<lambda>i. ParsePSRole (flags i)) i, from_rank i]
    \<and> (\<forall>m t. msg_type m = type_code t \<and> sint (msg_dst m) = int i
        \<and> (\<forall>(a, hs) \<in> set_option (recipient t). a \<in> set (actors_of (int i) (ParsePSRole (flags i))))
        \<longrightarrow> (\<exists>p''. LocalForward m p' = Inr p''))"
proof -
  let ?role = "\<lambda>i. ParsePSRole (flags i)"
  let ?z0 = "started n flags 0" and ?out = "register_replies (started n flags 0) ?role n is"
  have n0: "0 < n" using i by simp
  have z0: "StartPS_nodes 0 (int n) (flags 0) = Inr ?z0" using StartPS_started(1) [OF n0, of flags] flags n0 by simp
  have size: "zoo_size ?z0 = int n" by (simp add: started_def)
  have run: "registration ?z0 (map (request_of ?role) is) (new_controller ?z0)
      = Inr (?out, new_controller ?z0\<lparr>register_controller := register_state ?role n is\<rparr>)"
    using registration_run [OF size n, of "is" n ?role] arrival arrivals_length [OF arrival] n0 by simp
  have bar: "Barrier_reply (CreateReplyMessage (from_rank i)) = Inr ()" by (simp add: Barrier_reply_def)
  have rank: "zoo_rank (registered n ?role is i) = int i" by (simp add: registered_def)
  have flag: "ParsePSRole (flags i) \<noteq> -1" using flags i by simp
  note started = StartPS_started [OF i, of flags, OF flag]
  note reply = RegisterNode_reply_ok [OF n arrival i, where flags = flags and role = ?role and z = ?z0]
  obtain p' where p': "zoo_StartPS (flags i) (int i) (int n) (?out ! (n - 1 - i)) (CreateReplyMessage (from_rank i)) p
        = Inr (registered n ?role is i, p')" "p_rank p' = int i"
      "dom (p_actors p') = set (actors_of (int i) (?role i))"
      "map_option buffer (p_actors p' kCommunicator) = Some [request_of ?role i, from_rank i]"
    using zoo_StartPS_ok [OF started reply bar p(1)] p(2) barrier_request_rank [OF rank] by auto
  have "\<exists>p''. LocalForward m p' = Inr p''"
    if "msg_type m = type_code t" "sint (msg_dst m) = int i"
      "\<forall>(a, hs) \<in> set_option (recipient t). a \<in> set (actors_of (int i) (?role i))" for m t
  proof (cases "recipient t")
    case None
    then show ?thesis using forward_recipient [OF that(1)] that(2) p'(2) by simp
  next
    case (Some r)
    obtain a hs where r: "r = (a, hs)" by (cases r)
    with Some that(3) have "a \<in> dom (p_actors p')" using p'(3) by simp
    then show ?thesis using forward_recipient [OF that(1)] that(2) p'(2) Some r by (auto simp: zoo_SendTo_def)
  qed
  with z0 run p' registered_ok [OF n arrival] rank show ?thesis by blast
qed

text \<open>C25. A process that has stopped its system cannot start it again: \<open>Stop\<close> forgets the actors but
  leaves \<open>inited_\<close> set, so the next \<open>Start\<close> does nothing, with whatever flags, and the first message
  anybody sends fails the \<open>CHECK\<close> of \<open>SendTo\<close>; registering a table dereferences null.\<close>

theorem restart_is_dead:
  assumes "zoo_Start ma ps_role r sz reg bar new_zoo_state = Inr s1" and "zoo_Stop ma finalize_net bar' s1 = Inr s2"
  shows "zoo_Start ma' ps_role' r' sz' reg' bar'' s2 = Inr s2
    \<and> zoo_SendTo name m (proc s2) = Inl Check \<and> zoo_RegisterTable name (proc s2) = Inl NullDeref"
proof -
  have "inited s1" using assms(1) by (auto simp: zoo_Start_def new_zoo_state_def Let_def)
  then show ?thesis using assms(2) by (auto simp: zoo_Stop_def zoo_Start_def zoo_SendTo_def zoo_RegisterTable_def)
qed

definition demo_communicator :: process where
  "demo_communicator = \<lparr>p_rank = 1, p_actors = [kCommunicator \<mapsto> queue_Push (set_dst 0 new_message) empty_queue,
     kServer \<mapsto> empty_queue], p_mailbox = empty_queue, p_sent = []\<rparr>"

lemma serialized_is_interleaving_witness:
  "\<exists>w'. serial_iteration (map_option wire_of (Some (set_type (type_code Request_Get) (set_dst 1 new_message))))
      (demo_communicator, \<lparr>handles = [], recv_buffer = []\<rparr>) =
    Inr (demo_communicator\<lparr>p_sent := [set_dst 0 new_message],
      p_actors := [kCommunicator \<mapsto> empty_queue,
        kServer \<mapsto> queue_Push (set_type (type_code Request_Get) (set_dst 1 new_message)) empty_queue]\<rparr>, w')"
proof -
  have m: "\<forall>m \<in> set_option (Some (set_type (type_code Request_Get) (set_dst 1 new_message))).
      wf_message m \<and> wire_len m < 2 ^ 31 \<and> [] \<notin> set (msg_data m)"
    by (simp add: wire_len_def kHeaderSize_def set_type_def set_dst_def new_message_def wf_message_def)
  have len: "0 < wire_len (set_type (type_code Request_Get) (set_dst 1 new_message))" by (simp add: wire_len_def)
  have q: "queue_Push (set_dst 0 new_message) empty_queue\<lparr>buffer := []\<rparr> = empty_queue"
    by (simp add: queue_Push_def empty_queue_def)
  from serialized_is_interleaving [OF m, of demo_communicator "\<lparr>handles = [], recv_buffer = []\<rparr>"] len q
  show ?thesis
    by (simp add: demo_communicator_def comm_main_step_def comm_TryPop_def queue_TryPop_def communicator_dispatches
        comm_ProcessMessage_def Communicate_step_def LocalForward_def to_server_def zoo_SendTo_def
        fun_upd_twist [OF actor_names(1)] fun_upd_twist [OF actor_names(2)])
qed

definition demo_flags :: "nat \<Rightarrow> string" where
  "demo_flags i = (if i = 0 then ''default'' else ''worker'')"

lemma system_starts_witness:
  "\<exists>z0 out c z p'. StartPS_nodes 0 (int 2) (demo_flags 0) = Inr z0
    \<and> registration z0 (map (request_of (\<lambda>i. ParsePSRole (demo_flags i))) [1, 0]) (new_controller z0) = Inr (out, c)
    \<and> zoo_StartPS (demo_flags 1) (int 1) (int 2) (out ! (2 - 1 - 1)) (CreateReplyMessage (from_rank 1))
        \<lparr>p_rank = 1, p_actors = Map.empty, p_mailbox = empty_queue, p_sent = []\<rparr> = Inr (z, p')
    \<and> dom (p_actors p') = {kCommunicator, kWorker}"
proof -
  have n: "(2 :: nat) < 2 ^ 31" "1 < (2 :: nat)" by simp_all
  have arrival: "distinct [1, 0 :: nat]" "set [1, 0] = {..<2 :: nat}" by auto
  have flags: "\<forall>i < 2. ParsePSRole (demo_flags i) \<noteq> -1" by (simp add: ParsePSRole_def demo_flags_def)
  have names: "set (actors_of (int 1) (ParsePSRole (demo_flags 1))) = {kCommunicator, kWorker}"
    using is_server_code [of R_WORKER] is_worker_code [of R_WORKER]
    by (auto simp: ParsePSRole_def demo_flags_def actors_of_def kController_def)
  have fresh: "p_actors \<lparr>p_rank = 1, p_actors = Map.empty, p_mailbox = empty_queue, p_sent = []\<rparr> = Map.empty"
    "p_rank \<lparr>p_rank = 1, p_actors = Map.empty, p_mailbox = empty_queue, p_sent = []\<rparr> = int 1" by simp_all
  from system_starts [OF n(1) flags arrival n(2) fresh] names show ?thesis
    by (elim exE conjE) (intro exI conjI; (assumption | simp only: names))
qed

lemma restart_is_dead_witness:
  "\<exists>s1 s2 :: nat zoo_state. zoo_Start True ''default'' 0 1 new_message new_message new_zoo_state = Inr s1
    \<and> zoo_Stop True False new_message s1 = Inr s2
    \<and> zoo_Start False ''default'' 0 1 new_message new_message s2 = Inr s2
    \<and> zoo_SendTo kCommunicator new_message (proc s2) = Inl Check"
proof -
  let ?s1 = "new_zoo_state\<lparr>inited := True, net_active := True\<rparr> :: nat zoo_state"
  have 1: "zoo_Start True ''default'' 0 1 new_message new_message new_zoo_state = Inr ?s1"
    by (simp add: zoo_Start_def new_zoo_state_def)
  have 2: "zoo_Stop True False new_message ?s1 = Inr ?s1"
    by (simp add: zoo_Stop_def new_zoo_state_def FreeServerTables_def)
  from restart_is_dead [OF 1 2] 1 2 show ?thesis by blast
qed

section \<open>The C interface\<close>

definition HPPS_ZooStart :: "(string \<Rightarrow> 'd) \<Rightarrow> string \<Rightarrow> int \<Rightarrow> int \<Rightarrow> message \<Rightarrow> message \<Rightarrow>
    'd flags \<times> 't zoo_state \<Rightarrow> ('d flags \<times> 't zoo_state) res" where
  "HPPS_ZooStart strtod args r sz reg bar = (\<lambda>(fl, s).
     if inited s then Inr (fl, s) else
     bind_res (HPPS_ZooStart_args strtod args fl) (\<lambda>(argv, argc, fl').
     bind_res (zoo_Start (fst (GetValue False ''ma'' (bool_flags fl')))
         (fst (GetValue [] ''ps_role'' (string_flags fl'))) r sz reg bar s) (\<lambda>s'. Inr (fl', s'))))"

definition HPPS_ZooStop :: "'d flags \<Rightarrow> message \<Rightarrow> 't zoo_state \<Rightarrow> 't zoo_state res" where
  "HPPS_ZooStop fl bar s = zoo_Stop (fst (GetValue False ''ma'' (bool_flags fl))) True bar s"

definition zoo_Barrier :: "message \<Rightarrow> 't zoo_state \<Rightarrow> 't zoo_state res" where
  "zoo_Barrier bar s =
     bind_res (zoo_SendTo kCommunicator (barrier_request (sys s)) (proc s)) (\<lambda>p.
     bind_res (Barrier_reply bar) (\<lambda>_. Inr (s\<lparr>proc := p\<rparr>)))"

definition HPPS_ZooBarrier :: "message \<Rightarrow> 't zoo_state \<Rightarrow> 't zoo_state res" where
  "HPPS_ZooBarrier bar s = zoo_Barrier bar s"

text \<open>The flags the program declares, with their defaults.\<close>

definition zoo_flags :: "'d flags" where
  "zoo_flags = \<lparr>string_flags = [''ps_role'' \<mapsto> (''default'', ''none / worker / server / default'')],
     int_flags = Map.empty, double_flags = Map.empty,
     bool_flags = [''ma'' \<mapsto> (False, ''model average, will not start server if true'')]\<rparr>"

lemma zoo_ma_args:
  "HPPS_ZooStart_args strtod ''-ma=true'' zoo_flags = Inr ([''-ma=true''], 0, (zoo_flags :: 'd flags)
     \<lparr>bool_flags := [''ma'' \<mapsto> (True, ''model average, will not start server if true'')]\<rparr>)"
  by (simp add: HPPS_ZooStart_args_def ParseCMDFlags_def StrSplit_def parse_step_def parse_flag_def zoo_flags_def
      SetFlagIfFound_def key_of_def value_of_def atoi_def digit_value_def is_space_def char_tolower_def Let_def)

text \<open>In the mode for model averaging the process runs, but has no actors: the barrier of the C
  interface ends it.\<close>

lemma ma_barrier_ends_process:
  "\<exists>fl s. HPPS_ZooStart strtod ''-ma=true'' r sz reg bar (zoo_flags, new_zoo_state :: 't zoo_state) = Inr (fl, s)
    \<and> inited s \<and> net_active s \<and> HPPS_ZooBarrier bar' s = Inl Check"
  by (simp add: HPPS_ZooStart_def zoo_ma_args GetValue_def zoo_Start_def new_zoo_state_def HPPS_ZooBarrier_def
      zoo_Barrier_def zoo_SendTo_def)

end
