(* ===== verification/Hdfs.thy ===== *)
theory Hdfs
  imports FileIO
begin

text \<open>
  The HDFS stream, compiled in with \<open>USE_HDFS\<close>: src/hpps/common/io/hdfs_stream.h and
  hdfs_stream.cc, and the branch of \<open>StreamFactory::GetStream\<close> (io.cc) that creates it. The
  functions of libhdfs are a record of parameters; what the code relies on of them, as their
  header documents it, are the predicates \<open>writes_some\<close> and \<open>reads_some\<close>. The loops of \<open>Write\<close> and
  \<open>Read\<close> need not end, so they are partial functions: \<open>None\<close> is a call that never returns.
\<close>

section \<open>The library\<close>

datatype open_flag = O_RDONLY | O_WRONLY | O_WRONLY_APPEND

datatype hdfs_read =
    Got "byte list"                  \<comment> \<open>a result that is not negative, and the bytes\<close>
  | Interrupted                      \<comment> \<open>negative, \<open>errno\<close> is \<open>EINTR\<close>\<close>
  | Failed

record ('fs, 'f) hdfs_lib =
  hdfsConnect :: "string \<Rightarrow> 'fs option"
  hdfsDisconnect :: "'fs \<Rightarrow> bool"                        \<comment> \<open>whether it succeeds\<close>
  hdfsOpenFile :: "'fs \<Rightarrow> string \<Rightarrow> open_flag \<Rightarrow> 'f option"
  hdfsWrite :: "'f \<Rightarrow> byte list \<Rightarrow> i32 \<Rightarrow> i32 \<times> 'f"   \<comment> \<open>the bytes at the pointer, and \<open>length\<close>\<close>
  hdfsRead :: "'f \<Rightarrow> i32 \<Rightarrow> hdfs_read \<times> 'f"
  hdfsSeek :: "'f \<Rightarrow> u64 \<Rightarrow> 'f option"
  hdfsHSync :: "'f \<Rightarrow> bool"
  hdfsCloseFile :: "'f option \<Rightarrow> bool"

section \<open>The stream\<close>

record 'f hdfs_stream =
  is_good :: bool
  fp :: "'f option"
  path :: string
  mode :: string

fun open_flag_of :: "open_mode \<Rightarrow> open_flag" where
  "open_flag_of Write = O_WRONLY"
| "open_flag_of Read = O_RDONLY"
| "open_flag_of Append = O_WRONLY_APPEND"
| "open_flag_of BinaryWrite = O_WRONLY"
| "open_flag_of BinaryRead = O_RDONLY"
| "open_flag_of BinaryAppend = O_WRONLY_APPEND"

definition HDFSStream_new :: "('fs, 'f) hdfs_lib \<Rightarrow> 'fs \<Rightarrow> URI \<Rightarrow> open_mode \<Rightarrow> 'f hdfs_stream" where
  \<comment> \<open>the member \<open>mode_\<close> is never assigned\<close>
  "HDFSStream_new lib fs uri md = (case hdfsOpenFile lib fs (uri_name uri) (open_flag_of md) of
       None \<Rightarrow> \<lparr>is_good = False, fp = None, path = [], mode = []\<rparr>
     | Some f \<Rightarrow> \<lparr>is_good = True, fp = Some f, path = uri_name uri, mode = []\<rparr>)"

datatype close_call = HSync | CloseFile

definition HDFSStream_destroy :: "('fs, 'f) hdfs_lib \<Rightarrow> 'f hdfs_stream \<Rightarrow> close_call list \<times> bool" where
  \<comment> \<open>the calls the destructor makes, and \<open>is_good_\<close> behind them\<close>
  "HDFSStream_destroy lib s =
     (let syncs = (mode s = ''a'' \<or> mode s = ''w'');
          good1 = (is_good s \<and> (syncs \<longrightarrow> (case fp s of None \<Rightarrow> False | Some f \<Rightarrow> hdfsHSync lib f))) in
      ((if syncs then [HSync] else []) @ [CloseFile], good1 \<and> hdfsCloseFile lib (fp s)))"

definition bytes_at :: "byte list \<Rightarrow> u64 \<Rightarrow> i32 \<Rightarrow> byte list" where
  "bytes_at buf off len = take (nat (sint len)) (drop (unat off) buf)"

partial_function (option) write_loop ::
    "('fs, 'f) hdfs_lib \<Rightarrow> byte list \<Rightarrow> u64 \<Rightarrow> u64 \<Rightarrow> 'f \<Rightarrow> 'f res option" where
  \<comment> \<open>\<open>c_buf\<close> is \<open>buf + off\<close>; \<open>size\<close> is converted to the \<open>tSize\<close> of the call, an \<open>int32_t\<close>\<close>
  "write_loop lib buf off sz f =
     (if sz > 0 then
        (case hdfsWrite lib f (bytes_at buf off (ucast sz)) (ucast sz) of
           (nwrite, f') \<Rightarrow> if nwrite = -1 then Some (Inl Fatal)
             else write_loop lib buf (off + scast nwrite) (sz - scast nwrite) f')
      else Some (Inr f))"

definition HDFSStream_Write :: "('fs, 'f) hdfs_lib \<Rightarrow> byte list \<Rightarrow> 'f \<Rightarrow> 'f res option" where
  "HDFSStream_Write lib buf f = write_loop lib buf 0 (of_nat (length buf)) f"

definition HDFSStream_Seek :: "('fs, 'f) hdfs_lib \<Rightarrow> u64 \<Rightarrow> 'f \<Rightarrow> 'f res" where
  "HDFSStream_Seek lib offset f = (case hdfsSeek lib f offset of None \<Rightarrow> Inl Fatal | Some f' \<Rightarrow> Inr f')"

definition max_tSize :: u64 where "max_tSize = 2 ^ 31 - 1"

partial_function (option) read_loop ::
    "('fs, 'f) hdfs_lib \<Rightarrow> byte list \<Rightarrow> u64 \<Rightarrow> u64 \<Rightarrow> 'f \<Rightarrow> ((byte list \<times> u64 \<times> 'f) res) option" where
  "read_loop lib buf i sz f =
     (if i < sz then
        (case hdfsRead lib f (ucast (min (sz - i) max_tSize)) of
           (Got bs, f') \<Rightarrow>
             if bs = [] then Some (Inr (buf, i, f'))
             else (case buf_write buf (unat i) bs of
                 Inl e \<Rightarrow> Some (Inl e)
               | Inr buf' \<Rightarrow> read_loop lib buf' (i + of_nat (length bs)) sz f')
         | (Interrupted, f') \<Rightarrow> read_loop lib buf i sz f'
         | (Failed, f') \<Rightarrow> Some (Inl Fatal))
      else Some (Inr (buf, i, f)))"

definition HDFSStream_Read :: "('fs, 'f) hdfs_lib \<Rightarrow> byte list \<Rightarrow> 'f \<Rightarrow> ((byte list \<times> u64 \<times> 'f) res) option" where
  "HDFSStream_Read lib buf f = read_loop lib buf 0 (of_nat (length buf)) f"

section \<open>The factories\<close>

definition HDFSStreamFactory_new :: "('fs, 'f) hdfs_lib \<Rightarrow> string \<Rightarrow> 'fs res" where
  "HDFSStreamFactory_new lib host = (case hdfsConnect lib host of None \<Rightarrow> Inl Fatal | Some fs \<Rightarrow> Inr fs)"

definition HDFSStreamFactory_Close :: "('fs, 'f) hdfs_lib \<Rightarrow> 'fs option \<Rightarrow> 'fs option res" where
  "HDFSStreamFactory_Close lib fs = (case fs of
       Some x \<Rightarrow> if hdfsDisconnect lib x then Inr None else Inl Fatal
     | None \<Rightarrow> Inr None)"

datatype 'fs stream_factory = LocalStreamFactory string | HDFSStreamFactory 'fs

definition find_factory ::
    "('fs, 'f) hdfs_lib \<Rightarrow> URI \<Rightarrow> (string \<rightharpoonup> 'fs stream_factory) \<Rightarrow> ('fs stream_factory \<times> (string \<rightharpoonup> 'fs stream_factory)) res" where
  \<comment> \<open>\<open>GetStream\<close> up to the call of \<open>Open\<close>: one factory for every scheme and host\<close>
  "find_factory lib uri instances =
     (let addr = uri_scheme uri @ ''://'' @ uri_host uri in
      case instances addr of
        Some fc \<Rightarrow> Inr (fc, instances)
      | None \<Rightarrow>
          if uri_scheme uri = ''file'' then
            (let fc = LocalStreamFactory (uri_host uri) in Inr (fc, instances(addr \<mapsto> fc)))
          else if uri_scheme uri = ''hdfs'' then
            bind_res (HDFSStreamFactory_new lib (uri_host uri)) (\<lambda>fs.
              Inr (HDFSStreamFactory fs, instances(addr \<mapsto> HDFSStreamFactory fs)))
          else Inl Fatal)"

definition factory_Open :: "('fs, 'f) hdfs_lib \<Rightarrow> 'fs stream_factory \<Rightarrow> URI \<Rightarrow> open_mode \<Rightarrow> disk \<Rightarrow>
    ((stream option \<times> disk) + 'f hdfs_stream)" where
  "factory_Open lib fc uri md d = (case fc of
       LocalStreamFactory _ \<Rightarrow> Inl (open_stream md (uri_path uri) d)
     | HDFSStreamFactory fs \<Rightarrow> Inr (HDFSStream_new lib fs uri md))"

section \<open>What the code relies on\<close>

text \<open>\<open>hdfsWrite\<close> returns the number of bytes it has written, and a call that does not fail makes
  progress; \<open>contents\<close> is the file. \<open>hdfsRead\<close> returns the number of bytes it has read, 0 at the end of
  the file; a call can be interrupted, but not for ever: \<open>patience\<close> bounds how often. \<open>ahead\<close> is
  what is left to read.\<close>

definition writes_some :: "('fs, 'f) hdfs_lib \<Rightarrow> ('f \<Rightarrow> byte list) \<Rightarrow> bool" where
  "writes_some lib contents \<longleftrightarrow> (\<forall>f bs. bs \<noteq> [] \<and> length bs < 2 ^ 31 \<longrightarrow>
     (\<exists>k f'. hdfsWrite lib f bs (of_nat (length bs)) = (of_nat k, f') \<and> 0 < k \<and> k \<le> length bs
       \<and> contents f' = contents f @ take k bs))"

definition reads_some :: "('fs, 'f) hdfs_lib \<Rightarrow> ('f \<Rightarrow> byte list) \<Rightarrow> ('f \<Rightarrow> nat) \<Rightarrow> bool" where
  "reads_some lib ahead patience \<longleftrightarrow> (\<forall>f n. 0 < n \<and> n < 2 ^ 31 \<longrightarrow>
     (\<exists>f'. hdfsRead lib f (of_nat n) = (Interrupted, f') \<and> ahead f' = ahead f \<and> patience f' < patience f)
   \<or> (\<exists>bs f'. hdfsRead lib f (of_nat n) = (Got bs, f') \<and> length bs \<le> n \<and> (bs = [] \<longleftrightarrow> ahead f = [])
       \<and> ahead f = bs @ ahead f'))"

section \<open>Properties\<close>

lemma ucast_small: "n < 2 ^ 31 \<Longrightarrow> (ucast (of_nat n :: u64) :: i32) = of_nat n"
  by (simp add: unsigned_of_nat take_bit_nat_eq_self)

lemma scast_small: "n < 2 ^ 31 \<Longrightarrow> (scast (of_nat n :: i32) :: u64) = of_nat n"
  by (simp add: scast_eq sint_i32_of_nat)

lemma unat_u64: "n < 2 ^ 64 \<Longrightarrow> unat (of_nat n :: u64) = n"
  by (simp add: unsigned_of_nat take_bit_nat_eq_self_iff)

lemma of_nat_u64_pos: "n < 2 ^ 64 \<Longrightarrow> (of_nat n :: u64) > 0 \<longleftrightarrow> 0 < n"
  using unat_u64 [of n] by (simp add: word_less_nat_alt)

lemma write_loop_all:
  assumes lib: "writes_some lib contents" and len: "length buf < 2 ^ 31"
  shows "o1 + n = length buf \<Longrightarrow> \<exists>f'. write_loop lib buf (of_nat o1) (of_nat n) f = Some (Inr f')
    \<and> contents f' = contents f @ drop o1 buf"
proof (induction n arbitrary: o1 f rule: less_induct)
  case (less n)
  show ?case
  proof (cases "n = 0")
    case True
    with less.prems show ?thesis by (subst write_loop.simps) simp
  next
    case False
    have n: "n < 2 ^ 31" "o1 < 2 ^ 31" using less.prems len by simp_all
    have l: "length (drop o1 buf) = n" using less.prems by simp
    have at: "bytes_at buf (of_nat o1) (of_nat n) = drop o1 buf"
      using n less.prems by (simp add: bytes_at_def sint_i32_of_nat unat_u64)
    obtain k f1 where k: "hdfsWrite lib f (drop o1 buf) (of_nat n) = (of_nat k, f1)" "0 < k" "k \<le> n"
        "contents f1 = contents f @ take k (drop o1 buf)"
      using lib [unfolded writes_some_def, rule_format, of "drop o1 buf" f, unfolded l] False n(1) l by auto
    have call: "hdfsWrite lib f (bytes_at buf (of_nat o1) (ucast (of_nat n :: u64))) (ucast (of_nat n :: u64)) = (of_nat k, f1)"
      by (simp only: ucast_small [OF n(1)] at k(1))
    have "sint (of_nat k :: i32) = int k" using k(3) n by (simp add: sint_i32_of_nat)
    then have "(of_nat k :: i32) \<noteq> -1" by auto
    moreover have "(of_nat o1 + scast (of_nat k :: i32) :: u64) = of_nat (o1 + k)"
      "(of_nat n - scast (of_nat k :: i32) :: u64) = of_nat (n - k)"
      using k(3) n by (simp_all add: scast_small of_nat_diff)
    moreover have "(of_nat n :: u64) > 0" using False n by (simp add: of_nat_u64_pos)
    ultimately have "write_loop lib buf (of_nat o1) (of_nat n) f = write_loop lib buf (of_nat (o1 + k)) (of_nat (n - k)) f1"
      by (subst write_loop.simps) (simp add: call)
    moreover obtain f' where "write_loop lib buf (of_nat (o1 + k)) (of_nat (n - k)) f1 = Some (Inr f')"
        "contents f' = contents f1 @ drop (o1 + k) buf"
      using less.IH [of "n - k" "o1 + k" f1] k less.prems False by auto
    moreover have "drop o1 buf = take k (drop o1 buf) @ drop (o1 + k) buf"
      by (metis add.commute append_take_drop_id drop_drop)
    ultimately show ?thesis using k(4) by auto
  qed
qed

text \<open>C32. \<open>Write\<close> returns and writes everything: if every call of \<open>hdfsWrite\<close> succeeds, writes at
  least one of the bytes it is given and reports how many, then the loop ends for any buffer
  below 2 GB, and the file ends with the whole buffer, whatever the sizes of the single writes.\<close>

theorem hdfs_write_all:
  assumes "writes_some lib contents" and "length buf < 2 ^ 31"
  shows "\<exists>f'. HDFSStream_Write lib buf f = Some (Inr f') \<and> contents f' = contents f @ buf"
  using write_loop_all [OF assms, of 0 "length buf" f] by (simp add: HDFSStream_Write_def)

text \<open>The bound is needed: at 4 GB the length becomes 0 in the conversion to \<open>tSize\<close>, every call writes
  nothing, and \<open>Write\<close> never returns.\<close>

lemma write_loop_stuck:
  assumes lib: "\<forall>f. hdfsWrite lib f [] 0 = (0, f)"
  shows "write_loop lib buf off (2 ^ 32) f = None"
proof -
  have "l = lib \<and> sz = 2 ^ 32 \<longrightarrow> False" if "write_loop l b off sz g = Some y" for l b off g y and sz :: u64
    using that
  proof (rule write_loop.raw_induct [where P = "\<lambda>l b off sz g y. l = lib \<and> sz = 2 ^ 32 \<longrightarrow> False", rotated])
    fix wl l b off g y and sz :: u64
    assume IH: "\<And>l b off sz g y. wl l b off sz g = Some y \<Longrightarrow> l = lib \<and> sz = 2 ^ 32 \<longrightarrow> False"
      and body: "(if 0 < sz then case hdfsWrite l g (bytes_at b off (ucast sz)) (ucast sz) of
          (nwrite, g') \<Rightarrow> if nwrite = - 1 then Some (Inl Fatal) else wl l b (off + scast nwrite) (sz - scast nwrite) g'
        else Some (Inr g)) = Some y"
    have none: "bytes_at b off 0 = []" by (simp add: bytes_at_def)
    have u: "(ucast (2 ^ 32 :: u64) :: i32) = 0" "(0 :: u64) < 2 ^ 32" by code_simp+
    have minus1: "(0 :: i32) \<noteq> -1" by simp
    show "l = lib \<and> sz = 2 ^ 32 \<longrightarrow> False"
    proof
      assume "l = lib \<and> sz = 2 ^ 32"
      then have "wl lib b (off + scast (0 :: i32)) (2 ^ 32 - scast (0 :: i32)) g = Some y"
        using body lib minus1 by (simp only: u none if_True if_False prod.case)
      then have "wl lib b off (2 ^ 32) g = Some y" by (simp only: scast_0 add_0_right diff_zero)
      then show False using IH by blast
    qed
  qed
  then show ?thesis by (cases "write_loop lib buf off (2 ^ 32) f") blast+
qed

lemma hdfs_write_never_returns:
  assumes "length buf = 2 ^ 32" and "\<forall>f. hdfsWrite lib f [] 0 = (0, f)"
  shows "HDFSStream_Write lib buf f = None"
proof -
  have "(of_nat (2 ^ 32) :: u64) = 2 ^ 32" by simp
  then show ?thesis using write_loop_stuck [OF assms(2)] by (simp add: HDFSStream_Write_def assms(1))
qed

lemma min_of_nat_u64: "a < 2 ^ 64 \<Longrightarrow> b < 2 ^ 64 \<Longrightarrow> min (of_nat a :: u64) (of_nat b) = of_nat (min a b)"
  by (simp add: min_def word_le_nat_alt unat_u64)

lemma max_tSize_nat: "max_tSize = of_nat (2 ^ 31 - 1)"
  by (simp add: max_tSize_def)

lemma next_read:
  assumes "p + r < 2 ^ 64" and "0 < r"
  shows "(of_nat p :: u64) < of_nat (p + r)"
    and "(ucast (min (of_nat (p + r) - of_nat p :: u64) max_tSize) :: i32) = of_nat (min r (2 ^ 31 - 1))"
proof -
  show "(of_nat p :: u64) < of_nat (p + r)"
    using assms unat_u64 [of p] unat_u64 [of "p + r"] by (simp add: word_less_nat_alt del: of_nat_add)
  have "(of_nat (p + r) - of_nat p :: u64) = of_nat r" by simp
  then have "min (of_nat (p + r) - of_nat p :: u64) max_tSize = of_nat (min r (2 ^ 31 - 1))"
    unfolding max_tSize_nat using assms(1) by (simp only:) (rule min_of_nat_u64; simp)
  moreover have "min r (2 ^ 31 - 1) < (2 :: nat) ^ 31" by simp
  ultimately show "(ucast (min (of_nat (p + r) - of_nat p :: u64) max_tSize) :: i32) = of_nat (min r (2 ^ 31 - 1))"
    using ucast_small by simp
qed

lemma read_loop_all:
  assumes lib: "reads_some lib ahead patience"
  shows "length pre + length rest < 2 ^ 64 \<Longrightarrow>
    \<exists>f'. read_loop lib (pre @ rest) (of_nat (length pre)) (of_nat (length pre + length rest)) f =
        Some (Inr (pre @ take (length rest) (ahead f) @ drop (length (ahead f)) rest,
          of_nat (length pre + min (length rest) (length (ahead f))), f'))
      \<and> ahead f' = drop (length rest) (ahead f)"
proof (induction "length rest" arbitrary: pre rest f rule: less_induct)
  case outer: less
  from outer.prems show ?case
  proof (induction "patience f" arbitrary: f rule: less_induct)
    case less
    let ?n = "min (length rest) (2 ^ 31 - 1)"
    show ?case
    proof (cases "rest = []")
      case True
      then show ?thesis by (subst read_loop.simps) simp
    next
      case False
      then have n: "0 < ?n" "?n < 2 ^ 31" by simp_all
      have step: "read_loop lib (pre @ rest) (of_nat (length pre)) (of_nat (length pre + length rest)) f =
        (case hdfsRead lib f (of_nat ?n) of
           (Got bs, f') \<Rightarrow>
             if bs = [] then Some (Inr (pre @ rest, of_nat (length pre), f'))
             else (case buf_write (pre @ rest) (length pre) bs of
                 Inl e \<Rightarrow> Some (Inl e)
               | Inr buf' \<Rightarrow> read_loop lib buf' (of_nat (length pre) + of_nat (length bs)) (of_nat (length pre + length rest)) f')
         | (Interrupted, f') \<Rightarrow> read_loop lib (pre @ rest) (of_nat (length pre)) (of_nat (length pre + length rest)) f'
         | (Failed, f') \<Rightarrow> Some (Inl Fatal))"
      proof -
        have "0 < length rest" "length pre < 2 ^ 64" using False less.prems by simp_all
        note next_read [OF less.prems this(1)] unat_u64 [OF this(2)]
        then show ?thesis by (subst read_loop.simps) (simp only: if_True)
      qed
      from lib [unfolded reads_some_def, rule_format, of ?n f] n
      consider (again) f1 where "hdfsRead lib f (of_nat ?n) = (Interrupted, f1)" "ahead f1 = ahead f" "patience f1 < patience f"
        | (got) bs f1 where "hdfsRead lib f (of_nat ?n) = (Got bs, f1)" "length bs \<le> ?n" "bs = [] \<longleftrightarrow> ahead f = []" "ahead f = bs @ ahead f1"
        by blast
      then show ?thesis
      proof cases
        case again
        with less.hyps [of f1] less.prems step show ?thesis by simp
      next
        case got
        show ?thesis
        proof (cases "bs = []")
          case True
          with got step show ?thesis by (auto simp del: of_nat_add)
        next
          case bs: False
          have le: "length bs \<le> length rest" using got(2) by simp
          have "buf_write (pre @ rest) (length pre) bs = Inr ((pre @ bs) @ drop (length bs) rest)"
            using le by (simp add: buf_write_def)
          then have "read_loop lib (pre @ rest) (of_nat (length pre)) (of_nat (length pre + length rest)) f =
              read_loop lib ((pre @ bs) @ drop (length bs) rest) (of_nat (length (pre @ bs)))
                (of_nat (length (pre @ bs) + length (drop (length bs) rest))) f1"
            using step got(1) bs le by (simp add: add.assoc flip: of_nat_add)
          moreover have "length (drop (length bs) rest) < length rest" using bs False by simp
          ultimately show ?thesis
            using outer.hyps [of "drop (length bs) rest" "pre @ bs" f1] less.prems le got(4)
            by (auto simp: add.commute min_def)
        qed
      qed
    qed
  qed
qed

text \<open>C33. \<open>Read\<close> returns what is there: if calls of \<open>hdfsRead\<close> return between one byte and what they were
  asked for until the file ends, and are not interrupted for ever, the loop ends for a buffer of
  any size, 2 GB and more included; the buffer then starts with the next bytes of the file, as
  many as fit, the rest of it is untouched, and the result is their number.\<close>

theorem hdfs_read_all:
  assumes "reads_some lib ahead patience" and "length buf < 2 ^ 64"
  shows "\<exists>f'. HDFSStream_Read lib buf f = Some (Inr (take (length buf) (ahead f) @ drop (length (ahead f)) buf,
      of_nat (min (length buf) (length (ahead f))), f'))
    \<and> ahead f' = drop (length buf) (ahead f)"
  using read_loop_all [OF assms(1), of "[]" buf f] assms(2) by (simp add: HDFSStream_Read_def)

text \<open>The destructor never flushes: it tests \<open>mode_\<close>, which nothing assigns.\<close>

lemma hdfs_never_syncs: "fst (HDFSStream_destroy lib (HDFSStream_new lib fs uri md)) = [CloseFile]"
  by (simp add: HDFSStream_destroy_def HDFSStream_new_def Let_def split: option.split)

text \<open>A library on a file in memory that writes at most three bytes at a time, and reads at most two,
  every other call being interrupted: the state is the contents, the position and the number
  of interruptions ahead.\<close>

definition demo_lib :: "(unit, byte list \<times> nat \<times> nat) hdfs_lib" where
  "demo_lib = \<lparr>hdfsConnect = \<lambda>host. Some (), hdfsDisconnect = \<lambda>fs. True,
     hdfsOpenFile = \<lambda>fs p fl. Some ([], 0, 0),
     hdfsWrite = \<lambda>(c, p, k) bs n. (of_nat (min (length bs) 3), c @ take 3 bs, p, k),
     hdfsRead = \<lambda>(c, p, k) n. if k = 0 then
         (let bs = take (min 2 (unat n)) (drop p c) in (Got bs, (c, p + length bs, 1)))
       else (Interrupted, (c, p, k - 1)),
     hdfsSeek = \<lambda>(c, p, k) off. Some (c, unat off, k),
     hdfsHSync = \<lambda>f. True, hdfsCloseFile = \<lambda>f. f \<noteq> None\<rparr>"

lemma demo_writes: "writes_some demo_lib fst"
proof -
  have "\<exists>k f'. hdfsWrite demo_lib f bs (of_nat (length bs)) = (of_nat k, f') \<and> 0 < k \<and> k \<le> length bs
      \<and> fst f' = fst f @ take k bs" if "bs \<noteq> []" for f bs
    using that by (cases f) (auto intro!: exI [of _ "min (length bs) 3"] simp: demo_lib_def min_def)
  then show ?thesis by (simp add: writes_some_def)
qed

lemma hdfs_write_all_witness:
  "\<exists>f'. HDFSStream_Write demo_lib [1, 2, 3, 4, 5, 6, 7] ([0], 0, 0) = Some (Inr f') \<and> fst f' = [0, 1, 2, 3, 4, 5, 6, 7]"
  using hdfs_write_all [OF demo_writes, of "[1, 2, 3, 4, 5, 6, 7]" "([0], 0, 0)"] by simp

lemma demo_reads: "reads_some demo_lib (\<lambda>(c, p, k). drop p c) (\<lambda>(c, p, k). k)"
proof -
  have "unat (of_nat n :: i32) = n" if "n < 2 ^ 31" for n
    using that by (simp add: unsigned_of_nat take_bit_nat_eq_self)
  moreover have "drop p c = take m (drop p c) @ drop (p + length (take m (drop p c))) c" for p m and c :: "byte list"
    by (cases "m \<le> length (drop p c)") (simp_all add: add.commute flip: drop_drop)
  moreover have "length (take (min 2 n) xs) \<le> n" for n and xs :: "byte list" by simp
  ultimately show ?thesis
    by (auto simp: reads_some_def demo_lib_def Let_def simp del: length_take length_drop)
qed

lemma hdfs_read_all_witness:
  "\<exists>f'. HDFSStream_Read demo_lib [9, 9, 9, 9] ([0, 1, 2, 3, 4], 2, 1) = Some (Inr ([2, 3, 4, 9], 3, f'))"
  using hdfs_read_all [OF demo_reads, of "[9, 9, 9, 9]" "([0, 1, 2, 3, 4], 2, 1)"] by auto

end
