(* ===== verification/Dashboard.thy ===== *)
theory Dashboard
  imports Prelude
begin

text \<open>
  Timers, monitors and the dashboard: src/hpps/common/timer.h, timer.cc, dashboard.h and
  dashboard.cc. A monitor is a static variable of the function it watches and registers itself
  under its name; the dashboard maps names to monitors. Monitors are numbered by
  the order in which they are made, a time is a parameter of the calls that read the clock, and
  the arithmetic of \<open>double\<close> and the text of an \<open>InfoString\<close> are parameters too.
\<close>

section \<open>The code\<close>

record 'r clock_ops =
  plus_ms :: "'r \<Rightarrow> 'r \<Rightarrow> 'r"
  since :: "int \<Rightarrow> int \<Rightarrow> 'r"              \<comment> \<open>the milliseconds between two points in time\<close>
  zero_ms :: 'r
  div_ms :: "'r \<Rightarrow> int \<Rightarrow> 'r"

record timer =
  start_point :: int

definition Timer_Start :: "int \<Rightarrow> timer \<Rightarrow> timer" where
  "Timer_Start now t = t\<lparr>start_point := now\<rparr>"

definition Timer_new :: "int \<Rightarrow> timer" where
  "Timer_new now = Timer_Start now \<lparr>start_point = now\<rparr>"

definition Timer_Elapse :: "'r clock_ops \<Rightarrow> int \<Rightarrow> timer \<Rightarrow> 'r" where
  "Timer_Elapse c now t = since c (start_point t) now"

record 'r monitor =
  mon_name :: string
  elapse :: 'r
  count :: nat
  mon_timer :: timer

definition monitor_average :: "'r clock_ops \<Rightarrow> 'r monitor \<Rightarrow> 'r" where
  "monitor_average c m = div_ms c (elapse m) (int (count m))"

definition Monitor_Begin :: "int \<Rightarrow> 'r monitor \<Rightarrow> 'r monitor" where
  "Monitor_Begin now m = m\<lparr>mon_timer := Timer_Start now (mon_timer m)\<rparr>"

definition Monitor_End :: "'r clock_ops \<Rightarrow> int \<Rightarrow> 'r monitor \<Rightarrow> 'r monitor" where
  "Monitor_End c now m = m\<lparr>elapse := plus_ms c (elapse m) (Timer_Elapse c now (mon_timer m)), count := Suc (count m)\<rparr>"

record 'r dashboard =
  record_of :: "string \<rightharpoonup> nat option"   \<comment> \<open>\<open>Some None\<close> is a null pointer\<close>
  monitors :: "'r monitor list"

definition new_dashboard :: "'r dashboard" where
  "new_dashboard = \<lparr>record_of = Map.empty, monitors = []\<rparr>"

definition map_index :: "(string \<rightharpoonup> nat option) \<Rightarrow> string \<Rightarrow> nat option \<times> (string \<rightharpoonup> nat option)" where
  \<comment> \<open>\<open>record_[name]\<close> inserts a null pointer where there is nothing\<close>
  "map_index r name = (case r name of None \<Rightarrow> (None, r(name \<mapsto> None)) | Some p \<Rightarrow> (p, r))"

definition AddMonitor :: "string \<Rightarrow> nat \<Rightarrow> 'r dashboard \<Rightarrow> 'r dashboard res" where
  "AddMonitor name p d = (case map_index (record_of d) name of (old, r) \<Rightarrow>
     bind_res (check (old = None)) (\<lambda>_. Inr (d\<lparr>record_of := r(name \<mapsto> Some p)\<rparr>)))"

definition RemoveMonitor :: "string \<Rightarrow> 'r dashboard \<Rightarrow> 'r dashboard res" where
  "RemoveMonitor name d = (case map_index (record_of d) name of (old, r) \<Rightarrow>
     if old = None then Inl NotNull else Inr (d\<lparr>record_of := r(name := None)\<rparr>))"

definition Monitor_new :: "'r clock_ops \<Rightarrow> string \<Rightarrow> int \<Rightarrow> 'r dashboard \<Rightarrow> (nat \<times> 'r dashboard) res" where
  \<comment> \<open>a static variable, so \<open>elapse_\<close> and \<open>count_\<close>, which the constructor leaves out, are zero\<close>
  "Monitor_new c name now d =
     (let p = length (monitors d);
          d1 = d\<lparr>monitors := monitors d @ [\<lparr>mon_name = name, elapse = zero_ms c, count = 0, mon_timer = Timer_new now\<rparr>]\<rparr> in
      bind_res (AddMonitor name p d1) (\<lambda>d2. Inr (p, d2)))"

definition Watch :: "('r monitor \<Rightarrow> string) \<Rightarrow> string \<Rightarrow> 'r dashboard \<Rightarrow> string res" where
  "Watch info name d = (case record_of d name of
       None \<Rightarrow> Inr []
     | Some None \<Rightarrow> Inl NotNull
     | Some (Some p) \<Rightarrow> Inr (info (monitors d ! p)))"

definition InfoString :: "('r \<Rightarrow> string) \<Rightarrow> (nat \<Rightarrow> string) \<Rightarrow> 'r clock_ops \<Rightarrow> 'r monitor \<Rightarrow> string" where
  \<comment> \<open>\<open>show\<close> and \<open>dec\<close>: how a stream prints a \<open>double\<close> and an \<open>int\<close>\<close>
  "InfoString show dec c m = ''['' @ mon_name m @ ''] '' @ '' count = '' @ dec (count m)
     @ '' elapse = '' @ show (elapse m) @ ''ms'' @ '' average = '' @ show (monitor_average c m) @ ''ms''"

definition monitored :: "'r clock_ops \<Rightarrow> nat \<Rightarrow> int \<times> int \<Rightarrow> 'r dashboard \<Rightarrow> 'r dashboard" where
  \<comment> \<open>\<open>MONITOR_BEGIN\<close> and \<open>MONITOR_END\<close> around a piece of code, with the times they read\<close>
  "monitored c p = (\<lambda>(t0, t1) d. d\<lparr>monitors := (monitors d)[p := Monitor_End c t1 (Monitor_Begin t0 (monitors d ! p))]\<rparr>)"

section \<open>Properties\<close>

definition dashboard_inv :: "'r dashboard \<Rightarrow> bool" where
  \<comment> \<open>every entry is a monitor of that name\<close>
  "dashboard_inv d \<longleftrightarrow> (\<forall>name p. record_of d name = Some p \<longrightarrow>
     (\<exists>k < length (monitors d). p = Some k \<and> mon_name (monitors d ! k) = name))"

lemma dashboard_inv_new: "dashboard_inv new_dashboard"
  by (simp add: dashboard_inv_def new_dashboard_def)

lemma Monitor_new_ok:
  assumes "dashboard_inv d" and "record_of d name = None"
  shows "\<exists>d'. Monitor_new c name now d = Inr (length (monitors d), d') \<and> dashboard_inv d'
    \<and> record_of d' name = Some (Some (length (monitors d)))
    \<and> monitors d' = monitors d @ [\<lparr>mon_name = name, elapse = zero_ms c, count = 0, mon_timer = Timer_new now\<rparr>]"
  using assms by (fastforce simp: Monitor_new_def AddMonitor_def map_index_def dashboard_inv_def Let_def nth_append)

text \<open>A second monitor of the same name ends the process.\<close>

lemma Monitor_twice:
  assumes "dashboard_inv d" and "record_of d name \<noteq> None"
  shows "Monitor_new c name now d = Inl Check"
proof -
  obtain k where "record_of d name = Some (Some k)" using assms by (auto simp: dashboard_inv_def)
  then show ?thesis by (simp add: Monitor_new_def AddMonitor_def map_index_def Let_def)
qed

lemma monitored_inv: "dashboard_inv d \<Longrightarrow> dashboard_inv (monitored c p ts d)"
proof -
  obtain t0 t1 where ts: "ts = (t0, t1)" by (cases ts)
  have "mon_name (monitors (monitored c p ts d) ! k) = mon_name (monitors d ! k)" if "k < length (monitors d)" for k
    using that by (cases "k = p") (simp_all add: ts monitored_def Monitor_End_def Monitor_Begin_def)
  moreover have "length (monitors (monitored c p ts d)) = length (monitors d)"
    "record_of (monitored c p ts d) = record_of d" by (simp_all add: ts monitored_def)
  ultimately show "dashboard_inv d \<Longrightarrow> dashboard_inv (monitored c p ts d)"
    unfolding dashboard_inv_def by metis
qed

lemma monitored_runs:
  assumes "p < length (monitors d)"
  shows "monitors (fold (monitored c p) ts d) ! p =
      (let m = monitors d ! p in
       m\<lparr>elapse := foldl (\<lambda>e (t0, t1). plus_ms c e (since c t0 t1)) (elapse m) ts, count := count m + length ts,
         mon_timer := (if ts = [] then mon_timer m else \<lparr>start_point = fst (last ts)\<rparr>)\<rparr>)
    \<and> record_of (fold (monitored c p) ts d) = record_of d"
  using assms
proof (induction ts arbitrary: d)
  case Nil
  then show ?case by (simp add: Let_def)
next
  case (Cons t ts)
  have "p < length (monitors (monitored c p t d))" using Cons.prems by (cases t) (simp add: monitored_def)
  from Cons.IH [OF this] Cons.prems show ?case
    by (cases t) (simp add: monitored_def Let_def Monitor_End_def Monitor_Begin_def Timer_Elapse_def Timer_Start_def)
qed

text \<open>\<open>Watch\<close> shows a monitor's runs: after its code has run at the times \<open>ts\<close>, the count is their
  number and the time is the sum of their lengths, summed up in the order in which they ran.\<close>

theorem watch_shows_runs:
  assumes "dashboard_inv d" and "record_of d name = None"
  shows "\<exists>p d'. Monitor_new c name now d = Inr (p, d')
    \<and> Watch (\<lambda>m. show (count m) (elapse m)) name (fold (monitored c p) ts d') =
        Inr (show (length ts) (foldl (\<lambda>e (t0, t1). plus_ms c e (since c t0 t1)) (zero_ms c) ts))"
proof -
  obtain d' where d': "Monitor_new c name now d = Inr (length (monitors d), d')"
      "record_of d' name = Some (Some (length (monitors d)))"
      "monitors d' = monitors d @ [\<lparr>mon_name = name, elapse = zero_ms c, count = 0, mon_timer = Timer_new now\<rparr>]"
    using Monitor_new_ok [OF assms] by blast
  have "length (monitors d) < length (monitors d')" using d'(3) by simp
  from monitored_runs [OF this, of c ts] show ?thesis
    using d' by (simp add: Watch_def Let_def)
qed

text \<open>Removing a name that is not there ends the process; watching one gives the empty string.\<close>

lemma missing_monitor:
  "record_of d name = None \<Longrightarrow> RemoveMonitor name d = Inl NotNull \<and> Watch info name d = Inr []"
  by (simp add: RemoveMonitor_def map_index_def Watch_def)

end
