(* ===== verification/Spec2Isabelle.thy ===== *)
theory Spec2Isabelle
  imports SyncArray Registry EndToEnd Combine ZmqNet BatchRows Blobs Hash Flags Logging Lifecycle Hdfs Dashboard
begin

text \<open>
  A model of HPPS, the parameter server under src/hpps, with the theorems that make it correct.

  The program. A job is a set of processes. One of them, rank 0, runs the controller; every process
  has a communicator, and by its role a worker, a server or both. A worker table belongs to
  the user's threads: a Get or Add becomes a message for the worker actor, which cuts it into one
  message for each server; the communicator carries messages between the actors of a process
  and over the network (ZeroMQ or MPI); the server actor hands a request to the scheduler of its
  table, which processes it at once or, in the synchronous mode, holds it back; the reply goes the
  same way back and notifies the waiter of the request. Beside the parameter server stand the
  collective operations (all-gather, reduce-scatter, all-reduce) on the same network wrappers, the
  feeder, which reads record files and makes batches, and a C interface for the Python binding.

  How code is modelled. A class is a record, a member function a definition that takes the record
  and returns the new one, an \<open>int\<close> or \<open>size_t\<close> that can wrap a word. A call that can end the process
  (\<open>CHECK\<close>, \<open>LOG_FATAL\<close>) or is undefined in C++ (an index out of range, a null pointer, a signed
  overflow) is a value \<open>Inl e\<close> of the result type of theory Prelude, so that no theorem about
  \<open>Inr\<close> hides it. Messages, tables on disk and blobs are the bytes the code reads and writes.
  Virtual functions are records of functions, with a locale for what a caller relies on and an
  interpretation for every class that provides it. A function object, floating point,
  the C++ random engine, the operating system and the libraries MPI, ZeroMQ and libhdfs are parameters.

  The theories, from the bottom up, with the files under src/hpps they model.

  \<^item> Prelude, Bytes, Msg, ZooInfo: errors, checked vectors, loops; blobs and byte encodings
    (common/blob.h); nodes and messages (frame/node.h, common/message.h); what a process knows of
    the system (frame/zoo.h). The locale \<open>codec\<close> of Bytes is the contract of an encoding.
  \<^item> SafeQueue, Clock, FileIO, Hdfs: the mailbox (common/queue.h), the vector clock of
    the synchronous scheduler, URIs and file streams (common/io/io.h, local_stream.cc), HDFS streams
    (common/io/hdfs_stream.cc). The lemmas: a queue is first in first out under any interleaving, the
    clock's global value is the minimum, a stream reads back what was written, the loops of an HDFS
    stream end and move all the bytes.
  \<^item> Memory, Blobs: both allocators and the reference-counted \<open>Blob\<close> (common/allocator.cc, blob.cc).
    The locale \<open>alloc_contract\<close> is what \<open>Blob\<close> needs; programs of blobs keep the bytes of every blob
    and give all memory back. Everywhere else a blob is its bytes, which is what this shows.
  \<^item> Hash, Flags, Logging, Dashboard: MurmurHash64B (common/hash.h), the command line
    (common/configure.cc), the log and its macros (common/log.cc), monitors and timers
    (common/dashboard.cc, timer.cc).
  \<^item> Sched, SyncRounds, SyncArray: both schedulers (frame/scheduler) and what the synchronous one
    promises to workers that alternate Get and Add and wait for the answer of every Get: in every
    reachable state of such a training run no request fails, the i-th Get of every worker sees the
    same parameters, the caches drain, and some worker can go on. Without the waiting the promise is
    false (\<open>pipelined_requests_break_rounds\<close>). The
    proof is an invariant over a step relation of requests, for any table that keeps the contract of
    a table; SyncArray is its instance for the array table.
  \<^item> Updater, RandomGen, Tensors, ArrayTable, KVStore, KVTable: the update rules (updater), the initialiser
    (common/random.cc), tensors (common/tensor.h), and both tables with their two halves (table,
    kvstore). The array table's pieces are the server's sizes, reassemble and partition; the hash
    table refines a map up to its limit of 32 probes.
  \<^item> Actors, ActorThreads, Registry, Requests, EndToEnd, Lifecycle: routing and dispatch
    (frame/actor.cc, communicator.cc, server.cc); the threads of an actor from \<open>Start\<close> to \<open>Stop\<close> as a step
    relation; controller, registration and barrier (frame/controller.cc, zoo.cc); worker tables,
    waiters and the worker actor (frame/table_interface.cc, worker.cc, common/waiter.h); a Get from
    end to end; and starting and stopping a process. ActorThreads shows that \<open>Stop\<close> returns after
    everything received has been handled, Registry that registration and barrier agree in every
    order of arrival, Lifecycle that every rank of a system starts with the actors of its role and
    that the two thread modes of the communicator do the same.
  \<^item> Net, ZmqNet, Collective: MPI messages (net/mpi_net.h), ZeroMQ messages and set-up (net/zmq_net.h,
    net_util.cc), and the blocking primitives as processes that exchange messages in order on every
    pair of ranks. A send over MPI has two steps, \<open>MPI_Isend\<close> and \<open>MPI_Wait\<close>; the second can be taken
    when the message has been received, or at once if the library completes sends of that length
    early, which is a parameter of the step relation.
  \<^item> Topology, Allreduce, Gather, Reduce, Scatter, Combine: the maps of the collective operations
    (net/allreduce_topo.cc), the engine (net/allreduce_engine.cc) and its runs: under every schedule,
    and whenever MPI completes the sends, all machines end, with the blocks of all machines, or
    with a combination that contains every machine's element once. No run depends on a send that
    completes before it is received, except where a block is empty (\<open>empty_exchange_blocks\<close>);
    \<open>blocking_order_deadlocks\<close> shows that sending before receiving would.
  \<^item> RecordIO, Batches, Feeder, BatchRows: record files, batches, plans and the feeder
    (feeder): a file reads back as written and a batch is the next rows of every column.
  \<^item> CApi: the C interface (api) and the factory of tables (frame/table_factory.h).

  Interleaving. Where threads meet, an execution is a sequence of steps: operations of a
  queue (SafeQueue), requests at a server (SyncRounds), steps of the threads of an actor
  (ActorThreads), send and receive events of machines (Collective). Handlers are atomic; for the
  worker, whose actor has two threads, that is an assumption on code without locks, and the
  order in which they finish is free (the lemma \<open>worker_reorders\<close>).

  Bounds and fuel. Loops with a natural measure are total functions. \<open>read_rows\<close> of Feeder takes fuel, and
  as much as the batch size is enough, as every turn takes a row. Loops that may run for ever in the source
  are partial functions with the value \<open>None\<close> for a run that does not return (growing the table of the
  key-value store, the loops of HDFS streams, walking a free list), and the theorems show when they
  return. Sizes are bounded only where the source needs it: fewer than \<open>2 ^ 31\<close> processes, MPI
  messages below \<open>2 ^ 31\<close> bytes, collective data whose byte counts fit an \<open>int\<close>, tables and updates of
  fewer than \<open>2 ^ 31\<close> elements where a loop counts them with an \<open>int\<close> (\<open>int_body\<close> of Prelude is such a
  loop, and its overflow an error), requests to a key-value table of fewer than \<open>2 ^ 31\<close> keys and
  \<open>2 ^ 32\<close> floats, whose offsets are computed modulo \<open>2 ^ 32\<close> (\<open>row_off\<close>). Runs of several
  machines are relations; that they end is shown by the number of steps every schedule has.

  Not modelled. MPI, ZeroMQ and libhdfs themselves, and calls of them that report an error where the
  source only checks the result; \<open>MPI_Allreduce\<close>, which is only wrapped; the overflow of \<open>1 << k\<close> in the
  topologies of \<open>2 ^ 30\<close> machines and more; the Windows branches;
  the thread pool of the feeder and the thread-local store, which only own threads and objects;
  functions that only print (\<open>PrintDebug\<close>, \<open>toString\<close>, \<open>Display\<close>); key-value tables with 32-bit keys, which
  are a second instance of the same templates; weak memory: \<open>is_working_\<close> is a plain \<open>bool\<close> that
  threads share, and is read here as if it were atomic. The Python binding and the applications
  are clients of the C interface in other languages.
\<close>

end
